(* ===== verification/Prelude.thy ===== *)
theory Prelude
  imports Main "HOL-Library.Word" "HOL-Library.Monad_Syntax"
begin

text \<open>
  Shared vocabulary of the development: the machine integer types of the C++ code, the crash
  monad (\<open>option\<close>: \<open>None\<close> is a trap, that is a failed \<^verbatim>\<open>RELEASE_ASSERT\<close>, an out-of-range
  \<^verbatim>\<open>Vector\<close> index or an out-of-bounds read), \<^verbatim>\<open>WTF::Vector\<close> indexing with its bounds check,
  \<^verbatim>\<open>WTF::HashSet\<close> and \<^verbatim>\<open>WTF::HashMap\<close> as duplicate-free lists and association lists in
  insertion order, and the little-endian layout that \<^verbatim>\<open>reinterpret_cast\<close> gives to integers
  stored in a byte vector.
\<close>

unbundle bit_operations_syntax

named_theorems vec_simps \<open>bounds-checked vector access\<close>
named_theorems hs_simps \<open>hash sets and hash maps as lists\<close>
named_theorems byte_simps \<open>layout of integers in byte vectors\<close>

type_synonym u8 = "8 word"
type_synonym u16 = "16 word"
type_synonym u32 = "32 word"
type_synonym u64 = "64 word"

section \<open>Vectors\<close>

text \<open>\<^verbatim>\<open>Vector::at\<close> crashes on an index out of range (\<^verbatim>\<open>CrashOnOverflow\<close>).\<close>

definition vec_at :: "'a list \<Rightarrow> nat \<Rightarrow> 'a option" where
  "vec_at xs i = (if i < length xs then Some (xs ! i) else None)"

definition vec_set :: "'a list \<Rightarrow> nat \<Rightarrow> 'a \<Rightarrow> 'a list option" where
  "vec_set xs i v = (if i < length xs then Some (xs[i := v]) else None)"

lemma vec_at_Some [vec_simps]: "i < length xs \<Longrightarrow> vec_at xs i = Some (xs ! i)"
  by (simp add: vec_at_def)

lemma vec_at_None [vec_simps]: "length xs \<le> i \<Longrightarrow> vec_at xs i = None"
  by (simp add: vec_at_def)

lemma vec_at_eq_Some_iff: "vec_at xs i = Some v \<longleftrightarrow> i < length xs \<and> v = xs ! i"
  by (auto simp: vec_at_def)

lemma vec_set_Some [vec_simps]: "i < length xs \<Longrightarrow> vec_set xs i v = Some (xs[i := v])"
  by (simp add: vec_set_def)

lemma vec_set_eq_Some_iff: "vec_set xs i v = Some ys \<longleftrightarrow> i < length xs \<and> ys = xs[i := v]"
  by (auto simp: vec_set_def)

text \<open>A loop over a vector whose body may trap.\<close>

fun foldM :: "('a \<Rightarrow> 's \<Rightarrow> 's option) \<Rightarrow> 'a list \<Rightarrow> 's \<Rightarrow> 's option" where
  "foldM f [] s = Some s"
| "foldM f (x # xs) s = Option.bind (f x s) (foldM f xs)"

fun mapM :: "('a \<Rightarrow> 'b option) \<Rightarrow> 'a list \<Rightarrow> 'b list option" where
  "mapM f [] = Some []"
| "mapM f (x # xs) = do { y \<leftarrow> f x; ys \<leftarrow> mapM f xs; Some (y # ys) }"

lemma foldM_append: "foldM f (xs @ ys) s = Option.bind (foldM f xs s) (foldM f ys)"
  by (induction xs arbitrary: s) (auto split: Option.bind_splits)

lemma foldM_cong [fundef_cong]:
  assumes "xs = ys" "s = t" and "\<And>x u. x \<in> set ys \<Longrightarrow> f x u = g x u"
  shows "foldM f xs s = foldM g ys t"
proof -
  have "foldM f ys t = foldM g ys t"
    using assms(3) by (induction ys arbitrary: t) (auto split: Option.bind_splits)
  with assms(1,2) show ?thesis by simp
qed

text \<open>The Hoare rule of such a loop: an invariant of the processed prefix.\<close>

lemma foldM_invariant:
  assumes "I 0 s"
    and "\<And>k t. k < length xs \<Longrightarrow> I k t \<Longrightarrow> \<exists>t'. f (xs ! k) t = Some t' \<and> I (Suc k) t'"
  shows "\<exists>t. foldM f xs s = Some t \<and> I (length xs) t"
proof -
  have "\<exists>t. foldM f (drop k xs) u = Some t \<and> I (length xs) t"
    if "k \<le> length xs" "I k u" for k u
    using that
  proof (induction "length xs - k" arbitrary: k u)
    case 0
    then show ?case by simp
  next
    case (Suc n)
    then have lt: "k < length xs" by simp
    with Suc.prems assms(2) obtain t' where t': "f (xs ! k) u = Some t'" "I (Suc k) t'" by blast
    from Suc.hyps lt t'(2) have "\<exists>t. foldM f (drop (Suc k) xs) t' = Some t \<and> I (length xs) t"
      by (metis Suc_leI diff_Suc_Suc Suc_diff_Suc Suc_inject)
    then show ?case using lt t'(1) by (simp add: Cons_nth_drop_Suc [symmetric])
  qed
  from this [of 0 s] assms(1) show ?thesis by simp
qed

text \<open>A partial-correctness version: the loop is known to have returned.\<close>

lemma foldM_preserves:
  assumes "foldM f xs s = Some t" "I s"
    and "\<And>x u u'. x \<in> set xs \<Longrightarrow> I u \<Longrightarrow> f x u = Some u' \<Longrightarrow> I u'"
  shows "I t"
  using assms
proof (induction xs arbitrary: s)
  case Nil
  then show ?case by simp
next
  case (Cons x xs)
  from Cons.prems(1) obtain u where u: "f x s = Some u" "foldM f xs u = Some t"
    by (auto split: Option.bind_splits)
  from Cons.prems(2,3) u(1) have "I u" by (meson list.set_intros(1))
  with Cons.IH [OF u(2)] Cons.prems(3) show ?case by (meson list.set_intros(2))
qed

section \<open>Hash sets\<close>

text \<open>
  The interface that \<^verbatim>\<open>HashSet\<close> offers to its clients: an insertion adds exactly the new
  element and an iteration visits each element once. Clients rely on nothing else; in
  particular not on the order of the iteration.
\<close>

locale hash_set =
  fixes empty :: 's
    and add :: "'a \<Rightarrow> 's \<Rightarrow> 's"
    and contains :: "'s \<Rightarrow> 'a \<Rightarrow> bool"
    and elems :: "'s \<Rightarrow> 'a list"
    and invar :: "'s \<Rightarrow> bool"
  assumes elems_empty: "elems empty = []"
    and invar_empty: "invar empty"
    and invar_add: "invar s \<Longrightarrow> invar (add x s)"
    and elems_add: "invar s \<Longrightarrow> set (elems (add x s)) = insert x (set (elems s))"
    and contains_elems: "invar s \<Longrightarrow> contains s x \<longleftrightarrow> x \<in> set (elems s)"
    and elems_distinct: "invar s \<Longrightarrow> distinct (elems s)"
begin

lemma fold_add_invar: "invar s \<Longrightarrow> invar (fold add xs s)"
  by (induction xs arbitrary: s) (auto simp: invar_add)

lemma fold_add_elems: "invar s \<Longrightarrow> set (elems (fold add xs s)) = set xs \<union> set (elems s)"
  by (induction xs arbitrary: s) (auto simp: elems_add invar_add)

lemma fold_add_length:
  assumes "invar s" "distinct xs" "set xs \<inter> set (elems s) = {}"
  shows "length (elems (fold add xs s)) = length xs + length (elems s)"
proof -
  have "length (elems (fold add xs s)) = card (set (elems (fold add xs s)))"
    using assms(1) by (simp add: distinct_card elems_distinct fold_add_invar)
  also have "\<dots> = card (set xs \<union> set (elems s))"
    using assms(1) by (simp add: fold_add_elems)
  also have "\<dots> = length xs + length (elems s)"
    using assms by (simp add: card_Un_disjoint distinct_card elems_distinct)
  finally show ?thesis .
qed

lemma add_present: "invar s \<Longrightarrow> contains s x \<Longrightarrow> set (elems (add x s)) = set (elems s)"
  by (auto simp: elems_add contains_elems)

end

definition hs_add :: "'a \<Rightarrow> 'a list \<Rightarrow> 'a list" where
  "hs_add x s = (if x \<in> set s then s else s @ [x])"

definition hs_addAll :: "'a list \<Rightarrow> 'a list \<Rightarrow> 'a list" where
  "hs_addAll xs s = fold hs_add xs s"

interpretation hs: hash_set "[]" hs_add "\<lambda>s x. x \<in> set s" "\<lambda>s. s" distinct
  by unfold_locales (auto simp: hs_add_def)

lemma set_hs_add [hs_simps]: "set (hs_add x s) = insert x (set s)"
  by (auto simp: hs_add_def)

lemma distinct_hs_add [hs_simps]: "distinct s \<Longrightarrow> distinct (hs_add x s)"
  by (rule hs.invar_add)

lemma set_hs_addAll [hs_simps]: "set (hs_addAll xs s) = set xs \<union> set s"
  by (induction xs arbitrary: s) (auto simp: hs_addAll_def set_hs_add)

lemma distinct_hs_addAll [hs_simps]: "distinct s \<Longrightarrow> distinct (hs_addAll xs s)"
  by (simp add: hs_addAll_def hs.fold_add_invar)

lemma hs_addAll_Nil [simp]: "hs_addAll [] s = s"
  by (simp add: hs_addAll_def)

section \<open>Hash maps\<close>

text \<open>
  \<^verbatim>\<open>HashMap::find\<close> is \<open>map_of\<close>; \<open>hm_upd\<close> replaces the value of a key in place or appends a
  new entry (\<^verbatim>\<open>set\<close>, or \<^verbatim>\<open>add\<close> followed by an assignment through the iterator), and
  \<open>hm_remove\<close> is \<^verbatim>\<open>remove\<close>.
\<close>

fun hm_upd :: "'k \<Rightarrow> 'v \<Rightarrow> ('k \<times> 'v) list \<Rightarrow> ('k \<times> 'v) list" where
  "hm_upd k v [] = [(k, v)]"
| "hm_upd k v ((k', v') # m) = (if k = k' then (k, v) # m else (k', v') # hm_upd k v m)"

definition hm_remove :: "'k \<Rightarrow> ('k \<times> 'v) list \<Rightarrow> ('k \<times> 'v) list" where
  "hm_remove k m = filter (\<lambda>(k', v). k' \<noteq> k) m"

lemma map_of_hm_upd [hs_simps]: "map_of (hm_upd k v m) = (map_of m)(k \<mapsto> v)"
  by (induction m) auto

lemma keys_hm_upd [hs_simps]: "fst ` set (hm_upd k v m) = insert k (fst ` set m)"
  by (induction k v m rule: hm_upd.induct) (simp_all add: insert_commute)

lemma distinct_hm_upd [hs_simps]:
  "distinct (map fst m) \<Longrightarrow> distinct (map fst (hm_upd k v m))"
  by (induction k v m rule: hm_upd.induct) (simp_all add: keys_hm_upd)

lemma map_of_hm_remove [hs_simps]: "map_of (hm_remove k m) = (map_of m)(k := None)"
  by (induction m) (auto simp: hm_remove_def)

lemma keys_hm_remove [hs_simps]: "fst ` set (hm_remove k m) = fst ` set m - {k}"
  by (auto simp: hm_remove_def)

lemma distinct_hm_remove [hs_simps]:
  "distinct (map fst m) \<Longrightarrow> distinct (map fst (hm_remove k m))"
  by (induction m) (auto simp: hm_remove_def)

section \<open>Integers in byte vectors\<close>

text \<open>The bytes of an integer in memory, least significant first.\<close>

definition bytes16 :: "u16 \<Rightarrow> u8 list" where
  "bytes16 w = [ucast w, ucast (drop_bit 8 w)]"

definition bytes32 :: "u32 \<Rightarrow> u8 list" where
  "bytes32 w = [ucast w, ucast (drop_bit 8 w), ucast (drop_bit 16 w), ucast (drop_bit 24 w)]"

definition read8 :: "u8 list \<Rightarrow> nat \<Rightarrow> u8 option" where
  "read8 bs i = (if i < length bs then Some (bs ! i) else None)"

definition read16 :: "u8 list \<Rightarrow> nat \<Rightarrow> u16 option" where
  "read16 bs i = (if i + 2 \<le> length bs
     then Some (ucast (bs ! i) OR push_bit 8 (ucast (bs ! (i + 1)))) else None)"

definition read32 :: "u8 list \<Rightarrow> nat \<Rightarrow> u32 option" where
  "read32 bs i = (if i + 4 \<le> length bs
     then Some (ucast (bs ! i) OR push_bit 8 (ucast (bs ! (i + 1)))
       OR push_bit 16 (ucast (bs ! (i + 2))) OR push_bit 24 (ucast (bs ! (i + 3))))
     else None)"

lemma length_bytes16 [simp]: "length (bytes16 w) = 2"
  by (simp add: bytes16_def)

lemma length_bytes32 [simp]: "length (bytes32 w) = 4"
  by (simp add: bytes32_def)

text \<open>\<open>bytes_at bs i xs\<close>: the byte vector holds \<open>xs\<close> from index \<open>i\<close> on.\<close>

definition bytes_at :: "'a list \<Rightarrow> nat \<Rightarrow> 'a list \<Rightarrow> bool" where
  "bytes_at bs i xs \<longleftrightarrow> i + length xs \<le> length bs \<and> (\<forall>k < length xs. bs ! (i + k) = xs ! k)"

lemma bytes_at_Nil [simp]: "bytes_at bs i [] \<longleftrightarrow> i \<le> length bs"
  by (simp add: bytes_at_def)

lemma bytes_at_Cons [byte_simps]:
  "bytes_at bs i (x # xs) \<longleftrightarrow> i < length bs \<and> bs ! i = x \<and> bytes_at bs (Suc i) xs"
proof
  assume h: "bytes_at bs i (x # xs)"
  then have "bs ! (i + 0) = (x # xs) ! 0" unfolding bytes_at_def by (metis length_greater_0_conv list.simps(3))
  moreover have "bs ! (Suc i + k) = xs ! k" if "k < length xs" for k
    using h that unfolding bytes_at_def by (metis Suc_less_eq add_Suc_right add_Suc length_Cons nth_Cons_Suc)
  ultimately show "i < length bs \<and> bs ! i = x \<and> bytes_at bs (Suc i) xs"
    using h by (auto simp: bytes_at_def)
next
  assume h: "i < length bs \<and> bs ! i = x \<and> bytes_at bs (Suc i) xs"
  then show "bytes_at bs i (x # xs)"
    by (auto simp: bytes_at_def nth_Cons split: nat.splits)
qed

lemma bytes_at_append [byte_simps]:
  "bytes_at bs i (xs @ ys) \<longleftrightarrow> bytes_at bs i xs \<and> bytes_at bs (i + length xs) ys"
proof (induction xs arbitrary: i)
  case Nil
  then show ?case by (auto simp: bytes_at_def)
next
  case (Cons x xs)
  then show ?case by (simp add: bytes_at_Cons)
qed

lemma bytes_at_appendI: "bytes_at (as @ xs @ bs) (length as) xs"
  by (simp add: bytes_at_def nth_append)

lemma ucast16_split: "(ucast (ucast w :: u8) :: u16) OR push_bit 8 (ucast (ucast (drop_bit 8 w) :: u8)) = w"
  for w :: u16
  by (rule bit_word_eqI) (auto simp: bit_simps)

lemma ucast32_split:
  "(ucast (ucast w :: u8) :: u32) OR push_bit 8 (ucast (ucast (drop_bit 8 w) :: u8))
     OR push_bit 16 (ucast (ucast (drop_bit 16 w) :: u8))
     OR push_bit 24 (ucast (ucast (drop_bit 24 w) :: u8)) = w" for w :: u32
proof (rule bit_word_eqI)
  fix n assume "n < LENGTH(32)"
  then consider "n < 8" | "8 \<le> n" "n < 16" | "16 \<le> n" "n < 24" | "24 \<le> n" "n < 32"
    by fastforce
  then show "bit ((ucast (ucast w :: u8) :: u32) OR push_bit 8 (ucast (ucast (drop_bit 8 w) :: u8))
     OR push_bit 16 (ucast (ucast (drop_bit 16 w) :: u8))
     OR push_bit 24 (ucast (ucast (drop_bit 24 w) :: u8))) n = bit w n"
    by cases (auto simp: bit_simps)
qed

lemma read16_bytes16 [byte_simps]: "bytes_at bs i (bytes16 w) \<Longrightarrow> read16 bs i = Some w"
  by (simp add: read16_def bytes16_def bytes_at_Cons ucast16_split)

lemma read32_bytes32 [byte_simps]: "bytes_at bs i (bytes32 w) \<Longrightarrow> read32 bs i = Some w"
  by (simp add: read32_def bytes32_def bytes_at_Cons ucast32_split numeral_2_eq_2 numeral_3_eq_3)

lemma read8_bytes [byte_simps]: "bytes_at bs i [b] \<Longrightarrow> read8 bs i = Some b"
  by (simp add: read8_def bytes_at_Cons)

end
