(* ===== verification/ASCIICType.thy ===== *)
theory ASCIICType
  imports Prelude
begin

text \<open>
  \<^verbatim>\<open>Source/WTF/wtf/ASCIICType.h\<close>: the locale-independent character predicates and case
  conversions. The templates are modelled over words of any width; the specialisation of
  \<^verbatim>\<open>toASCIILower\<close> for \<^verbatim>\<open>char\<close> and \<^verbatim>\<open>LChar\<close> reads a 256 entry table.
\<close>

named_theorems ascii_defs \<open>the character predicates unfolded\<close>

definition asciiCaseFoldTable :: "u8 list" where
  "asciiCaseFoldTable = [
    0x00, 0x01, 0x02, 0x03, 0x04, 0x05, 0x06, 0x07, 0x08, 0x09, 0x0a, 0x0b, 0x0c, 0x0d, 0x0e, 0x0f,
    0x10, 0x11, 0x12, 0x13, 0x14, 0x15, 0x16, 0x17, 0x18, 0x19, 0x1a, 0x1b, 0x1c, 0x1d, 0x1e, 0x1f,
    0x20, 0x21, 0x22, 0x23, 0x24, 0x25, 0x26, 0x27, 0x28, 0x29, 0x2a, 0x2b, 0x2c, 0x2d, 0x2e, 0x2f,
    0x30, 0x31, 0x32, 0x33, 0x34, 0x35, 0x36, 0x37, 0x38, 0x39, 0x3a, 0x3b, 0x3c, 0x3d, 0x3e, 0x3f,
    0x40, 0x61, 0x62, 0x63, 0x64, 0x65, 0x66, 0x67, 0x68, 0x69, 0x6a, 0x6b, 0x6c, 0x6d, 0x6e, 0x6f,
    0x70, 0x71, 0x72, 0x73, 0x74, 0x75, 0x76, 0x77, 0x78, 0x79, 0x7a, 0x5b, 0x5c, 0x5d, 0x5e, 0x5f,
    0x60, 0x61, 0x62, 0x63, 0x64, 0x65, 0x66, 0x67, 0x68, 0x69, 0x6a, 0x6b, 0x6c, 0x6d, 0x6e, 0x6f,
    0x70, 0x71, 0x72, 0x73, 0x74, 0x75, 0x76, 0x77, 0x78, 0x79, 0x7a, 0x7b, 0x7c, 0x7d, 0x7e, 0x7f,
    0x80, 0x81, 0x82, 0x83, 0x84, 0x85, 0x86, 0x87, 0x88, 0x89, 0x8a, 0x8b, 0x8c, 0x8d, 0x8e, 0x8f,
    0x90, 0x91, 0x92, 0x93, 0x94, 0x95, 0x96, 0x97, 0x98, 0x99, 0x9a, 0x9b, 0x9c, 0x9d, 0x9e, 0x9f,
    0xa0, 0xa1, 0xa2, 0xa3, 0xa4, 0xa5, 0xa6, 0xa7, 0xa8, 0xa9, 0xaa, 0xab, 0xac, 0xad, 0xae, 0xaf,
    0xb0, 0xb1, 0xb2, 0xb3, 0xb4, 0xb5, 0xb6, 0xb7, 0xb8, 0xb9, 0xba, 0xbb, 0xbc, 0xbd, 0xbe, 0xbf,
    0xc0, 0xc1, 0xc2, 0xc3, 0xc4, 0xc5, 0xc6, 0xc7, 0xc8, 0xc9, 0xca, 0xcb, 0xcc, 0xcd, 0xce, 0xcf,
    0xd0, 0xd1, 0xd2, 0xd3, 0xd4, 0xd5, 0xd6, 0xd7, 0xd8, 0xd9, 0xda, 0xdb, 0xdc, 0xdd, 0xde, 0xdf,
    0xe0, 0xe1, 0xe2, 0xe3, 0xe4, 0xe5, 0xe6, 0xe7, 0xe8, 0xe9, 0xea, 0xeb, 0xec, 0xed, 0xee, 0xef,
    0xf0, 0xf1, 0xf2, 0xf3, 0xf4, 0xf5, 0xf6, 0xf7, 0xf8, 0xf9, 0xfa, 0xfb, 0xfc, 0xfd, 0xfe, 0xff]"

definition isASCII :: "'a::len word \<Rightarrow> bool" where
  [ascii_defs]: "isASCII c \<longleftrightarrow> c AND NOT 0x7F = 0"

definition isASCIIAlpha :: "'a::len word \<Rightarrow> bool" where
  [ascii_defs]: "isASCIIAlpha c \<longleftrightarrow> 97 \<le> c OR 0x20 \<and> c OR 0x20 \<le> 122"

definition isASCIIDigit :: "'a::len word \<Rightarrow> bool" where
  [ascii_defs]: "isASCIIDigit c \<longleftrightarrow> 48 \<le> c \<and> c \<le> 57"

definition isASCIIAlphanumeric :: "'a::len word \<Rightarrow> bool" where
  [ascii_defs]: "isASCIIAlphanumeric c \<longleftrightarrow> isASCIIDigit c \<or> isASCIIAlpha c"

definition isASCIIHexDigit :: "'a::len word \<Rightarrow> bool" where
  [ascii_defs]: "isASCIIHexDigit c \<longleftrightarrow> isASCIIDigit c \<or> (97 \<le> c OR 0x20 \<and> c OR 0x20 \<le> 102)"

definition isASCIILower :: "'a::len word \<Rightarrow> bool" where
  [ascii_defs]: "isASCIILower c \<longleftrightarrow> 97 \<le> c \<and> c \<le> 122"

definition isASCIIBinaryDigit :: "'a::len word \<Rightarrow> bool" where
  [ascii_defs]: "isASCIIBinaryDigit c \<longleftrightarrow> c = 48 \<or> c = 49"

definition isASCIIOctalDigit :: "'a::len word \<Rightarrow> bool" where
  [ascii_defs]: "isASCIIOctalDigit c \<longleftrightarrow> 48 \<le> c \<and> c \<le> 55"

definition isASCIIPrintable :: "'a::len word \<Rightarrow> bool" where
  [ascii_defs]: "isASCIIPrintable c \<longleftrightarrow> 32 \<le> c \<and> c \<le> 126"

definition isASCIISpace :: "'a::len word \<Rightarrow> bool" where
  [ascii_defs]: "isASCIISpace c \<longleftrightarrow> c \<le> 32 \<and> (c = 32 \<or> (c \<le> 0xD \<and> 0x9 \<le> c))"

definition isASCIIUpper :: "'a::len word \<Rightarrow> bool" where
  [ascii_defs]: "isASCIIUpper c \<longleftrightarrow> 65 \<le> c \<and> c \<le> 90"

definition toASCIILower :: "'a::len word \<Rightarrow> 'a word" where
  [ascii_defs]: "toASCIILower c = c OR push_bit 5 (if 65 \<le> c \<and> c \<le> 90 then 1 else 0)"

definition toASCIILower_char :: "u8 \<Rightarrow> u8" where
  "toASCIILower_char c = asciiCaseFoldTable ! unat c"

definition toASCIILowerUnchecked :: "'a::len word \<Rightarrow> 'a word" where
  [ascii_defs]: "toASCIILowerUnchecked c = c OR 0x20"

definition toASCIIUpper :: "'a::len word \<Rightarrow> 'a word" where
  [ascii_defs]: "toASCIIUpper c = c AND NOT (push_bit 5 (if 97 \<le> c \<and> c \<le> 122 then 1 else 0))"

definition toASCIIHexValue :: "u8 \<Rightarrow> u8" where
  [ascii_defs]: "toASCIIHexValue c = (if c < 65 then c - 48 else (c - 65 + 10) AND 0xF)"

definition toASCIIHexValue2 :: "u8 \<Rightarrow> u8 \<Rightarrow> u8" where
  [ascii_defs]: "toASCIIHexValue2 upperValue lowerValue =
     (push_bit 4 (toASCIIHexValue upperValue) AND 0xF0) OR toASCIIHexValue lowerValue"

definition lowerNibbleToASCIIHexDigit :: "u8 \<Rightarrow> u8" where
  [ascii_defs]: "lowerNibbleToASCIIHexDigit c =
     (let nibble = c AND 0xF in if nibble < 10 then 48 + nibble else 65 + nibble - 10)"

definition upperNibbleToASCIIHexDigit :: "u8 \<Rightarrow> u8" where
  [ascii_defs]: "upperNibbleToASCIIHexDigit c =
     (let nibble = drop_bit 4 c AND 0xF in if nibble < 10 then 48 + nibble else 65 + nibble - 10)"

definition isASCIIAlphaCaselessEqual :: "'a::len word \<Rightarrow> 'a word \<Rightarrow> bool" where
  [ascii_defs]: "isASCIIAlphaCaselessEqual cssCharacter character \<longleftrightarrow>
     toASCIILowerUnchecked cssCharacter = character"

section \<open>Exhaustive reasoning over bytes\<close>

lemma u8_cases_list: "(\<forall>c::u8. P c) \<longleftrightarrow> list_all (\<lambda>n. P (word_of_nat n)) [0..<256]"
proof -
  have "P c" if "\<forall>n<256. P (word_of_nat n)" for c :: u8
    using that [rule_format, of "unat c"] unsigned_less [of c] by simp
  then show ?thesis by (auto simp: list_all_iff)
qed

lemma isASCII_unat: "isASCII (c :: u16) \<longleftrightarrow> unat c < 128"
proof -
  have "(0x7F :: u16) = mask 7" by (simp add: mask_eq_exp_minus_1)
  then have "isASCII c \<longleftrightarrow> c AND NOT (mask 7) = 0" by (simp only: isASCII_def)
  also have "\<dots> \<longleftrightarrow> take_bit 7 c = c" by (auto simp: bit_eq_iff bit_simps)
  also have "\<dots> \<longleftrightarrow> unat (take_bit 7 c) = unat c" by (metis unsigned_word_eqI)
  also have "\<dots> \<longleftrightarrow> unat c < 2 ^ 7"
    by (simp only: unsigned_take_bit_eq take_bit_nat_eq_self_iff)
  finally show ?thesis by simp
qed

lemma u16_ascii_cases:
  "list_all (\<lambda>n. P (word_of_nat n)) [0..<128] \<Longrightarrow> isASCII c \<Longrightarrow> P (c :: u16)"
proof -
  assume "list_all (\<lambda>n. P (word_of_nat n)) [0..<128]" "isASCII c"
  then have "P (word_of_nat (unat c))"
    by (simp only: list_all_iff isASCII_unat set_upt) (metis atLeastLessThan_iff le0)
  then show ?thesis by simp
qed

lemma ascii_case_conversions:
  assumes "isASCII (c :: u16)"
  shows "unat (toASCIILower c) < 128 \<and> unat (toASCIIUpper c) < 128
    \<and> (isASCIIAlpha c \<longrightarrow> c = toASCIILower c \<or> c = toASCIIUpper c)
    \<and> (isASCIIAlpha c \<longrightarrow> unat (toASCIILower c) = unat (toASCIIUpper c) + 32)"
  by (rule u16_ascii_cases [OF _ assms]) code_simp

lemma toASCIILower_char_eq: "toASCIILower_char c = toASCIILower c"
proof -
  have "list_all (\<lambda>n. toASCIILower_char (word_of_nat n) = toASCIILower (word_of_nat n)) [0..<256]"
    by code_simp
  then show ?thesis by (simp only: u8_cases_list [symmetric, of "\<lambda>c. toASCIILower_char c = toASCIILower c"])
qed

text \<open>
  The two nibbles of a byte, printed as hexadecimal digits and read back with
  \<^verbatim>\<open>toASCIIHexValue\<close>, give the byte again, and both printed characters are hexadecimal digits.
\<close>

lemma hex_digits_roundtrip:
  "toASCIIHexValue2 (upperNibbleToASCIIHexDigit c) (lowerNibbleToASCIIHexDigit c) = c
   \<and> isASCIIHexDigit (upperNibbleToASCIIHexDigit c) \<and> isASCIIHexDigit (lowerNibbleToASCIIHexDigit c)"
proof -
  have "list_all (\<lambda>n. toASCIIHexValue2 (upperNibbleToASCIIHexDigit (word_of_nat n))
        (lowerNibbleToASCIIHexDigit (word_of_nat n)) = word_of_nat n
      \<and> isASCIIHexDigit (upperNibbleToASCIIHexDigit (word_of_nat n))
      \<and> isASCIIHexDigit (lowerNibbleToASCIIHexDigit (word_of_nat n))) [0..<256]"
    by code_simp
  then show ?thesis
    by (simp only: u8_cases_list [symmetric, of "\<lambda>c. toASCIIHexValue2 (upperNibbleToASCIIHexDigit c)
        (lowerNibbleToASCIIHexDigit c) = c
      \<and> isASCIIHexDigit (upperNibbleToASCIIHexDigit c) \<and> isASCIIHexDigit (lowerNibbleToASCIIHexDigit c)"])
qed

text \<open>The table lookup is the template and changes exactly the letters.\<close>

lemma toASCIILower_char_letters:
  "toASCIILower_char c = (if isASCIIUpper c then c + 32 else c)"
proof -
  have "list_all (\<lambda>n. toASCIILower_char (word_of_nat n)
      = (if isASCIIUpper (word_of_nat n :: u8) then word_of_nat n + 32 else word_of_nat n)) [0..<256]"
    by code_simp
  then show ?thesis
    by (simp only: u8_cases_list [symmetric, of "\<lambda>c. toASCIILower_char c
      = (if isASCIIUpper c then c + 32 else c)"])
qed

end
