(* ===== verification/NumberConversion.thy ===== *)
theory NumberConversion
  imports ASCIICType
begin

text \<open>
  Numbers and decimal strings: \<^verbatim>\<open>toIntegralType\<close> and \<^verbatim>\<open>lengthOfCharactersAsInteger\<close> of
  \<^verbatim>\<open>Source/WTF/wtf/text/WTFString.cpp\<close> and \<^verbatim>\<open>numberToStringImpl\<close> of
  \<^verbatim>\<open>Source/WTF/wtf/text/IntegerToStringConversion.h\<close>. The integral type is a word of any width; a
  signed one is the same word, compared as signed, and its arithmetic wraps. Strings are lists of
  code units. The white space of ICU above ASCII is the parameter \<open>dirWS\<close>.
\<close>

section \<open>Reading\<close>

definition isSpaceOrNewline :: "(u16 \<Rightarrow> bool) \<Rightarrow> u16 \<Rightarrow> bool" where
  "isSpaceOrNewline dirWS c = (if c \<le> 0x7F then isASCIISpace c else dirWS c)"

definition isCharacterAllowedInBase :: "u16 \<Rightarrow> nat \<Rightarrow> bool" where
  "isCharacterAllowedInBase c base =
     (if c > 0x7F then False
      else if isASCIIDigit c then unat (c - 48) < base
      else if isASCIIAlpha c then
        (let base = (if base > 36 then 36 else int base) in
         (uint c \<ge> 97 \<and> uint c < 97 + base - 10) \<or> (uint c \<ge> 65 \<and> uint c < 65 + base - 10))
      else False)"

definition digitValue :: "u16 \<Rightarrow> nat" where
  "digitValue c = (if isASCIIDigit c then unat c - 48 else if c \<ge> 97 then unat c - 97 + 10 else unat c - 65 + 10)"

definition integralMax :: "bool \<Rightarrow> 'a::len itself \<Rightarrow> nat" where
  "integralMax isSigned _ = (if isSigned then 2 ^ (LENGTH('a) - 1) - 1 else 2 ^ LENGTH('a) - 1)"

text \<open>The test for overflow, read as signed or unsigned.\<close>

definition tooLarge :: "bool \<Rightarrow> nat \<Rightarrow> bool \<Rightarrow> 'a::len word \<Rightarrow> nat \<Rightarrow> bool" where
  "tooLarge isSigned base isNegative value d \<longleftrightarrow>
     (let m = integralMax isSigned TYPE('a); v = (if isSigned then sint value else uint value) in
      v > int (m div base) \<or> (v = int (m div base) \<and> d > m mod base + of_bool isNegative))"

text \<open>The loop over the digits: the value and what is left of the string, or \<open>None\<close> for \<^verbatim>\<open>goto bye\<close>.\<close>

fun digitLoop :: "bool \<Rightarrow> nat \<Rightarrow> bool \<Rightarrow> 'a::len word \<Rightarrow> u16 list \<Rightarrow> ('a word \<times> u16 list) option" where
  "digitLoop isSigned base isNegative value [] = Some (value, [])"
| "digitLoop isSigned base isNegative value (c # cs) =
     (if isCharacterAllowedInBase c base then
        (if tooLarge isSigned base isNegative value (digitValue c) then None
         else digitLoop isSigned base isNegative (of_nat base * value + of_nat (digitValue c)) cs)
      else Some (value, c # cs))"

definition toIntegralType :: "bool \<Rightarrow> (u16 \<Rightarrow> bool) \<Rightarrow> u16 list \<Rightarrow> nat \<Rightarrow> 'a::len word \<times> bool" where
  "toIntegralType isSigned dirWS data base =
     (let data = dropWhile (isSpaceOrNewline dirWS) data;
          isNegative = (isSigned \<and> data \<noteq> [] \<and> hd data = 45);
          data = (if isNegative then tl data else if data \<noteq> [] \<and> hd data = 43 then tl data else data) in
      if data = [] \<or> \<not> isCharacterAllowedInBase (hd data) base then (0, False)
      else (case digitLoop isSigned base isNegative 0 data of
          None \<Rightarrow> (0, False)
        | Some (value, rest) \<Rightarrow>
            (if dropWhile (isSpaceOrNewline dirWS) rest = []
             then (if isNegative then - value else value, True) else (0, False))))"

definition charactersToUIntStrict :: "(u16 \<Rightarrow> bool) \<Rightarrow> u16 list \<Rightarrow> u32 \<times> bool" where
  "charactersToUIntStrict dirWS data = toIntegralType False dirWS data 10"

definition charactersToIntStrict :: "(u16 \<Rightarrow> bool) \<Rightarrow> u16 list \<Rightarrow> u32 \<times> bool" where
  "charactersToIntStrict dirWS data = toIntegralType True dirWS data 10"

definition lengthOfCharactersAsInteger :: "(u16 \<Rightarrow> bool) \<Rightarrow> u16 list \<Rightarrow> nat" where
  "lengthOfCharactersAsInteger dirWS data =
     (let i = length (takeWhile (isSpaceOrNewline dirWS) data);
          i = (if i \<noteq> length data \<and> (data ! i = 43 \<or> data ! i = 45) then i + 1 else i) in
      i + length (takeWhile isASCIIDigit (drop i data)))"

text \<open>\<^verbatim>\<open>charactersToInt\<close> and \<^verbatim>\<open>charactersToUInt\<close> stop at the first character that is not part of a number.\<close>

definition charactersToInt :: "(u16 \<Rightarrow> bool) \<Rightarrow> u16 list \<Rightarrow> u32 \<times> bool" where
  "charactersToInt dirWS data = toIntegralType True dirWS (take (lengthOfCharactersAsInteger dirWS data) data) 10"

definition charactersToUInt :: "(u16 \<Rightarrow> bool) \<Rightarrow> u16 list \<Rightarrow> u32 \<times> bool" where
  "charactersToUInt dirWS data = toIntegralType False dirWS (take (lengthOfCharactersAsInteger dirWS data) data) 10"

section \<open>Printing\<close>

text \<open>
  The digits are written from the end of a buffer of \<open>3 * size + 1\<close> bytes; running out of it is \<open>None\<close>.
\<close>

function numberDigits :: "nat \<Rightarrow> nat \<Rightarrow> u8 list \<Rightarrow> u8 list option" where
  "numberDigits space number acc =
     (if space = 0 then None
      else let acc = of_nat (number mod 10 + 48) # acc in
        if number div 10 = 0 then Some acc else numberDigits (space - 1) (number div 10) acc)"
  by pat_completeness auto
termination
  by (relation "measure (\<lambda>(space, _, _). space)") auto

definition numberToStringImpl :: "bool \<Rightarrow> 'a::len word \<Rightarrow> u8 list option" where
  "numberToStringImpl negative number = (let bufferSize = LENGTH('a) div 8 * 3 + 1 in do {
     ds \<leftarrow> numberDigits bufferSize (unat number) [];
     (if negative then if length ds < bufferSize then Some (45 # ds) else None else Some ds)
   })"

definition numberToStringSigned :: "'a::len word \<Rightarrow> u8 list option" where
  "numberToStringSigned number =
     (if sint number < 0 then numberToStringImpl True (- number) else numberToStringImpl False number)"

definition numberToStringUnsigned :: "'a::len word \<Rightarrow> u8 list option" where
  "numberToStringUnsigned number = numberToStringImpl False number"

section \<open>The value of a string of digits\<close>

fun decimal :: "nat \<Rightarrow> u16 list \<Rightarrow> nat" where
  "decimal v [] = v"
| "decimal v (c # cs) = decimal (10 * v + digitValue c) cs"

lemma digit_unat: "isASCIIDigit c \<longleftrightarrow> 48 \<le> unat c \<and> unat c \<le> 57" for c :: u16
  by (simp add: isASCIIDigit_def word_le_nat_alt)

lemma digit_allowed:
  assumes "isASCIIDigit c"
  shows "isCharacterAllowedInBase c 10"
proof -
  have c: "48 \<le> unat c" "unat c \<le> 57" using assms by (simp_all add: digit_unat)
  then have "\<not> c > 0x7F" "unat (c - 48) = unat c - 48"
    by (simp_all add: word_less_nat_alt unat_sub word_le_nat_alt)
  then show ?thesis using assms c by (simp add: isCharacterAllowedInBase_def)
qed

lemma digitValue_less: "isASCIIDigit c \<Longrightarrow> digitValue c < 10"
  by (simp only: digitValue_def if_True) (simp only: digit_unat, linarith)

lemma decimal_ge: "v \<le> decimal v cs"
proof (induction v cs rule: decimal.induct)
  case (2 v c cs)
  have "v \<le> 10 * v + digitValue c" by simp
  then show ?case using 2 by (simp only: decimal.simps)
qed simp

lemma exceeds_by_digits:
  "d < 10 \<Longrightarrow> (m div 10 < u \<or> (u = m div 10 \<and> m mod 10 < d)) \<longleftrightarrow> m < 10 * u + (d :: nat)"
proof -
  assume d: "d < 10"
  have "m = 10 * (m div 10) + m mod 10" "m mod 10 < 10" by simp_all
  then show ?thesis using d by (cases "m div 10 < u"; cases "u = m div 10") linarith+
qed

lemma tooLarge_unsigned:
  "d < 10 \<Longrightarrow> tooLarge False 10 False (value :: 'a::len word) d \<longleftrightarrow> 2 ^ LENGTH('a) \<le> 10 * unat value + d"
proof -
  assume d: "d < 10"
  let ?m = "2 ^ LENGTH('a) - 1 :: nat"
  have "tooLarge False 10 False value d \<longleftrightarrow> unat value > ?m div 10 \<or> (unat value = ?m div 10 \<and> d > ?m mod 10)"
  proof -
    have "uint value = int (unat value)" by simp
    then show ?thesis
      by (simp only: tooLarge_def integralMax_def Let_def if_False of_nat_less_iff of_nat_eq_iff of_bool_eq add_0_right)
  qed
  also have "\<dots> \<longleftrightarrow> ?m < 10 * unat value + d" by (rule exceeds_by_digits [OF d])
  also have "\<dots> \<longleftrightarrow> 2 ^ LENGTH('a) \<le> 10 * unat value + d"
    by (metis Suc_le_eq Suc_pred' zero_less_numeral zero_less_power)
  finally show ?thesis .
qed

lemma digitLoop_decimal:
  assumes "list_all isASCIIDigit cs"
  shows "digitLoop False 10 False (value :: 'a::len word) cs
    = (if decimal (unat value) cs < 2 ^ LENGTH('a) then Some (of_nat (decimal (unat value) cs), []) else None)"
  using assms
proof (induction cs arbitrary: "value")
  case (Cons c cs)
  let ?v = "10 * unat value + digitValue c"
  have t: "tooLarge False 10 False value (digitValue c) \<longleftrightarrow> 2 ^ LENGTH('a) \<le> ?v"
    using Cons.prems by (intro tooLarge_unsigned digitValue_less) simp
  show ?case
  proof (cases "?v < 2 ^ LENGTH('a)")
    case True
    have w: "10 * value + of_nat (digitValue c) = (of_nat ?v :: 'a word)" by simp
    then have "unat (10 * value + of_nat (digitValue c)) = ?v" using True unfolding w unat_of_nat by simp
    then show ?thesis using Cons True t digit_allowed [of c] by simp
  next
    case False
    then have "\<not> decimal ?v cs < 2 ^ LENGTH('a)" using decimal_ge [of ?v cs] by linarith
    then show ?thesis using Cons False t digit_allowed [of c] by simp
  qed
qed (simp add: unsigned_less)

lemma digit_not_space: "isASCIIDigit c \<Longrightarrow> \<not> isSpaceOrNewline dirWS c"
proof -
  assume "isASCIIDigit c"
  then have "48 \<le> unat c" "unat c \<le> 57" by (simp_all only: digit_unat)
  then have "c \<le> 0x7F" "\<not> c \<le> 32" by (simp_all add: word_le_nat_alt)
  then show ?thesis by (simp add: isSpaceOrNewline_def isASCIISpace_def)
qed

lemma toIntegralType_unsigned:
  assumes "list_all isASCIIDigit cs" "cs \<noteq> []"
  shows "toIntegralType False dirWS cs 10
    = (if decimal 0 cs < 2 ^ LENGTH('a) then (of_nat (decimal 0 cs) :: 'a::len word, True) else (0, False))"
proof -
  obtain c cs' where c: "cs = c # cs'" "isASCIIDigit c" using assms by (cases cs) auto
  have n: "dropWhile (isSpaceOrNewline dirWS) cs = cs" "c \<noteq> 43"
    using c digit_not_space [OF c(2)] by (simp, auto simp: isASCIIDigit_def)
  show ?thesis using digitLoop_decimal [OF assms(1), of "0 :: 'a word"] n c digit_allowed [OF c(2)]
    by (simp add: toIntegralType_def Let_def)
qed


section \<open>Printing and reading back\<close>

lemma decimal_append: "decimal v (xs @ [c]) = 10 * decimal v xs + digitValue c"
  by (induction v xs rule: decimal.induct) simp_all

definition widen :: "u8 list \<Rightarrow> u16 list" where
  "widen ds = map ucast ds"

lemma digit_char:
  assumes "d < 10"
  shows "isASCIIDigit (ucast (of_nat (d + 48) :: u8) :: u16) \<and> digitValue (ucast (of_nat (d + 48) :: u8)) = d"
proof -
  have "unat (of_nat (d + 48) :: u8) = d + 48"
    using assms by (simp only: unat_of_nat) simp
  then have u: "unat (ucast (of_nat (d + 48) :: u8) :: u16) = d + 48" 
    using assms by (simp only: unsigned_ucast_eq) (simp add: take_bit_nat_eq_self)
  then have "isASCIIDigit (ucast (of_nat (d + 48) :: u8) :: u16)"
    unfolding digit_unat u using assms by simp
  then show ?thesis by (simp only: digitValue_def if_True u) simp
qed

declare numberDigits.simps [simp del]

lemma numberDigits_ok:
  "number < 10 ^ space \<Longrightarrow> 0 < space \<Longrightarrow> \<exists>ds. numberDigits space number acc = Some (ds @ acc)
    \<and> list_all isASCIIDigit (widen ds) \<and> ds \<noteq> [] \<and> length ds \<le> space \<and> decimal 0 (widen ds) = number"
proof (induction space number acc rule: numberDigits.induct)
  case (1 space number acc)
  let ?c = "of_nat (number mod 10 + 48) :: u8"
  have c: "isASCIIDigit (ucast ?c :: u16)" "digitValue (ucast ?c) = number mod 10"
    using digit_char [of "number mod 10"] by simp_all
  show ?case
  proof (cases "number div 10 = 0")
    case True
    then show ?thesis using c 1(3) numberDigits.simps [of space number acc]
      by (intro exI [of _ "[?c]"]) (simp add: widen_def Let_def)
  next
    case False
    obtain k where k: "space = Suc k" using 1(3) by (cases space) auto
    have b: "number div 10 < 10 ^ k" using 1(2) k by (simp add: less_mult_imp_div_less mult.commute)
    have "0 < k" using b False by (cases k) auto
    then obtain ds where ds: "numberDigits k (number div 10) (?c # acc) = Some (ds @ ?c # acc)"
      "list_all isASCIIDigit (widen ds)" "ds \<noteq> []" "length ds \<le> k" "decimal 0 (widen ds) = number div 10"
      using "1.IH" [OF _ refl False] b k by auto
    have "numberDigits space number acc = Some ((ds @ [?c]) @ acc)"
      using ds(1) False k numberDigits.simps [of space number acc] by (simp add: Let_def)
    moreover have "decimal 0 (widen (ds @ [?c])) = number"
      using ds(5) c by (simp add: widen_def decimal_append)
    ultimately show ?thesis using ds c k by (intro exI [of _ "ds @ [?c]"]) (simp add: widen_def)
  qed
qed

lemma eval_256: "(2 :: nat) ^ 8 = 256"
  by simp

lemma digits_bound:
  assumes "LENGTH('a::len) mod 8 = 0"
  shows "2 ^ LENGTH('a) \<le> (10 :: nat) ^ (LENGTH('a) div 8 * 3)"
proof -
  let ?k = "LENGTH('a) div 8"
  have "LENGTH('a) = 8 * ?k" using assms by presburger
  then have "(2 :: nat) ^ LENGTH('a) = 256 ^ ?k" 
    by (metis power_mult eval_256)
  also have "\<dots> \<le> 1000 ^ ?k" by (rule power_mono) simp_all
  also have "\<dots> = 10 ^ (?k * 3)" by (simp add: power_mult mult.commute [of ?k])
  finally show ?thesis .
qed

lemma numberDigits_word:
  assumes "LENGTH('a::len) mod 8 = 0"
  shows "\<exists>ds. numberDigits (LENGTH('a) div 8 * 3 + 1) (unat (number :: 'a word)) [] = Some ds
    \<and> list_all isASCIIDigit (widen ds) \<and> ds \<noteq> [] \<and> decimal 0 (widen ds) = unat number"
proof -
  have "unat number < 10 ^ (LENGTH('a) div 8 * 3 + 1)"
  proof -
    have "unat number < 2 ^ LENGTH('a)" by (rule unsigned_less)
    also have "\<dots> \<le> 10 ^ (LENGTH('a) div 8 * 3)" by (rule digits_bound [OF assms])
    finally show ?thesis by simp
  qed
  from numberDigits_ok [OF this, of "[]"] show ?thesis by auto
qed

text \<open>
  C19. Printing an unsigned number of any width of whole bytes does not overrun the buffer of
  \<^verbatim>\<open>3 * sizeof + 1\<close> bytes, and \<^verbatim>\<open>toIntegralType\<close> reads the number back from the digits.
\<close>

theorem number_roundtrip:
  assumes "LENGTH('a::len) mod 8 = 0"
  shows "\<exists>ds. numberToStringUnsigned (number :: 'a word) = Some ds
    \<and> toIntegralType False dirWS (widen ds) 10 = (number, True)"
proof -
  obtain ds where ds: "numberDigits (LENGTH('a) div 8 * 3 + 1) (unat number) [] = Some ds"
    "list_all isASCIIDigit (widen ds)" "ds \<noteq> []" "decimal 0 (widen ds) = unat number"
    using numberDigits_word [OF assms, of number] by blast
  have "toIntegralType False dirWS (widen ds) 10 = (number, True)"
  proof -
    have "widen ds \<noteq> []" using ds(3) by (simp add: widen_def)
    from toIntegralType_unsigned [OF ds(2) this, where ?'a = 'a] show ?thesis by (simp add: ds(4) unsigned_less)
  qed
  then show ?thesis using ds(1) by (simp add: numberToStringUnsigned_def numberToStringImpl_def Let_def)
qed

theorem number_roundtrip_witness:
  "\<exists>ds. numberToStringUnsigned (65535 :: u32) = Some ds \<and> toIntegralType False (\<lambda>_. False) (widen ds) 10 = (65535 :: u32, True)"
  by (rule number_roundtrip) simp


end
