(* ===== verification/URL.thy ===== *)
theory URL
  imports NumberConversion
begin

text \<open>
  \<^verbatim>\<open>Source/WebCore/platform/URL.h\<close> and \<^verbatim>\<open>URL.cpp\<close>: the URL as a canonical string with the ends of its
  components, the parser, the accessors, the setters and the resolution of relative references.

  A string is the list of its code units, a C string the list of its bytes without the terminator;
  reading at or past the end of a C string gives the terminator 0. A null \<^verbatim>\<open>String\<close> is \<open>None\<close> where
  the code tells it from the empty one. The positions are natural numbers. \<^verbatim>\<open>PLATFORM(IOS)\<close> is off.
\<close>

section \<open>Character classes\<close>

definition SchemeFirstChar :: u8 where "SchemeFirstChar = 1"
definition SchemeChar :: u8 where "SchemeChar = 2"
definition UserInfoChar :: u8 where "UserInfoChar = 4"
definition HostnameChar :: u8 where "HostnameChar = 8"
definition IPv6Char :: u8 where "IPv6Char = 16"
definition PathSegmentEndChar :: u8 where "PathSegmentEndChar = 32"
definition BadChar :: u8 where "BadChar = 64"

text \<open>The table, by runs of equal entries.\<close>

definition characterClassTable :: "u8 \<Rightarrow> u8" where
  "characterClassTable c =
     (if c = 0 then PathSegmentEndChar
      else if c \<le> 32 then BadChar
      else if c = 33 then UserInfoChar
      else if c = 34 then BadChar
      else if c = 35 then PathSegmentEndChar OR BadChar
      else if c = 36 then UserInfoChar
      else if c = 37 then UserInfoChar OR HostnameChar OR IPv6Char OR BadChar
      else if c \<le> 42 then UserInfoChar
      else if c = 43 then SchemeChar OR UserInfoChar
      else if c = 44 then UserInfoChar
      else if c = 45 then SchemeChar OR UserInfoChar OR HostnameChar
      else if c = 46 then SchemeChar OR UserInfoChar OR HostnameChar OR IPv6Char
      else if c = 47 then PathSegmentEndChar
      else if c \<le> 57 then SchemeChar OR UserInfoChar OR HostnameChar OR IPv6Char
      else if c = 58 then UserInfoChar OR IPv6Char
      else if c = 59 then UserInfoChar
      else if c = 60 then BadChar
      else if c = 61 then UserInfoChar
      else if c = 62 then BadChar
      else if c = 63 then PathSegmentEndChar OR BadChar
      else if c = 64 then 0
      else if c \<le> 70 then SchemeFirstChar OR SchemeChar OR UserInfoChar OR HostnameChar OR IPv6Char
      else if c \<le> 90 then SchemeFirstChar OR SchemeChar OR UserInfoChar OR HostnameChar
      else if c \<le> 94 then 0
      else if c = 95 then UserInfoChar OR HostnameChar
      else if c = 96 then 0
      else if c \<le> 102 then SchemeFirstChar OR SchemeChar OR UserInfoChar OR HostnameChar OR IPv6Char
      else if c \<le> 122 then SchemeFirstChar OR SchemeChar OR UserInfoChar OR HostnameChar
      else if c \<le> 125 then 0
      else if c = 126 then UserInfoChar
      else BadChar)"

definition isSchemeFirstChar :: "u8 \<Rightarrow> bool" where
  "isSchemeFirstChar c \<longleftrightarrow> characterClassTable c AND SchemeFirstChar \<noteq> 0"

definition isSchemeFirstChar16 :: "u16 \<Rightarrow> bool" where
  "isSchemeFirstChar16 c \<longleftrightarrow> c \<le> 0xff \<and> isSchemeFirstChar (ucast c)"

definition isSchemeChar :: "u8 \<Rightarrow> bool" where
  "isSchemeChar c \<longleftrightarrow> characterClassTable c AND SchemeChar \<noteq> 0"

definition isSchemeChar16 :: "u16 \<Rightarrow> bool" where
  "isSchemeChar16 c \<longleftrightarrow> c \<le> 0xff \<and> isSchemeChar (ucast c)"

definition isUserInfoChar :: "u8 \<Rightarrow> bool" where
  "isUserInfoChar c \<longleftrightarrow> characterClassTable c AND UserInfoChar \<noteq> 0"

definition isHostnameChar :: "u8 \<Rightarrow> bool" where
  "isHostnameChar c \<longleftrightarrow> characterClassTable c AND HostnameChar \<noteq> 0"

definition isIPv6Char :: "u8 \<Rightarrow> bool" where
  "isIPv6Char c \<longleftrightarrow> characterClassTable c AND IPv6Char \<noteq> 0"

definition isPathSegmentEndChar :: "u8 \<Rightarrow> bool" where
  "isPathSegmentEndChar c \<longleftrightarrow> characterClassTable c AND PathSegmentEndChar \<noteq> 0"

definition isBadChar :: "u8 \<Rightarrow> bool" where
  "isBadChar c \<longleftrightarrow> characterClassTable c AND BadChar \<noteq> 0"

definition isLetterMatchIgnoringCase :: "'a::len word \<Rightarrow> 'a word \<Rightarrow> bool" where
  "isLetterMatchIgnoringCase character lowercaseLetter \<longleftrightarrow> character OR 0x20 = lowercaseLetter"

definition isSchemeCharacterMatchIgnoringCase :: "u16 \<Rightarrow> u16 \<Rightarrow> bool" where
  "isSchemeCharacterMatchIgnoringCase character schemeCharacter \<longleftrightarrow> character OR 0x20 = schemeCharacter"

section \<open>Strings\<close>

type_synonym cstring = "u8 list"
type_synonym ustring = "u16 list"

definition char_at :: "cstring \<Rightarrow> nat \<Rightarrow> u8" where
  "char_at url i = (if i < length url then url ! i else 0)"

definition slice :: "'a list \<Rightarrow> nat \<Rightarrow> nat \<Rightarrow> 'a list" where
  "slice xs a b = take (b - a) (drop a xs)"

text \<open>\<^verbatim>\<open>while (P(url[i])) i++\<close>, where \<open>P\<close> does not hold of the terminator.\<close>

definition scan :: "(u8 \<Rightarrow> bool) \<Rightarrow> cstring \<Rightarrow> nat \<Rightarrow> nat" where
  "scan P url i = i + length (takeWhile P (drop i url))"

text \<open>\<^verbatim>\<open>copyASCII\<close> keeps the low bytes; what follows a zero byte is not part of the C string.\<close>

definition copyASCII :: "ustring \<Rightarrow> cstring" where
  "copyASCII s = takeWhile (\<lambda>c. c \<noteq> 0) (map ucast s)"

definition lit :: "string \<Rightarrow> 'a::len word list" where
  "lit s = map of_char s"

text \<open>\<^verbatim>\<open>equal(const char*, const char (&)[length])\<close> and the version with a length.\<close>

definition equal_at :: "cstring \<Rightarrow> string \<Rightarrow> bool" where
  "equal_at a b \<longleftrightarrow> take (length b) a = lit b"

definition equal_chars :: "cstring \<Rightarrow> string \<Rightarrow> bool" where
  "equal_chars a b \<longleftrightarrow> length a = length b \<and> equal_at a b"

section \<open>Schemes\<close>

definition isDefaultPortForScheme :: "cstring \<Rightarrow> cstring \<Rightarrow> nat \<Rightarrow> bool" where
  "isDefaultPortForScheme port scheme schemeLength =
     (if schemeLength = 2 then equal_at scheme ''ws'' \<and> equal_chars port ''80''
      else if schemeLength = 3 then
        (if equal_at scheme ''ftp'' then equal_chars port ''21''
         else equal_at scheme ''wss'' \<and> equal_chars port ''443'')
      else if schemeLength = 4 then equal_at scheme ''http'' \<and> equal_chars port ''80''
      else if schemeLength = 5 then equal_at scheme ''https'' \<and> equal_chars port ''443''
      else if schemeLength = 6 then equal_at scheme ''gopher'' \<and> equal_chars port ''70''
      else False)"

definition hostPortIsEmptyButCredentialsArePresent :: "nat \<Rightarrow> nat \<Rightarrow> u8 \<Rightarrow> bool" where
  "hostPortIsEmptyButCredentialsArePresent hostStart portEnd userinfoEndChar \<longleftrightarrow>
     userinfoEndChar = 64 \<and> hostStart = portEnd"

definition isNonFileHierarchicalScheme :: "cstring \<Rightarrow> nat \<Rightarrow> bool" where
  "isNonFileHierarchicalScheme scheme schemeLength =
     (if schemeLength = 2 then equal_at scheme ''ws''
      else if schemeLength = 3 then equal_at scheme ''ftp'' \<or> equal_at scheme ''wss''
      else if schemeLength = 4 then equal_at scheme ''http''
      else if schemeLength = 5 then equal_at scheme ''https''
      else if schemeLength = 6 then equal_at scheme ''gopher''
      else False)"

definition isCanonicalHostnameLowercaseForScheme :: "cstring \<Rightarrow> nat \<Rightarrow> bool" where
  "isCanonicalHostnameLowercaseForScheme scheme schemeLength =
     (if schemeLength = 2 then equal_at scheme ''ws''
      else if schemeLength = 3 then equal_at scheme ''ftp'' \<or> equal_at scheme ''wss''
      else if schemeLength = 4 then equal_at scheme ''http'' \<or> equal_at scheme ''file''
      else if schemeLength = 5 then equal_at scheme ''https''
      else if schemeLength = 6 then equal_at scheme ''gopher''
      else False)"

definition isFileScheme :: "cstring \<Rightarrow> nat \<Rightarrow> bool" where
  "isFileScheme url schemeEnd \<longleftrightarrow> schemeEnd = 4
     \<and> isLetterMatchIgnoringCase (char_at url 0) 102
     \<and> isLetterMatchIgnoringCase (char_at url 1) 105
     \<and> isLetterMatchIgnoringCase (char_at url 2) 108
     \<and> isLetterMatchIgnoringCase (char_at url 3) 101"

definition isHTTPFamily :: "cstring \<Rightarrow> bool" where
  "isHTTPFamily url \<longleftrightarrow>
     isLetterMatchIgnoringCase (char_at url 0) 104
     \<and> isLetterMatchIgnoringCase (char_at url 1) 116
     \<and> isLetterMatchIgnoringCase (char_at url 2) 116
     \<and> isLetterMatchIgnoringCase (char_at url 3) 112
     \<and> (char_at url 4 = 58 \<or> (isLetterMatchIgnoringCase (char_at url 4) 115 \<and> char_at url 5 = 58))"

section \<open>Escaping and paths\<close>

definition hexDigitUppercase :: "u8 \<Rightarrow> u8" where
  "hexDigitUppercase n = (if n < 10 then 48 + n else 65 + n - 10)"

definition appendEscapedChar :: "u8 \<Rightarrow> cstring" where
  "appendEscapedChar c = [37, hexDigitUppercase (drop_bit 4 c), hexDigitUppercase (c AND 0xF)]"

definition isTabOrNewline :: "u8 \<Rightarrow> bool" where
  "isTabOrNewline c \<longleftrightarrow> c = 0x09 \<or> c = 0x0a \<or> c = 0x0d"

definition appendEscapingBadChars :: "cstring \<Rightarrow> cstring" where
  "appendEscapingBadChars str = concat (map (\<lambda>c.
     if isBadChar c then
       (if c = 37 \<or> c = 63 then [c] else if \<not> isTabOrNewline c then appendEscapedChar c else [])
     else [c]) str)"

definition escapeAndAppendNonHierarchicalPart :: "cstring \<Rightarrow> cstring" where
  "escapeAndAppendNonHierarchicalPart str = concat (map (\<lambda>c.
     if isTabOrNewline c then [] else if c < 0x20 \<or> c \<ge> 127 then appendEscapedChar c else [c]) str)"

text \<open>\<open>dst\<close> is the destination in reverse; \<^verbatim>\<open>while (dst > bufferPathStart && dst[-1] != '/') dst--\<close>.\<close>

fun rewindSegment :: "nat \<Rightarrow> cstring \<Rightarrow> cstring" where
  "rewindSegment keep [] = []"
| "rewindSegment keep (d # ds) = (if keep < Suc (length ds) \<and> d \<noteq> 47 then rewindSegment keep ds else d # ds)"

function copyDotsLoop :: "cstring \<Rightarrow> cstring \<Rightarrow> cstring" where
  "copyDotsLoop dst [] = dst"
| "copyDotsLoop dst (c # src) =
     (if c = 46 \<and> hd dst = 47 \<and> (src = [] \<or> hd src = 47) then copyDotsLoop dst (drop 1 src)
      else if c = 46 \<and> hd dst = 47 \<and> hd src = 46 \<and> (tl src = [] \<or> hd (tl src) = 47) then
        copyDotsLoop (rewindSegment 0 (if length dst > 1 then tl dst else dst)) (drop 2 src)
      else copyDotsLoop (c # dst) src)"
  by pat_completeness auto
termination
  by (relation "measure (\<lambda>(_, src). length src)") auto

text \<open>The first character is copied as it is; the code asserts that it is a slash.\<close>

definition copyPathRemovingDots :: "cstring \<Rightarrow> cstring" where
  "copyPathRemovingDots src = (case src of [] \<Rightarrow> [] | c # cs \<Rightarrow> rev (copyDotsLoop [c] cs))"

fun hasSlashDot :: "u8 \<Rightarrow> cstring \<Rightarrow> bool" where
  "hasSlashDot pc [] = False"
| "hasSlashDot pc (c # cs) = ((c = 46 \<and> (pc = 47 \<or> pc = 46)) \<or> hasSlashDot c cs)"

definition hasSlashDotOrDotDot :: "cstring \<Rightarrow> bool" where
  "hasSlashDotOrDotDot str = (case str of [] \<Rightarrow> False | c # cs \<Rightarrow> hasSlashDot c cs)"


section \<open>The URL\<close>

record URL =
  m_string :: ustring
  m_isValid :: bool
  m_protocolIsInHTTPFamily :: bool
  m_schemeEnd :: nat
  m_userStart :: nat
  m_userEnd :: nat
  m_passwordEnd :: nat
  m_hostEnd :: nat
  m_portEnd :: nat
  m_pathAfterLastSlash :: nat
  m_pathEnd :: nat
  m_queryEnd :: nat
  m_fragmentEnd :: nat

definition invalidate :: "ustring \<Rightarrow> URL" where
  "invalidate str = \<lparr>m_string = str, m_isValid = False, m_protocolIsInHTTPFamily = False, m_schemeEnd = 0,
     m_userStart = 0, m_userEnd = 0, m_passwordEnd = 0, m_hostEnd = 0, m_portEnd = 0,
     m_pathAfterLastSlash = 0, m_pathEnd = 0, m_queryEnd = 0, m_fragmentEnd = 0\<rparr>"

section \<open>The parser\<close>

text \<open>The local variables of the parser that delimit the authority in the source.\<close>

record Authority =
  a_userStart :: nat
  a_userEnd :: nat
  a_passwordStart :: nat
  a_passwordEnd :: nat
  a_hostStart :: nat
  a_hostEnd :: nat
  a_portStart :: nat
  a_portEnd :: nat

definition emptyAuthority :: "nat \<Rightarrow> Authority" where
  "emptyAuthority i = \<lparr>a_userStart = i, a_userEnd = i, a_passwordStart = i, a_passwordEnd = i,
     a_hostStart = i, a_hostEnd = i, a_portStart = i, a_portEnd = i\<rparr>"

definition authorityStart :: "cstring \<Rightarrow> nat \<Rightarrow> nat" where
  "authorityStart url schemeEnd =
     (if char_at url (schemeEnd + 1) = 47 then
        if char_at url (schemeEnd + 2) = 47 then
          if isNonFileHierarchicalScheme url schemeEnd then scan (\<lambda>c. c = 47) url (schemeEnd + 3)
          else schemeEnd + 3
        else schemeEnd + 2
      else schemeEnd + 1)"

text \<open>The user and the password: their ends, and the start of the host.\<close>

definition parseUserInfo :: "cstring \<Rightarrow> nat \<Rightarrow> (nat \<times> nat \<times> nat \<times> nat) option" where
  "parseUserInfo url userStart =
     (let userEnd = scan isUserInfoChar url userStart;
          colon = scan (\<lambda>c. isUserInfoChar c \<and> c \<noteq> 58) url userStart in
      if char_at url userEnd = 64 then
        if colon < userEnd then Some (colon, colon + 1, userEnd, userEnd + 1)
        else Some (userEnd, userEnd, userEnd, userEnd + 1)
      else if char_at url userEnd = 91 \<or> isPathSegmentEndChar (char_at url userEnd) then
        Some (userStart, userStart, userStart, userStart)
      else None)"

definition parseHost :: "cstring \<Rightarrow> nat \<Rightarrow> nat option" where
  "parseHost url hostStart =
     (if char_at url hostStart = 91 then
        (let hostEnd = scan isIPv6Char url (hostStart + 1) in
         if char_at url hostEnd = 93 then Some (hostEnd + 1) else None)
      else Some (scan isHostnameChar url hostStart))"

definition parsePort :: "cstring \<Rightarrow> nat \<Rightarrow> nat \<times> nat" where
  "parsePort url hostEnd =
     (if char_at url hostEnd = 58 then (hostEnd + 1, scan isASCIIDigit url (hostEnd + 1))
      else (hostEnd, hostEnd))"

definition parseAuthority :: "cstring \<Rightarrow> nat \<Rightarrow> Authority option" where
  "parseAuthority url schemeEnd = (let userStart = authorityStart url schemeEnd in do {
     (userEnd, passwordStart, passwordEnd, hostStart) \<leftarrow> parseUserInfo url userStart;
     hostEnd \<leftarrow> parseHost url hostStart;
     (portStart, portEnd) \<leftarrow> Some (parsePort url hostEnd);
     (if \<not> isPathSegmentEndChar (char_at url portEnd) then None
      else if hostPortIsEmptyButCredentialsArePresent hostStart portEnd (char_at url passwordEnd) then None
      else if userStart = portEnd \<and> \<not> isHTTPFamily url \<and> \<not> isFileScheme url schemeEnd then
        Some (emptyAuthority (userStart - 2))
      else Some \<lparr>a_userStart = userStart, a_userEnd = userEnd, a_passwordStart = passwordStart,
        a_passwordEnd = passwordEnd, a_hostStart = hostStart, a_hostEnd = hostEnd,
        a_portStart = portStart, a_portEnd = portEnd\<rparr>)
   })"

definition findAuthority :: "cstring \<Rightarrow> nat \<Rightarrow> Authority option" where
  "findAuthority url schemeEnd =
     (if (char_at url (schemeEnd + 1) = 47 \<and> char_at url (schemeEnd + 2) = 47)
         \<or> isNonFileHierarchicalScheme url schemeEnd
      then parseAuthority url schemeEnd else Some (emptyAuthority (schemeEnd + 1)))"

definition isLocalHost :: "cstring \<Rightarrow> Authority \<Rightarrow> bool" where
  "isLocalHost url a \<longleftrightarrow> a_portEnd a - a_userStart a = 9
     \<and> list_all2 isLetterMatchIgnoringCase (slice url (a_userStart a) (a_userStart a + 9)) (lit ''localhost'')"

text \<open>
  The authority as it is written, in the order of the code: the ends of user, password, host and
  port relative to its start, and its characters.
\<close>

definition writeUser :: "cstring \<Rightarrow> Authority \<Rightarrow> cstring" where
  "writeUser url a = slice url (a_userStart a) (a_userEnd a)"

definition writePassword :: "cstring \<Rightarrow> Authority \<Rightarrow> cstring" where
  "writePassword url a =
     (if a_passwordEnd a \<noteq> a_passwordStart a then 58 # slice url (a_passwordStart a) (a_passwordEnd a) else [])"

definition haveNonHostAuthorityPart :: "Authority \<Rightarrow> bool" where
  "haveNonHostAuthorityPart a \<longleftrightarrow>
     a_userStart a \<noteq> a_userEnd a \<or> a_passwordStart a \<noteq> a_passwordEnd a \<or> a_hostEnd a \<noteq> a_portEnd a"

definition writeHost :: "cstring \<Rightarrow> Authority \<Rightarrow> bool \<Rightarrow> cstring \<Rightarrow> cstring" where
  "writeHost url a isFile scheme =
     (if isFile \<and> isLocalHost url a \<and> \<not> haveNonHostAuthorityPart a then []
      else if isCanonicalHostnameLowercaseForScheme scheme (length scheme) then
        map toASCIILower_char (slice url (a_hostStart a) (a_hostEnd a))
      else slice url (a_hostStart a) (a_hostEnd a))"

definition writePort :: "cstring \<Rightarrow> Authority \<Rightarrow> cstring \<Rightarrow> cstring" where
  "writePort url a scheme =
     (if a_hostEnd a \<noteq> a_portStart a then
        (let port = slice url (a_portStart a) (a_portEnd a) in
         if (port \<noteq> [] \<and> \<not> isDefaultPortForScheme port scheme (length scheme)) \<or> a_hostStart a = a_hostEnd a
         then 58 # port else [])
      else [])"

definition writesAuthority :: "cstring \<Rightarrow> Authority \<Rightarrow> bool \<Rightarrow> nat \<Rightarrow> bool" where
  "writesAuthority url a isFile pathEnd =
     (if isFile then \<not> (a_portEnd a = pathEnd \<and> (a_hostStart a = a_hostEnd a \<or> isLocalHost url a))
      else haveNonHostAuthorityPart a \<or> a_hostStart a \<noteq> a_hostEnd a)"

definition writePath :: "cstring \<Rightarrow> bool \<Rightarrow> cstring \<Rightarrow> cstring" where
  "writePath url hierarchical path =
     (if \<not> hierarchical then escapeAndAppendNonHierarchicalPart path
      else if \<not> hasSlashDotOrDotDot url then appendEscapingBadChars path
      else appendEscapingBadChars (copyPathRemovingDots path))"

text \<open>\<^verbatim>\<open>for (i = m_pathEnd; i > m_portEnd; --i) if (buffer[i - 1] == '/') break;\<close> over the path.\<close>

definition afterLastSlash :: "nat \<Rightarrow> cstring \<Rightarrow> nat" where
  "afterLastSlash start path = start + length (dropWhile (\<lambda>c. c \<noteq> 47) (rev path))"

definition assemble :: "cstring \<Rightarrow> nat \<Rightarrow> Authority \<Rightarrow> URL" where
  "assemble url schemeEnd a =
     (let hierarchical = (char_at url (schemeEnd + 1) = 47);
          isFile = isFileScheme url schemeEnd;
          pathEnd = scan (\<lambda>c. c \<noteq> 63 \<and> c \<noteq> 35) url (a_portEnd a);
          queryEnd = (if char_at url pathEnd = 63 then scan (\<lambda>c. c \<noteq> 35) url pathEnd else pathEnd);
          hasFragment = (char_at url queryEnd = 35);
          scheme = map toASCIILower_char (take schemeEnd url);
          b = scheme @ [58];
          authority = writesAuthority url a isFile pathEnd;
          b = b @ (if authority \<or> isFile then [47, 47] else []);
          userStart = length b;
          b = b @ (if authority then writeUser url a else []);
          userEnd = length b;
          b = b @ (if authority then writePassword url a else []);
          passwordEnd = length b;
          b = b @ (if authority \<and> passwordEnd \<noteq> userStart then [64] else []);
          b = b @ (if authority then writeHost url a isFile scheme else []);
          hostEnd = length b;
          b = b @ (if authority then writePort url a scheme else []);
          port = length b;
          path = (if (isHTTPFamily url \<or> isFile) \<and> pathEnd = a_portEnd a then [47] else [])
            @ writePath url hierarchical (slice url (a_portEnd a) pathEnd);
          b = b @ path;
          path' = length b;
          b = b @ appendEscapingBadChars (slice url pathEnd queryEnd);
          query = length b;
          b = b @ (if hasFragment
            then 35 # escapeAndAppendNonHierarchicalPart (drop (queryEnd + 1) url) else []) in
      \<lparr>m_string = map ucast b, m_isValid = True, m_protocolIsInHTTPFamily = isHTTPFamily url,
        m_schemeEnd = length scheme, m_userStart = userStart, m_userEnd = userEnd,
        m_passwordEnd = passwordEnd, m_hostEnd = hostEnd, m_portEnd = port,
        m_pathAfterLastSlash = afterLastSlash port path, m_pathEnd = path', m_queryEnd = query,
        m_fragmentEnd = length b\<rparr>)"

definition parse_chars :: "cstring \<Rightarrow> ustring \<Rightarrow> URL" where
  "parse_chars url originalString =
     (if url = [] \<or> \<not> isSchemeFirstChar (char_at url 0) then invalidate originalString
      else (let schemeEnd = scan isSchemeChar url 0 in
        if char_at url schemeEnd \<noteq> 58 then invalidate originalString
        else (case findAuthority url schemeEnd of
            None \<Rightarrow> invalidate originalString
          | Some a \<Rightarrow> assemble url schemeEnd a)))"

definition parse :: "ustring \<Rightarrow> URL" where
  "parse str = parse_chars (copyASCII str) str"


section \<open>Accessors\<close>

text \<open>\<^verbatim>\<open>String::operator[]\<close> is 0 out of range.\<close>

definition code_unit :: "ustring \<Rightarrow> nat \<Rightarrow> u16" where
  "code_unit s i = (if i < length s then s ! i else 0)"

definition maximumValidPortNumber :: nat where "maximumValidPortNumber = 0xFFFE"
definition invalidPortNumber :: u16 where "invalidPortNumber = 0xFFFF"

definition hasPath :: "URL \<Rightarrow> bool" where
  "hasPath u \<longleftrightarrow> m_pathEnd u \<noteq> m_portEnd u"

definition hasPort :: "URL \<Rightarrow> bool" where
  "hasPort u \<longleftrightarrow> m_hostEnd u < m_portEnd u"

definition url_hostStart :: "URL \<Rightarrow> nat" where
  "url_hostStart u = (if m_passwordEnd u = m_userStart u then m_passwordEnd u else m_passwordEnd u + 1)"

definition protocol :: "URL \<Rightarrow> ustring" where
  "protocol u = take (m_schemeEnd u) (m_string u)"

definition host :: "URL \<Rightarrow> ustring" where
  "host u = slice (m_string u) (url_hostStart u) (m_hostEnd u)"

text \<open>The characters between the host and the path of a parsed URL are digits: no white space of ICU.\<close>

definition port :: "URL \<Rightarrow> u16" where
  "port u =
     (if m_hostEnd u = m_portEnd u \<or> Suc (m_hostEnd u) = m_portEnd u then 0
      else (let (number, ok) = charactersToUIntStrict (\<lambda>_. False) (slice (m_string u) (m_hostEnd u + 1) (m_portEnd u)) in
        if \<not> ok \<or> unat number > maximumValidPortNumber then invalidPortNumber else ucast number))"

definition encodedUser :: "URL \<Rightarrow> ustring" where
  "encodedUser u = slice (m_string u) (m_userStart u) (m_userEnd u)"

definition encodedPass :: "URL \<Rightarrow> ustring option" where
  "encodedPass u = (if m_passwordEnd u = m_userEnd u then None
     else Some (slice (m_string u) (m_userEnd u + 1) (m_passwordEnd u)))"

definition fragmentIdentifier :: "URL \<Rightarrow> ustring option" where
  "fragmentIdentifier u = (if m_fragmentEnd u = m_queryEnd u then None
     else Some (slice (m_string u) (m_queryEnd u + 1) (m_fragmentEnd u)))"

definition hasFragmentIdentifier :: "URL \<Rightarrow> bool" where
  "hasFragmentIdentifier u \<longleftrightarrow> m_fragmentEnd u \<noteq> m_queryEnd u"

definition baseAsString :: "URL \<Rightarrow> ustring" where
  "baseAsString u = take (m_pathAfterLastSlash u) (m_string u)"

definition query :: "URL \<Rightarrow> ustring option" where
  "query u = (if m_queryEnd u = m_pathEnd u then None
     else Some (slice (m_string u) (m_pathEnd u + 1) (m_queryEnd u)))"

definition url_path :: "URL \<Rightarrow> ustring" where
  "url_path u = slice (m_string u) (m_portEnd u) (m_pathEnd u)"

definition lastPathComponent :: "URL \<Rightarrow> ustring option" where
  "lastPathComponent u =
     (if \<not> hasPath u then None
      else (let end = m_pathEnd u - 1;
                end = (if code_unit (m_string u) end = 47 then end - 1 else end);
                beforePath = rev (dropWhile (\<lambda>c. c \<noteq> 47) (rev (take (end + 1) (m_string u)))) in
        if beforePath = [] \<or> length beforePath - 1 < m_portEnd u then None
        else Some (slice (m_string u) (length beforePath) (end + 1))))"

text \<open>\<^verbatim>\<open>URL::protocolIs\<close> for an argument that is a lower case scheme.\<close>

definition protocolIs :: "URL \<Rightarrow> string \<Rightarrow> bool" where
  "protocolIs u p \<longleftrightarrow> m_isValid u \<and> length p = m_schemeEnd u
     \<and> list_all2 isSchemeCharacterMatchIgnoringCase (take (m_schemeEnd u) (m_string u)) (lit p)"

definition protocolIsData :: "URL \<Rightarrow> bool" where
  "protocolIsData u \<longleftrightarrow> protocolIs u ''data''"

definition isLocalFile :: "URL \<Rightarrow> bool" where
  "isLocalFile u \<longleftrightarrow> protocolIs u ''file''"

definition isBlankURL :: "URL \<Rightarrow> bool" where
  "isBlankURL u \<longleftrightarrow> protocolIs u ''about''"

definition isHierarchical :: "URL \<Rightarrow> bool" where
  "isHierarchical u \<longleftrightarrow> m_isValid u \<and> slice (m_string u) (m_schemeEnd u + 1) (m_schemeEnd u + 2) = [47]"

definition url_eq :: "URL \<Rightarrow> URL \<Rightarrow> bool" where
  "url_eq a b \<longleftrightarrow> m_string a = m_string b"

definition equalIgnoringFragmentIdentifier :: "URL \<Rightarrow> URL \<Rightarrow> bool" where
  "equalIgnoringFragmentIdentifier a b \<longleftrightarrow> m_queryEnd a = m_queryEnd b
     \<and> take (m_queryEnd a) (m_string a) = take (m_queryEnd a) (m_string b)"

definition protocolHostAndPortAreEqual :: "URL \<Rightarrow> URL \<Rightarrow> bool" where
  "protocolHostAndPortAreEqual a b \<longleftrightarrow> m_schemeEnd a = m_schemeEnd b
     \<and> m_hostEnd a - url_hostStart a = m_hostEnd b - url_hostStart b
     \<and> take (m_schemeEnd a) (m_string a) = take (m_schemeEnd a) (m_string b)
     \<and> host a = host b \<and> port a = port b"

text \<open>The functions on strings.\<close>

definition string_protocolIs :: "ustring \<Rightarrow> string \<Rightarrow> bool" where
  "string_protocolIs url p \<longleftrightarrow>
     list_all2 isLetterMatchIgnoringCase (take (length p) url) (lit p) \<and> slice url (length p) (length p + 1) = [58]"

definition protocolIsJavaScript :: "ustring \<Rightarrow> bool" where
  "protocolIsJavaScript url \<longleftrightarrow> string_protocolIs url ''javascript''"

definition isValidProtocol :: "ustring \<Rightarrow> bool" where
  "isValidProtocol p \<longleftrightarrow> (case p of [] \<Rightarrow> False | c # cs \<Rightarrow> isSchemeFirstChar16 c \<and> list_all isSchemeChar16 cs)"

definition lower :: "ustring \<Rightarrow> ustring" where
  "lower s = map toASCIILower s"

definition isDefaultPortForProtocol :: "u16 \<Rightarrow> ustring \<Rightarrow> bool" where
  "isDefaultPortForProtocol p s =
     (if s = [] then False
      else if lower s = lit ''http'' then p = 80
      else if lower s = lit ''https'' then p = 443
      else if lower s = lit ''ftp'' then p = 21
      else if lower s = lit ''ftps'' then p = 990
      else p = 0)"

definition blockedPortList :: "u16 list" where
  "blockedPortList = [1, 7, 9, 11, 13, 15, 17, 19, 20, 21, 22, 23, 25, 37, 42, 43, 53, 77, 79, 87, 95,
     101, 102, 103, 104, 109, 110, 111, 113, 115, 117, 119, 123, 135, 139, 143, 179, 389, 465, 512,
     513, 514, 515, 526, 530, 531, 532, 540, 556, 563, 587, 601, 636, 993, 995, 2049, 3659, 4045,
     6000, 6665, 6666, 6667, 6668, 6669, invalidPortNumber]"

text \<open>\<^verbatim>\<open>std::binary_search\<close> on the sorted list.\<close>

function binary_search :: "u16 list \<Rightarrow> u16 \<Rightarrow> bool" where
  "binary_search xs x =
     (if xs = [] then False
      else (let m = length xs div 2 in
        if xs ! m < x then binary_search (drop (Suc m) xs) x
        else if x < xs ! m then binary_search (take m xs) x
        else True))"
  by pat_completeness auto
termination
  by (relation "measure (\<lambda>(xs, _). length xs)") auto

definition portAllowed :: "URL \<Rightarrow> bool" where
  "portAllowed u =
     (let p = port u in
      if p = 0 then True
      else if \<not> binary_search blockedPortList p then True
      else if (p = 21 \<or> p = 22) \<and> protocolIs u ''ftp'' then True
      else protocolIs u ''file'')"

section \<open>Setters\<close>

text \<open>\<^verbatim>\<open>String::utf8\<close> is the argument \<open>utf8\<close>.\<close>

definition percentEncodeClassTable :: "u8 \<Rightarrow> nat" where
  "percentEncodeClassTable c =
     (if c \<le> 31 then 255
      else if c = 32 \<or> c = 34 \<or> c = 35 \<or> c = 60 \<or> c = 62 \<or> c = 63 \<or> c = 96 then 127
      else if c = 47 \<or> c = 64 \<or> c = 92 then 63
      else if c = 58 then 31
      else if c \<ge> 127 then 255
      else 0)"

definition encodeWithURLEscapeSequences_class :: "(ustring \<Rightarrow> cstring) \<Rightarrow> ustring \<Rightarrow> nat \<Rightarrow> ustring" where
  "encodeWithURLEscapeSequences_class utf8 s whatToEncode = map ucast (concat (map (\<lambda>c.
     if percentEncodeClassTable c \<ge> whatToEncode then appendEscapedChar c else [c]) (utf8 s)))"

definition encodeWithURLEscapeSequences :: "(ustring \<Rightarrow> cstring) \<Rightarrow> ustring \<Rightarrow> ustring" where
  "encodeWithURLEscapeSequences utf8 s =
     map ucast (concat (map (\<lambda>c. if isBadChar c then appendEscapedChar c else [c]) (utf8 s)))"

definition setProtocol :: "ustring \<Rightarrow> URL \<Rightarrow> bool \<times> URL" where
  "setProtocol s u = (let newProtocol = takeWhile (\<lambda>c. c \<noteq> 58) s in
     if \<not> isValidProtocol newProtocol then (False, u)
     else if \<not> m_isValid u then (True, parse (newProtocol @ 58 # m_string u))
     else (True, parse (newProtocol @ drop (m_schemeEnd u) (m_string u))))"

definition setHost :: "ustring \<Rightarrow> URL \<Rightarrow> URL" where
  "setHost s u = (if \<not> m_isValid u then u
     else parse (take (url_hostStart u) (m_string u)
       @ (if m_userStart u = m_schemeEnd u + 1 then lit ''//'' else []) @ s @ drop (m_hostEnd u) (m_string u)))"

definition removePort :: "URL \<Rightarrow> URL" where
  "removePort u = (if m_hostEnd u = m_portEnd u then u
     else parse (take (m_hostEnd u) (m_string u) @ drop (m_portEnd u) (m_string u)))"

definition setPort :: "u16 \<Rightarrow> URL \<Rightarrow> URL option" where
  "setPort i u = (if \<not> m_isValid u then Some u
     else (let colonNeeded = (m_portEnd u = m_hostEnd u);
               portStart = (if colonNeeded then m_hostEnd u else m_hostEnd u + 1) in do {
       digits \<leftarrow> numberToStringUnsigned i;
       Some (parse (take portStart (m_string u) @ (if colonNeeded then lit '':'' else []) @ widen digits
         @ drop (m_portEnd u) (m_string u)))
     }))"

definition setHostAndPort :: "ustring \<Rightarrow> URL \<Rightarrow> URL" where
  "setHostAndPort hostAndPort u = (if \<not> m_isValid u then u
     else parse (take (url_hostStart u) (m_string u)
       @ (if m_userStart u = m_schemeEnd u + 1 then lit ''//'' else []) @ hostAndPort
       @ drop (m_portEnd u) (m_string u)))"

definition setUser :: "(ustring \<Rightarrow> cstring) \<Rightarrow> ustring \<Rightarrow> URL \<Rightarrow> URL" where
  "setUser utf8 user u =
     (if \<not> m_isValid u then u
      else if user \<noteq> [] then
        (let end = m_userEnd u;
             e = encodeWithURLEscapeSequences_class utf8 user 31;
             e = (if m_userStart u = m_schemeEnd u + 1 then lit ''//'' @ e else e);
             e = (if end = m_hostEnd u \<or> (end = m_passwordEnd u \<and> code_unit (m_string u) end \<noteq> 64) then e @ lit ''@'' else e) in
         parse (take (m_userStart u) (m_string u) @ e @ drop end (m_string u)))
      else
        (let end = m_userEnd u;
             end = (if m_userEnd u = m_passwordEnd u \<and> end \<noteq> m_hostEnd u \<and> code_unit (m_string u) end = 64 then end + 1 else end) in
         if m_userStart u \<noteq> end then parse (take (m_userStart u) (m_string u) @ drop end (m_string u)) else u))"

definition setPass :: "(ustring \<Rightarrow> cstring) \<Rightarrow> ustring \<Rightarrow> URL \<Rightarrow> URL" where
  "setPass utf8 password u =
     (if \<not> m_isValid u then u
      else if password \<noteq> [] then
        (let end = m_passwordEnd u;
             e = lit '':'' @ encodeWithURLEscapeSequences_class utf8 password 63 @ lit ''@'';
             e = (if m_userEnd u = m_schemeEnd u + 1 then lit ''//'' @ e else e);
             end = (if end \<noteq> m_hostEnd u \<and> code_unit (m_string u) end = 64 then end + 1 else end) in
         parse (take (m_userEnd u) (m_string u) @ e @ drop end (m_string u)))
      else
        (let end = m_passwordEnd u;
             end = (if m_userStart u = m_userEnd u \<and> end \<noteq> m_hostEnd u \<and> code_unit (m_string u) end = 64 then end + 1 else end) in
         if m_userEnd u \<noteq> end then parse (take (m_userEnd u) (m_string u) @ drop end (m_string u)) else u))"

definition setFragmentIdentifier :: "ustring \<Rightarrow> URL \<Rightarrow> URL" where
  "setFragmentIdentifier s u = (if \<not> m_isValid u then u
     else parse (take (m_queryEnd u) (m_string u) @ lit ''#'' @ s))"

definition removeFragmentIdentifier :: "URL \<Rightarrow> URL" where
  "removeFragmentIdentifier u = (if \<not> m_isValid u then u else parse (take (m_queryEnd u) (m_string u)))"

definition setQuery :: "ustring option \<Rightarrow> URL \<Rightarrow> URL" where
  "setQuery q u = (if \<not> m_isValid u then u
     else (let s = (case q of None \<Rightarrow> [] | Some s \<Rightarrow> s) in
       if (s = [] \<or> hd s \<noteq> 63) \<and> q \<noteq> None
       then parse (take (m_pathEnd u) (m_string u) @ lit ''?'' @ s @ drop (m_queryEnd u) (m_string u))
       else parse (take (m_pathEnd u) (m_string u) @ s @ drop (m_queryEnd u) (m_string u))))"

definition setPath :: "(ustring \<Rightarrow> cstring) \<Rightarrow> ustring \<Rightarrow> URL \<Rightarrow> URL" where
  "setPath utf8 s u = (if \<not> m_isValid u then u
     else (let p = (if s = [] \<or> hd s \<noteq> 47 then lit ''/'' @ s else s) in
       parse (take (m_portEnd u) (m_string u) @ encodeWithURLEscapeSequences utf8 p @ drop (m_pathEnd u) (m_string u))))"

definition strippedForUseAsReferrer :: "(ustring \<Rightarrow> cstring) \<Rightarrow> URL \<Rightarrow> ustring" where
  "strippedForUseAsReferrer utf8 u = m_string (removeFragmentIdentifier (setPass utf8 [] (setUser utf8 [] u)))"


section \<open>Relative references\<close>

definition shouldTrimFromURL :: "u8 \<Rightarrow> bool" where
  "shouldTrimFromURL c \<longleftrightarrow> c \<le> 32"

definition substituteBackslashes :: "ustring \<Rightarrow> ustring" where
  "substituteBackslashes s = (let pathEnd = length (takeWhile (\<lambda>c. c \<noteq> 63 \<and> c \<noteq> 35) s) in
     map (\<lambda>c. if c = 92 then 47 else c) (take pathEnd s) @ drop pathEnd s)"

text \<open>The loop over the path of a relative reference: the buffer in reverse, and the rest of the reference.\<close>

function relativeLoop :: "nat \<Rightarrow> cstring \<Rightarrow> cstring \<Rightarrow> cstring \<times> cstring" where
  "relativeLoop pathStart dst [] = (dst, [])"
| "relativeLoop pathStart dst (c # rel) =
     (if c = 63 \<or> c = 35 then (dst, c # rel)
      else if c = 46 \<and> hd dst = 47 \<and> isPathSegmentEndChar (char_at rel 0) then
        relativeLoop pathStart dst (if char_at rel 0 = 47 then drop 1 rel else rel)
      else if c = 46 \<and> hd dst = 47 \<and> char_at rel 0 = 46 \<and> isPathSegmentEndChar (char_at rel 1) then
        relativeLoop pathStart
          (rewindSegment (pathStart + 1) (if length dst > pathStart + 1 then tl dst else dst))
          (if char_at rel 1 = 47 then drop 2 rel else drop 1 rel)
      else relativeLoop pathStart (c # dst) rel)"
  by pat_completeness auto
termination
  by (relation "measure (\<lambda>(_, _, rel). length rel)") auto

definition mergePaths :: "URL \<Rightarrow> cstring \<Rightarrow> cstring" where
  "mergePaths base str =
     (let baseString = map ucast (m_string base) :: cstring;
          beforePath = take (m_portEnd base) baseString;
          directory = rev (dropWhile (\<lambda>c. c \<noteq> 47) (rev (slice baseString (m_portEnd base) (m_pathEnd base))));
          buffer = beforePath @ (if directory = [] then
              (if m_schemeEnd base + 1 \<noteq> m_pathEnd base \<and> char_at str 0 \<noteq> 0 \<and> char_at str 0 \<noteq> 63
                  \<and> char_at str 0 \<noteq> 35 then [47] else [])
            else copyPathRemovingDots directory);
          (dst, rest) = relativeLoop (length beforePath) (rev buffer) str in
      rev dst @ rest)"

definition appendASCII :: "ustring \<Rightarrow> cstring \<Rightarrow> cstring" where
  "appendASCII base rel = copyASCII base @ rel"

definition resolveRelative :: "URL \<Rightarrow> cstring \<Rightarrow> ustring \<Rightarrow> URL" where
  "resolveRelative base str relative =
     (if \<not> isHierarchical base then
        (if char_at str 0 = 35 then parse_chars (appendASCII (take (m_queryEnd base) (m_string base)) str) relative
         else invalidate relative)
      else if str = [] then removeFragmentIdentifier base
      else if char_at str 0 = 35 then
        parse_chars (appendASCII (take (m_queryEnd base) (m_string base)) str) relative
      else if char_at str 0 = 63 then
        parse_chars (appendASCII (take (m_pathEnd base) (m_string base)) str) relative
      else if char_at str 0 = 47 then
        (if char_at str 1 = 47 then
           parse_chars (appendASCII (take (m_schemeEnd base + 1) (m_string base)) str) relative
         else parse_chars (appendASCII (take (m_portEnd base) (m_string base)) str) relative)
      else parse_chars (mergePaths base str) relative)"

text \<open>
  \<^verbatim>\<open>URL::init\<close>. The encoding of a reference that is not ASCII (host names by IDN, text encodings) is
  the argument \<open>encodeRelativeString\<close>. The reference is absolute when its scheme is not that of the base, or a slash
  follows, or the base is opaque.
\<close>

definition new_URL :: "(ustring \<Rightarrow> cstring) \<Rightarrow> URL \<Rightarrow> ustring \<Rightarrow> URL" where
  "new_URL encodeRelativeString base relative =
     (if \<not> m_isValid base \<and> m_string base \<noteq> [] then invalidate relative
      else (let rel = (if 92 \<in> set relative \<and> \<not> (protocolIsJavaScript relative \<or> string_protocolIs relative ''data'')
                then substituteBackslashes relative else relative);
                str = (if list_all isASCII rel then map ucast rel else encodeRelativeString rel);
                str = dropWhile shouldTrimFromURL str;
                str = takeWhile (\<lambda>c. c \<noteq> 0) (rev (dropWhile shouldTrimFromURL (rev str)));
                p = scan isSchemeChar str 0 in
        if isSchemeFirstChar (char_at str 0) \<and> char_at str p = 58 then
          (if char_at str (p + 1) \<noteq> 47 \<and> lower (protocol base) = lower (map ucast (take p str)) \<and> isHierarchical base
           then resolveRelative base (drop (p + 1) str) relative
           else parse_chars str relative)
        else resolveRelative base str relative))"

definition null_URL :: URL where
  "null_URL = invalidate []"

end
