(* ===== verification/SchemeRegistry.thy ===== *)
theory SchemeRegistry
  imports URL
begin

text \<open>
  \<^verbatim>\<open>Source/WebCore/platform/SchemeRegistry.cpp\<close>: the static sets of URL schemes. The state is the record
  of the sets; a set that the code fills on its first use is filled by the accessor here. The sets
  compare schemes without case, except the one for domain relaxation. \<^verbatim>\<open>PLATFORM(COCOA)\<close> is off,
  \<^verbatim>\<open>ENABLE(CACHE_PARTITIONING)\<close> on.
\<close>

type_synonym URLSchemesMap = "ustring list"

record Schemes =
  s_local :: URLSchemesMap
  s_displayIsolated :: URLSchemesMap
  s_secure :: URLSchemesMap
  s_uniqueOrigins :: URLSchemesMap
  s_emptyDocument :: URLSchemesMap
  s_domainRelaxation :: URLSchemesMap
  s_displayIfRequest :: URLSchemesMap
  s_notAllowingJavascript :: URLSchemesMap
  s_localStoragePrivate :: URLSchemesMap
  s_databasePrivate :: URLSchemesMap
  s_CORSEnabled :: URLSchemesMap
  s_CSPBypassing :: URLSchemesMap
  s_cachePartitioning :: URLSchemesMap

definition new_Schemes :: Schemes where
  "new_Schemes = \<lparr>s_local = [], s_displayIsolated = [], s_secure = [], s_uniqueOrigins = [], s_emptyDocument = [],
     s_domainRelaxation = [], s_displayIfRequest = [], s_notAllowingJavascript = [], s_localStoragePrivate = [],
     s_databasePrivate = [], s_CORSEnabled = [], s_CSPBypassing = [], s_cachePartitioning = []\<rparr>"

section \<open>The sets\<close>

text \<open>\<^verbatim>\<open>HashSet<String, CaseFoldingHash>\<close>.\<close>

definition contains_folded :: "URLSchemesMap \<Rightarrow> ustring \<Rightarrow> bool" where
  "contains_folded m scheme \<longleftrightarrow> lower scheme \<in> set (map lower m)"

definition add_folded :: "URLSchemesMap \<Rightarrow> ustring \<Rightarrow> URLSchemesMap" where
  "add_folded m scheme = (if contains_folded m scheme then m else m @ [scheme])"

definition remove_folded :: "URLSchemesMap \<Rightarrow> ustring \<Rightarrow> URLSchemesMap" where
  "remove_folded m scheme = filter (\<lambda>s. lower s \<noteq> lower scheme) m"

text \<open>A set with its first members.\<close>

definition initialised :: "string list \<Rightarrow> URLSchemesMap \<Rightarrow> URLSchemesMap" where
  "initialised first m = (if m = [] then map lit first else m)"

definition localURLSchemes :: "Schemes \<Rightarrow> URLSchemesMap" where
  "localURLSchemes st = initialised [''file''] (s_local st)"

definition displayIsolatedURLSchemes :: "Schemes \<Rightarrow> URLSchemesMap" where
  "displayIsolatedURLSchemes st = s_displayIsolated st"

definition secureSchemes :: "Schemes \<Rightarrow> URLSchemesMap" where
  "secureSchemes st = initialised [''https'', ''about'', ''data''] (s_secure st)"

definition schemesWithUniqueOrigins :: "Schemes \<Rightarrow> URLSchemesMap" where
  "schemesWithUniqueOrigins st = initialised [''about'', ''javascript'', ''data''] (s_uniqueOrigins st)"

definition emptyDocumentSchemes :: "Schemes \<Rightarrow> URLSchemesMap" where
  "emptyDocumentSchemes st = initialised [''about''] (s_emptyDocument st)"

definition schemesForbiddenFromDomainRelaxation :: "Schemes \<Rightarrow> URLSchemesMap" where
  "schemesForbiddenFromDomainRelaxation st = s_domainRelaxation st"

definition canDisplayOnlyIfCanRequestSchemes :: "Schemes \<Rightarrow> URLSchemesMap" where
  "canDisplayOnlyIfCanRequestSchemes st = initialised [''blob''] (s_displayIfRequest st)"

definition notAllowingJavascriptURLsSchemes :: "Schemes \<Rightarrow> URLSchemesMap" where
  "notAllowingJavascriptURLsSchemes st = s_notAllowingJavascript st"

definition schemesAllowingLocalStorageAccessInPrivateBrowsing :: "Schemes \<Rightarrow> URLSchemesMap" where
  "schemesAllowingLocalStorageAccessInPrivateBrowsing st = s_localStoragePrivate st"

definition schemesAllowingDatabaseAccessInPrivateBrowsing :: "Schemes \<Rightarrow> URLSchemesMap" where
  "schemesAllowingDatabaseAccessInPrivateBrowsing st = s_databasePrivate st"

definition CORSEnabledSchemes :: "Schemes \<Rightarrow> URLSchemesMap" where
  "CORSEnabledSchemes st = initialised [''http'', ''https''] (s_CORSEnabled st)"

definition ContentSecurityPolicyBypassingSchemes :: "Schemes \<Rightarrow> URLSchemesMap" where
  "ContentSecurityPolicyBypassingSchemes st = s_CSPBypassing st"

definition cachePartitioningSchemes :: "Schemes \<Rightarrow> URLSchemesMap" where
  "cachePartitioningSchemes st = s_cachePartitioning st"

section \<open>Registration and queries\<close>

definition registerURLSchemeAsLocal :: "ustring \<Rightarrow> Schemes \<Rightarrow> Schemes" where
  "registerURLSchemeAsLocal scheme st = st\<lparr>s_local := add_folded (localURLSchemes st) scheme\<rparr>"

definition removeURLSchemeRegisteredAsLocal :: "ustring \<Rightarrow> Schemes \<Rightarrow> Schemes" where
  "removeURLSchemeRegisteredAsLocal scheme st =
     (if scheme = lit ''file'' then st else st\<lparr>s_local := remove_folded (localURLSchemes st) scheme\<rparr>)"

definition shouldTreatURLSchemeAsLocal :: "Schemes \<Rightarrow> ustring \<Rightarrow> bool" where
  "shouldTreatURLSchemeAsLocal st scheme \<longleftrightarrow> scheme \<noteq> [] \<and> contains_folded (localURLSchemes st) scheme"

definition registerURLSchemeAsNoAccess :: "ustring \<Rightarrow> Schemes \<Rightarrow> Schemes" where
  "registerURLSchemeAsNoAccess scheme st = st\<lparr>s_uniqueOrigins := add_folded (schemesWithUniqueOrigins st) scheme\<rparr>"

definition shouldTreatURLSchemeAsNoAccess :: "Schemes \<Rightarrow> ustring \<Rightarrow> bool" where
  "shouldTreatURLSchemeAsNoAccess st scheme \<longleftrightarrow> scheme \<noteq> [] \<and> contains_folded (schemesWithUniqueOrigins st) scheme"

definition registerURLSchemeAsDisplayIsolated :: "ustring \<Rightarrow> Schemes \<Rightarrow> Schemes" where
  "registerURLSchemeAsDisplayIsolated scheme st =
     st\<lparr>s_displayIsolated := add_folded (displayIsolatedURLSchemes st) scheme\<rparr>"

definition shouldTreatURLSchemeAsDisplayIsolated :: "Schemes \<Rightarrow> ustring \<Rightarrow> bool" where
  "shouldTreatURLSchemeAsDisplayIsolated st scheme \<longleftrightarrow>
     scheme \<noteq> [] \<and> contains_folded (displayIsolatedURLSchemes st) scheme"

definition registerURLSchemeAsSecure :: "ustring \<Rightarrow> Schemes \<Rightarrow> Schemes" where
  "registerURLSchemeAsSecure scheme st = st\<lparr>s_secure := add_folded (secureSchemes st) scheme\<rparr>"

definition shouldTreatURLSchemeAsSecure :: "Schemes \<Rightarrow> ustring \<Rightarrow> bool" where
  "shouldTreatURLSchemeAsSecure st scheme \<longleftrightarrow> scheme \<noteq> [] \<and> contains_folded (secureSchemes st) scheme"

definition registerURLSchemeAsEmptyDocument :: "ustring \<Rightarrow> Schemes \<Rightarrow> Schemes" where
  "registerURLSchemeAsEmptyDocument scheme st = st\<lparr>s_emptyDocument := add_folded (emptyDocumentSchemes st) scheme\<rparr>"

definition shouldLoadURLSchemeAsEmptyDocument :: "Schemes \<Rightarrow> ustring \<Rightarrow> bool" where
  "shouldLoadURLSchemeAsEmptyDocument st scheme \<longleftrightarrow> scheme \<noteq> [] \<and> contains_folded (emptyDocumentSchemes st) scheme"

definition setDomainRelaxationForbiddenForURLScheme :: "bool \<Rightarrow> ustring \<Rightarrow> Schemes \<Rightarrow> Schemes" where
  "setDomainRelaxationForbiddenForURLScheme forbidden scheme st =
     (if scheme = [] then st
      else if forbidden then st\<lparr>s_domainRelaxation := List.insert scheme (schemesForbiddenFromDomainRelaxation st)\<rparr>
      else st\<lparr>s_domainRelaxation := filter (\<lambda>s. s \<noteq> scheme) (schemesForbiddenFromDomainRelaxation st)\<rparr>)"

definition isDomainRelaxationForbiddenForURLScheme :: "Schemes \<Rightarrow> ustring \<Rightarrow> bool" where
  "isDomainRelaxationForbiddenForURLScheme st scheme \<longleftrightarrow>
     scheme \<noteq> [] \<and> scheme \<in> set (schemesForbiddenFromDomainRelaxation st)"

definition canDisplayOnlyIfCanRequest :: "Schemes \<Rightarrow> ustring \<Rightarrow> bool" where
  "canDisplayOnlyIfCanRequest st scheme \<longleftrightarrow>
     scheme \<noteq> [] \<and> contains_folded (canDisplayOnlyIfCanRequestSchemes st) scheme"

definition registerAsCanDisplayOnlyIfCanRequest :: "ustring \<Rightarrow> Schemes \<Rightarrow> Schemes" where
  "registerAsCanDisplayOnlyIfCanRequest scheme st =
     st\<lparr>s_displayIfRequest := add_folded (canDisplayOnlyIfCanRequestSchemes st) scheme\<rparr>"

definition registerURLSchemeAsNotAllowingJavascriptURLs :: "ustring \<Rightarrow> Schemes \<Rightarrow> Schemes" where
  "registerURLSchemeAsNotAllowingJavascriptURLs scheme st =
     st\<lparr>s_notAllowingJavascript := add_folded (notAllowingJavascriptURLsSchemes st) scheme\<rparr>"

definition shouldTreatURLSchemeAsNotAllowingJavascriptURLs :: "Schemes \<Rightarrow> ustring \<Rightarrow> bool" where
  "shouldTreatURLSchemeAsNotAllowingJavascriptURLs st scheme \<longleftrightarrow>
     scheme \<noteq> [] \<and> contains_folded (notAllowingJavascriptURLsSchemes st) scheme"

definition registerURLSchemeAsAllowingLocalStorageAccessInPrivateBrowsing :: "ustring \<Rightarrow> Schemes \<Rightarrow> Schemes" where
  "registerURLSchemeAsAllowingLocalStorageAccessInPrivateBrowsing scheme st =
     st\<lparr>s_localStoragePrivate := add_folded (schemesAllowingLocalStorageAccessInPrivateBrowsing st) scheme\<rparr>"

definition allowsLocalStorageAccessInPrivateBrowsing :: "Schemes \<Rightarrow> ustring \<Rightarrow> bool" where
  "allowsLocalStorageAccessInPrivateBrowsing st scheme \<longleftrightarrow>
     scheme \<noteq> [] \<and> contains_folded (schemesAllowingLocalStorageAccessInPrivateBrowsing st) scheme"

definition registerURLSchemeAsAllowingDatabaseAccessInPrivateBrowsing :: "ustring \<Rightarrow> Schemes \<Rightarrow> Schemes" where
  "registerURLSchemeAsAllowingDatabaseAccessInPrivateBrowsing scheme st =
     st\<lparr>s_databasePrivate := add_folded (schemesAllowingDatabaseAccessInPrivateBrowsing st) scheme\<rparr>"

definition allowsDatabaseAccessInPrivateBrowsing :: "Schemes \<Rightarrow> ustring \<Rightarrow> bool" where
  "allowsDatabaseAccessInPrivateBrowsing st scheme \<longleftrightarrow>
     scheme \<noteq> [] \<and> contains_folded (schemesAllowingDatabaseAccessInPrivateBrowsing st) scheme"

definition registerURLSchemeAsCORSEnabled :: "ustring \<Rightarrow> Schemes \<Rightarrow> Schemes" where
  "registerURLSchemeAsCORSEnabled scheme st = st\<lparr>s_CORSEnabled := add_folded (CORSEnabledSchemes st) scheme\<rparr>"

definition shouldTreatURLSchemeAsCORSEnabled :: "Schemes \<Rightarrow> ustring \<Rightarrow> bool" where
  "shouldTreatURLSchemeAsCORSEnabled st scheme \<longleftrightarrow> scheme \<noteq> [] \<and> contains_folded (CORSEnabledSchemes st) scheme"

definition registerURLSchemeAsBypassingContentSecurityPolicy :: "ustring \<Rightarrow> Schemes \<Rightarrow> Schemes" where
  "registerURLSchemeAsBypassingContentSecurityPolicy scheme st =
     st\<lparr>s_CSPBypassing := add_folded (ContentSecurityPolicyBypassingSchemes st) scheme\<rparr>"

definition removeURLSchemeRegisteredAsBypassingContentSecurityPolicy :: "ustring \<Rightarrow> Schemes \<Rightarrow> Schemes" where
  "removeURLSchemeRegisteredAsBypassingContentSecurityPolicy scheme st =
     st\<lparr>s_CSPBypassing := remove_folded (ContentSecurityPolicyBypassingSchemes st) scheme\<rparr>"

definition schemeShouldBypassContentSecurityPolicy :: "Schemes \<Rightarrow> ustring \<Rightarrow> bool" where
  "schemeShouldBypassContentSecurityPolicy st scheme \<longleftrightarrow>
     scheme \<noteq> [] \<and> contains_folded (ContentSecurityPolicyBypassingSchemes st) scheme"

definition shouldCacheResponsesFromURLSchemeIndefinitely :: "ustring \<Rightarrow> bool" where
  "shouldCacheResponsesFromURLSchemeIndefinitely scheme \<longleftrightarrow> lower scheme = lit ''data''"

definition registerURLSchemeAsCachePartitioned :: "ustring \<Rightarrow> Schemes \<Rightarrow> Schemes" where
  "registerURLSchemeAsCachePartitioned scheme st =
     st\<lparr>s_cachePartitioning := add_folded (cachePartitioningSchemes st) scheme\<rparr>"

definition shouldPartitionCacheForURLScheme :: "Schemes \<Rightarrow> ustring \<Rightarrow> bool" where
  "shouldPartitionCacheForURLScheme st scheme \<longleftrightarrow> scheme \<noteq> [] \<and> contains_folded (cachePartitioningSchemes st) scheme"


section \<open>The contract of a set of schemes\<close>

locale scheme_set =
  fixes register :: "ustring \<Rightarrow> Schemes \<Rightarrow> Schemes"
    and query :: "Schemes \<Rightarrow> ustring \<Rightarrow> bool"
  assumes query_register: "query (register s st) t \<longleftrightarrow> (t \<noteq> [] \<and> lower t = lower s) \<or> query st t"
begin

lemma register_commutes: "query (register s (register t st)) u = query (register t (register s st)) u"
  by (auto simp: query_register)

lemma register_idempotent: "query (register s (register s st)) = query (register s st)"
  by (auto simp: fun_eq_iff query_register)

lemma query_registered:
  "query (fold register ss st) t \<longleftrightarrow> (t \<noteq> [] \<and> lower t \<in> lower ` set ss) \<or> query st t"
  by (induction ss arbitrary: st) (auto simp: query_register)

end

lemma contains_add [simp]: "contains_folded (add_folded m s) t \<longleftrightarrow> lower t = lower s \<or> contains_folded m t"
  by (auto simp: contains_folded_def add_folded_def)

lemma add_nonempty [simp]: "add_folded m s \<noteq> []"
  by (auto simp: add_folded_def contains_folded_def)

lemma initialised_add [simp]: "initialised first (add_folded m s) = add_folded m s"
  by (simp add: initialised_def)

named_theorems scheme_defs \<open>the static sets unfolded\<close>

lemmas [scheme_defs] = localURLSchemes_def displayIsolatedURLSchemes_def secureSchemes_def
  schemesWithUniqueOrigins_def emptyDocumentSchemes_def canDisplayOnlyIfCanRequestSchemes_def
  notAllowingJavascriptURLsSchemes_def schemesAllowingLocalStorageAccessInPrivateBrowsing_def
  schemesAllowingDatabaseAccessInPrivateBrowsing_def CORSEnabledSchemes_def
  ContentSecurityPolicyBypassingSchemes_def cachePartitioningSchemes_def

interpretation local: scheme_set registerURLSchemeAsLocal shouldTreatURLSchemeAsLocal
  by unfold_locales (auto simp: registerURLSchemeAsLocal_def shouldTreatURLSchemeAsLocal_def scheme_defs)

interpretation noAccess: scheme_set registerURLSchemeAsNoAccess shouldTreatURLSchemeAsNoAccess
  by unfold_locales (auto simp: registerURLSchemeAsNoAccess_def shouldTreatURLSchemeAsNoAccess_def scheme_defs)

interpretation displayIsolated: scheme_set registerURLSchemeAsDisplayIsolated shouldTreatURLSchemeAsDisplayIsolated
  by unfold_locales
    (auto simp: registerURLSchemeAsDisplayIsolated_def shouldTreatURLSchemeAsDisplayIsolated_def scheme_defs)

interpretation secure: scheme_set registerURLSchemeAsSecure shouldTreatURLSchemeAsSecure
  by unfold_locales (auto simp: registerURLSchemeAsSecure_def shouldTreatURLSchemeAsSecure_def scheme_defs)

interpretation emptyDocument: scheme_set registerURLSchemeAsEmptyDocument shouldLoadURLSchemeAsEmptyDocument
  by unfold_locales (auto simp: registerURLSchemeAsEmptyDocument_def shouldLoadURLSchemeAsEmptyDocument_def scheme_defs)

interpretation displayIfRequest: scheme_set registerAsCanDisplayOnlyIfCanRequest canDisplayOnlyIfCanRequest
  by unfold_locales (auto simp: registerAsCanDisplayOnlyIfCanRequest_def canDisplayOnlyIfCanRequest_def scheme_defs)

interpretation noJavascript: scheme_set registerURLSchemeAsNotAllowingJavascriptURLs
    shouldTreatURLSchemeAsNotAllowingJavascriptURLs
  by unfold_locales
    (auto simp: registerURLSchemeAsNotAllowingJavascriptURLs_def shouldTreatURLSchemeAsNotAllowingJavascriptURLs_def scheme_defs)

interpretation localStorage: scheme_set registerURLSchemeAsAllowingLocalStorageAccessInPrivateBrowsing
    allowsLocalStorageAccessInPrivateBrowsing
  by unfold_locales
    (auto simp: registerURLSchemeAsAllowingLocalStorageAccessInPrivateBrowsing_def
      allowsLocalStorageAccessInPrivateBrowsing_def scheme_defs)

interpretation database: scheme_set registerURLSchemeAsAllowingDatabaseAccessInPrivateBrowsing
    allowsDatabaseAccessInPrivateBrowsing
  by unfold_locales
    (auto simp: registerURLSchemeAsAllowingDatabaseAccessInPrivateBrowsing_def
      allowsDatabaseAccessInPrivateBrowsing_def scheme_defs)

interpretation CORS: scheme_set registerURLSchemeAsCORSEnabled shouldTreatURLSchemeAsCORSEnabled
  by unfold_locales (auto simp: registerURLSchemeAsCORSEnabled_def shouldTreatURLSchemeAsCORSEnabled_def scheme_defs)

interpretation CSPBypass: scheme_set registerURLSchemeAsBypassingContentSecurityPolicy
    schemeShouldBypassContentSecurityPolicy
  by unfold_locales
    (auto simp: registerURLSchemeAsBypassingContentSecurityPolicy_def schemeShouldBypassContentSecurityPolicy_def scheme_defs)

interpretation cachePartition: scheme_set registerURLSchemeAsCachePartitioned shouldPartitionCacheForURLScheme
  by unfold_locales (auto simp: registerURLSchemeAsCachePartitioned_def shouldPartitionCacheForURLScheme_def scheme_defs)

text \<open>
  After any registrations the local schemes are \<^verbatim>\<open>file\<close> and the registered ones, whatever the case of the
  letters, and the empty scheme is never local.
\<close>

lemma local_schemes:
  "shouldTreatURLSchemeAsLocal (fold registerURLSchemeAsLocal ss new_Schemes) t
     \<longleftrightarrow> t \<noteq> [] \<and> (lower t = lit ''file'' \<or> lower t \<in> lower ` set ss)"
proof -
  have "lower (lit ''file'') = lit ''file''" by code_simp
  then have "shouldTreatURLSchemeAsLocal new_Schemes t \<longleftrightarrow> t \<noteq> [] \<and> lower t = lit ''file''"
    by (simp add: shouldTreatURLSchemeAsLocal_def contains_folded_def initialised_def new_Schemes_def scheme_defs)
  then show ?thesis by (auto simp: local.query_registered)
qed

text \<open>
  \<^verbatim>\<open>removeURLSchemeRegisteredAsLocal\<close> means to keep \<^verbatim>\<open>file\<close>, but compares the scheme with case and removes
  it without: after another scheme was registered, removing \<^verbatim>\<open>FILE\<close> takes \<^verbatim>\<open>file\<close> out of the local
  schemes.
\<close>

lemma remove_FILE_removes_file:
  "shouldTreatURLSchemeAsLocal (registerURLSchemeAsLocal (lit ''app'') new_Schemes) (lit ''file'')
   \<and> \<not> shouldTreatURLSchemeAsLocal
       (removeURLSchemeRegisteredAsLocal (lit ''FILE'') (registerURLSchemeAsLocal (lit ''app'') new_Schemes)) (lit ''file'')"
  by code_simp

end
