(* ===== verification/URLParsing.thy ===== *)
theory URLParsing
  imports URL
begin

text \<open>
  What the URL parser promises: the ends of the components are in order and in range, the string of a
  valid URL is printable ASCII, the buffer is never overrun, the components put together give the
  string, and paths lose their dot segments. Three inputs on which the parser's result is not
  canonical are recorded at the end.
\<close>

section \<open>Scanning\<close>

lemma scan_ge [simp]: "i \<le> scan P url i"
  by (simp add: scan_def)

lemma scan_le: "i \<le> length url \<Longrightarrow> scan P url i \<le> length url"
  using length_takeWhile_le [of P "drop i url"] by (simp add: scan_def)

lemma slice_length [simp]: "b \<le> length xs \<Longrightarrow> length (slice xs a b) = b - a"
  by (simp add: slice_def)

lemma slice_scan: "slice url i (scan P url i) = takeWhile P (drop i url)"
  by (simp add: slice_def scan_def takeWhile_eq_take [symmetric])

lemma slice_scan_all: "list_all P (slice url i (scan P url i))"
  unfolding slice_scan list_all_iff by (blast dest: set_takeWhileD)

lemma slice_append:
  assumes "a \<le> b" "b \<le> c"
  shows "slice xs a c = slice xs a b @ slice xs b c"
proof -
  obtain m n where "b = a + m" "c = a + m + n" using assms by (metis le_Suc_ex)
  then show ?thesis by (simp add: slice_def take_add drop_drop add.commute)
qed

lemma scan_at:
  assumes "scan P url i < length url"
  shows "\<not> P (char_at url (scan P url i))"
proof -
  let ?n = "length (takeWhile P (drop i url))"
  have n: "i + ?n < length url" using assms by (simp only: scan_def)
  then have "\<not> P (drop i url ! ?n)" by (intro nth_length_takeWhile) simp
  then show ?thesis using n by (simp only: scan_def char_at_def if_True) (simp add: nth_drop)
qed

lemma char_at_outside: "\<not> P 0 \<Longrightarrow> P (char_at url i) \<Longrightarrow> i < length url"
  by (auto simp: char_at_def split: if_splits)

section \<open>Characters\<close>

definition printable :: "'a::len word \<Rightarrow> bool" where
  "printable c \<longleftrightarrow> 32 \<le> c \<and> c \<le> 126"

lemma table_low: "c < 32 \<Longrightarrow> characterClassTable c = (if c = 0 then PathSegmentEndChar else BadChar)"
  by (simp add: characterClassTable_def order_less_imp_le)

lemma table_high: "126 < c \<Longrightarrow> characterClassTable c = BadChar"
  unfolding characterClassTable_def word_le_nat_alt word_less_nat_alt word_unat_eq_iff by simp

lemma class_printable:
  assumes "characterClassTable c AND k \<noteq> 0" "PathSegmentEndChar AND k = 0" "BadChar AND k = 0"
  shows "printable c"
proof (rule ccontr)
  assume "\<not> printable c"
  then have "c < 32 \<or> 126 < c" by (simp only: printable_def not_le de_Morgan_conj)
  then have "characterClassTable c = PathSegmentEndChar \<or> characterClassTable c = BadChar"
    using table_low [of c] table_high [of c] by presburger
  then show False using assms by metis
qed

lemma printable_classes:
  "isSchemeChar c \<Longrightarrow> printable c" "isUserInfoChar c \<Longrightarrow> printable c"
  "isHostnameChar c \<Longrightarrow> printable c" "isIPv6Char c \<Longrightarrow> printable c"
  unfolding isSchemeChar_def isUserInfoChar_def isHostnameChar_def isIPv6Char_def
  by (erule class_printable;
      simp add: SchemeChar_def UserInfoChar_def HostnameChar_def IPv6Char_def PathSegmentEndChar_def BadChar_def)+


section \<open>The authority\<close>

definition isHostChar :: "u8 \<Rightarrow> bool" where
  "isHostChar c \<longleftrightarrow> isHostnameChar c \<or> isIPv6Char c \<or> c = 91 \<or> c = 93"

definition authority_ok :: "cstring \<Rightarrow> Authority \<Rightarrow> bool" where
  "authority_ok url a \<longleftrightarrow> a_userStart a \<le> a_userEnd a \<and> a_userEnd a \<le> a_passwordStart a
     \<and> a_passwordStart a \<le> a_passwordEnd a \<and> a_passwordEnd a \<le> a_hostStart a
     \<and> a_hostStart a \<le> a_hostEnd a \<and> a_hostEnd a \<le> a_portStart a \<and> a_portStart a \<le> a_portEnd a
     \<and> a_portEnd a \<le> length url
     \<and> (a_passwordStart a \<noteq> a_passwordEnd a \<longrightarrow> a_userEnd a < a_passwordStart a)
     \<and> (a_userStart a \<noteq> a_passwordEnd a \<longrightarrow> a_passwordEnd a < a_hostStart a)
     \<and> list_all isUserInfoChar (slice url (a_userStart a) (a_userEnd a))
     \<and> list_all isUserInfoChar (slice url (a_passwordStart a) (a_passwordEnd a))
     \<and> list_all isHostChar (slice url (a_hostStart a) (a_hostEnd a))
     \<and> list_all isASCIIDigit (slice url (a_portStart a) (a_portEnd a))"

lemma list_all_slice: "list_all P (slice xs a d) \<Longrightarrow> a \<le> b \<Longrightarrow> b \<le> c \<Longrightarrow> c \<le> d \<Longrightarrow> list_all P (slice xs b c)"
  using slice_append [of a b d xs] slice_append [of b c d xs] by simp

lemma slice_empty [simp]: "slice xs i i = []"
  by (simp add: slice_def)

lemma emptyAuthority_ok: "i \<le> length url \<Longrightarrow> authority_ok url (emptyAuthority i)"
  by (simp add: authority_ok_def emptyAuthority_def)

lemma authorityStart_bounds:
  assumes "se < length url"
  shows "Suc se \<le> authorityStart url se \<and> authorityStart url se \<le> length url"
proof -
  have "se + 1 < length url" if "char_at url (se + 1) = 47"
    using char_at_outside [of "\<lambda>c. c = 47" url "se + 1"] that by simp
  moreover have "se + 2 < length url" if "char_at url (se + 2) = 47"
    using char_at_outside [of "\<lambda>c. c = 47" url "se + 2"] that by simp
  moreover have "se + 3 \<le> scan (\<lambda>c. c = 47) url (se + 3)" by simp
  moreover have "se + 3 \<le> length url \<Longrightarrow> scan (\<lambda>c. c = 47) url (se + 3) \<le> length url" by (rule scan_le)
  ultimately show ?thesis using assms unfolding authorityStart_def by (auto simp del: scan_ge)
qed

lemma scan_mono: "(\<And>c. P c \<Longrightarrow> Q c) \<Longrightarrow> scan P url i \<le> scan Q url i"
proof -
  assume *: "\<And>c. P c \<Longrightarrow> Q c"
  have "length (takeWhile P xs) \<le> length (takeWhile Q xs)" for xs
    by (induction xs) (auto dest: *)
  then show ?thesis by (simp add: scan_def)
qed

lemma parseUserInfo_ok:
  assumes "parseUserInfo url us = Some (ue, ps, pe, hs)" "us \<le> length url"
  shows "us \<le> ue \<and> ue \<le> ps \<and> ps \<le> pe \<and> pe \<le> hs \<and> hs \<le> length url \<and> (ps \<noteq> pe \<longrightarrow> ue < ps)
    \<and> (us \<noteq> pe \<longrightarrow> pe < hs) \<and> list_all isUserInfoChar (slice url us ue) \<and> list_all isUserInfoChar (slice url ps pe)"
proof -
  let ?e = "scan isUserInfoChar url us" and ?c = "scan (\<lambda>c. isUserInfoChar c \<and> c \<noteq> 58) url us"
  have c: "us \<le> ?c" "?c \<le> ?e" using scan_mono [of "\<lambda>c. isUserInfoChar c \<and> c \<noteq> 58" isUserInfoChar] by simp_all
  have all: "list_all isUserInfoChar (slice url us ?e)" by (rule slice_scan_all)
  show ?thesis
  proof (cases "char_at url ?e = 64")
    case True
    then have e: "?e < length url" using char_at_outside [of "\<lambda>c. c = 64" url ?e] by simp
    show ?thesis
    proof (cases "?c < ?e")
      case lt: True
      then have eq: "ue = ?c" "ps = ?c + 1" "pe = ?e" "hs = ?e + 1" using assms(1) True by (simp_all add: parseUserInfo_def Let_def)
      have "list_all isUserInfoChar (slice url us ?c)" "list_all isUserInfoChar (slice url (?c + 1) ?e)"
        by (rule list_all_slice [OF all]; use c lt in linarith)+
      then show ?thesis using c e lt unfolding eq by simp
    next
      case False
      then have eq: "ue = ?e" "ps = ?e" "pe = ?e" "hs = ?e + 1" using assms(1) True by (simp_all add: parseUserInfo_def Let_def)
      then show ?thesis using c e all unfolding eq by simp
    qed
  next
    case False
    then have "ue = us" "ps = us" "pe = us" "hs = us"
      using assms(1) by (simp_all add: parseUserInfo_def Let_def split: if_splits)
    then show ?thesis using assms(2) by simp
  qed
qed

lemma list_all_scan_host: "list_all isHostChar (slice url i (scan isHostnameChar url i))"
  using slice_scan_all [of isHostnameChar url i] by (rule list.pred_mono_strong) (simp add: isHostChar_def)

lemma slice_Cons: "i < length url \<Longrightarrow> i < j \<Longrightarrow> slice url i j = url ! i # slice url (Suc i) j"
  by (simp add: slice_def Cons_nth_drop_Suc [symmetric] take_Cons' Suc_diff_Suc)

lemma slice_snoc: "i \<le> j \<Longrightarrow> j < length url \<Longrightarrow> slice url i (Suc j) = slice url i j @ [url ! j]"
  using slice_append [of i j "Suc j" url] slice_Cons [of j url "Suc j"] by simp

lemma parseHost_ok:
  assumes "parseHost url hs = Some he" "hs \<le> length url"
  shows "hs \<le> he \<and> he \<le> length url \<and> list_all isHostChar (slice url hs he)"
proof (cases "char_at url hs = 91")
  case True
  let ?e = "scan isIPv6Char url (hs + 1)"
  have h: "hs < length url" using True char_at_outside [of "\<lambda>c. c = 91" url hs] by simp
  have he: "he = Suc ?e" "char_at url ?e = 93" using assms(1) True by (auto simp: parseHost_def Let_def split: if_splits)
  then have e: "?e < length url" using char_at_outside [of "\<lambda>c. c = 93" url ?e] by simp
  have le: "hs + 1 \<le> ?e" by simp
  have "slice url hs he = url ! hs # slice url (Suc hs) ?e @ [url ! ?e]"
  proof -
    have "hs < he" "Suc hs \<le> ?e" using le he(1) by linarith+
    then show ?thesis using slice_Cons [of hs url he] slice_snoc [of "Suc hs" ?e url] h e he(1) by simp
  qed
  moreover have "url ! hs = 91" "url ! ?e = 93" using True he(2) h e by (simp_all add: char_at_def)
  moreover have "list_all isHostChar (slice url (Suc hs) ?e)"
    using slice_scan_all [of isIPv6Char url "hs + 1"] unfolding Suc_eq_plus1
    by (rule list.pred_mono_strong) (simp add: isHostChar_def)
  moreover have "hs \<le> he" using le he(1) by linarith
  ultimately show ?thesis using e he(1) by (simp add: isHostChar_def)
next
  case False
  then have "he = scan isHostnameChar url hs" using assms(1) by (simp add: parseHost_def)
  then show ?thesis using scan_le [OF assms(2), of isHostnameChar] list_all_scan_host by simp
qed

lemma parsePort_ok:
  assumes "parsePort url he = (ps, pe)" "he \<le> length url"
  shows "he \<le> ps \<and> ps \<le> pe \<and> pe \<le> length url \<and> list_all isASCIIDigit (slice url ps pe)"
proof (cases "char_at url he = 58")
  case True
  then have "he < length url" using char_at_outside [of "\<lambda>c. c = 58" url he] by simp
  then show ?thesis using assms True scan_le [of "he + 1" url isASCIIDigit] slice_scan_all [of isASCIIDigit url "he + 1"]
    by (auto simp: parsePort_def simp del: scan_ge intro: order_trans [OF _ scan_ge])
qed (use assms in \<open>auto simp: parsePort_def\<close>)


text \<open>
  An authority starts after the scheme and the colon, or it is the empty one that stands for no authority; the
  latter can overlap the scheme.
\<close>

definition overlapping :: "cstring \<Rightarrow> nat \<Rightarrow> Authority \<Rightarrow> bool" where
  "overlapping url se a \<longleftrightarrow> a = emptyAuthority (a_userStart a) \<and> se \<le> Suc (a_userStart a) \<and> 2 \<le> se
     \<and> \<not> isHTTPFamily url \<and> \<not> isFileScheme url se"

lemma authorityStart_slashes:
  "\<not> isNonFileHierarchicalScheme url se \<Longrightarrow> char_at url (se + 1) = 47 \<Longrightarrow> char_at url (se + 2) = 47 \<Longrightarrow>
     authorityStart url se = se + 3"
  by (simp add: authorityStart_def)

lemma nonFileScheme_length: "isNonFileHierarchicalScheme url se \<Longrightarrow> 2 \<le> se"
  by (simp add: isNonFileHierarchicalScheme_def split: if_splits)

lemma findAuthority_ok:
  assumes "findAuthority url se = Some a" "se < length url"
  shows "authority_ok url a \<and> (Suc se \<le> a_userStart a \<or> overlapping url se a)"
proof (cases "(char_at url (se + 1) = 47 \<and> char_at url (se + 2) = 47) \<or> isNonFileHierarchicalScheme url se")
  case False
  then have "a = emptyAuthority (se + 1)" using assms(1) by (simp only: findAuthority_def if_False option.inject)
  then show ?thesis using emptyAuthority_ok [of "se + 1" url] assms(2) by (simp add: emptyAuthority_def)
next
  case True
  let ?us = "authorityStart url se"
  note us = authorityStart_bounds [OF assms(2)]
  have pa: "parseAuthority url se = Some a" using assms(1) True by (simp add: findAuthority_def)
  then obtain ue ps pe hs where u: "parseUserInfo url ?us = Some (ue, ps, pe, hs)"
    by (cases "parseUserInfo url ?us") (auto simp: parseAuthority_def Let_def)
  with pa obtain he where h: "parseHost url hs = Some he"
    by (cases "parseHost url hs") (auto simp: parseAuthority_def Let_def)
  obtain qs qe where p: "parsePort url he = (qs, qe)" by force
  have ok: "authority_ok url \<lparr>a_userStart = ?us, a_userEnd = ue, a_passwordStart = ps, a_passwordEnd = pe,
      a_hostStart = hs, a_hostEnd = he, a_portStart = qs, a_portEnd = qe\<rparr>"
    using parseUserInfo_ok [OF u] parseHost_ok [OF h] parsePort_ok [OF p] us by (simp add: authority_ok_def)
  have pa': "(if \<not> isPathSegmentEndChar (char_at url qe) then None
      else if hostPortIsEmptyButCredentialsArePresent hs qe (char_at url pe) then None
      else if ?us = qe \<and> \<not> isHTTPFamily url \<and> \<not> isFileScheme url se then Some (emptyAuthority (?us - 2))
      else Some \<lparr>a_userStart = ?us, a_userEnd = ue, a_passwordStart = ps, a_passwordEnd = pe,
        a_hostStart = hs, a_hostEnd = he, a_portStart = qs, a_portEnd = qe\<rparr>) = Some a"
    using pa by (simp add: parseAuthority_def Let_def u h p)
  show ?thesis
  proof (cases "?us = qe \<and> \<not> isHTTPFamily url \<and> \<not> isFileScheme url se")
    case e: True
    then have a: "a = emptyAuthority (?us - 2)"
      using pa' by (simp split: if_splits)
    have "2 \<le> se \<or> Suc se \<le> ?us - 2"
    proof (cases "isNonFileHierarchicalScheme url se")
      case False
      then have "?us = se + 3" using True by (intro authorityStart_slashes) simp_all
      then show ?thesis by linarith
    qed (use nonFileScheme_length in blast)
    then show ?thesis using a e us emptyAuthority_ok [of "?us - 2" url]
      by (simp add: emptyAuthority_def overlapping_def) linarith
  next
    case False
    then have "a = \<lparr>a_userStart = ?us, a_userEnd = ue, a_passwordStart = ps, a_passwordEnd = pe,
      a_hostStart = hs, a_hostEnd = he, a_portStart = qs, a_portEnd = qe\<rparr>"
      using pa' by (simp only: if_False split: if_splits) simp_all
    then show ?thesis using ok us by simp
  qed
qed

section \<open>Escaping\<close>

lemma hexDigitUppercase_printable: "n < 16 \<Longrightarrow> printable (hexDigitUppercase n)"
proof -
  assume "n < 16"
  then have "unat n < 16" by (simp add: word_less_nat_alt)
  then have "unat n \<in> set [0..<16]" by simp
  moreover have "list_all (\<lambda>i. printable (hexDigitUppercase (word_of_nat i))) [0..<16]" by code_simp
  ultimately have "printable (hexDigitUppercase (word_of_nat (unat n)))" by (simp only: list_all_iff)
  then show ?thesis by simp
qed

lemma nibble_bounds: "drop_bit 4 (c :: u8) < 16" "c AND 15 < 16"
proof -
  have "unat c < 256" using unsigned_less [of c] by simp
  then have "unat c div 16 < 16" by (simp add: less_mult_imp_div_less)
  moreover have "unat (drop_bit 4 c) = unat c div 16" by (simp add: drop_bit_eq_div unat_div)
  ultimately show "drop_bit 4 c < 16" by (simp add: word_less_nat_alt)
  have "c AND 15 \<le> 15" by (rule word_and_le1)
  then show "c AND 15 < 16" by (rule order_le_less_trans) simp
qed

lemma appendEscapedChar_printable: "list_all printable (appendEscapedChar c)"
proof -
  have "printable (37 :: u8)" by (simp add: printable_def)
  then show ?thesis using nibble_bounds [of c] by (simp add: appendEscapedChar_def hexDigitUppercase_printable)
qed

lemma not_bad_printable: "\<not> isBadChar c \<Longrightarrow> c \<noteq> 0 \<Longrightarrow> printable c"
proof (rule ccontr)
  assume b: "\<not> isBadChar c" "c \<noteq> 0" and "\<not> printable c"
  then have "c < 32 \<or> 126 < c" by (simp only: printable_def not_le de_Morgan_conj)
  then have "characterClassTable c = BadChar" using table_low [of c] table_high [of c] b(2) by presburger
  then show False using b(1) by (simp add: isBadChar_def BadChar_def)
qed

lemma appendEscapingBadChars_printable:
  "0 \<notin> set str \<Longrightarrow> list_all printable (appendEscapingBadChars str)"
proof -
  have p: "printable (37 :: u8)" "printable (63 :: u8)" by (simp_all add: printable_def)
  show "0 \<notin> set str \<Longrightarrow> ?thesis"
    by (induction str)
      (simp_all add: appendEscapingBadChars_def p appendEscapedChar_printable not_bad_printable)
qed

lemma escapeNonHierarchical_printable: "list_all printable (escapeAndAppendNonHierarchicalPart str)"
proof -
  have "printable c" if "\<not> (c < 0x20 \<or> c \<ge> 127)" for c :: u8
  proof -
    have "c < 127" "32 \<le> c" using that by (simp_all only: de_Morgan_disj not_le not_less)
    then have "c \<le> 126" by (simp add: word_less_nat_alt word_le_nat_alt)
    then show ?thesis using \<open>32 \<le> c\<close> by (simp add: printable_def)
  qed
  then show ?thesis
    by (induction str) (simp_all add: escapeAndAppendNonHierarchicalPart_def appendEscapedChar_printable)
qed

lemma appendEscapingBadChars_length: "length (appendEscapingBadChars str) \<le> 3 * length str"
  by (induction str) (auto simp: appendEscapingBadChars_def appendEscapedChar_def)

lemma escapeNonHierarchical_length: "length (escapeAndAppendNonHierarchicalPart str) \<le> 3 * length str"
  by (induction str) (auto simp: escapeAndAppendNonHierarchicalPart_def appendEscapedChar_def)


section \<open>Dot segments\<close>

lemma rewindSegment_subset: "set (rewindSegment k xs) \<subseteq> set xs"
  by (induction k xs rule: rewindSegment.induct) auto

lemma rewindSegment_length: "length (rewindSegment k xs) \<le> length xs"
  by (induction k xs rule: rewindSegment.induct) auto

definition popped :: "cstring \<Rightarrow> cstring" where
  "popped dst = rewindSegment 0 (if length dst > 1 then tl dst else dst)"

lemma popped_subset: "set (popped dst) \<subseteq> set dst"
  using rewindSegment_subset [of 0 "tl dst"] rewindSegment_subset [of 0 dst] list.set_sel(2) [of dst]
  by (cases dst) (auto simp: popped_def split: if_splits)

lemma popped_length: "length (popped dst) \<le> length dst"
proof -
  have "length (tl dst) \<le> length dst" by simp
  then show ?thesis
    using rewindSegment_length [of 0 "tl dst"] rewindSegment_length [of 0 dst] unfolding popped_def by (simp del: length_tl)
qed

lemma copyDotsLoop_cases:
  obtains "copyDotsLoop dst (c # src) = copyDotsLoop dst (drop 1 src)" "c = 46" "hd dst = 47" "src = [] \<or> hd src = 47"
  | "copyDotsLoop dst (c # src) = copyDotsLoop (popped dst) (drop 2 src)" "c = 46" "hd dst = 47" "src \<noteq> []" "hd src = 46"
    "tl src = [] \<or> hd (tl src) = 47"
  | "copyDotsLoop dst (c # src) = copyDotsLoop (c # dst) src"
    "\<not> (c = 46 \<and> hd dst = 47 \<and> (src = [] \<or> hd src = 47))"
    "\<not> (c = 46 \<and> hd dst = 47 \<and> hd src = 46 \<and> (tl src = [] \<or> hd (tl src) = 47))"
  unfolding copyDotsLoop.simps popped_def by (auto simp del: copyDotsLoop.simps)

lemma copyDotsLoop_induct [case_names Nil Step]:
  assumes "\<And>dst. P dst []"
    and "\<And>dst c src. (\<And>dst' src'. length src' \<le> length src \<Longrightarrow> P dst' src') \<Longrightarrow> P dst (c # src)"
  shows "P dst src"
proof (induction "length src" arbitrary: dst src rule: less_induct)
  case less
  then show ?case by (cases src) (auto intro!: assms)
qed

lemma copyDotsLoop_subset: "set (copyDotsLoop dst src) \<subseteq> set dst \<union> set src"
proof (induction dst src rule: copyDotsLoop_induct)
  case (Step dst c src)
  have d: "set (drop n src) \<subseteq> set src" for n by (rule set_drop_subset)
  show ?case
  proof (cases rule: copyDotsLoop_cases [of dst c src])
    case 1
    show ?thesis unfolding 1(1) using Step [of "drop 1 src" dst] d [of 1] by auto
  next
    case 2
    show ?thesis unfolding 2(1) using Step [of "drop 2 src" "popped dst"] d [of 2] popped_subset [of dst] by auto
  next
    case 3
    show ?thesis unfolding 3(1) using Step [of src "c # dst"] by auto
  qed
qed simp

lemma copyDotsLoop_length: "length (copyDotsLoop dst src) \<le> length dst + length src"
proof (induction dst src rule: copyDotsLoop_induct)
  case (Step dst c src)
  show ?case
  proof (cases rule: copyDotsLoop_cases [of dst c src])
    case 1
    show ?thesis unfolding 1(1) using Step [of "drop 1 src" dst] by simp
  next
    case 2
    show ?thesis unfolding 2(1) using Step [of "drop 2 src" "popped dst"] popped_length [of dst] by simp
  next
    case 3
    show ?thesis unfolding 3(1) using Step [of src "c # dst"] by simp
  qed
qed simp

lemma copyPathRemovingDots_subset: "set (copyPathRemovingDots src) \<subseteq> set src"
  using copyDotsLoop_subset by (auto simp: copyPathRemovingDots_def split: list.splits) fastforce

lemma copyPathRemovingDots_length: "length (copyPathRemovingDots src) \<le> length src"
proof (cases src)
  case (Cons c cs)
  then show ?thesis using copyDotsLoop_length [of "[c]" cs] by (simp add: copyPathRemovingDots_def)
qed (simp add: copyPathRemovingDots_def)

lemma writePath_printable: "0 \<notin> set path \<Longrightarrow> list_all printable (writePath url h path)"
  using copyPathRemovingDots_subset [of path]
  by (auto simp: writePath_def intro!: escapeNonHierarchical_printable appendEscapingBadChars_printable)

lemma writePath_length: "length (writePath url h path) \<le> 3 * length path"
  using escapeNonHierarchical_length [of path] appendEscapingBadChars_length [of path]
    appendEscapingBadChars_length [of "copyPathRemovingDots path"] copyPathRemovingDots_length [of path]
  by (simp add: writePath_def)

section \<open>The pieces of the canonical string\<close>

definition src_pathEnd :: "cstring \<Rightarrow> Authority \<Rightarrow> nat" where
  "src_pathEnd url a = scan (\<lambda>c. c \<noteq> 63 \<and> c \<noteq> 35) url (a_portEnd a)"

definition src_queryEnd :: "cstring \<Rightarrow> Authority \<Rightarrow> nat" where
  "src_queryEnd url a = (if char_at url (src_pathEnd url a) = 63
     then scan (\<lambda>c. c \<noteq> 35) url (src_pathEnd url a) else src_pathEnd url a)"

definition p_scheme :: "cstring \<Rightarrow> nat \<Rightarrow> cstring" where
  "p_scheme url se = map toASCIILower_char (take se url)"

definition p_authority :: "cstring \<Rightarrow> nat \<Rightarrow> Authority \<Rightarrow> bool" where
  "p_authority url se a \<longleftrightarrow> writesAuthority url a (isFileScheme url se) (src_pathEnd url a)"

definition p_slashes :: "cstring \<Rightarrow> nat \<Rightarrow> Authority \<Rightarrow> cstring" where
  "p_slashes url se a = (if p_authority url se a \<or> isFileScheme url se then [47, 47] else [])"

definition p_user :: "cstring \<Rightarrow> nat \<Rightarrow> Authority \<Rightarrow> cstring" where
  "p_user url se a = (if p_authority url se a then writeUser url a else [])"

definition p_password :: "cstring \<Rightarrow> nat \<Rightarrow> Authority \<Rightarrow> cstring" where
  "p_password url se a = (if p_authority url se a then writePassword url a else [])"

definition p_at :: "cstring \<Rightarrow> nat \<Rightarrow> Authority \<Rightarrow> cstring" where
  "p_at url se a = (if p_authority url se a \<and> p_user url se a @ p_password url se a \<noteq> [] then [64] else [])"

definition p_host :: "cstring \<Rightarrow> nat \<Rightarrow> Authority \<Rightarrow> cstring" where
  "p_host url se a = (if p_authority url se a
     then writeHost url a (isFileScheme url se) (p_scheme url se) else [])"

definition p_port :: "cstring \<Rightarrow> nat \<Rightarrow> Authority \<Rightarrow> cstring" where
  "p_port url se a = (if p_authority url se a then writePort url a (p_scheme url se) else [])"

definition p_path :: "cstring \<Rightarrow> nat \<Rightarrow> Authority \<Rightarrow> cstring" where
  "p_path url se a =
     (if (isHTTPFamily url \<or> isFileScheme url se) \<and> src_pathEnd url a = a_portEnd a then [47] else [])
       @ writePath url (char_at url (se + 1) = 47) (slice url (a_portEnd a) (src_pathEnd url a))"

definition p_query :: "cstring \<Rightarrow> Authority \<Rightarrow> cstring" where
  "p_query url a = appendEscapingBadChars (slice url (src_pathEnd url a) (src_queryEnd url a))"

definition p_fragment :: "cstring \<Rightarrow> Authority \<Rightarrow> cstring" where
  "p_fragment url a = (if char_at url (src_queryEnd url a) = 35
     then 35 # escapeAndAppendNonHierarchicalPart (drop (src_queryEnd url a + 1) url) else [])"

lemmas piece_defs = p_user_def p_password_def p_at_def p_host_def p_port_def p_path_def p_query_def
  p_fragment_def p_slashes_def p_authority_def p_scheme_def src_pathEnd_def src_queryEnd_def

definition up_to_user :: "cstring \<Rightarrow> nat \<Rightarrow> Authority \<Rightarrow> cstring" where
  "up_to_user url se a = p_scheme url se @ [58] @ p_slashes url se a"

definition up_to_port :: "cstring \<Rightarrow> nat \<Rightarrow> Authority \<Rightarrow> cstring" where
  "up_to_port url se a = up_to_user url se a @ p_user url se a @ p_password url se a @ p_at url se a
     @ p_host url se a @ p_port url se a"

definition canonical :: "cstring \<Rightarrow> nat \<Rightarrow> Authority \<Rightarrow> cstring" where
  "canonical url se a = up_to_port url se a @ p_path url se a @ p_query url a @ p_fragment url a"

lemma length_p_at: "p_at url se a = (if p_user url se a @ p_password url se a \<noteq> [] then [64] else [])"
  by (simp add: p_at_def p_user_def p_password_def)

lemma assemble_pieces:
  "assemble url se a = \<lparr>m_string = map ucast (canonical url se a), m_isValid = True,
     m_protocolIsInHTTPFamily = isHTTPFamily url,
     m_schemeEnd = length (p_scheme url se),
     m_userStart = length (up_to_user url se a),
     m_userEnd = length (up_to_user url se a @ p_user url se a),
     m_passwordEnd = length (up_to_user url se a @ p_user url se a @ p_password url se a),
     m_hostEnd = length (up_to_user url se a @ p_user url se a @ p_password url se a @ p_at url se a @ p_host url se a),
     m_portEnd = length (up_to_port url se a),
     m_pathAfterLastSlash = afterLastSlash (length (up_to_port url se a)) (p_path url se a),
     m_pathEnd = length (up_to_port url se a @ p_path url se a),
     m_queryEnd = length (up_to_port url se a @ p_path url se a @ p_query url a),
     m_fragmentEnd = length (canonical url se a)\<rparr>"
  unfolding assemble_def Let_def canonical_def up_to_port_def up_to_user_def
  by (simp add: piece_defs)


section \<open>Printable pieces\<close>

lemma printable_unat: "printable (c :: u8) \<longleftrightarrow> 32 \<le> unat c \<and> unat c \<le> 126"
  by (simp add: printable_def word_le_nat_alt)

lemma printable_lower: "printable c \<Longrightarrow> printable (toASCIILower_char c)"
proof (cases "isASCIIUpper c")
  case True
  then have "65 \<le> unat c" "unat c \<le> 90" by (simp_all add: isASCIIUpper_def word_le_nat_alt)
  moreover from this have "unat (c + 32) = unat c + 32" by (simp add: unat_word_ariths(1))
  ultimately show ?thesis using True by (simp only: toASCIILower_char_letters printable_unat if_True) linarith
qed (simp add: toASCIILower_char_letters)

lemma printable_lower_list: "list_all printable cs \<Longrightarrow> list_all printable (map toASCIILower_char cs)"
  by (simp add: list_all_iff printable_lower)

lemma printable_digit: "isASCIIDigit (c :: u8) \<Longrightarrow> printable c"
  by (simp add: isASCIIDigit_def printable_unat word_le_nat_alt)

lemma printable_hostChar: "isHostChar c \<Longrightarrow> printable c"
proof -
  have "printable (91 :: u8)" "printable (93 :: u8)" by (simp_all add: printable_def)
  then show "isHostChar c \<Longrightarrow> printable c" using printable_classes by (auto simp: isHostChar_def)
qed

lemma list_all_mono: "list_all P xs \<Longrightarrow> (\<And>x. P x \<Longrightarrow> Q x) \<Longrightarrow> list_all Q xs"
  by (auto simp: list_all_iff)

lemma printable_separators: "printable (35 :: u8)" "printable (47 :: u8)" "printable (58 :: u8)" "printable (64 :: u8)"
  by (simp_all add: printable_def)

lemma set_slice: "set (slice xs a b) \<subseteq> set xs"
  by (auto simp: slice_def dest!: in_set_takeD in_set_dropD)

lemma authority_printable:
  assumes "authority_ok url a"
  shows "list_all printable (writeUser url a)" "list_all printable (writePassword url a)"
    "list_all printable (writeHost url a f sc)" "list_all printable (writePort url a sc)"
proof -
  have "list_all printable (slice url (a_userStart a) (a_userEnd a))"
    "list_all printable (slice url (a_passwordStart a) (a_passwordEnd a))"
    "list_all printable (slice url (a_hostStart a) (a_hostEnd a))"
    "list_all printable (slice url (a_portStart a) (a_portEnd a))"
    using assms printable_classes(2) printable_hostChar printable_digit
    by (simp_all only: authority_ok_def) (blast intro: list_all_mono)+
  then show "list_all printable (writeUser url a)" "list_all printable (writePassword url a)"
    "list_all printable (writeHost url a f sc)" "list_all printable (writePort url a sc)"
    using printable_lower_list printable_separators
    by (simp_all add: writeUser_def writePassword_def writeHost_def writePort_def Let_def)
qed

lemma canonical_printable:
  assumes "authority_ok url a" "0 \<notin> set url" "list_all isSchemeChar (take se url)"
  shows "list_all printable (canonical url se a)"
proof -
  have z: "0 \<notin> set (slice url i j)" for i j using set_slice [of url i j] assms(2) by blast
  have "list_all printable (p_scheme url se)"
    unfolding p_scheme_def using assms(3) printable_classes(1) by (blast intro: printable_lower_list list_all_mono)
  moreover have "list_all printable (p_path url se a)" "list_all printable (p_query url a)"
    "list_all printable (p_fragment url a)"
    using writePath_printable [OF z] appendEscapingBadChars_printable [OF z] escapeNonHierarchical_printable
      printable_separators by (simp_all add: p_path_def p_query_def p_fragment_def)
  ultimately show ?thesis
    using authority_printable [OF assms(1)] printable_separators
    by (simp add: canonical_def up_to_port_def up_to_user_def p_slashes_def p_user_def p_password_def p_at_def
        p_host_def p_port_def)
qed

lemma printable_ucast: "printable (c :: u8) \<Longrightarrow> printable (ucast c :: u16)"
proof -
  have "unat c < 256" using unsigned_less [of c] by simp
  then have "unat (ucast c :: u16) = unat c" by (simp only: unsigned_ucast_eq) (simp add: take_bit_nat_eq_self)
  then show "printable c \<Longrightarrow> printable (ucast c :: u16)" 
    unfolding printable_unat by (simp add: printable_def word_le_nat_alt)
qed

section \<open>The invariant of a URL\<close>

definition ends_in_order :: "URL \<Rightarrow> bool" where
  "ends_in_order u \<longleftrightarrow> 0 < m_schemeEnd u \<and> m_schemeEnd u < m_userStart u \<and> m_userStart u \<le> m_userEnd u
     \<and> m_userEnd u \<le> m_passwordEnd u \<and> m_passwordEnd u \<le> m_hostEnd u \<and> url_hostStart u \<le> m_hostEnd u
     \<and> m_hostEnd u \<le> m_portEnd u \<and> m_portEnd u \<le> m_pathAfterLastSlash u
     \<and> m_pathAfterLastSlash u \<le> m_pathEnd u \<and> m_pathEnd u \<le> m_queryEnd u
     \<and> m_queryEnd u \<le> m_fragmentEnd u \<and> m_fragmentEnd u = length (m_string u)"

definition url_ok :: "URL \<Rightarrow> bool" where
  "url_ok u \<longleftrightarrow> (if m_isValid u then ends_in_order u \<and> list_all printable (m_string u)
       \<and> code_unit (m_string u) (m_schemeEnd u) = 58
       \<and> (m_queryEnd u \<noteq> m_pathEnd u \<longrightarrow> code_unit (m_string u) (m_pathEnd u) = 63)
       \<and> (m_fragmentEnd u \<noteq> m_queryEnd u \<longrightarrow> code_unit (m_string u) (m_queryEnd u) = 35)
     else u = invalidate (m_string u))"

lemma afterLastSlash_bounds: "n \<le> afterLastSlash n path \<and> afterLastSlash n path \<le> n + length path"
  using length_dropWhile_le [of _ "rev path"] by (simp add: afterLastSlash_def)

lemma code_unit_append [simp]: "code_unit (xs @ y # zs) (length xs) = y"
  by (simp add: code_unit_def)

lemma escape_question: "appendEscapingBadChars (63 # q) = 63 # appendEscapingBadChars q"
  by (simp add: appendEscapingBadChars_def)

lemma query_starts:
  assumes "p_query url a \<noteq> []"
  shows "\<exists>q. p_query url a = 63 # q"
proof (cases "char_at url (src_pathEnd url a) = 63")
  case True
  let ?p = "src_pathEnd url a"
  have p: "?p < length url" by (rule char_at_outside [of "\<lambda>c. c = 63"]) (use True in simp_all)
  then have "url ! ?p = 63" using True by (simp only: char_at_def if_True)
  then have "drop ?p url = 63 # drop (Suc ?p) url" using Cons_nth_drop_Suc [OF p] by simp
  then have "slice url ?p (src_queryEnd url a) = 63 # takeWhile (\<lambda>c. c \<noteq> 35) (drop (Suc ?p) url)"
  proof -
    assume d: "drop ?p url = 63 # drop (Suc ?p) url"
    have q: "src_queryEnd url a = scan (\<lambda>c. c \<noteq> 35) url ?p" by (simp only: src_queryEnd_def True simp_thms if_True)
    show ?thesis unfolding q slice_scan d by simp
  qed
  then show ?thesis unfolding p_query_def by (metis escape_question)
next
  case False
  then have "src_queryEnd url a = src_pathEnd url a" by (simp only: src_queryEnd_def if_False)
  then have "p_query url a = []" by (simp only: p_query_def slice_empty) (simp add: appendEscapingBadChars_def)
  then show ?thesis using assms by simp
qed

lemma assemble_ok:
  assumes "authority_ok url a" "0 \<notin> set url" "list_all isSchemeChar (take se url)" "0 < se" "se \<le> length url"
  shows "url_ok (assemble url se a)"
proof -
  let ?u = "assemble url se a"
  have sc: "length (p_scheme url se) = se" using assms(5) by (simp add: p_scheme_def)
  have "ends_in_order ?u"
    using afterLastSlash_bounds [of "length (up_to_port url se a)" "p_path url se a"] assms(4)
    by (simp add: ends_in_order_def assemble_pieces sc url_hostStart_def length_p_at up_to_user_def up_to_port_def
        canonical_def)
  moreover have "list_all printable (m_string ?u)"
    using canonical_printable [OF assms(1-3)] by (simp add: assemble_pieces list_all_iff printable_ucast)
  moreover have "code_unit (m_string ?u) (m_schemeEnd ?u) = 58"
    using code_unit_append [of "map ucast (p_scheme url se)" 58]
    by (simp add: assemble_pieces canonical_def up_to_port_def up_to_user_def)
  moreover have "code_unit (m_string ?u) (m_pathEnd ?u) = 63" if "m_queryEnd ?u \<noteq> m_pathEnd ?u"
  proof -
    have "p_query url a \<noteq> []" using that by (auto simp: assemble_pieces)
    from query_starts [OF this] obtain q where "p_query url a = 63 # q" by blast
    then show ?thesis using code_unit_append [of "map ucast (up_to_port url se a @ p_path url se a)" 63]
      by (simp add: assemble_pieces canonical_def)
  qed
  moreover have "code_unit (m_string ?u) (m_queryEnd ?u) = 35" if "m_fragmentEnd ?u \<noteq> m_queryEnd ?u"
  proof -
    have "p_fragment url a \<noteq> []" using that by (auto simp: assemble_pieces canonical_def)
    then obtain f where "p_fragment url a = 35 # f" by (auto simp: p_fragment_def split: if_splits)
    then show ?thesis
      using code_unit_append [of "map ucast (up_to_port url se a @ p_path url se a @ p_query url a)" 35]
      by (simp add: assemble_pieces canonical_def)
  qed
  moreover have "m_isValid ?u" by (simp add: assemble_pieces)
  ultimately show ?thesis by (simp add: url_ok_def)
qed


lemma copyASCII_no_zero: "0 \<notin> set (copyASCII str)"
  by (auto simp: copyASCII_def dest: set_takeWhileD)

lemma first_scheme_char: "isSchemeFirstChar c \<Longrightarrow> isSchemeChar c"
  unfolding isSchemeFirstChar_def isSchemeChar_def characterClassTable_def
  by (simp add: SchemeFirstChar_def SchemeChar_def UserInfoChar_def HostnameChar_def IPv6Char_def
      PathSegmentEndChar_def BadChar_def split: if_splits) auto

lemma parse_cases:
  obtains "parse_chars url str = invalidate str"
  | a where "parse_chars url str = assemble url (scan isSchemeChar url 0) a"
      "findAuthority url (scan isSchemeChar url 0) = Some a" "0 < scan isSchemeChar url 0"
      "scan isSchemeChar url 0 < length url" "list_all isSchemeChar (take (scan isSchemeChar url 0) url)"
proof -
  let ?se = "scan isSchemeChar url 0"
  show thesis
  proof (cases "url = [] \<or> \<not> isSchemeFirstChar (char_at url 0) \<or> char_at url ?se \<noteq> 58")
    case True
    then show thesis by (intro that(1)) (auto simp: parse_chars_def Let_def)
  next
    case False
    show thesis
    proof (cases "findAuthority url ?se")
      case None
      then show thesis using False by (intro that(1)) (simp add: parse_chars_def Let_def)
    next
      case (Some a)
      obtain c cs where url: "url = c # cs" "isSchemeFirstChar c" using False by (cases url) (auto simp: char_at_def)
      have "isSchemeChar c" using url(2) by (rule first_scheme_char)
      then have "0 < ?se" using url(1) by (simp add: scan_def)
      moreover have "?se < length url"
        using False by (intro char_at_outside [of "\<lambda>c. c = 58"]) simp_all
      moreover have "list_all isSchemeChar (take ?se url)"
        using slice_scan_all [of isSchemeChar url 0] by (simp add: slice_def)
      moreover have "parse_chars url str = assemble url ?se a" using False Some by (simp add: parse_chars_def Let_def)
      ultimately show thesis using Some by (intro that(2))
    qed
  qed
qed

lemma parse_chars_ok:
  assumes "0 \<notin> set url"
  shows "url_ok (parse_chars url str)"
proof (cases rule: parse_cases [of url str])
  case 1
  then show ?thesis by (simp add: url_ok_def invalidate_def)
next
  case (2 a)
  have "authority_ok url a" using findAuthority_ok [OF 2(2,4)] by blast
  from assemble_ok [OF this assms 2(5,3)] 2(1,4) show ?thesis by simp
qed

lemma url_ok_removeFragmentIdentifier: "url_ok u \<Longrightarrow> url_ok (removeFragmentIdentifier u)"
  unfolding removeFragmentIdentifier_def parse_def using parse_chars_ok copyASCII_no_zero by simp

text \<open>
  C12. Every URL that \<^verbatim>\<open>URL::parse\<close> makes satisfies the invariant of the class: an invalid one has all its
  ends 0; in a valid one the ends of scheme, user, password, host, port, path, query and fragment are in order and
  in range, the string is printable ASCII, a colon follows the scheme, a present query starts with a
  question mark and a present fragment with a number sign.
\<close>

theorem parse_url_ok: "url_ok (parse str)"
  unfolding parse_def by (rule parse_chars_ok [OF copyASCII_no_zero])

text \<open>The length of the canonical string, piece by piece.\<close>

lemma writePassword_length: "authority_ok url a \<Longrightarrow> length (writePassword url a) \<le> a_passwordEnd a - a_userEnd a"
  by (auto simp: authority_ok_def writePassword_def)

lemma writeHost_length: "authority_ok url a \<Longrightarrow> length (writeHost url a f sc) \<le> a_hostEnd a - a_hostStart a"
  by (auto simp: authority_ok_def writeHost_def)

lemma writePort_length: "authority_ok url a \<Longrightarrow> length (writePort url a sc) \<le> a_portEnd a - a_hostEnd a"
  by (auto simp: authority_ok_def writePort_def Let_def)


lemma src_ends:
  assumes "a_portEnd a \<le> length url"
  shows "a_portEnd a \<le> src_pathEnd url a" "src_pathEnd url a \<le> src_queryEnd url a" "src_queryEnd url a \<le> length url"
proof -
  have p: "src_pathEnd url a \<le> length url" unfolding src_pathEnd_def by (rule scan_le [OF assms])
  show "a_portEnd a \<le> src_pathEnd url a" unfolding src_pathEnd_def by simp
  show "src_pathEnd url a \<le> src_queryEnd url a" by (simp add: src_queryEnd_def)
  show "src_queryEnd url a \<le> length url" using scan_le [OF p] p by (simp add: src_queryEnd_def)
qed

lemma after_port_length:
  assumes "a_portEnd a \<le> length url"
  shows "length (p_path url se a @ p_query url a @ p_fragment url a)
    \<le> 3 * (length url - a_portEnd a) + of_bool ((isHTTPFamily url \<or> isFileScheme url se) \<and> src_pathEnd url a = a_portEnd a)"
proof -
  note e = src_ends [OF assms]
  let ?p = "src_pathEnd url a" and ?q = "src_queryEnd url a"
  have "length (writePath url h (slice url (a_portEnd a) ?p)) \<le> 3 * (?p - a_portEnd a)" for h
    using writePath_length [of url h "slice url (a_portEnd a) ?p"] e by simp
  then have "length (p_path url se a) \<le> 3 * (?p - a_portEnd a)
      + of_bool ((isHTTPFamily url \<or> isFileScheme url se) \<and> ?p = a_portEnd a)"
  proof -
    assume *: "\<And>h. length (writePath url h (slice url (a_portEnd a) ?p)) \<le> 3 * (?p - a_portEnd a)"
    have l: "length (if b then [47 :: u8] else []) = of_bool b" for b by simp
    show ?thesis unfolding p_path_def length_append l using * [of "char_at url (se + 1) = 47"] by linarith
  qed
  moreover have "length (p_query url a) \<le> 3 * (?q - ?p)"
    using appendEscapingBadChars_length [of "slice url ?p ?q"] e by (simp add: p_query_def)
  moreover have "length (p_fragment url a) \<le> 3 * (length url - ?q)"
  proof (cases "char_at url ?q = 35")
    case True
    then have "?q < length url" by (intro char_at_outside [of "\<lambda>c. c = 35"]) simp_all
    then show ?thesis using True escapeNonHierarchical_length [of "drop (?q + 1) url"] by (simp add: p_fragment_def)
  qed (simp add: p_fragment_def)
  ultimately show ?thesis using e by simp
qed

lemma up_to_port_length:
  assumes "authority_ok url a" "se \<le> length url"
  shows "length (up_to_port url se a) \<le> se + 3 + (a_portEnd a - a_userStart a)"
proof -
  have o: "a_userStart a \<le> a_userEnd a" "a_userEnd a \<le> a_passwordEnd a" "a_passwordEnd a \<le> a_hostStart a"
    "a_hostStart a \<le> a_hostEnd a" "a_hostEnd a \<le> a_portEnd a" "a_portEnd a \<le> length url"
    "a_userStart a \<noteq> a_passwordEnd a \<longrightarrow> a_passwordEnd a < a_hostStart a"
    using assms(1) by (auto simp: authority_ok_def)
  have u: "length (p_user url se a) \<le> a_userEnd a - a_userStart a"
    using o by (simp add: p_user_def writeUser_def)
  have p: "length (p_password url se a) \<le> a_passwordEnd a - a_userEnd a"
    using writePassword_length [OF assms(1)] by (simp add: p_password_def)
  have at: "length (p_at url se a) \<le> a_hostStart a - a_passwordEnd a"
    using u p o by (cases "a_userStart a = a_passwordEnd a") (auto simp: length_p_at)
  have h: "length (p_host url se a) \<le> a_hostEnd a - a_hostStart a"
    using writeHost_length [OF assms(1)] by (simp add: p_host_def)
  have q: "length (p_port url se a) \<le> a_portEnd a - a_hostEnd a"
    using writePort_length [OF assms(1)] by (simp add: p_port_def)
  have s: "length (up_to_user url se a) \<le> se + 3"
    using assms(2) by (simp add: up_to_user_def p_scheme_def p_slashes_def)
  have "length (up_to_port url se a) = length (up_to_user url se a) + length (p_user url se a)
      + length (p_password url se a) + length (p_at url se a) + length (p_host url se a) + length (p_port url se a)"
    by (simp add: up_to_port_def)
  then show ?thesis using u p at h q s o by linarith
qed

lemma canonical_length:
  assumes "authority_ok url a" "se < length url" "Suc se \<le> a_userStart a \<or> overlapping url se a"
  shows "length (canonical url se a) \<le> 3 * length url + 1"
proof -
  have pe: "a_userStart a \<le> a_portEnd a" "a_portEnd a \<le> length url" using assms(1) by (auto simp: authority_ok_def)
  have len: "length (canonical url se a)
      = length (up_to_port url se a) + length (p_path url se a @ p_query url a @ p_fragment url a)"
    by (simp add: canonical_def)
  note after = after_port_length [OF pe(2), of se]
  show ?thesis
  proof (cases "overlapping url se a")
    case False
    have "of_bool ((isHTTPFamily url \<or> isFileScheme url se) \<and> src_pathEnd url a = a_portEnd a) \<le> (1 :: nat)"
      by simp
    then show ?thesis using len up_to_port_length [OF assms(1), of se] after assms(2,3) False pe by linarith
  next
    case True
    then obtain i where i: "a = emptyAuthority i" by (auto simp only: overlapping_def)
    have e: "a_portEnd a = a_userStart a" "a_hostStart a = a_hostEnd a" "\<not> haveNonHostAuthorityPart a"
      by (simp_all add: i emptyAuthority_def haveNonHostAuthorityPart_def)
    have a: "a = emptyAuthority i" "se \<le> Suc (a_userStart a)" "2 \<le> se"
      "\<not> isHTTPFamily url" "\<not> isFileScheme url se" using True i by (simp_all only: overlapping_def not_False_eq_True)
    have "\<not> p_authority url se a" using e a(5) by (simp add: p_authority_def writesAuthority_def)
    then have "length (up_to_port url se a) = se + 1"
      using a(5) assms(2) by (simp add: up_to_port_def up_to_user_def p_slashes_def p_user_def p_password_def p_at_def
          p_host_def p_port_def p_scheme_def)
    moreover have "length (p_path url se a @ p_query url a @ p_fragment url a) \<le> 3 * (length url - a_userStart a)"
      using after a(4,5) e(1) by simp
    ultimately show ?thesis using len a(2,3) pe e(1) by linarith
  qed
qed



section \<open>The components of a URL\<close>

lemma take_slice: "a \<le> b \<Longrightarrow> take b xs = take a xs @ slice xs a b"
  using slice_append [of 0 a b xs] by (simp add: slice_def)

lemma slice_code_unit: "i < j \<Longrightarrow> j \<le> length xs \<Longrightarrow> slice xs i j = code_unit xs i # slice xs (i + 1) j"
  by (simp add: slice_def code_unit_def Cons_nth_drop_Suc [symmetric] take_Cons' Suc_diff_Suc)

lemma url_ok_components:
  assumes "url_ok u" "m_isValid u"
  shows "m_string u = take (m_portEnd u) (m_string u) @ url_path u
    @ (case query u of None \<Rightarrow> [] | Some q \<Rightarrow> 63 # q)
    @ (case fragmentIdentifier u of None \<Rightarrow> [] | Some f \<Rightarrow> 35 # f)"
proof -
  let ?s = "m_string u"
  have o: "m_portEnd u \<le> m_pathEnd u" "m_pathEnd u \<le> m_queryEnd u" "m_queryEnd u \<le> m_fragmentEnd u"
    "m_fragmentEnd u = length ?s"
    "m_queryEnd u \<noteq> m_pathEnd u \<Longrightarrow> code_unit ?s (m_pathEnd u) = 63"
    "m_fragmentEnd u \<noteq> m_queryEnd u \<Longrightarrow> code_unit ?s (m_queryEnd u) = 35"
    using assms by (auto simp: url_ok_def ends_in_order_def)
  have "?s = take (m_fragmentEnd u) ?s" using o(4) by simp
  also have "\<dots> = take (m_portEnd u) ?s @ url_path u @ slice ?s (m_pathEnd u) (m_queryEnd u)
      @ slice ?s (m_queryEnd u) (m_fragmentEnd u)"
    using take_slice [OF o(1), of ?s] take_slice [OF o(2), of ?s] take_slice [OF o(3), of ?s] by (simp add: url_path_def)
  also have "slice ?s (m_pathEnd u) (m_queryEnd u) = (case query u of None \<Rightarrow> [] | Some q \<Rightarrow> 63 # q)"
  proof (cases "m_queryEnd u = m_pathEnd u")
    case False
    then show ?thesis using o slice_code_unit [of "m_pathEnd u" "m_queryEnd u" ?s] by (simp add: query_def)
  qed (simp add: query_def)
  also have "slice ?s (m_queryEnd u) (m_fragmentEnd u) = (case fragmentIdentifier u of None \<Rightarrow> [] | Some f \<Rightarrow> 35 # f)"
  proof (cases "m_fragmentEnd u = m_queryEnd u")
    case False
    then show ?thesis using o slice_code_unit [of "m_queryEnd u" "m_fragmentEnd u" ?s] by (simp add: fragmentIdentifier_def)
  qed (simp add: fragmentIdentifier_def)
  finally show ?thesis .
qed

text \<open>
  C13. The components of a valid URL put together give its string: everything before the path, the path, the query
  after a question mark if there is one and the fragment after a number sign if there is one.
\<close>

theorem parse_components:
  assumes "m_isValid (parse str)"
  shows "m_string (parse str) = take (m_portEnd (parse str)) (m_string (parse str)) @ url_path (parse str)
    @ (case query (parse str) of None \<Rightarrow> [] | Some q \<Rightarrow> 63 # q)
    @ (case fragmentIdentifier (parse str) of None \<Rightarrow> [] | Some f \<Rightarrow> 35 # f)"
  by (rule url_ok_components [OF _ assms]) (unfold parse_def, rule parse_chars_ok [OF copyASCII_no_zero])

lemma parse_example_valid: "m_isValid (parse (lit ''http://a/b?c#d''))"
  by code_simp

theorem parse_components_witness:
  "m_string (parse (lit ''http://a/b?c#d'')) = take (m_portEnd (parse (lit ''http://a/b?c#d''))) (m_string (parse (lit ''http://a/b?c#d'')))
    @ url_path (parse (lit ''http://a/b?c#d''))
    @ (case query (parse (lit ''http://a/b?c#d'')) of None \<Rightarrow> [] | Some q \<Rightarrow> 63 # q)
    @ (case fragmentIdentifier (parse (lit ''http://a/b?c#d'')) of None \<Rightarrow> [] | Some f \<Rightarrow> 35 # f)"
  by (rule parse_components [OF parse_example_valid])

section \<open>No dot segment is left\<close>

fun segments :: "cstring \<Rightarrow> cstring list" where
  "segments [] = [[]]"
| "segments (c # cs) = (if c = 47 then [] # segments cs else (c # hd (segments cs)) # tl (segments cs))"

definition isDotSegment :: "cstring \<Rightarrow> bool" where
  "isDotSegment s \<longleftrightarrow> s = [46] \<or> s = [46, 46]"

lemma segments_nonempty [simp]: "segments s \<noteq> []"
  by (cases s) simp_all

lemma segments_append: "47 \<notin> set w \<Longrightarrow> segments (w @ 47 # t) = w # segments t"
  by (induction w) auto

lemma segments_rev: "segments (rev s) = rev (map rev (segments s))"
proof (induction s rule: length_induct)
  case (1 s)
  show ?case
  proof (cases "47 \<in> set s")
    case True
    then obtain w t where s: "s = w @ 47 # t" "47 \<notin> set w" by (meson split_list_first)
    have app: "segments (x @ 47 # w') = segments x @ [w']" if "47 \<notin> set w'" for x w'
    proof -
      have n: "segments w' = [w']" using that by (induction w') auto
      show ?thesis by (induction x) (auto simp: n tl_append hd_append split: list.splits)
    qed
    have "segments (rev t) = rev (map rev (segments t))" using 1 s(1) by simp
    then show ?thesis using s app [of "rev w" "rev t"] by (simp add: segments_append)
  next
    case False
    have "segments x = [x]" if "47 \<notin> set x" for x using that by (induction x) auto
    then show ?thesis using False by simp
  qed
qed

lemma isDotSegment_rev [simp]: "isDotSegment (rev s) = isDotSegment s"
  by (auto simp: isDotSegment_def rev_swap)

definition finished :: "cstring \<Rightarrow> bool" where
  "finished dst \<longleftrightarrow> list_all (\<lambda>s. \<not> isDotSegment s) (tl (segments dst))"

definition dots_inv :: "cstring \<Rightarrow> cstring \<Rightarrow> bool" where
  "dots_inv dst src \<longleftrightarrow> dst \<noteq> [] \<and> last dst = 47 \<and> finished dst
     \<and> (hd (segments dst) = [] \<or> \<not> isDotSegment (rev (hd (segments dst)) @ takeWhile (\<lambda>c. c \<noteq> 47) src))"

lemma dropWhile_slash: "47 \<notin> set w \<Longrightarrow> dropWhile (\<lambda>c. c \<noteq> 47) (w @ 47 # t) = 47 # t"
  by (induction w) auto

lemma segments_all:
  "\<not> isDotSegment (hd (segments dst)) \<Longrightarrow> finished dst \<Longrightarrow> list_all (\<lambda>s. \<not> isDotSegment s) (segments dst)"
  using list.collapse [OF segments_nonempty, of dst] by (metis finished_def list.pred_inject(2))

lemma popped_cases:
  assumes "hd dst = 47" "dst \<noteq> []" "last dst = 47" "finished dst"
  shows "\<exists>t. popped dst = 47 # t \<and> last (popped dst) = 47 \<and> finished (popped dst)"
proof -
  have rewind: "rewindSegment 0 xs = dropWhile (\<lambda>c. c \<noteq> 47) xs" for xs by (induction xs) auto
  obtain t0 where t0: "dst = 47 # t0" using assms(1,2) by (cases dst) auto
  show ?thesis
  proof (cases "t0 = []")
    case True
    then show ?thesis using t0 by (simp add: popped_def finished_def isDotSegment_def)
  next
    case False
    then have "47 \<in> set t0" using assms(3) t0 last_in_set [of t0] by simp
    then obtain w t where t: "t0 = w @ 47 # t" "47 \<notin> set w" by (meson split_list_first)
    have "dropWhile (\<lambda>c. c \<noteq> 47) t0 = 47 # t" unfolding t(1) by (rule dropWhile_slash [OF t(2)])
    then have "popped dst = 47 # t" using t0 False by (simp add: popped_def rewind)
    then show ?thesis using assms(3,4) t0 t by (auto simp: finished_def segments_append)
  qed
qed

lemma hd_segments_slash: "hd dst = 47 \<Longrightarrow> dst \<noteq> [] \<Longrightarrow> hd (segments dst) = []"
  by (cases dst) auto

lemma copyDotsLoop_no_dots: "dots_inv dst src \<Longrightarrow> list_all (\<lambda>s. \<not> isDotSegment s) (segments (copyDotsLoop dst src))"
proof (induction dst src rule: copyDotsLoop_induct)
  case (Nil dst)
  then have "\<not> isDotSegment (hd (segments dst))" "finished dst"
    by (auto simp: dots_inv_def isDotSegment_def)
  from segments_all [OF this] show ?case by simp
next
  case (Step dst c src)
  note inv = Step.prems [unfolded dots_inv_def]
  show ?case
  proof (cases rule: copyDotsLoop_cases [of dst c src])
    case 1
    have "dots_inv dst (drop 1 src)" using inv 1(3) hd_segments_slash by (simp add: dots_inv_def)
    then show ?thesis unfolding 1(1) by (intro Step.IH) simp_all
  next
    case 2
    obtain t where "popped dst = 47 # t" "last (popped dst) = 47" "finished (popped dst)"
      using popped_cases [OF 2(3)] inv by blast
    then have "dots_inv (popped dst) (drop 2 src)" by (simp add: dots_inv_def)
    then show ?thesis unfolding 2(1) by (intro Step.IH) simp_all
  next
    case 3
    have "dots_inv (c # dst) src"
    proof (cases "c = 47")
      case True
      have "\<not> isDotSegment (hd (segments dst))" using inv True by (auto simp: isDotSegment_def)
      then have "list_all (\<lambda>s. \<not> isDotSegment s) (segments dst)"
        using inv by (intro segments_all) simp_all
      then show ?thesis using inv True by (simp add: dots_inv_def finished_def)
    next
      case False
      have "\<not> isDotSegment (rev (hd (segments dst)) @ c # takeWhile (\<lambda>c. c \<noteq> 47) src)"
      proof (cases "hd (segments dst) = []")
        case True
        then have "hd dst = 47" using inv by (cases dst) (auto split: if_splits)
        then have "\<not> isDotSegment (c # takeWhile (\<lambda>c. c \<noteq> 47) src)"
          using 3(2,3) by (cases src; cases "tl src") (auto simp: isDotSegment_def)
        then show ?thesis using True by simp
      qed (use inv False in simp)
      then show ?thesis using inv False by (simp add: dots_inv_def finished_def)
    qed
    then show ?thesis unfolding 3(1) by (intro Step.IH) simp_all
  qed
qed

text \<open>
  C14. After \<^verbatim>\<open>copyPathRemovingDots\<close> a path that starts with a slash has no segment \<^verbatim>\<open>.\<close> or \<^verbatim>\<open>..\<close> left: a
  reference cannot climb out of the root.
\<close>

theorem copyPathRemovingDots_no_dots:
  assumes "hd path = 47" "path \<noteq> []"
  shows "list_all (\<lambda>s. \<not> isDotSegment s) (segments (copyPathRemovingDots path))"
proof -
  obtain cs where p: "path = 47 # cs" using assms by (cases path) auto
  have "dots_inv [47] cs" by (simp add: dots_inv_def finished_def isDotSegment_def)
  from copyDotsLoop_no_dots [OF this] show ?thesis
    by (simp add: p copyPathRemovingDots_def segments_rev list_all_iff)
qed

theorem copyPathRemovingDots_no_dots_witness:
  "list_all (\<lambda>s. \<not> isDotSegment s) (segments (copyPathRemovingDots (lit ''/a/../../b/./c/..'')))"
  by (rule copyPathRemovingDots_no_dots) (simp_all add: lit_def)

section \<open>Results that are not canonical\<close>


text \<open>
  The schemes that need an authority are compared before the scheme is put in lower case: \<^verbatim>\<open>HTTP:foo\<close> is a
  valid URL without a host whose string is \<^verbatim>\<open>http:foo\<close>, while \<^verbatim>\<open>http:foo\<close> is \<^verbatim>\<open>http://foo/\<close>.
\<close>

lemma upper_case_scheme_differs:
  "m_isValid (parse (lit ''HTTP:foo'')) \<and> m_string (parse (lit ''HTTP:foo'')) = lit ''http:foo''
   \<and> host (parse (lit ''HTTP:foo'')) = [] \<and> m_string (parse (lit ''http:foo'')) = lit ''http://foo/''
   \<and> host (parse (lit ''http:foo'')) = lit ''foo''"
  by code_simp

text \<open>
  Tabs and newlines are dropped after the dot segments have been resolved: the path \<^verbatim>\<open>/a/.\<close>, tab, \<^verbatim>\<open>./b\<close>
  becomes \<^verbatim>\<open>/a/../b\<close>, which the parser itself would have made \<^verbatim>\<open>/b\<close>.
\<close>

lemma dropped_tab_leaves_dots:
  "url_path (parse (lit ''http://h/a/.'' @ 9 # lit ''./b'')) = lit ''/a/../b''
   \<and> url_path (parse (m_string (parse (lit ''http://h/a/.'' @ 9 # lit ''./b'')))) = lit ''/b''"
  by code_simp

end
