(* ===== verification/EscapeSequences.thy ===== *)
theory EscapeSequences
  imports URLParsing
begin

text \<open>
  \<^verbatim>\<open>Source/WebCore/platform/text/DecodeEscapeSequences.h\<close> and \<^verbatim>\<open>encodeForFileName\<close> of
  \<^verbatim>\<open>Source/WebCore/platform/FileSystem.cpp\<close>: decoding of percent and \<^verbatim>\<open>%u\<close> escapes, and the
  escaping of characters that file names cannot hold. The positions of the code split the string into
  the part already copied, the part that is pending and the part still to be searched; the loop works on
  these parts. The decoder of a text encoding is the argument \<open>decode\<close>.
\<close>

section \<open>Decoding\<close>

record EscapeSequence =
  findInString :: "ustring \<Rightarrow> nat option"
  findEndOfRun :: "ustring \<Rightarrow> nat"
  decodeRun :: "ustring \<Rightarrow> ustring"

definition hexValue16 :: "u16 \<Rightarrow> u8" where
  "hexValue16 c = toASCIIHexValue (ucast c)"

text \<open>\<^verbatim>\<open>Unicode16BitEscapeSequence\<close>.\<close>

fun find_percent_u :: "ustring \<Rightarrow> nat option" where
  "find_percent_u (c # d # cs) = (if c = 37 \<and> d = 117 then Some 0 else map_option Suc (find_percent_u (d # cs)))"
| "find_percent_u _ = None"

fun end_unicode16 :: "ustring \<Rightarrow> nat" where
  "end_unicode16 (a # b # c # d # e # f # cs) =
     (if a = 37 \<and> b = 117 \<and> isASCIIHexDigit c \<and> isASCIIHexDigit d \<and> isASCIIHexDigit e \<and> isASCIIHexDigit f
      then 6 + end_unicode16 cs else 0)"
| "end_unicode16 _ = 0"

fun decode_unicode16 :: "ustring \<Rightarrow> ustring" where
  "decode_unicode16 (a # b # c # d # e # f # cs) =
     (push_bit 12 (ucast (hexValue16 c)) OR push_bit 8 (ucast (hexValue16 d)) OR push_bit 4 (ucast (hexValue16 e))
       OR ucast (hexValue16 f)) # decode_unicode16 cs"
| "decode_unicode16 _ = []"

definition Unicode16BitEscapeSequence :: EscapeSequence where
  "Unicode16BitEscapeSequence = \<lparr>findInString = find_percent_u, findEndOfRun = end_unicode16, decodeRun = decode_unicode16\<rparr>"

text \<open>\<^verbatim>\<open>URLEscapeSequence\<close>; the argument of \<open>end_url\<close> counts the trailing characters.\<close>

fun find_percent :: "ustring \<Rightarrow> nat option" where
  "find_percent [] = None"
| "find_percent (c # cs) = (if c = 37 then Some 0 else map_option Suc (find_percent cs))"

function end_url :: "nat \<Rightarrow> ustring \<Rightarrow> nat" where
  "end_url trailing [] = 0"
| "end_url trailing (c # cs) =
     (if c = 37 then
        (if 2 \<le> length cs \<and> isASCIIHexDigit (cs ! 0) \<and> isASCIIHexDigit (cs ! 1) then 3 + end_url 0 (drop 2 cs) else 0)
      else if 0x40 \<le> c \<and> c \<le> 0x7F \<and> trailing < 2 then 1 + end_url (trailing + 1) cs
      else 0)"
  by pat_completeness auto
termination
  by (relation "measure (\<lambda>(_, cs). length cs)") auto

function unescape_run :: "ustring \<Rightarrow> cstring" where
  "unescape_run [] = []"
| "unescape_run (c # cs) =
     (if c = 37 then (push_bit 4 (hexValue16 (cs ! 0)) OR hexValue16 (cs ! 1)) # unescape_run (drop 2 cs)
      else ucast c # unescape_run cs)"
  by pat_completeness auto
termination
  by (relation "measure length") auto

definition URLEscapeSequence :: "(cstring \<Rightarrow> ustring) \<Rightarrow> EscapeSequence" where
  "URLEscapeSequence decode = \<lparr>findInString = find_percent, findEndOfRun = end_url 0,
     decodeRun = (\<lambda>run. decode (unescape_run run))\<rparr>"

function decodeLoop :: "EscapeSequence \<Rightarrow> ustring \<Rightarrow> ustring \<Rightarrow> ustring \<Rightarrow> ustring" where
  "decodeLoop esc pending [] result = result @ pending"
| "decodeLoop esc pending (c # cs) result =
     (case findInString esc (c # cs) of
        None \<Rightarrow> result @ pending @ c # cs
      | Some k \<Rightarrow> (let run = findEndOfRun esc (drop k (c # cs)) in
          if run = 0 then decodeLoop esc (pending @ take (k + 1) (c # cs)) (drop (k + 1) (c # cs)) result
          else (let decoded = decodeRun esc (take run (drop k (c # cs))) in
            if decoded = [] then decodeLoop esc (pending @ take (k + run) (c # cs)) (drop (k + run) (c # cs)) result
            else decodeLoop esc [] (drop (k + run) (c # cs)) (result @ pending @ take k (c # cs) @ decoded))))"
  by pat_completeness auto
termination
  by (relation "measure (\<lambda>(_, _, rest, _). length rest)") auto

definition decodeEscapeSequences :: "EscapeSequence \<Rightarrow> ustring \<Rightarrow> ustring" where
  "decodeEscapeSequences esc s = decodeLoop esc [] s []"

definition decodeURLEscapeSequences :: "(cstring \<Rightarrow> ustring) \<Rightarrow> ustring \<Rightarrow> ustring" where
  "decodeURLEscapeSequences decode s = decodeEscapeSequences (URLEscapeSequence decode) s"

definition user :: "(cstring \<Rightarrow> ustring) \<Rightarrow> URL \<Rightarrow> ustring" where
  "user decode u = decodeURLEscapeSequences decode (encodedUser u)"

definition pass :: "(cstring \<Rightarrow> ustring) \<Rightarrow> URL \<Rightarrow> ustring option" where
  "pass decode u = map_option (decodeURLEscapeSequences decode) (encodedPass u)"

definition fileSystemPath :: "(cstring \<Rightarrow> ustring) \<Rightarrow> URL \<Rightarrow> ustring option" where
  "fileSystemPath decode u = (if \<not> m_isValid u \<or> \<not> isLocalFile u then None
     else Some (decodeURLEscapeSequences decode (url_path u)))"

section \<open>File names\<close>

definition needsEscaping :: "u16 \<Rightarrow> bool" where
  "needsEscaping c \<longleftrightarrow> c \<le> 0x20 \<or> c \<in> {0x22, 0x25, 0x2A, 0x2F, 0x3A, 0x3C, 0x3E, 0x3F, 0x5C, 0x7C, 0x7F}"

definition shouldEscapeUChar :: "u16 \<Rightarrow> bool" where
  "shouldEscapeUChar c = (if c > 127 then False else needsEscaping c)"

definition encodeForFileName :: "ustring \<Rightarrow> ustring" where
  "encodeForFileName s =
     concat (map (\<lambda>c. if shouldEscapeUChar c then widen (appendEscapedChar (ucast c)) else [c]) s)"

section \<open>Reading a file name back\<close>

definition ascii_decoder :: "(cstring \<Rightarrow> ustring) \<Rightarrow> bool" where
  "ascii_decoder decode \<longleftrightarrow> (\<forall>bs. list_all (\<lambda>b. b < 128) bs \<longrightarrow> decode bs = widen bs)"

lemma hexDigit_value: "n < 16 \<Longrightarrow> isASCIIHexDigit (ucast (hexDigitUppercase n) :: u16) \<and> hexValue16 (ucast (hexDigitUppercase n)) = n"
proof -
  assume "n < 16"
  then have "unat n \<in> set [0..<16]" by (simp add: word_less_nat_alt)
  moreover have "list_all (\<lambda>i. isASCIIHexDigit (ucast (hexDigitUppercase (word_of_nat i)) :: u16)
      \<and> hexValue16 (ucast (hexDigitUppercase (word_of_nat i))) = word_of_nat i) [0..<16]" by code_simp
  ultimately have "isASCIIHexDigit (ucast (hexDigitUppercase (word_of_nat (unat n))) :: u16)
      \<and> hexValue16 (ucast (hexDigitUppercase (word_of_nat (unat n)))) = word_of_nat (unat n)"
    by (simp only: list_all_iff)
  then show ?thesis by simp
qed

lemma nibbles: "push_bit 4 (drop_bit 4 c) OR (c AND 0xF) = (c :: u8)"
proof -
  have "(0xF :: u8) = mask 4" by (simp add: mask_eq_exp_minus_1)
  then show ?thesis by (simp only:) (auto simp: bit_eq_iff bit_simps)
qed


lemma escape_block:
  assumes "shouldEscapeUChar c"
  shows "\<exists>h l. widen (appendEscapedChar (ucast c)) = [37, h, l] \<and> isASCIIHexDigit h \<and> isASCIIHexDigit l
    \<and> push_bit 4 (hexValue16 h) OR hexValue16 l = ucast c"
proof -
  let ?c = "ucast c :: u8"
  have "widen (appendEscapedChar ?c) = [37, ucast (hexDigitUppercase (drop_bit 4 ?c)), ucast (hexDigitUppercase (?c AND 15))]"
    by (simp add: widen_def appendEscapedChar_def)
  then show ?thesis using hexDigit_value [OF nibble_bounds(1) [of ?c]] hexDigit_value [OF nibble_bounds(2) [of ?c]]
    nibbles [of ?c] by auto
qed

lemma not_escaped: "\<not> shouldEscapeUChar c \<Longrightarrow> c \<noteq> 37"
  by (auto simp: shouldEscapeUChar_def needsEscaping_def)

lemma escaped_ascii: "shouldEscapeUChar c \<Longrightarrow> c < 128"
  by (auto simp: shouldEscapeUChar_def word_less_nat_alt split: if_splits)

lemma encodeForFileName_simps:
  "encodeForFileName [] = []"
  "encodeForFileName (c # s) = (if shouldEscapeUChar c then widen (appendEscapedChar (ucast c)) else [c]) @ encodeForFileName s"
  by (simp_all add: encodeForFileName_def)

lemma encode_append: "encodeForFileName (s @ t) = encodeForFileName s @ encodeForFileName t"
  by (simp add: encodeForFileName_def)

definition run_of :: "nat \<Rightarrow> ustring \<Rightarrow> ustring \<Rightarrow> bool" where
  "run_of t s s1 \<longleftrightarrow> end_url t (encodeForFileName s) = length (encodeForFileName s1)
     \<and> unescape_run (encodeForFileName s1) = map ucast s1 \<and> list_all (\<lambda>c. c < 128) s1"

lemma run_exists: "\<exists>s1 s2. s = s1 @ s2 \<and> run_of t s s1 \<and> (s \<noteq> [] \<and> shouldEscapeUChar (hd s) \<longrightarrow> s1 \<noteq> [])"
proof (induction s arbitrary: t)
  case Nil
  then show ?case by (simp add: run_of_def encodeForFileName_simps)
next
  case (Cons c s)
  show ?case
  proof (cases "shouldEscapeUChar c")
    case True
    obtain h l where b: "widen (appendEscapedChar (ucast c)) = [37, h, l]" "isASCIIHexDigit h" "isASCIIHexDigit l"
      "push_bit 4 (hexValue16 h) OR hexValue16 l = ucast c" using escape_block [OF True] by blast
    obtain s1 s2 where s: "s = s1 @ s2" "run_of 0 s s1" using Cons.IH by blast
    have "run_of t (c # s) (c # s1)"
      using s(2) b escaped_ascii [OF True] by (simp add: run_of_def encodeForFileName_simps True numeral_eq_Suc)
    then show ?thesis using s(1) by (intro exI [of _ "c # s1"] exI [of _ s2]) simp
  next
    case False
    note c = not_escaped [OF False]
    show ?thesis
    proof (cases "0x40 \<le> c \<and> c \<le> 0x7F \<and> t < 2")
      case True
      obtain s1 s2 where s: "s = s1 @ s2" "run_of (t + 1) s s1" using Cons.IH by blast
      have "c < 128" using True by (simp add: word_less_nat_alt word_le_nat_alt)
      then have "run_of t (c # s) (c # s1)" using s(2) c True by (simp add: run_of_def encodeForFileName_simps False)
      then show ?thesis using s(1) False by (intro exI [of _ "c # s1"] exI [of _ s2]) simp
    next
      case no: False
      have "end_url t (encodeForFileName (c # s)) = 0" using no c by (simp add: encodeForFileName_simps False)
      then have "run_of t (c # s) []" by (simp add: run_of_def encodeForFileName_simps)
      then show ?thesis using False by (intro exI [of _ "[]"] exI [of _ "c # s"]) simp
    qed
  qed
qed

lemma find_percent_skip: "37 \<notin> set u \<Longrightarrow> find_percent (u @ x) = map_option ((+) (length u)) (find_percent x)"
  by (induction u) (cases "find_percent x", simp_all)+

lemma encode_unescaped: "list_all (\<lambda>c. \<not> shouldEscapeUChar c) u \<Longrightarrow> encodeForFileName u = u \<and> 37 \<notin> set u"
  by (induction u) (auto simp: encodeForFileName_simps dest: not_escaped)

lemma narrow:
  assumes "(c :: u16) < 128"
  shows "(ucast c :: u8) < 128" "ucast (ucast c :: u8) = c"
proof -
  have c: "unat c < 128" using assms by (simp add: word_less_nat_alt)
  then have u: "unat (ucast c :: u8) = unat c" by (simp only: unsigned_ucast_eq) (simp add: take_bit_nat_eq_self)
  then show "(ucast c :: u8) < 128" using c by (simp add: word_less_nat_alt)
  have "unat (ucast (ucast c :: u8) :: u16) = unat c"
    using c by (simp only: unsigned_ucast_eq [of "ucast c :: u8"] u) (simp add: take_bit_nat_eq_self)
  then show "ucast (ucast c :: u8) = c" by (rule unsigned_word_eqI)
qed

lemma decodeLoop_encoded:
  assumes "ascii_decoder decode"
  shows "decodeLoop (URLEscapeSequence decode) pending (encodeForFileName s) result = result @ pending @ s"
proof (induction s arbitrary: pending result rule: length_induct)
  case (1 s)
  let ?u = "takeWhile (\<lambda>c. \<not> shouldEscapeUChar c) s" and ?v = "dropWhile (\<lambda>c. \<not> shouldEscapeUChar c) s"
  let ?esc = "URLEscapeSequence decode" and ?e = "encodeForFileName"
  have u: "?e ?u = ?u" "37 \<notin> set ?u"
    using encode_unescaped [of ?u] by (auto simp: list_all_iff dest: set_takeWhileD)
  have s: "?e s = ?u @ ?e ?v" using u(1) encode_append [of ?u ?v] by simp
  show ?case
  proof (cases ?v)
    case Nil
    then have "list_all (\<lambda>c. \<not> shouldEscapeUChar c) s" by (simp only: dropWhile_eq_Nil_conv list_all_iff)
    then have e: "?e s = s" "find_percent s = None"
      using encode_unescaped [of s] find_percent_skip [of s "[]"] by simp_all
    show ?thesis unfolding e(1) by (cases s) (use e(2) in \<open>simp_all add: URLEscapeSequence_def\<close>)
  next
    case (Cons c v)
    have esc: "shouldEscapeUChar c" using hd_dropWhile [of "\<lambda>c. \<not> shouldEscapeUChar c" s] Cons by simp
    obtain h l where b: "widen (appendEscapedChar (ucast c)) = [37, h, l]" using escape_block [OF esc] by blast
    have ev: "?e ?v = 37 # h # l # ?e v" using Cons esc b by (simp add: encodeForFileName_simps)
    have find: "find_percent (?e s) = Some (length ?u)"
      unfolding s find_percent_skip [OF u(2)] ev by simp
    obtain s1 s2 where r: "?v = s1 @ s2" "run_of 0 ?v s1" "s1 \<noteq> []"
      using run_exists [of ?v 0] Cons esc by auto
    have run: "end_url 0 (?e ?v) = length (?e s1)" "unescape_run (?e s1) = map ucast s1" "list_all (\<lambda>c. c < 128) s1"
      using r(2) by (simp_all add: run_of_def)
    have "list_all (\<lambda>b. b < 128) (map ucast s1 :: u8 list)" "widen (map ucast s1) = s1"
      using run(3) by (auto simp: list_all_iff widen_def narrow intro!: map_idI)
    then have d: "decode (map ucast s1) = s1" using assms by (simp add: ascii_decoder_def)
    have "?e s1 \<noteq> []" using r(3) by (cases s1) (auto simp: encodeForFileName_simps widen_def appendEscapedChar_def)
    then have n: "length (?e s1) \<noteq> 0" by simp
    have cat: "?e s = ?u @ ?e s1 @ ?e s2" unfolding s r(1) encode_append by simp
    have "?e s \<noteq> []" unfolding s ev by simp
    then obtain x xs where x: "?e s = x # xs" by (cases "?e s") auto
    have "decodeLoop ?esc pending (?e s) result = decodeLoop ?esc [] (?e s2) (result @ pending @ ?u @ s1)"
    proof -
      have "drop (length ?u) (?e s) = ?e s1 @ ?e s2" unfolding cat by simp
      moreover have "end_url 0 (?e s1 @ ?e s2) = length (?e s1)" using run(1) unfolding r(1) encode_append by simp
      moreover have "drop (length ?u + length (?e s1)) (?e s) = ?e s2" "take (length ?u) (?e s) = ?u" unfolding cat by simp_all
      ultimately show ?thesis
        using find n d r(3) run(2) unfolding x by (simp add: URLEscapeSequence_def)
    qed
    also have "\<dots> = result @ pending @ s"
    proof -
      have "length s2 < length s" using r(1,3) arg_cong [OF takeWhile_dropWhile_id [of "\<lambda>c. \<not> shouldEscapeUChar c" s], of length]
        by (cases s1) auto
      moreover have "s = ?u @ s1 @ s2" using r(1) takeWhile_dropWhile_id [of "\<lambda>c. \<not> shouldEscapeUChar c" s] by simp
      ultimately show ?thesis using 1 by (metis append.assoc append_Nil)
    qed
    finally show ?thesis .
  qed
qed

text \<open>
  C20. A string escaped for a file name is read back by \<^verbatim>\<open>decodeURLEscapeSequences\<close>, for any text decoder that decodes
  ASCII bytes to themselves, although the decoder is given runs that mix escapes and plain characters.
\<close>

theorem encodeForFileName_roundtrip:
  assumes "ascii_decoder decode"
  shows "decodeURLEscapeSequences decode (encodeForFileName s) = s"
  using decodeLoop_encoded [OF assms, of "[]" s "[]"]
  by (simp add: decodeURLEscapeSequences_def decodeEscapeSequences_def)

theorem encodeForFileName_roundtrip_witness:
  "decodeURLEscapeSequences widen (encodeForFileName (lit ''a:b/%41~'' @ [0x3B1])) = lit ''a:b/%41~'' @ [0x3B1]"
  by (rule encodeForFileName_roundtrip) (simp add: ascii_decoder_def)

end
