(* ===== verification/SecurityOrigin.thy ===== *)
theory SecurityOrigin
  imports SchemeRegistry EscapeSequences "HOL-Library.AList"
begin

text \<open>
  \<^verbatim>\<open>Source/WebCore/page/SecurityOrigin.cpp\<close>, \<^verbatim>\<open>SecurityPolicy.cpp\<close> and \<^verbatim>\<open>OriginAccessEntry.cpp\<close>: the
  origins of documents and the same-origin policy. An origin is a heap object: its field \<open>m_address\<close> is
  its address, and a function that makes an object takes the address. The static data the code reads (scheme registry,
  origins of blob URLs, white lists), the text codecs and the white space
  of ICU are in the environment.
\<close>

section \<open>Origins\<close>

datatype StorageBlockingPolicy = AllowAllStorage | BlockThirdPartyStorage | BlockAllStorage
datatype OriginPolicy = AlwaysDeny | AlwaysAllow | Ask
datatype LocalLoadPolicy = AllowLocalLoadsForAll | AllowLocalLoadsForLocalAndSubstituteData | AllowLocalLoadsForLocalOnly
datatype ShouldAllowFromThirdParty = AlwaysAllowFromThirdParty | MaybeAllowFromThirdParty
datatype SubdomainSetting = AllowSubdomains | DisallowSubdomains

record SecurityOrigin =
  m_address :: nat
  m_protocol :: ustring
  m_host :: ustring
  m_domain :: ustring
  m_filePath :: ustring
  m_port :: u16
  m_isUnique :: bool
  m_universalAccess :: bool
  m_domainWasSetInDOM :: bool
  m_canLoadLocalResources :: bool
  m_storageBlockingPolicy :: StorageBlockingPolicy
  m_enforceFilePathSeparation :: bool
  m_needsDatabaseIdentifierQuirkForFiles :: bool

record OriginAccessEntry =
  e_protocol :: ustring
  e_host :: ustring
  e_subdomainSettings :: SubdomainSetting
  e_hostIsIPAddress :: bool

record Environment =
  env_schemes :: Schemes
  env_blobOrigins :: "(ustring \<times> SecurityOrigin) list"
  env_localLoadPolicy :: LocalLoadPolicy
  env_accessMap :: "(ustring \<times> OriginAccessEntry list) list"
  env_decode :: "cstring \<Rightarrow> ustring"
  env_encodeRelative :: "ustring \<Rightarrow> cstring"
  env_isSpace :: "u16 \<Rightarrow> bool"

definition InvalidPort :: u16 where "InvalidPort = 0"
definition MaxAllowedPort :: int where "MaxAllowedPort = 65535"

definition isLocal :: "Environment \<Rightarrow> SecurityOrigin \<Rightarrow> bool" where
  "isLocal env o' \<longleftrightarrow> shouldTreatURLSchemeAsLocal (env_schemes env) (m_protocol o')"

section \<open>Making an origin\<close>

definition schemeRequiresHost :: "URL \<Rightarrow> bool" where
  "schemeRequiresHost url \<longleftrightarrow> m_protocolIsInHTTPFamily url \<or> protocolIs url ''ftp''"

definition shouldUseInnerURL :: "URL \<Rightarrow> bool" where
  "shouldUseInnerURL url \<longleftrightarrow> protocolIs url ''blob''"

definition extractInnerURL :: "Environment \<Rightarrow> URL \<Rightarrow> URL" where
  "extractInnerURL env url = parse (decodeURLEscapeSequences (env_decode env) (url_path url))"

definition getCachedOrigin :: "Environment \<Rightarrow> URL \<Rightarrow> SecurityOrigin option" where
  "getCachedOrigin env url = (if protocolIs url ''blob'' then map_of (env_blobOrigins env) (m_string url) else None)"

definition shouldTreatAsUniqueOrigin :: "Environment \<Rightarrow> URL \<Rightarrow> bool" where
  "shouldTreatAsUniqueOrigin env url =
     (if \<not> m_isValid url then True
      else (let innerURL = (if shouldUseInnerURL url then extractInnerURL env url else url) in
        if schemeRequiresHost innerURL \<and> host innerURL = [] then True
        else shouldTreatURLSchemeAsNoAccess (env_schemes env) (lower (protocol innerURL))))"

definition new_SecurityOrigin :: "Environment \<Rightarrow> nat \<Rightarrow> URL \<Rightarrow> SecurityOrigin" where
  "new_SecurityOrigin env address url =
     (let o' = \<lparr>m_address = address, m_protocol = lower (protocol url), m_host = lower (host url),
           m_domain = lower (host url), m_filePath = [],
           m_port = (if isDefaultPortForProtocol (port url) (lower (protocol url)) then InvalidPort else port url),
           m_isUnique = False, m_universalAccess = False, m_domainWasSetInDOM = False,
           m_canLoadLocalResources = False, m_storageBlockingPolicy = AllowAllStorage,
           m_enforceFilePathSeparation = False, m_needsDatabaseIdentifierQuirkForFiles = False\<rparr> in
      if isLocal env o' then o'\<lparr>m_canLoadLocalResources := True, m_filePath := url_path url\<rparr> else o')"

definition createUnique :: "nat \<Rightarrow> SecurityOrigin" where
  "createUnique address = \<lparr>m_address = address, m_protocol = [], m_host = [], m_domain = [], m_filePath = [],
     m_port = InvalidPort, m_isUnique = True, m_universalAccess = False, m_domainWasSetInDOM = False,
     m_canLoadLocalResources = False, m_storageBlockingPolicy = AllowAllStorage,
     m_enforceFilePathSeparation = False, m_needsDatabaseIdentifierQuirkForFiles = False\<rparr>"

definition create :: "Environment \<Rightarrow> nat \<Rightarrow> URL \<Rightarrow> SecurityOrigin" where
  "create env address url =
     (case getCachedOrigin env url of
        Some cachedOrigin \<Rightarrow> cachedOrigin
      | None \<Rightarrow>
          (if shouldTreatAsUniqueOrigin env url then
             (if protocolIs url ''file'' then (createUnique address)\<lparr>m_needsDatabaseIdentifierQuirkForFiles := True\<rparr>
              else createUnique address)
           else if shouldUseInnerURL url then new_SecurityOrigin env address (extractInnerURL env url)
           else new_SecurityOrigin env address url))"

definition isolatedCopy :: "nat \<Rightarrow> SecurityOrigin \<Rightarrow> SecurityOrigin" where
  "isolatedCopy address o' = o'\<lparr>m_address := address\<rparr>"

text \<open>\<^verbatim>\<open>String::lower\<close> of a name that script supplies is the argument \<open>lower'\<close>.\<close>

definition setDomainFromDOM :: "(ustring \<Rightarrow> ustring) \<Rightarrow> ustring \<Rightarrow> SecurityOrigin \<Rightarrow> SecurityOrigin" where
  "setDomainFromDOM lower' newDomain o' = o'\<lparr>m_domainWasSetInDOM := True, m_domain := lower' newDomain\<rparr>"

definition isSecure :: "Environment \<Rightarrow> URL \<Rightarrow> bool" where
  "isSecure env url =
     (if \<not> m_isValid url \<or> shouldTreatURLSchemeAsSecure (env_schemes env) (protocol url) then True
      else shouldUseInnerURL url \<and> shouldTreatURLSchemeAsSecure (env_schemes env) (protocol (extractInnerURL env url)))"

definition grantLoadLocalResources :: "SecurityOrigin \<Rightarrow> SecurityOrigin" where
  "grantLoadLocalResources o' = o'\<lparr>m_canLoadLocalResources := True\<rparr>"

definition grantUniversalAccess :: "SecurityOrigin \<Rightarrow> SecurityOrigin" where
  "grantUniversalAccess o' = o'\<lparr>m_universalAccess := True\<rparr>"

definition enforceFilePathSeparation :: "Environment \<Rightarrow> SecurityOrigin \<Rightarrow> SecurityOrigin option" where
  "enforceFilePathSeparation env o' =
     (if isLocal env o' then Some (o'\<lparr>m_enforceFilePathSeparation := True\<rparr>) else None)"

section \<open>Access between origins\<close>

text \<open>The assertion of \<^verbatim>\<open>passesFileCheck\<close> is the lemma \<open>passesFileCheck_asserts\<close>.\<close>

definition passesFileCheck :: "SecurityOrigin \<Rightarrow> SecurityOrigin \<Rightarrow> bool" where
  "passesFileCheck this other =
     (if \<not> m_enforceFilePathSeparation this \<and> \<not> m_enforceFilePathSeparation other then True
      else m_filePath this = m_filePath other)"

definition canAccess :: "Environment \<Rightarrow> SecurityOrigin \<Rightarrow> SecurityOrigin \<Rightarrow> bool" where
  "canAccess env this other =
     (if m_universalAccess this then True
      else if m_address this = m_address other then True
      else if m_isUnique this \<or> m_isUnique other then False
      else (let access =
          (if m_protocol this = m_protocol other then
             (if \<not> m_domainWasSetInDOM this \<and> \<not> m_domainWasSetInDOM other then
                m_host this = m_host other \<and> m_port this = m_port other
              else if m_domainWasSetInDOM this \<and> m_domainWasSetInDOM other then m_domain this = m_domain other
              else False)
           else False) in
        if access \<and> isLocal env this then passesFileCheck this other else access))"

definition isSameSchemeHostPort :: "Environment \<Rightarrow> SecurityOrigin \<Rightarrow> SecurityOrigin \<Rightarrow> bool" where
  "isSameSchemeHostPort env this other =
     (if m_host this \<noteq> m_host other then False
      else if m_protocol this \<noteq> m_protocol other then False
      else if m_port this \<noteq> m_port other then False
      else if isLocal env this \<and> \<not> passesFileCheck this other then False
      else True)"

definition origin_equal :: "Environment \<Rightarrow> SecurityOrigin \<Rightarrow> SecurityOrigin \<Rightarrow> bool" where
  "origin_equal env this other =
     (if m_address other = m_address this then True
      else if \<not> isSameSchemeHostPort env this other then False
      else if m_domainWasSetInDOM this \<noteq> m_domainWasSetInDOM other then False
      else if m_domainWasSetInDOM this \<and> m_domain this \<noteq> m_domain other then False
      else True)"

definition isThirdParty :: "Environment \<Rightarrow> SecurityOrigin \<Rightarrow> SecurityOrigin \<Rightarrow> bool" where
  "isThirdParty env this child =
     (if m_universalAccess child then False
      else if m_address this = m_address child then False
      else if m_isUnique this \<or> m_isUnique child then True
      else \<not> isSameSchemeHostPort env this child)"

definition canReceiveDragData :: "Environment \<Rightarrow> SecurityOrigin \<Rightarrow> SecurityOrigin \<Rightarrow> bool" where
  "canReceiveDragData env this dragInitiator =
     (if m_address this = m_address dragInitiator then True else canAccess env this dragInitiator)"

text \<open>The top origin can be null.\<close>

definition canAccessStorage ::
  "Environment \<Rightarrow> SecurityOrigin \<Rightarrow> SecurityOrigin option \<Rightarrow> ShouldAllowFromThirdParty \<Rightarrow> bool" where
  "canAccessStorage env this topOrigin allow =
     (if m_isUnique this then False
      else if m_storageBlockingPolicy this = BlockAllStorage then False
      else (case topOrigin of
          None \<Rightarrow> True
        | Some topO \<Rightarrow>
            (if m_storageBlockingPolicy topO = BlockAllStorage then False
             else if allow = AlwaysAllowFromThirdParty then True
             else if (m_storageBlockingPolicy this = BlockThirdPartyStorage
                  \<or> m_storageBlockingPolicy topO = BlockThirdPartyStorage) \<and> isThirdParty env topO this then False
             else True)))"

definition canShowNotifications :: "SecurityOrigin \<Rightarrow> OriginPolicy" where
  "canShowNotifications this =
     (if m_universalAccess this then AlwaysAllow else if m_isUnique this then AlwaysDeny else Ask)"

definition isHTTPFamilyOrigin :: "SecurityOrigin \<Rightarrow> bool" where
  "isHTTPFamilyOrigin this \<longleftrightarrow> m_protocol this = lit ''http'' \<or> m_protocol this = lit ''https''"

definition domainForCachePartition :: "Environment \<Rightarrow> SecurityOrigin \<Rightarrow> ustring option" where
  "domainForCachePartition env this =
     (if m_storageBlockingPolicy this \<noteq> BlockThirdPartyStorage then None
      else if isHTTPFamilyOrigin this then Some (m_host this)
      else if shouldPartitionCacheForURLScheme (env_schemes env) (m_protocol this) then Some (m_host this)
      else None)"

section \<open>Strings\<close>

definition appendNumber :: "u16 \<Rightarrow> ustring" where
  "appendNumber n = (case numberToStringUnsigned n of Some ds \<Rightarrow> widen ds | None \<Rightarrow> [])"

definition toRawString :: "SecurityOrigin \<Rightarrow> ustring" where
  "toRawString this =
     (if m_protocol this = lit ''file'' then lit ''file://''
      else m_protocol this @ lit ''://'' @ m_host this
        @ (if m_port this \<noteq> 0 then lit '':'' @ appendNumber (m_port this) else []))"

definition origin_toString :: "SecurityOrigin \<Rightarrow> ustring" where
  "origin_toString this =
     (if m_isUnique this then lit ''null''
      else if m_protocol this = lit ''file'' \<and> m_enforceFilePathSeparation this then lit ''null''
      else toRawString this)"

definition createFromString :: "Environment \<Rightarrow> nat \<Rightarrow> ustring \<Rightarrow> SecurityOrigin" where
  "createFromString env address originString =
     create env address (new_URL (env_encodeRelative env) null_URL originString)"

definition databaseIdentifier :: "SecurityOrigin \<Rightarrow> ustring" where
  "databaseIdentifier this =
     (if m_needsDatabaseIdentifierQuirkForFiles this then lit ''file__0''
      else m_protocol this @ lit ''_'' @ encodeForFileName (m_host this) @ lit ''_'' @ appendNumber (m_port this))"

text \<open>\<^verbatim>\<open>String::number(int)\<close> of a port in range.\<close>

definition string_number :: "u32 \<Rightarrow> ustring" where
  "string_number n = (case numberToStringSigned n of Some ds \<Rightarrow> widen ds | None \<Rightarrow> [])"

definition origin_url :: "Environment \<Rightarrow> ustring \<Rightarrow> ustring \<Rightarrow> u32 \<Rightarrow> URL" where
  "origin_url env p h n =
     new_URL (env_encodeRelative env) null_URL (p @ lit ''://'' @ h @ lit '':'' @ string_number n @ lit ''/'')"

definition maybeCreateFromDatabaseIdentifier :: "Environment \<Rightarrow> nat \<Rightarrow> ustring \<Rightarrow> SecurityOrigin option" where
  "maybeCreateFromDatabaseIdentifier env address s =
     (let separator1 = length (takeWhile (\<lambda>c. c \<noteq> 95) s);
          afterLast = takeWhile (\<lambda>c. c \<noteq> 95) (rev s);
          separator2 = length s - length afterLast - 1 in
      if separator1 = length s then None
      else if separator1 = separator2 then None
      else (let (number, portOkay) = charactersToInt (env_isSpace env) (rev afterLast);
                portAbsent = (separator2 = length s - 1) in
        if \<not> (portOkay \<or> portAbsent) then None
        else if sint number < 0 \<or> sint number > MaxAllowedPort then None
        else Some (create env address (origin_url env (take separator1 s)
          (decodeURLEscapeSequences (env_decode env) (slice s (separator1 + 1) separator2)) number))))"

definition createFromDatabaseIdentifier :: "Environment \<Rightarrow> nat \<Rightarrow> ustring \<Rightarrow> SecurityOrigin" where
  "createFromDatabaseIdentifier env address s =
     (case maybeCreateFromDatabaseIdentifier env address s of
        Some o' \<Rightarrow> o' | None \<Rightarrow> create env address null_URL)"

text \<open>The host is decoded, but what is decoded is not used.\<close>

definition create_from_parts :: "Environment \<Rightarrow> nat \<Rightarrow> ustring \<Rightarrow> ustring \<Rightarrow> u32 \<Rightarrow> SecurityOrigin" where
  "create_from_parts env address p h n =
     (if sint n < 0 \<or> sint n > MaxAllowedPort then createUnique address
      else (let decodedHost = decodeURLEscapeSequences (env_decode env) h in
        create env address (origin_url env p h n)))"

definition urlWithUniqueSecurityOrigin :: URL where
  "urlWithUniqueSecurityOrigin = parse (lit ''data:,'')"

section \<open>The policy\<close>

definition new_OriginAccessEntry :: "ustring \<Rightarrow> ustring \<Rightarrow> SubdomainSetting \<Rightarrow> OriginAccessEntry" where
  "new_OriginAccessEntry p h setting =
     \<lparr>e_protocol = lower p, e_host = lower h, e_subdomainSettings = setting,
      e_hostIsIPAddress = (h \<noteq> [] \<and> isASCIIDigit (last (lower h)))\<rparr>"

definition matchesOrigin :: "OriginAccessEntry \<Rightarrow> SecurityOrigin \<Rightarrow> bool" where
  "matchesOrigin e o' =
     (if e_protocol e \<noteq> m_protocol o' then False
      else if e_subdomainSettings e = AllowSubdomains \<and> e_host e = [] then True
      else if e_host e = m_host o' then True
      else if e_subdomainSettings e = DisallowSubdomains then False
      else if e_hostIsIPAddress e then False
      else length (m_host o') > length (e_host e)
        \<and> m_host o' ! (length (m_host o') - length (e_host e) - 1) = 46
        \<and> drop (length (m_host o') - length (e_host e)) (m_host o') = e_host e)"

definition entry_eq :: "OriginAccessEntry \<Rightarrow> OriginAccessEntry \<Rightarrow> bool" where
  "entry_eq a b \<longleftrightarrow> lower (e_protocol a) = lower (e_protocol b) \<and> lower (e_host a) = lower (e_host b)
     \<and> e_subdomainSettings a = e_subdomainSettings b"

fun removeFirst :: "OriginAccessEntry \<Rightarrow> OriginAccessEntry list \<Rightarrow> OriginAccessEntry list" where
  "removeFirst e [] = []"
| "removeFirst e (x # xs) = (if entry_eq x e then xs else x # removeFirst e xs)"

definition isAccessWhiteListed :: "Environment \<Rightarrow> SecurityOrigin \<Rightarrow> SecurityOrigin \<Rightarrow> bool" where
  "isAccessWhiteListed env activeOrigin targetOrigin =
     (case map_of (env_accessMap env) (origin_toString activeOrigin) of
        None \<Rightarrow> False | Some entries \<Rightarrow> list_ex (\<lambda>e. matchesOrigin e targetOrigin) entries)"

definition isAccessToURLWhiteListed :: "Environment \<Rightarrow> nat \<Rightarrow> SecurityOrigin \<Rightarrow> URL \<Rightarrow> bool" where
  "isAccessToURLWhiteListed env address activeOrigin url =
     isAccessWhiteListed env activeOrigin (create env address url)"

definition addOriginAccessWhitelistEntry ::
  "SecurityOrigin \<Rightarrow> ustring \<Rightarrow> ustring \<Rightarrow> bool \<Rightarrow> Environment \<Rightarrow> Environment" where
  "addOriginAccessWhitelistEntry source p h allowSubdomains env =
     (if m_isUnique source then env
      else (let entry = new_OriginAccessEntry p h (if allowSubdomains then AllowSubdomains else DisallowSubdomains);
                key = origin_toString source;
                entries = (case map_of (env_accessMap env) key of None \<Rightarrow> [] | Some es \<Rightarrow> es) in
        env\<lparr>env_accessMap := AList.update key (entries @ [entry]) (env_accessMap env)\<rparr>))"

definition removeOriginAccessWhitelistEntry ::
  "SecurityOrigin \<Rightarrow> ustring \<Rightarrow> ustring \<Rightarrow> bool \<Rightarrow> Environment \<Rightarrow> Environment" where
  "removeOriginAccessWhitelistEntry source p h allowSubdomains env =
     (if m_isUnique source then env
      else (let entry = new_OriginAccessEntry p h (if allowSubdomains then AllowSubdomains else DisallowSubdomains);
                key = origin_toString source in
        (case map_of (env_accessMap env) key of
           None \<Rightarrow> env
         | Some es \<Rightarrow>
             (if \<not> list_ex (\<lambda>x. entry_eq x entry) es then env
              else (let es' = removeFirst entry es in
                if es' = [] then env\<lparr>env_accessMap := AList.delete key (env_accessMap env)\<rparr>
                else env\<lparr>env_accessMap := AList.update key es' (env_accessMap env)\<rparr>)))))"

definition resetOriginAccessWhitelists :: "Environment \<Rightarrow> Environment" where
  "resetOriginAccessWhitelists env = env\<lparr>env_accessMap := []\<rparr>"

definition setLocalLoadPolicy :: "LocalLoadPolicy \<Rightarrow> Environment \<Rightarrow> Environment" where
  "setLocalLoadPolicy p env = env\<lparr>env_localLoadPolicy := p\<rparr>"

definition restrictAccessToLocal :: "Environment \<Rightarrow> bool" where
  "restrictAccessToLocal env \<longleftrightarrow> env_localLoadPolicy env \<noteq> AllowLocalLoadsForAll"

definition allowSubstituteDataAccessToLocal :: "Environment \<Rightarrow> bool" where
  "allowSubstituteDataAccessToLocal env \<longleftrightarrow> env_localLoadPolicy env \<noteq> AllowLocalLoadsForLocalOnly"

definition shouldHideReferrer :: "URL \<Rightarrow> ustring \<Rightarrow> bool" where
  "shouldHideReferrer url referrer =
     (let referrerIsSecureURL = string_protocolIs referrer ''https'';
          referrerIsWebURL = referrerIsSecureURL \<or> string_protocolIs referrer ''http'' in
      if \<not> referrerIsWebURL then True
      else if \<not> referrerIsSecureURL then False
      else \<not> protocolIs url ''https'')"

datatype ReferrerPolicy = ReferrerPolicyNever | ReferrerPolicyAlways | ReferrerPolicyOrigin | ReferrerPolicyDefault

definition string_protocolIsInHTTPFamily :: "ustring \<Rightarrow> bool" where
  "string_protocolIsInHTTPFamily url \<longleftrightarrow>
     isLetterMatchIgnoringCase (code_unit url 0) 104
     \<and> isLetterMatchIgnoringCase (code_unit url 1) 116
     \<and> isLetterMatchIgnoringCase (code_unit url 2) 116
     \<and> isLetterMatchIgnoringCase (code_unit url 3) 112
     \<and> (code_unit url 4 = 58 \<or> (isLetterMatchIgnoringCase (code_unit url 4) 115 \<and> code_unit url 5 = 58))"

definition generateReferrerHeader :: "Environment \<Rightarrow> nat \<Rightarrow> ReferrerPolicy \<Rightarrow> URL \<Rightarrow> ustring \<Rightarrow> ustring option" where
  "generateReferrerHeader env address p url referrer =
     (if referrer = [] then None
      else if \<not> string_protocolIsInHTTPFamily referrer then None
      else (case p of
          ReferrerPolicyNever \<Rightarrow> None
        | ReferrerPolicyAlways \<Rightarrow> Some referrer
        | ReferrerPolicyOrigin \<Rightarrow>
            (let origin = origin_toString (createFromString env address referrer) in
             if origin = lit ''null'' then None else Some (origin @ lit ''/''))
        | ReferrerPolicyDefault \<Rightarrow> (if shouldHideReferrer url referrer then None else Some referrer)))"

section \<open>Requests and display\<close>

text \<open>Of the comparison with the cached origin only the address matters; the origin of the target is made at \<open>address\<close>.\<close>

definition canRequest :: "Environment \<Rightarrow> nat \<Rightarrow> SecurityOrigin \<Rightarrow> URL \<Rightarrow> bool" where
  "canRequest env address this url =
     (if m_universalAccess this then True
      else if (case getCachedOrigin env url of Some o' \<Rightarrow> m_address o' = m_address this | None \<Rightarrow> False) then True
      else if m_isUnique this then False
      else (let targetOrigin = create env address url in
        if m_isUnique targetOrigin then False
        else if isSameSchemeHostPort env this targetOrigin then True
        else isAccessWhiteListed env this targetOrigin))"

definition taintsCanvas :: "Environment \<Rightarrow> nat \<Rightarrow> SecurityOrigin \<Rightarrow> URL \<Rightarrow> bool" where
  "taintsCanvas env address this url =
     (if canRequest env address this url then False else if protocolIsData url then False else True)"

definition startsWithIgnoringCase :: "ustring \<Rightarrow> string \<Rightarrow> bool" where
  "startsWithIgnoringCase s p \<longleftrightarrow> lower (take (length p) s) = lit p"

definition isFeedWithNestedProtocolInHTTPFamily :: "URL \<Rightarrow> bool" where
  "isFeedWithNestedProtocolInHTTPFamily url =
     (let s = m_string url in
      if \<not> startsWithIgnoringCase s ''feed'' then False
      else startsWithIgnoringCase s ''feed://''
        \<or> startsWithIgnoringCase s ''feed:http:'' \<or> startsWithIgnoringCase s ''feed:https:''
        \<or> startsWithIgnoringCase s ''feeds:http:'' \<or> startsWithIgnoringCase s ''feeds:https:''
        \<or> startsWithIgnoringCase s ''feedsearch:http:'' \<or> startsWithIgnoringCase s ''feedsearch:https:'')"

definition canDisplay :: "Environment \<Rightarrow> nat \<Rightarrow> SecurityOrigin \<Rightarrow> URL \<Rightarrow> bool" where
  "canDisplay env address this url =
     (if m_universalAccess this then True
      else (let p = lower (protocol url) in
        if isFeedWithNestedProtocolInHTTPFamily url then True
        else if canDisplayOnlyIfCanRequest (env_schemes env) p then canRequest env address this url
        else if shouldTreatURLSchemeAsDisplayIsolated (env_schemes env) p then
          m_protocol this = p \<or> isAccessToURLWhiteListed env address this url
        else if restrictAccessToLocal env \<and> shouldTreatURLSchemeAsLocal (env_schemes env) p then
          m_canLoadLocalResources this \<or> isAccessToURLWhiteListed env address this url
        else True))"


section \<open>The same-origin policy\<close>

lemma passesFileCheck_sym: "passesFileCheck a b = passesFileCheck b a"
  by (auto simp: passesFileCheck_def)

text \<open>The file check is only made for two local origins, as its assertion demands.\<close>

lemma passesFileCheck_asserts: "m_protocol a = m_protocol b \<Longrightarrow> isLocal env a = isLocal env b"
  by (simp add: isLocal_def)

text \<open>C17. Access between two origins that were not granted universal access is mutual.\<close>

theorem canAccess_symmetric:
  "canAccess env (a\<lparr>m_universalAccess := False\<rparr>) (b\<lparr>m_universalAccess := False\<rparr>)
     = canAccess env (b\<lparr>m_universalAccess := False\<rparr>) (a\<lparr>m_universalAccess := False\<rparr>)"
  by (auto simp: canAccess_def Let_def isLocal_def passesFileCheck_def)

definition effectivePort :: "URL \<Rightarrow> u16" where
  "effectivePort url = (if isDefaultPortForProtocol (port url) (lower (protocol url)) then 0 else port url)"

definition origin_tuple :: "URL \<Rightarrow> ustring \<times> ustring \<times> u16" where
  "origin_tuple url = (lower (protocol url), lower (host url), effectivePort url)"

lemma new_SecurityOrigin_simps [simp]:
  "m_address (new_SecurityOrigin env address url) = address"
  "m_protocol (new_SecurityOrigin env address url) = lower (protocol url)"
  "m_host (new_SecurityOrigin env address url) = lower (host url)"
  "m_domain (new_SecurityOrigin env address url) = lower (host url)"
  "m_port (new_SecurityOrigin env address url) = effectivePort url"
  "\<not> m_isUnique (new_SecurityOrigin env address url)"
  "\<not> m_universalAccess (new_SecurityOrigin env address url)"
  "\<not> m_domainWasSetInDOM (new_SecurityOrigin env address url)"
  "\<not> m_enforceFilePathSeparation (new_SecurityOrigin env address url)"
  by (simp_all add: new_SecurityOrigin_def Let_def effectivePort_def InvalidPort_def)

lemma createUnique_simps [simp]:
  "m_address (createUnique address) = address" "m_isUnique (createUnique address)"
  "\<not> m_universalAccess (createUnique address)" "m_protocol (createUnique address) = []"
  "m_host (createUnique address) = []"
  by (simp_all add: createUnique_def)

lemma create_plain:
  "\<not> protocolIs url ''blob'' \<Longrightarrow> create env address url =
     (if shouldTreatAsUniqueOrigin env url then
        (if protocolIs url ''file'' then (createUnique address)\<lparr>m_needsDatabaseIdentifierQuirkForFiles := True\<rparr>
         else createUnique address)
      else new_SecurityOrigin env address url)"
  by (simp add: create_def getCachedOrigin_def shouldUseInnerURL_def)

text \<open>
  C16. The same-origin policy: the origins made for two URLs that are not blobs may access each other exactly when
  neither is unique and the schemes, the hosts and the ports, with the default port of the scheme left out,
  are the same.
\<close>

theorem created_origins_access:
  assumes "a \<noteq> b" "\<not> protocolIs u ''blob''" "\<not> protocolIs v ''blob''"
  shows "canAccess env (create env a u) (create env b v)
    \<longleftrightarrow> \<not> shouldTreatAsUniqueOrigin env u \<and> \<not> shouldTreatAsUniqueOrigin env v \<and> origin_tuple u = origin_tuple v"
  using assms by (simp add: create_plain canAccess_def Let_def origin_tuple_def passesFileCheck_def)

definition example_env :: Environment where
  "example_env = \<lparr>env_schemes = new_Schemes, env_blobOrigins = [], env_localLoadPolicy = AllowLocalLoadsForLocalOnly,
     env_accessMap = [], env_decode = widen, env_encodeRelative = copyASCII,
     env_isSpace = (\<lambda>_. False)\<rparr>"

lemma examples_not_blob:
  "\<not> protocolIs (parse (lit ''HTTP://A:80/x'')) ''blob''" "\<not> protocolIs (parse (lit ''http://a/y'')) ''blob''"
  by code_simp+

theorem created_origins_access_witness:
  "canAccess example_env (create example_env 1 (parse (lit ''HTTP://A:80/x''))) (create example_env 2 (parse (lit ''http://a/y'')))
    \<longleftrightarrow> \<not> shouldTreatAsUniqueOrigin example_env (parse (lit ''HTTP://A:80/x''))
      \<and> \<not> shouldTreatAsUniqueOrigin example_env (parse (lit ''http://a/y''))
      \<and> origin_tuple (parse (lit ''HTTP://A:80/x'')) = origin_tuple (parse (lit ''http://a/y''))"
  by (rule created_origins_access [OF _ examples_not_blob]) simp

section \<open>The invariant of an origin\<close>

definition origin_ok :: "Environment \<Rightarrow> SecurityOrigin \<Rightarrow> bool" where
  "origin_ok env o' \<longleftrightarrow> lower (m_protocol o') = m_protocol o' \<and> lower (m_host o') = m_host o'
     \<and> (m_isUnique o' \<longrightarrow> m_protocol o' = [] \<and> m_host o' = [])
     \<and> (m_port o' = 0 \<or> \<not> isDefaultPortForProtocol (m_port o') (m_protocol o'))
     \<and> (isLocal env o' \<longrightarrow> m_canLoadLocalResources o')
     \<and> (m_enforceFilePathSeparation o' \<longrightarrow> isLocal env o')"

lemma lower_lower [simp]: "lower (lower s) = lower s"
proof -
  have "toASCIILower (toASCIILower c) = toASCIILower c" for c :: u16
  proof (cases "65 \<le> c \<and> c \<le> 90")
    case True
    have u: "65 \<le> unat c" "unat c \<le> 90" using True by (simp_all add: word_le_nat_alt)
    have "unat c \<in> set [65..<91]" unfolding set_upt atLeastLessThan_iff using u by linarith
    moreover have "list_all (\<lambda>n. toASCIILower (toASCIILower (word_of_nat n :: u16)) = toASCIILower (word_of_nat n)) [65..<91]"
      by code_simp
    ultimately have "toASCIILower (toASCIILower (word_of_nat (unat c) :: u16)) = toASCIILower (word_of_nat (unat c))"
      by (simp only: list_all_iff)
    then show ?thesis by simp
  next
    case False
    then have "toASCIILower c = c" by (simp only: toASCIILower_def if_not_P) simp
    then show ?thesis by (simp only:)
  qed
  then show ?thesis by (simp add: lower_def)
qed

lemma new_SecurityOrigin_ok: "origin_ok env (new_SecurityOrigin env address url)"
  by (simp add: origin_ok_def effectivePort_def)
    (simp add: new_SecurityOrigin_def isLocal_def Let_def)

lemma createUnique_ok: "origin_ok env (createUnique address)"
  by (simp add: origin_ok_def createUnique_def isLocal_def shouldTreatURLSchemeAsLocal_def lower_def InvalidPort_def)

definition environment_ok :: "Environment \<Rightarrow> bool" where
  "environment_ok env \<longleftrightarrow> list_all (\<lambda>(_, o'). origin_ok env o') (env_blobOrigins env)"



section \<open>White lists\<close>

text \<open>
  A white list entry matches an origin of its scheme when the hosts are equal, or subdomains are allowed and the
  host of the entry is empty, or it is no IP address and the host of the origin ends with a dot and the host of the
  entry: a host that merely ends with the same letters does not match.
\<close>

lemma matchesOrigin_subdomains:
  "matchesOrigin e o' \<longleftrightarrow> e_protocol e = m_protocol o' \<and>
     (e_host e = m_host o' \<or> (e_subdomainSettings e = AllowSubdomains \<and>
       (e_host e = [] \<or> (\<not> e_hostIsIPAddress e \<and> (\<exists>x. m_host o' = x @ 46 # e_host e)))))"
proof -
  let ?h = "m_host o'" and ?e = "e_host e"
  have "(length ?h > length ?e \<and> ?h ! (length ?h - length ?e - 1) = 46 \<and> drop (length ?h - length ?e) ?h = ?e)
      \<longleftrightarrow> (\<exists>x. ?h = x @ 46 # ?e)" (is "?l \<longleftrightarrow> ?r")
  proof
    assume l: ?l
    let ?n = "length ?h - length ?e - 1"
    have n: "?n < length ?h" "Suc ?n = length ?h - length ?e" using l by linarith+
    have "?h = take ?n ?h @ ?h ! ?n # drop (Suc ?n) ?h" using n(1) by (rule id_take_nth_drop)
    then show ?r using l n(2) by metis
  next
    assume ?r
    then show ?l by (auto simp: nth_append)
  qed
  moreover have "e_subdomainSettings e = DisallowSubdomains \<longleftrightarrow> e_subdomainSettings e \<noteq> AllowSubdomains"
    by (cases "e_subdomainSettings e") simp_all
  ultimately show ?thesis by (auto simp: matchesOrigin_def)
qed

text \<open>
  C21. Adding an entry to the white list of an origin allows exactly what was allowed before and the access from
  origins with the same string to the targets that the entry matches.
\<close>

theorem addOriginAccessWhitelistEntry_allows:
  "isAccessWhiteListed (addOriginAccessWhitelistEntry source p h sub env) active target \<longleftrightarrow>
     isAccessWhiteListed env active target
     \<or> (\<not> m_isUnique source \<and> origin_toString active = origin_toString source
        \<and> matchesOrigin (new_OriginAccessEntry p h (if sub then AllowSubdomains else DisallowSubdomains)) target)"
  by (auto simp: isAccessWhiteListed_def addOriginAccessWhitelistEntry_def Let_def update_conv' split: option.splits)

section \<open>Referrers\<close>

text \<open>
  C22. Under the default policy a secure referrer is sent to secure URLs only, and what is sent is the referrer itself.
\<close>

theorem default_referrer_secure:
  assumes "generateReferrerHeader env address ReferrerPolicyDefault url referrer = Some header"
    and "string_protocolIs referrer ''https''"
  shows "protocolIs url ''https'' \<and> header = referrer"
  using assms by (auto simp: generateReferrerHeader_def shouldHideReferrer_def Let_def split: if_splits)

lemma example_referrer:
  "generateReferrerHeader example_env 1 ReferrerPolicyDefault (parse (lit ''https://b/'')) (lit ''https://a/'')
     = Some (lit ''https://a/'')"
  "string_protocolIs (lit ''https://a/'') ''https''"
  by code_simp+

theorem default_referrer_secure_witness:
  "protocolIs (parse (lit ''https://b/'')) ''https'' \<and> (lit ''https://a/'' :: ustring) = lit ''https://a/''"
  by (rule default_referrer_secure [OF example_referrer])

end
