(* ===== verification/ResourceLoadInfo.thy ===== *)
theory ResourceLoadInfo
  imports SecurityOrigin
begin

text \<open>
  \<^verbatim>\<open>Source/WebCore/loader/ResourceLoadInfo.h\<close> and \<^verbatim>\<open>ResourceLoadInfo.cpp\<close>: the types of loads, their names in a rule list and
  the flags that a load has. The flags are bits of a 16-bit word, six bits apart in two groups: types below \<^verbatim>\<open>0x400\<close>, load types
  above.
\<close>

datatype ResourceType = InvalidResource | Document | Image | StyleSheet | Script | Font | Raw | SVGDocument | Media
  | PlugInStream | Popup

datatype LoadType = InvalidLoad | FirstParty | ThirdParty

fun resourceTypeValue :: "ResourceType \<Rightarrow> u16" where
  "resourceTypeValue InvalidResource = 0"
| "resourceTypeValue Document = 0x0001"
| "resourceTypeValue Image = 0x0002"
| "resourceTypeValue StyleSheet = 0x0004"
| "resourceTypeValue Script = 0x0008"
| "resourceTypeValue Font = 0x0010"
| "resourceTypeValue Raw = 0x0020"
| "resourceTypeValue SVGDocument = 0x0040"
| "resourceTypeValue Media = 0x0080"
| "resourceTypeValue PlugInStream = 0x0100"
| "resourceTypeValue Popup = 0x0200"

fun loadTypeValue :: "LoadType \<Rightarrow> u16" where
  "loadTypeValue InvalidLoad = 0"
| "loadTypeValue FirstParty = 0x0400"
| "loadTypeValue ThirdParty = 0x0800"

text \<open>\<^verbatim>\<open>CachedResource::Type\<close> with all optional members; the default case of the conversion is an assertion.\<close>

datatype CachedResourceType = MainResource | ImageResource | CSSStyleSheet | CachedScript | FontResource | SVGFontResource
  | RawResource | SVGDocumentResource | XSLStyleSheet | LinkPrefetch | LinkSubresource | TextTrackResource

fun toResourceType :: "CachedResourceType \<Rightarrow> ResourceType option" where
  "toResourceType MainResource = Some Document"
| "toResourceType SVGDocumentResource = Some SVGDocument"
| "toResourceType ImageResource = Some Image"
| "toResourceType CSSStyleSheet = Some StyleSheet"
| "toResourceType XSLStyleSheet = Some StyleSheet"
| "toResourceType CachedScript = Some Script"
| "toResourceType FontResource = Some Font"
| "toResourceType SVGFontResource = Some Font"
| "toResourceType RawResource = Some Raw"
| "toResourceType TextTrackResource = Some Media"
| "toResourceType LinkPrefetch = None"
| "toResourceType LinkSubresource = None"

definition readResourceType :: "ustring \<Rightarrow> u16" where
  "readResourceType name =
     (if name = lit ''document'' then resourceTypeValue Document
      else if name = lit ''image'' then resourceTypeValue Image
      else if name = lit ''style-sheet'' then resourceTypeValue StyleSheet
      else if name = lit ''script'' then resourceTypeValue Script
      else if name = lit ''font'' then resourceTypeValue Font
      else if name = lit ''raw'' then resourceTypeValue Raw
      else if name = lit ''svg-document'' then resourceTypeValue SVGDocument
      else if name = lit ''media'' then resourceTypeValue Media
      else if name = lit ''popup'' then resourceTypeValue Popup
      else resourceTypeValue InvalidResource)"

definition readLoadType :: "ustring \<Rightarrow> u16" where
  "readLoadType name =
     (if name = lit ''first-party'' then loadTypeValue FirstParty
      else if name = lit ''third-party'' then loadTypeValue ThirdParty
      else loadTypeValue InvalidLoad)"

record ResourceLoadInfo =
  resourceURL :: URL
  mainDocumentURL :: URL
  resource_type :: ResourceType

text \<open>Two fresh origins are made, at addresses that are in use nowhere else.\<close>

definition loadIsThirdParty :: "Environment \<Rightarrow> nat \<times> nat \<Rightarrow> ResourceLoadInfo \<Rightarrow> bool" where
  "loadIsThirdParty env fresh i =
     (let mainDocumentSecurityOrigin = create env (fst fresh) (mainDocumentURL i);
          resourceSecurityOrigin = create env (snd fresh) (resourceURL i)
      in \<not> canAccess env mainDocumentSecurityOrigin resourceSecurityOrigin)"

definition getResourceFlags :: "Environment \<Rightarrow> nat \<times> nat \<Rightarrow> ResourceLoadInfo \<Rightarrow> u16 option" where
  "getResourceFlags env fresh i =
     (if resource_type i = InvalidResource then None
      else Some (resourceTypeValue (resource_type i)
        OR (if loadIsThirdParty env fresh i then loadTypeValue ThirdParty else loadTypeValue FirstParty)))"

section \<open>A rule for several kinds of loads\<close>

lemma type_bits: "resourceTypeValue a AND resourceTypeValue b = (if a = b then resourceTypeValue a else 0)"
  by (cases a; cases b) simp_all

lemma load_bits: "loadTypeValue a AND loadTypeValue b = (if a = b then loadTypeValue a else 0)"
  by (cases a; cases b) simp_all

lemma type_load_bits: "resourceTypeValue a AND loadTypeValue b = 0" "loadTypeValue b AND resourceTypeValue a = 0"
  by (cases a; cases b; simp)+

lemma type_value_0: "resourceTypeValue a = 0 \<longleftrightarrow> a = InvalidResource" "loadTypeValue b = 0 \<longleftrightarrow> b = InvalidLoad"
  by (cases a; simp) (cases b; simp)

text \<open>C31.
  A rule limited to a resource type and to a load type fires when either of the two fits: the flags of the trigger are one
  set of bits, and the test of the interpreter is that it shares a bit with the flags of the load. A rule for third-party scripts
  also fires for a first-party script and for a third-party image.
\<close>

theorem type_or_load_type_suffices:
  assumes "getResourceFlags env fresh i = Some flags" "rt \<noteq> InvalidResource" "lt \<noteq> InvalidLoad"
  shows "flags AND (resourceTypeValue rt OR loadTypeValue lt) \<noteq> 0
    \<longleftrightarrow> rt = resource_type i \<or> lt = (if loadIsThirdParty env fresh i then ThirdParty else FirstParty)"
proof -
  let ?l = "if loadIsThirdParty env fresh i then ThirdParty else FirstParty"
  have "(a OR b) AND (c OR d) = (a AND c) OR (a AND d) OR (b AND c) OR (b AND d)" for a b c d :: u16
    by (rule bit_word_eqI) (auto simp: bit_and_iff bit_or_iff)
  moreover have "flags = resourceTypeValue (resource_type i) OR loadTypeValue ?l" using assms(1) by (auto simp: getResourceFlags_def split: if_splits)
  ultimately have "flags AND (resourceTypeValue rt OR loadTypeValue lt)
      = (if resource_type i = rt then resourceTypeValue (resource_type i) else 0) OR (if ?l = lt then loadTypeValue ?l else 0)"
    by (simp only: type_bits load_bits type_load_bits or.left_neutral or.right_neutral)
  then show ?thesis using assms(2,3) by (auto simp: type_value_0 or_eq_0_iff)
qed

definition script_load :: ResourceLoadInfo where
  "script_load = \<lparr>resourceURL = null_URL, mainDocumentURL = null_URL, resource_type = Script\<rparr>"

theorem type_or_load_type_suffices_witness:
  "\<exists>flags. getResourceFlags example_env (0, 1) script_load = Some flags
    \<and> flags AND (resourceTypeValue Script OR loadTypeValue FirstParty) \<noteq> 0
    \<and> flags AND (resourceTypeValue Script OR loadTypeValue ThirdParty) \<noteq> 0"
proof -
  obtain flags where "getResourceFlags example_env (0, 1) script_load = Some flags"
    by (simp add: getResourceFlags_def script_load_def)
  then show ?thesis
    using type_or_load_type_suffices [of example_env "(0, 1)" script_load flags Script FirstParty]
      type_or_load_type_suffices [of example_env "(0, 1)" script_load flags Script ThirdParty] by (auto simp: script_load_def)
qed

end
