(* ===== verification/StringBuilder.thy ===== *)
theory StringBuilder
  imports Prelude
begin

text \<open>
  \<^verbatim>\<open>Source/WTF/wtf/text/StringBuilder.h\<close> and \<^verbatim>\<open>StringBuilder.cpp\<close>: strings are built either in
  a retained string or in an over-allocated buffer, 8 bits per character as long as possible. A
  failed assertion, a \<^verbatim>\<open>CRASH\<close> or a copy outside of a buffer is \<open>None\<close>. Buffers are values here:
  whether a buffer has one reference only decides between reallocating and copying, which
  keep the same characters. The uninitialised tail of a new buffer is zero; nothing reads it.
\<close>

section \<open>Strings\<close>

datatype WString = String8 "u8 list" | String16 "u16 list"

fun str_length :: "WString \<Rightarrow> nat" where
  "str_length (String8 cs) = length cs"
| "str_length (String16 cs) = length cs"

fun is8Bit :: "WString \<Rightarrow> bool" where
  "is8Bit (String8 cs) \<longleftrightarrow> True"
| "is8Bit (String16 cs) \<longleftrightarrow> False"

fun str_chars :: "WString \<Rightarrow> u16 list" where
  "str_chars (String8 cs) = map ucast cs"
| "str_chars (String16 cs) = cs"

text \<open>\<^verbatim>\<open>characters8\<close> and \<^verbatim>\<open>characters16\<close> assert the width.\<close>

fun str_characters8 :: "WString \<Rightarrow> u8 list option" where
  "str_characters8 (String8 cs) = Some cs"
| "str_characters8 (String16 cs) = None"

fun str_characters16 :: "WString \<Rightarrow> u16 list option" where
  "str_characters16 (String16 cs) = Some cs"
| "str_characters16 (String8 cs) = None"

definition wstring_eq :: "WString \<Rightarrow> WString \<Rightarrow> bool" where
  "wstring_eq a b \<longleftrightarrow> str_chars a = str_chars b"

definition emptyString :: WString where
  "emptyString = String8 []"

text \<open>\<^verbatim>\<open>StringImpl::createUninitialized\<close>, with the size of \<^verbatim>\<open>StringImpl\<close> on 64 bits; the shared
  empty string has 8 bits.\<close>

definition unsigned_max :: nat where
  "unsigned_max = 4294967295"

definition sizeof_StringImpl :: nat where
  "sizeof_StringImpl = 24"

definition createUninitialized8 :: "nat \<Rightarrow> WString option" where
  "createUninitialized8 len =
     (if len > unsigned_max - sizeof_StringImpl then None else Some (String8 (replicate len 0)))"

definition createUninitialized16 :: "nat \<Rightarrow> WString option" where
  "createUninitialized16 len =
     (if len = 0 then Some emptyString
      else if len > (unsigned_max - sizeof_StringImpl) div 2 then None
      else Some (String16 (replicate len 0)))"

text \<open>\<^verbatim>\<open>memcpy\<close> into a buffer at a position.\<close>

definition overwrite :: "nat \<Rightarrow> 'a list \<Rightarrow> 'a list \<Rightarrow> 'a list option" where
  "overwrite pos cs buf =
     (if pos + length cs \<le> length buf then Some (take pos buf @ cs @ drop (pos + length cs) buf) else None)"

fun write8 :: "nat \<Rightarrow> u8 list \<Rightarrow> WString \<Rightarrow> WString option" where
  "write8 pos cs (String8 buf) = map_option String8 (overwrite pos cs buf)"
| "write8 pos cs (String16 buf) = None"

fun write16 :: "nat \<Rightarrow> u16 list \<Rightarrow> WString \<Rightarrow> WString option" where
  "write16 pos cs (String16 buf) = map_option String16 (overwrite pos cs buf)"
| "write16 pos cs (String8 buf) = (if cs = [] then Some (String8 buf) else None)"

definition createSubstringSharingImpl :: "WString \<Rightarrow> nat \<Rightarrow> nat \<Rightarrow> WString option" where
  "createSubstringSharingImpl rep offset len =
     (if offset + len > str_length rep then None
      else if len = 0 then Some emptyString
      else case rep of
        String8 cs \<Rightarrow> Some (String8 (take len (drop offset cs)))
      | String16 cs \<Rightarrow> Some (String16 (take len (drop offset cs))))"

section \<open>The builder\<close>

record StringBuilder =
  m_length :: nat
  m_string :: "WString option"
  m_buffer :: "WString option"
  m_is8Bit :: bool

definition new_StringBuilder :: StringBuilder where
  "new_StringBuilder = \<lparr>m_length = 0, m_string = None, m_buffer = None, m_is8Bit = True\<rparr>"

definition sb_clear :: "StringBuilder \<Rightarrow> StringBuilder" where
  "sb_clear sb = sb\<lparr>m_length := 0, m_string := None, m_buffer := None, m_is8Bit := True\<rparr>"

definition sb_swap :: "StringBuilder \<Rightarrow> StringBuilder \<Rightarrow> StringBuilder \<times> StringBuilder" where
  "sb_swap a b = (b, a)"

definition capacity :: "StringBuilder \<Rightarrow> nat" where
  "capacity sb = (case m_buffer sb of Some b \<Rightarrow> str_length b | None \<Rightarrow> m_length sb)"

definition expandedCapacity :: "nat \<Rightarrow> nat \<Rightarrow> nat" where
  "expandedCapacity cap requiredLength = max requiredLength (max 16 (cap * 2 mod 4294967296))"

definition sb_characters8 :: "StringBuilder \<Rightarrow> u8 list option" where
  "sb_characters8 sb =
     (if \<not> m_is8Bit sb then None
      else if m_length sb = 0 then Some []
      else case m_string sb of
        Some s \<Rightarrow> str_characters8 s
      | None \<Rightarrow> Option.bind (m_buffer sb) str_characters8)"

definition sb_characters16 :: "StringBuilder \<Rightarrow> u16 list option" where
  "sb_characters16 sb =
     (if m_is8Bit sb then None
      else if m_length sb = 0 then Some []
      else case m_string sb of
        Some s \<Rightarrow> str_characters16 s
      | None \<Rightarrow> Option.bind (m_buffer sb) str_characters16)"

definition sb_at :: "StringBuilder \<Rightarrow> nat \<Rightarrow> u16 option" where
  "sb_at sb i =
     (if m_is8Bit sb then do { cs \<leftarrow> sb_characters8 sb; c \<leftarrow> vec_at cs i; Some (ucast c) }
      else do { cs \<leftarrow> sb_characters16 sb; vec_at cs i })"

definition reifyString :: "StringBuilder \<Rightarrow> StringBuilder option" where
  "reifyString sb =
     (case m_string sb of
        Some s \<Rightarrow> Some sb
      | None \<Rightarrow>
          if m_length sb = 0 then Some (sb\<lparr>m_string := Some emptyString\<rparr>)
          else do {
            b \<leftarrow> m_buffer sb;
            (if m_length sb = str_length b then Some (sb\<lparr>m_string := Some b\<rparr>)
             else do {
               s \<leftarrow> createSubstringSharingImpl b 0 (m_length sb);
               Some (sb\<lparr>m_string := Some s\<rparr>)
             })
          })"

text \<open>A copy of the first \<^verbatim>\<open>m_length\<close> characters into a new buffer.\<close>

definition copy_into :: "nat \<Rightarrow> 'a list \<Rightarrow> 'a list option" where
  "copy_into len cs = (if len \<le> length cs then Some (take len cs) else None)"

definition allocateBuffer8 :: "u8 list \<Rightarrow> nat \<Rightarrow> StringBuilder \<Rightarrow> StringBuilder option" where
  "allocateBuffer8 currentCharacters requiredLength sb =
     (if \<not> m_is8Bit sb then None else do {
        buffer \<leftarrow> createUninitialized8 requiredLength;
        cs \<leftarrow> copy_into (m_length sb) currentCharacters;
        buffer \<leftarrow> write8 0 cs buffer;
        Some (sb\<lparr>m_buffer := Some buffer, m_string := None\<rparr>)
      })"

definition allocateBuffer16 :: "u16 list \<Rightarrow> nat \<Rightarrow> StringBuilder \<Rightarrow> StringBuilder option" where
  "allocateBuffer16 currentCharacters requiredLength sb =
     (if m_is8Bit sb then None else do {
        buffer \<leftarrow> createUninitialized16 requiredLength;
        cs \<leftarrow> copy_into (m_length sb) currentCharacters;
        buffer \<leftarrow> write16 0 cs buffer;
        Some (sb\<lparr>m_buffer := Some buffer, m_string := None\<rparr>)
      })"

definition allocateBufferUpConvert :: "u8 list \<Rightarrow> nat \<Rightarrow> StringBuilder \<Rightarrow> StringBuilder option" where
  "allocateBufferUpConvert currentCharacters requiredLength sb =
     (if \<not> m_is8Bit sb then None else do {
        buffer \<leftarrow> createUninitialized16 requiredLength;
        cs \<leftarrow> copy_into (m_length sb) currentCharacters;
        buffer \<leftarrow> write16 0 (map ucast cs) buffer;
        Some (sb\<lparr>m_is8Bit := False, m_buffer := Some buffer, m_string := None\<rparr>)
      })"

definition reallocateBuffer8 :: "nat \<Rightarrow> StringBuilder \<Rightarrow> StringBuilder option" where
  "reallocateBuffer8 requiredLength sb = do {
     b \<leftarrow> m_buffer sb;
     cs \<leftarrow> str_characters8 b;
     allocateBuffer8 cs requiredLength (sb\<lparr>m_string := None\<rparr>)
   }"

definition reallocateBuffer16 :: "nat \<Rightarrow> StringBuilder \<Rightarrow> StringBuilder option" where
  "reallocateBuffer16 requiredLength sb = do {
     b \<leftarrow> m_buffer sb;
     (case b of
        String8 cs \<Rightarrow> allocateBufferUpConvert cs requiredLength (sb\<lparr>m_string := None\<rparr>)
      | String16 cs \<Rightarrow> allocateBuffer16 cs requiredLength (sb\<lparr>m_string := None\<rparr>))
   }"

definition reserveCapacity :: "nat \<Rightarrow> StringBuilder \<Rightarrow> StringBuilder option" where
  "reserveCapacity newCapacity sb =
     (case m_buffer sb of
        Some b \<Rightarrow>
          if newCapacity > str_length b
          then (if is8Bit b then reallocateBuffer8 newCapacity sb else reallocateBuffer16 newCapacity sb)
          else Some sb
      | None \<Rightarrow>
          if newCapacity > m_length sb then
            if m_length sb = 0 then allocateBuffer8 [] newCapacity sb
            else do {
              s \<leftarrow> m_string sb;
              (case s of
                 String8 cs \<Rightarrow> allocateBuffer8 cs newCapacity sb
               | String16 cs \<Rightarrow> allocateBuffer16 cs newCapacity sb)
            }
          else Some sb)"

definition sb_resize :: "nat \<Rightarrow> StringBuilder \<Rightarrow> StringBuilder option" where
  "sb_resize newSize sb =
     (if newSize > m_length sb then None
      else if newSize = m_length sb then Some sb
      else case m_buffer sb of
        Some b \<Rightarrow> Some (sb\<lparr>m_string := None, m_length := newSize\<rparr>)
      | None \<Rightarrow> do {
          s \<leftarrow> m_string sb;
          s' \<leftarrow> createSubstringSharingImpl s 0 newSize;
          Some (sb\<lparr>m_length := newSize, m_string := Some s'\<rparr>)
        })"

text \<open>The room for new characters; the caller writes at the old length.\<close>

definition requiredLengthFor :: "nat \<Rightarrow> StringBuilder \<Rightarrow> nat option" where
  "requiredLengthFor len sb =
     (let requiredLength = (len + m_length sb) mod 4294967296
      in if requiredLength < len then None else Some requiredLength)"

definition fits_buffer :: "nat \<Rightarrow> StringBuilder \<Rightarrow> bool" where
  "fits_buffer requiredLength sb \<longleftrightarrow>
     (case m_buffer sb of Some b \<Rightarrow> requiredLength \<le> str_length b | None \<Rightarrow> False)"

definition appendUninitializedSlow8 :: "nat \<Rightarrow> StringBuilder \<Rightarrow> StringBuilder option" where
  "appendUninitializedSlow8 requiredLength sb = do {
     sb \<leftarrow> (case m_buffer sb of
        Some b \<Rightarrow> reallocateBuffer8 (expandedCapacity (capacity sb) requiredLength) sb
      | None \<Rightarrow> do {
          cs \<leftarrow> (if m_length sb = 0 then Some [] else Option.bind (m_string sb) str_characters8);
          allocateBuffer8 cs (expandedCapacity (capacity sb) requiredLength) sb
        });
     Some (sb\<lparr>m_length := requiredLength\<rparr>)
   }"

definition appendUninitializedSlow16 :: "nat \<Rightarrow> StringBuilder \<Rightarrow> StringBuilder option" where
  "appendUninitializedSlow16 requiredLength sb = do {
     sb \<leftarrow> (case m_buffer sb of
        Some b \<Rightarrow> reallocateBuffer16 (expandedCapacity (capacity sb) requiredLength) sb
      | None \<Rightarrow> do {
          cs \<leftarrow> (if m_length sb = 0 then Some [] else Option.bind (m_string sb) str_characters16);
          allocateBuffer16 cs (expandedCapacity (capacity sb) requiredLength) sb
        });
     Some (sb\<lparr>m_length := requiredLength\<rparr>)
   }"

definition appendUninitialized8 :: "nat \<Rightarrow> StringBuilder \<Rightarrow> StringBuilder option" where
  "appendUninitialized8 len sb = do {
     requiredLength \<leftarrow> requiredLengthFor len sb;
     (if fits_buffer requiredLength sb then Some (sb\<lparr>m_string := None, m_length := requiredLength\<rparr>)
      else appendUninitializedSlow8 requiredLength sb)
   }"

definition appendUninitialized16 :: "nat \<Rightarrow> StringBuilder \<Rightarrow> StringBuilder option" where
  "appendUninitialized16 len sb = do {
     requiredLength \<leftarrow> requiredLengthFor len sb;
     (if fits_buffer requiredLength sb then Some (sb\<lparr>m_string := None, m_length := requiredLength\<rparr>)
      else appendUninitializedSlow16 requiredLength sb)
   }"

definition writeBuffer8 :: "nat \<Rightarrow> u8 list \<Rightarrow> StringBuilder \<Rightarrow> StringBuilder option" where
  "writeBuffer8 pos cs sb = do {
     b \<leftarrow> m_buffer sb;
     b \<leftarrow> write8 pos cs b;
     Some (sb\<lparr>m_buffer := Some b\<rparr>)
   }"

definition writeBuffer16 :: "nat \<Rightarrow> u16 list \<Rightarrow> StringBuilder \<Rightarrow> StringBuilder option" where
  "writeBuffer16 pos cs sb = do {
     b \<leftarrow> m_buffer sb;
     b \<leftarrow> write16 pos cs b;
     Some (sb\<lparr>m_buffer := Some b\<rparr>)
   }"

definition append_LChars :: "u8 list \<Rightarrow> StringBuilder \<Rightarrow> StringBuilder option" where
  "append_LChars characters sb =
     (if characters = [] then Some sb
      else if m_is8Bit sb then
        do { sb' \<leftarrow> appendUninitialized8 (length characters) sb; writeBuffer8 (m_length sb) characters sb' }
      else
        do { sb' \<leftarrow> appendUninitialized16 (length characters) sb;
             writeBuffer16 (m_length sb) (map ucast characters) sb' })"

definition append_UChars :: "u16 list \<Rightarrow> StringBuilder \<Rightarrow> StringBuilder option" where
  "append_UChars characters sb =
     (if characters = [] then Some sb
      else if m_is8Bit sb then
        if length characters = 1 \<and> hd characters AND NOT 0xff = 0
        then append_LChars [ucast (hd characters)] sb
        else do {
          requiredLength \<leftarrow> requiredLengthFor (length characters) sb;
          cs \<leftarrow> (case m_buffer sb of
             Some b \<Rightarrow> str_characters8 b
           | None \<Rightarrow> (case m_string sb of None \<Rightarrow> Some [] | Some s \<Rightarrow> str_characters8 s));
          sb' \<leftarrow> allocateBufferUpConvert cs (expandedCapacity (capacity sb) requiredLength) sb;
          sb' \<leftarrow> writeBuffer16 (m_length sb') characters sb';
          Some (sb'\<lparr>m_length := requiredLength\<rparr>)
        }
      else
        do { sb' \<leftarrow> appendUninitialized16 (length characters) sb; writeBuffer16 (m_length sb) characters sb' })"

definition append_String :: "WString \<Rightarrow> StringBuilder \<Rightarrow> StringBuilder option" where
  "append_String string sb =
     (if str_length string = 0 then Some sb
      else if m_length sb = 0 \<and> m_buffer sb = None
      then Some (sb\<lparr>m_string := Some string, m_length := str_length string, m_is8Bit := is8Bit string\<rparr>)
      else case string of
        String8 cs \<Rightarrow> append_LChars cs sb
      | String16 cs \<Rightarrow> append_UChars cs sb)"

definition append_StringBuilder :: "StringBuilder \<Rightarrow> StringBuilder \<Rightarrow> StringBuilder option" where
  "append_StringBuilder other sb =
     (if m_length other = 0 then Some sb
      else if m_length sb = 0 \<and> m_buffer sb = None \<and> m_string other \<noteq> None
      then Some (sb\<lparr>m_string := m_string other, m_length := m_length other\<rparr>)
      else if m_is8Bit other
      then do { cs \<leftarrow> sb_characters8 other; cs \<leftarrow> copy_into (m_length other) cs; append_LChars cs sb }
      else do { cs \<leftarrow> sb_characters16 other; cs \<leftarrow> copy_into (m_length other) cs; append_UChars cs sb })"

definition append_substring :: "WString \<Rightarrow> nat \<Rightarrow> nat \<Rightarrow> StringBuilder \<Rightarrow> StringBuilder option" where
  "append_substring string offset len sb =
     (if str_length string = 0 then Some sb
      else if (offset + len) mod 4294967296 > str_length string then Some sb
      else if offset + len > str_length string then None
      else case string of
        String8 cs \<Rightarrow> append_LChars (take len (drop offset cs)) sb
      | String16 cs \<Rightarrow> append_UChars (take len (drop offset cs)) sb)"

definition append_UChar :: "u16 \<Rightarrow> StringBuilder \<Rightarrow> StringBuilder option" where
  "append_UChar c sb =
     (if m_buffer sb \<noteq> None \<and> m_length sb < capacity sb \<and> m_string sb = None
         \<and> (\<not> m_is8Bit sb \<or> c AND NOT 0xff = 0)
      then (if m_is8Bit sb
        then do { sb' \<leftarrow> writeBuffer8 (m_length sb) [ucast c] sb; Some (sb'\<lparr>m_length := m_length sb + 1\<rparr>) }
        else do { sb' \<leftarrow> writeBuffer16 (m_length sb) [c] sb; Some (sb'\<lparr>m_length := m_length sb + 1\<rparr>) })
      else append_UChars [c] sb)"

definition append_LChar :: "u8 \<Rightarrow> StringBuilder \<Rightarrow> StringBuilder option" where
  "append_LChar c sb =
     (if m_buffer sb \<noteq> None \<and> m_length sb < capacity sb \<and> m_string sb = None
      then (if m_is8Bit sb
        then do { sb' \<leftarrow> writeBuffer8 (m_length sb) [c] sb; Some (sb'\<lparr>m_length := m_length sb + 1\<rparr>) }
        else do { sb' \<leftarrow> writeBuffer16 (m_length sb) [ucast c] sb; Some (sb'\<lparr>m_length := m_length sb + 1\<rparr>) })
      else append_LChars [c] sb)"

definition canShrink :: "StringBuilder \<Rightarrow> bool" where
  "canShrink sb \<longleftrightarrow>
     (case m_buffer sb of
        Some b \<Rightarrow> str_length b > (m_length sb + m_length sb div 4) mod 4294967296
      | None \<Rightarrow> False)"

definition shrinkToFit :: "StringBuilder \<Rightarrow> StringBuilder option" where
  "shrinkToFit sb =
     (if canShrink sb then do {
        sb \<leftarrow> (if m_is8Bit sb then reallocateBuffer8 (m_length sb) sb else reallocateBuffer16 (m_length sb) sb);
        Some (sb\<lparr>m_string := m_buffer sb, m_buffer := None\<rparr>)
      } else Some sb)"

definition sb_toString :: "StringBuilder \<Rightarrow> (WString \<times> StringBuilder) option" where
  "sb_toString sb = do {
     sb \<leftarrow> shrinkToFit sb;
     sb \<leftarrow> (if m_string sb = None then reifyString sb else Some sb);
     s \<leftarrow> m_string sb;
     Some (s, sb)
   }"

definition sb_toStringPreserveCapacity :: "StringBuilder \<Rightarrow> (WString \<times> StringBuilder) option" where
  "sb_toStringPreserveCapacity sb = do {
     sb \<leftarrow> (if m_string sb = None then reifyString sb else Some sb);
     s \<leftarrow> m_string sb;
     Some (s, sb)
   }"

definition sb_equal :: "StringBuilder \<Rightarrow> WString \<Rightarrow> bool option" where
  "sb_equal a b =
     (if m_length a \<noteq> str_length b then Some False
      else if m_length a = 0 then Some True
      else if m_is8Bit a then do { cs \<leftarrow> sb_characters8 a; Some (map ucast (take (m_length a) cs) = str_chars b) }
      else do { cs \<leftarrow> sb_characters16 a; Some (take (m_length a) cs = str_chars b) })"

section \<open>The characters of a builder\<close>

text \<open>The abstraction: the characters appended so far; and the invariant of the representation.\<close>

definition sb_abs :: "StringBuilder \<Rightarrow> u16 list" where
  "sb_abs sb = (case m_string sb of Some s \<Rightarrow> str_chars s
     | None \<Rightarrow> (case m_buffer sb of Some b \<Rightarrow> take (m_length sb) (str_chars b) | None \<Rightarrow> []))"

definition sb_ok :: "StringBuilder \<Rightarrow> bool" where
  "sb_ok sb \<longleftrightarrow>
     (case m_string sb of Some s \<Rightarrow> str_length s = m_length sb \<and> (is8Bit s \<longleftrightarrow> m_is8Bit sb \<or> m_length sb = 0)
        | None \<Rightarrow> m_buffer sb \<noteq> None \<or> m_length sb = 0)
     \<and> (case m_buffer sb of Some b \<Rightarrow> m_length sb \<le> str_length b \<and> str_length b \<noteq> 0 \<and> is8Bit b = m_is8Bit sb
          \<and> (case m_string sb of Some s \<Rightarrow> str_chars s = take (m_length sb) (str_chars b) | None \<Rightarrow> True)
        | None \<Rightarrow> True)"

definition limit16 :: nat where
  "limit16 = 2147483635"

text \<open>There is room for \<open>n\<close> more characters without a buffer that is too large.\<close>

definition room :: "nat \<Rightarrow> StringBuilder \<Rightarrow> bool" where
  "room n sb \<longleftrightarrow> m_length sb + n \<le> limit16 \<and> 2 * capacity sb \<le> limit16"

lemma str_length_chars [simp]: "length (str_chars s) = str_length s"
  by (cases s) simp_all

lemma is8Bit_iff: "is8Bit s \<longleftrightarrow> (\<exists>cs. s = String8 cs)"
  by (cases s) simp_all

lemma not_is8Bit_iff: "\<not> is8Bit s \<longleftrightarrow> (\<exists>cs. s = String16 cs)"
  by (cases s) simp_all

lemma str_chars_eq_Nil [simp]: "str_chars s = [] \<longleftrightarrow> str_length s = 0"
  by (metis length_0_conv str_length_chars)

lemma sb_abs_length: "sb_ok sb \<Longrightarrow> length (sb_abs sb) = m_length sb"
  by (auto simp: sb_ok_def sb_abs_def split: option.splits)

lemma overwrite_Some: "pos + length cs \<le> length buf \<Longrightarrow>
    overwrite pos cs buf = Some (take pos buf @ cs @ drop (pos + length cs) buf)"
  by (simp add: overwrite_def)

lemma allocateBuffer8_Some:
  assumes "m_is8Bit sb" "m_length sb \<le> length cur" "m_length sb \<le> n" "n \<le> limit16"
  shows "allocateBuffer8 cur n sb =
    Some (sb\<lparr>m_buffer := Some (String8 (take (m_length sb) cur @ replicate (n - m_length sb) 0)), m_string := None\<rparr>)"
  using assms by (simp add: allocateBuffer8_def createUninitialized8_def copy_into_def overwrite_def limit16_def
      unsigned_max_def sizeof_StringImpl_def)

lemma createUninitialized16_Some: "n \<noteq> 0 \<Longrightarrow> n \<le> limit16 \<Longrightarrow> createUninitialized16 n = Some (String16 (replicate n 0))"
  by (simp add: createUninitialized16_def limit16_def unsigned_max_def sizeof_StringImpl_def)

lemma allocateBuffer16_Some:
  assumes "\<not> m_is8Bit sb" "m_length sb \<le> length cur" "m_length sb \<le> n" "n \<noteq> 0" "n \<le> limit16"
  shows "allocateBuffer16 cur n sb =
    Some (sb\<lparr>m_buffer := Some (String16 (take (m_length sb) cur @ replicate (n - m_length sb) 0)), m_string := None\<rparr>)"
  using assms by (simp add: allocateBuffer16_def createUninitialized16_Some copy_into_def overwrite_def)

lemma allocateBufferUpConvert_Some:
  assumes "m_is8Bit sb" "m_length sb \<le> length cur" "m_length sb \<le> n" "n \<noteq> 0" "n \<le> limit16"
  shows "allocateBufferUpConvert cur n sb =
    Some (sb\<lparr>m_is8Bit := False,
      m_buffer := Some (String16 (map ucast (take (m_length sb) cur) @ replicate (n - m_length sb) 0)), m_string := None\<rparr>)"
  using assms by (simp add: allocateBufferUpConvert_def createUninitialized16_Some copy_into_def overwrite_def)

lemma expandedCapacity_bounds:
  assumes "2 * cap \<le> limit16" "n \<le> limit16"
  shows "n \<le> expandedCapacity cap n" "expandedCapacity cap n \<noteq> 0" "expandedCapacity cap n \<le> limit16"
    "expandedCapacity cap n = max n (max 16 (2 * cap))"
  using assms by (auto simp: expandedCapacity_def limit16_def)

lemma requiredLengthFor_Some: "room n sb \<Longrightarrow> requiredLengthFor n sb = Some (m_length sb + n)"
  by (simp add: requiredLengthFor_def room_def limit16_def Let_def)

text \<open>
  The state after room for new characters has been made: a buffer of the right width that starts with
  the old characters.
\<close>

definition room_made :: "bool \<Rightarrow> nat \<Rightarrow> StringBuilder \<Rightarrow> StringBuilder \<Rightarrow> bool" where
  "room_made b8 n sb sb' \<longleftrightarrow> m_string sb' = None \<and> m_length sb' = m_length sb + n \<and> m_is8Bit sb' = b8
     \<and> (\<exists>b. m_buffer sb' = Some b \<and> is8Bit b = b8 \<and> m_length sb + n \<le> str_length b \<and> str_length b \<noteq> 0
         \<and> take (m_length sb) (str_chars b) = sb_abs sb \<and> str_length b \<le> max (2 * (m_length sb + n) + 16) (capacity sb))"

lemma old_chars8:
  assumes "sb_ok sb" "m_is8Bit sb" "m_buffer sb = None" "m_length sb \<noteq> 0"
  obtains cs where "m_string sb = Some (String8 cs)" "length cs = m_length sb" "sb_abs sb = map ucast cs"
  using assms by (cases "m_string sb") (auto simp: sb_ok_def sb_abs_def is8Bit_iff)

lemma old_chars16:
  assumes "sb_ok sb" "\<not> m_is8Bit sb" "m_buffer sb = None" "m_length sb \<noteq> 0"
  obtains cs where "m_string sb = Some (String16 cs)" "length cs = m_length sb" "sb_abs sb = cs"
  using assms by (cases "m_string sb") (auto simp: sb_ok_def sb_abs_def not_is8Bit_iff)

lemma old_buffer:
  assumes "sb_ok sb" "m_buffer sb = Some b"
  shows "is8Bit b = m_is8Bit sb" "m_length sb \<le> str_length b" "str_length b \<noteq> 0" "sb_abs sb = take (m_length sb) (str_chars b)"
  using assms by (auto simp: sb_ok_def sb_abs_def split: option.splits)

lemma sb_abs_empty: "sb_ok sb \<Longrightarrow> m_length sb = 0 \<Longrightarrow> sb_abs sb = []"
  by (metis length_0_conv sb_abs_length)

lemma appendUninitialized8_ok:
  assumes ok: "sb_ok sb" and r: "room n sb" and n: "n \<noteq> 0" and w: "m_is8Bit sb"
  shows "\<exists>sb'. appendUninitialized8 n sb = Some sb' \<and> room_made True n sb sb'"
proof -
  let ?n = "m_length sb + n"
  let ?e = "expandedCapacity (capacity sb) ?n"
  have e: "?n \<le> ?e" "?e \<noteq> 0" "?e \<le> limit16" "?e = max ?n (max 16 (2 * capacity sb))"
    using expandedCapacity_bounds [of "capacity sb" ?n] r by (auto simp: room_def)
  show ?thesis
  proof (cases "m_buffer sb")
    case None
    have size: "?e \<le> 2 * ?n + 16" using e(4) None by (simp add: capacity_def)
    obtain cs where cs: "(if m_length sb = 0 then Some [] else Option.bind (m_string sb) str_characters8) = Some cs"
      "length cs = m_length sb" "sb_abs sb = map ucast cs"
    proof (cases "m_length sb = 0")
      case True
      then show thesis using that [of "[]"] sb_abs_empty [OF ok] by simp
    next
      case False
      from old_chars8 [OF ok w None this] show thesis using that False by (metis bind.bind_lunit str_characters8.simps(1))
    qed
    then have "appendUninitialized8 n sb = Some (sb\<lparr>m_buffer := Some (String8 (cs @ replicate (?e - m_length sb) 0)),
        m_string := None, m_length := ?n\<rparr>)"
      using None requiredLengthFor_Some [OF r] allocateBuffer8_Some [OF w, of cs ?e] e
      by (simp add: appendUninitialized8_def appendUninitializedSlow8_def fits_buffer_def)
    then show ?thesis using cs w n e(1) size by (auto simp: room_made_def)
  next
    case (Some b)
    note o = old_buffer [OF ok Some]
    obtain bs where b: "b = String8 bs" using o(1) w by (auto simp: is8Bit_iff)
    show ?thesis
    proof (cases "?n \<le> length bs")
      case True
      then have "appendUninitialized8 n sb = Some (sb\<lparr>m_string := None, m_length := ?n\<rparr>)"
        using Some b requiredLengthFor_Some [OF r] by (simp add: appendUninitialized8_def fits_buffer_def)
      then show ?thesis using Some b o w True by (auto simp: room_made_def capacity_def)
    next
      case False
      then have size: "?e \<le> 2 * ?n + 16" using e(4) Some b by (simp add: capacity_def)
      have "appendUninitialized8 n sb = Some (sb\<lparr>m_buffer := Some (String8 (take (m_length sb) bs @ replicate (?e - m_length sb) 0)),
        m_string := None, m_length := ?n\<rparr>)"
        using Some b requiredLengthFor_Some [OF r] allocateBuffer8_Some [of "sb\<lparr>m_string := None\<rparr>" bs ?e] e o(2) w False
        by (simp add: appendUninitialized8_def appendUninitializedSlow8_def fits_buffer_def reallocateBuffer8_def)
      then show ?thesis using o b w n e(1) size by (auto simp: room_made_def take_map)
    qed
  qed
qed

lemma appendUninitialized16_ok:
  assumes ok: "sb_ok sb" and r: "room n sb" and n: "n \<noteq> 0" and w: "\<not> m_is8Bit sb"
  shows "\<exists>sb'. appendUninitialized16 n sb = Some sb' \<and> room_made False n sb sb'"
proof -
  let ?n = "m_length sb + n"
  let ?e = "expandedCapacity (capacity sb) ?n"
  have e: "?n \<le> ?e" "?e \<noteq> 0" "?e \<le> limit16" "?e = max ?n (max 16 (2 * capacity sb))"
    using expandedCapacity_bounds [of "capacity sb" ?n] r by (auto simp: room_def)
  show ?thesis
  proof (cases "m_buffer sb")
    case None
    have size: "?e \<le> 2 * ?n + 16" using e(4) None by (simp add: capacity_def)
    obtain cs where cs: "(if m_length sb = 0 then Some [] else Option.bind (m_string sb) str_characters16) = Some cs"
      "length cs = m_length sb" "sb_abs sb = cs"
    proof (cases "m_length sb = 0")
      case True
      then show thesis using that [of "[]"] sb_abs_empty [OF ok] by simp
    next
      case False
      from old_chars16 [OF ok w None this] show thesis using that False by (metis bind.bind_lunit str_characters16.simps(1))
    qed
    then have "appendUninitialized16 n sb = Some (sb\<lparr>m_buffer := Some (String16 (cs @ replicate (?e - m_length sb) 0)),
        m_string := None, m_length := ?n\<rparr>)"
      using None requiredLengthFor_Some [OF r] allocateBuffer16_Some [OF w, of cs ?e] e
      by (simp add: appendUninitialized16_def appendUninitializedSlow16_def fits_buffer_def)
    then show ?thesis using cs w n e(1) size by (auto simp: room_made_def)
  next
    case (Some b)
    note o = old_buffer [OF ok Some]
    obtain bs where b: "b = String16 bs" using o(1) w by (auto simp: not_is8Bit_iff)
    show ?thesis
    proof (cases "?n \<le> length bs")
      case True
      then have "appendUninitialized16 n sb = Some (sb\<lparr>m_string := None, m_length := ?n\<rparr>)"
        using Some b requiredLengthFor_Some [OF r] by (simp add: appendUninitialized16_def fits_buffer_def)
      then show ?thesis using Some b o w True by (auto simp: room_made_def capacity_def)
    next
      case False
      then have size: "?e \<le> 2 * ?n + 16" using e(4) Some b by (simp add: capacity_def)
      have "appendUninitialized16 n sb = Some (sb\<lparr>m_buffer := Some (String16 (take (m_length sb) bs @ replicate (?e - m_length sb) 0)),
        m_string := None, m_length := ?n\<rparr>)"
        using Some b requiredLengthFor_Some [OF r] allocateBuffer16_Some [of "sb\<lparr>m_string := None\<rparr>" bs ?e] e o(2) w False
        by (simp add: appendUninitialized16_def appendUninitializedSlow16_def fits_buffer_def reallocateBuffer16_def)
      then show ?thesis using o b w n e(1) size by (auto simp: room_made_def)
    qed
  qed
qed


text \<open>Writing the new characters completes the append.\<close>

definition cap_ok :: "StringBuilder \<Rightarrow> bool" where
  "cap_ok sb \<longleftrightarrow> capacity sb \<le> (if m_is8Bit sb then 2 * m_length sb + 16 else 4 * m_length sb + 32)"

definition appended :: "u16 list \<Rightarrow> StringBuilder \<Rightarrow> StringBuilder \<Rightarrow> bool" where
  "appended cs sb sb' \<longleftrightarrow> sb_ok sb' \<and> sb_abs sb' = sb_abs sb @ cs
     \<and> (cap_ok sb \<longrightarrow> cap_ok sb')"

lemma buffered:
  assumes "m_string x = None" "m_buffer x = Some b" "m_length x \<le> str_length b" "str_length b \<noteq> 0"
    "is8Bit b = m_is8Bit x"
  shows "sb_ok x" "sb_abs x = take (m_length x) (str_chars b)" "capacity x = str_length b"
  using assms by (simp_all add: sb_ok_def sb_abs_def capacity_def)

lemma writeBuffer8_ok:
  assumes "sb_ok sb" "m_is8Bit sb" "room_made True (length cs) sb sb'"
  shows "\<exists>sb''. writeBuffer8 (m_length sb) cs sb' = Some sb'' \<and> appended (map ucast cs) sb sb'' \<and> m_is8Bit sb''"
proof -
  obtain bs where b: "m_buffer sb' = Some (String8 bs)" "m_length sb + length cs \<le> length bs" "bs \<noteq> []"
    "map ucast (take (m_length sb) bs) = sb_abs sb" "m_string sb' = None" "m_length sb' = m_length sb + length cs"
    "m_is8Bit sb'" "length bs \<le> max (2 * (m_length sb + length cs) + 16) (capacity sb)"
    using assms(3) by (auto simp: room_made_def is8Bit_iff take_map)
  let ?x = "sb'\<lparr>m_buffer := Some (String8 (take (m_length sb) bs @ cs @ drop (m_length sb + length cs) bs))\<rparr>"
  have w: "writeBuffer8 (m_length sb) cs sb' = Some ?x" using b by (simp add: writeBuffer8_def overwrite_Some)
  have x: "sb_ok ?x" "sb_abs ?x = map ucast (take (m_length sb) bs) @ map ucast cs" "capacity ?x = length bs"
    using buffered [of ?x "String8 (take (m_length sb) bs @ cs @ drop (m_length sb + length cs) bs)"] b
      sb_abs_length [OF assms(1)]
    by (simp_all add: take_map)
  have "appended (map ucast cs) sb ?x" using x b(4,6,7,8) assms(2) by (auto simp: appended_def cap_ok_def)
  with w b(7) show ?thesis by simp
qed

lemma writeBuffer16_ok:
  assumes "sb_ok sb" "\<not> m_is8Bit sb" "room_made False (length cs) sb sb'"
  shows "\<exists>sb''. writeBuffer16 (m_length sb) cs sb' = Some sb'' \<and> appended cs sb sb''"
proof -
  obtain bs where b: "m_buffer sb' = Some (String16 bs)" "m_length sb + length cs \<le> length bs" "bs \<noteq> []"
    "take (m_length sb) bs = sb_abs sb" "m_string sb' = None" "m_length sb' = m_length sb + length cs"
    "\<not> m_is8Bit sb'" "length bs \<le> max (2 * (m_length sb + length cs) + 16) (capacity sb)"
    using assms(3) by (auto simp: room_made_def not_is8Bit_iff)
  let ?x = "sb'\<lparr>m_buffer := Some (String16 (take (m_length sb) bs @ cs @ drop (m_length sb + length cs) bs))\<rparr>"
  have w: "writeBuffer16 (m_length sb) cs sb' = Some ?x" using b by (simp add: writeBuffer16_def overwrite_Some)
  have x: "sb_ok ?x" "sb_abs ?x = take (m_length sb) bs @ cs" "capacity ?x = length bs"
    using buffered [of ?x "String16 (take (m_length sb) bs @ cs @ drop (m_length sb + length cs) bs)"] b
      sb_abs_length [OF assms(1)]
    by simp_all
  have "appended cs sb ?x" using x b(4,6,7,8) assms(2) by (auto simp: appended_def cap_ok_def)
  with w show ?thesis by simp
qed

lemma append_LChars_ok:
  assumes ok: "sb_ok sb" and r: "room (length cs) sb"
  shows "\<exists>sb'. append_LChars cs sb = Some sb' \<and> appended (map ucast cs) sb sb'"
proof (cases "cs = []")
  case True
  then show ?thesis using ok by (simp add: append_LChars_def appended_def)
next
  case False
  then have n: "length cs \<noteq> 0" by simp
  show ?thesis
  proof (cases "m_is8Bit sb")
    case True
    from appendUninitialized8_ok [OF ok r n True] writeBuffer8_ok [OF ok True, of cs] show ?thesis
      using True False by (fastforce simp: append_LChars_def)
  next
    case w: False
    from appendUninitialized16_ok [OF ok r n w] writeBuffer16_ok [OF ok w, of "map ucast cs"] show ?thesis
      using w False by (fastforce simp: append_LChars_def)
  qed
qed

lemma and_not_zero: "(c :: u16) AND NOT m = 0 \<Longrightarrow> c AND m = c"
proof (rule bit_word_eqI)
  fix n assume "c AND NOT m = 0" and n: "n < LENGTH(16)"
  then have "\<not> bit (c AND NOT m) n" by simp
  then show "bit (c AND m) n = bit c n" using n by (auto simp: bit_simps)
qed

lemma narrow_char:
  assumes "(c :: u16) AND NOT 0xff = 0"
  shows "ucast (ucast c :: u8) = c"
proof -
  have "(0xff :: u16) = mask 8" by (simp add: mask_eq_exp_minus_1)
  then have "take_bit 8 c = c" using and_not_zero [OF assms] by (simp add: take_bit_eq_mask)
  moreover have "ucast (ucast c :: u8) = take_bit 8 c" by (rule bit_word_eqI) (auto simp: bit_simps)
  ultimately show ?thesis by simp
qed

lemma append_UChars_ok:
  assumes ok: "sb_ok sb" and r: "room (length cs) sb"
  shows "\<exists>sb'. append_UChars cs sb = Some sb' \<and> appended cs sb sb'"
proof (cases "cs = []")
  case True
  then show ?thesis using ok by (simp add: append_UChars_def appended_def)
next
  case ne: False
  then have n: "length cs \<noteq> 0" by simp
  show ?thesis
  proof (cases "m_is8Bit sb")
    case False
    from appendUninitialized16_ok [OF ok r n False] writeBuffer16_ok [OF ok False, of cs] show ?thesis
      using False ne by (fastforce simp: append_UChars_def)
  next
    case w: True
    show ?thesis
    proof (cases "length cs = 1 \<and> hd cs AND NOT 0xff = 0")
      case True
      then obtain c where c: "cs = [c]" "c AND NOT 0xff = 0" by (cases cs) auto
      have "room (length [ucast c :: u8]) sb" using r c(1) by simp
      from append_LChars_ok [OF ok this] show ?thesis
        using w c narrow_char [OF c(2)] by (simp add: append_UChars_def)
    next
      case False
      let ?n = "m_length sb + length cs"
      let ?e = "expandedCapacity (capacity sb) ?n"
      have e: "?n \<le> ?e" "?e \<noteq> 0" "?e \<le> limit16" "?e = max ?n (max 16 (2 * capacity sb))"
        using expandedCapacity_bounds [of "capacity sb" ?n] r by (auto simp: room_def)
      obtain bs where bs: "(case m_buffer sb of Some b \<Rightarrow> str_characters8 b
           | None \<Rightarrow> (case m_string sb of None \<Rightarrow> Some [] | Some s \<Rightarrow> str_characters8 s)) = Some bs"
        "m_length sb \<le> length bs" "map ucast (take (m_length sb) bs) = sb_abs sb"
      proof (cases "m_buffer sb")
        case None
        show thesis
        proof (cases "m_length sb = 0")
          case True
          have "\<exists>bs. (case m_string sb of None \<Rightarrow> Some [] | Some s \<Rightarrow> str_characters8 s) = Some bs"
            using True None w ok by (cases "m_string sb") (auto simp: sb_ok_def is8Bit_iff)
          then show thesis using that None True sb_abs_empty [OF ok True] by auto
        next
          case False
          from old_chars8 [OF ok w None False] show thesis using that None by (metis (no_types, lifting) option.simps(4,5) order_refl str_characters8.simps(1) take_all_iff)
        qed
      next
        case (Some b)
        note o = old_buffer [OF ok Some]
        then obtain bs where "b = String8 bs" using w by (auto simp: is8Bit_iff)
        then show thesis using that [of bs] o Some by (simp add: take_map)
      qed
      have "append_UChars cs sb = Some (sb\<lparr>m_is8Bit := False, m_string := None, m_length := ?n,
          m_buffer := Some (String16 (sb_abs sb @ cs @ replicate (?e - ?n) 0))\<rparr>)"
        using ne w False requiredLengthFor_Some [OF r] bs(1)
          allocateBufferUpConvert_Some [OF w bs(2) _ e(2,3)] e(1) bs(3) sb_abs_length [OF ok]
        by (auto simp: append_UChars_def writeBuffer16_def overwrite_Some)
      moreover have "appended cs sb (sb\<lparr>m_is8Bit := False, m_string := None, m_length := ?n,
          m_buffer := Some (String16 (sb_abs sb @ cs @ replicate (?e - ?n) 0))\<rparr>)"
        using buffered [of "sb\<lparr>m_is8Bit := False, m_string := None, m_length := ?n,
          m_buffer := Some (String16 (sb_abs sb @ cs @ replicate (?e - ?n) 0))\<rparr>"] sb_abs_length [OF ok] e(1) n
        by (simp add: appended_def cap_ok_def e(4) w)
      ultimately show ?thesis by blast
    qed
  qed
qed


lemma append_String_ok:
  assumes ok: "sb_ok sb" and r: "room (str_length s) sb"
  shows "\<exists>sb'. append_String s sb = Some sb' \<and> appended (str_chars s) sb sb'"
proof -
  consider "str_length s = 0" | "str_length s \<noteq> 0" "m_length sb = 0" "m_buffer sb = None"
    | "str_length s \<noteq> 0" "\<not> (m_length sb = 0 \<and> m_buffer sb = None)"
    by (cases "str_length s = 0") auto
  then show ?thesis
  proof cases
    case 1
    then have "str_chars s = []" by simp
    then show ?thesis using 1 ok by (simp add: append_String_def appended_def)
  next
    case 2
    let ?x = "sb\<lparr>m_string := Some s, m_length := str_length s, m_is8Bit := is8Bit s\<rparr>"
    have "append_String s sb = Some ?x" using 2 by (simp add: append_String_def)
    moreover have "appended (str_chars s) sb ?x"
      using 2 sb_abs_empty [OF ok 2(2)] by (simp add: appended_def sb_ok_def sb_abs_def cap_ok_def capacity_def)
    ultimately show ?thesis by blast
  next
    case 3
    show ?thesis
    proof (cases s)
      case (String8 cs)
      then show ?thesis using 3 append_LChars_ok [OF ok, of cs] r by (auto simp: append_String_def)
    next
      case (String16 cs)
      then show ?thesis using 3 append_UChars_ok [OF ok, of cs] r by (auto simp: append_String_def)
    qed
  qed
qed

lemma append_LChar_ok:
  assumes ok: "sb_ok sb" and r: "room 1 sb"
  shows "\<exists>sb'. append_LChar c sb = Some sb' \<and> appended [ucast c] sb sb'"
proof (cases "m_buffer sb \<noteq> None \<and> m_length sb < capacity sb \<and> m_string sb = None")
  case False
  then show ?thesis using append_LChars_ok [OF ok, of "[c]"] r by (auto simp: append_LChar_def)
next
  case True
  then obtain b where b: "m_buffer sb = Some b" "m_string sb = None" "m_length sb < str_length b" by (auto simp: capacity_def)
  note o = old_buffer [OF ok b(1)]
  show ?thesis
  proof (cases b)
    case (String8 bs)
    let ?b = "String8 (take (m_length sb) bs @ [c] @ drop (m_length sb + 1) bs)"
    let ?x = "sb\<lparr>m_buffer := Some ?b, m_length := m_length sb + 1\<rparr>"
    have "append_LChar c sb = Some ?x"
      using True b o(1) String8 by (simp add: append_LChar_def writeBuffer8_def overwrite_Some)
    moreover have "appended [ucast c] sb ?x"
      using buffered [of ?x ?b] b o String8 by (simp add: appended_def cap_ok_def capacity_def take_map)
    ultimately show ?thesis by blast
  next
    case (String16 bs)
    let ?b = "String16 (take (m_length sb) bs @ [ucast c] @ drop (m_length sb + 1) bs)"
    let ?x = "sb\<lparr>m_buffer := Some ?b, m_length := m_length sb + 1\<rparr>"
    have "append_LChar c sb = Some ?x"
      using True b o(1) String16 by (simp add: append_LChar_def writeBuffer16_def overwrite_Some)
    moreover have "appended [ucast c] sb ?x"
      using buffered [of ?x ?b] b o String16 by (simp add: appended_def cap_ok_def capacity_def)
    ultimately show ?thesis by blast
  qed
qed

lemma new_StringBuilder_ok: "sb_ok new_StringBuilder" "sb_abs new_StringBuilder = []" "cap_ok new_StringBuilder"
  by (simp_all add: new_StringBuilder_def sb_ok_def sb_abs_def cap_ok_def capacity_def)

lemma room_iff: "cap_ok sb \<Longrightarrow> 8 * (m_length sb + n) + 64 \<le> limit16 \<Longrightarrow> room n sb"
  by (auto simp: cap_ok_def room_def split: if_splits)

text \<open>The string that the builder gives out.\<close>

lemma reify_ok:
  assumes "sb_ok sb"
  shows "\<exists>s sb'. (if m_string sb = None then reifyString sb else Some sb) = Some sb' \<and> m_string sb' = Some s
    \<and> str_chars s = sb_abs sb \<and> sb_ok sb' \<and> sb_abs sb' = sb_abs sb \<and> (is8Bit s \<longleftrightarrow> m_is8Bit sb \<or> m_length sb = 0)"
proof (cases "m_string sb")
  case (Some s)
  then show ?thesis using assms by (auto simp: sb_ok_def sb_abs_def)
next
  case None
  show ?thesis
  proof (cases "m_length sb = 0")
    case True
    then show ?thesis using None assms
      by (auto simp: reifyString_def emptyString_def sb_ok_def sb_abs_def split: option.splits)
  next
    case False
    then obtain b where b: "m_buffer sb = Some b" using None assms by (auto simp: sb_ok_def)
    note o = old_buffer [OF assms b]
    show ?thesis
    proof (cases "m_length sb = str_length b")
      case True
      then show ?thesis using None False b o assms by (auto simp: reifyString_def sb_ok_def sb_abs_def)
    next
      case len: False
      show ?thesis
        using None False b o assms len
        by (cases b) (auto simp: reifyString_def createSubstringSharingImpl_def sb_ok_def sb_abs_def take_map)
    qed
  qed
qed

lemma shrinkToFit_ok:
  assumes ok: "sb_ok sb" and r: "m_length sb \<le> limit16"
  shows "\<exists>sb'. shrinkToFit sb = Some sb' \<and> sb_ok sb' \<and> sb_abs sb' = sb_abs sb \<and> m_length sb' = m_length sb
    \<and> (m_length sb \<noteq> 0 \<longrightarrow> m_is8Bit sb' = m_is8Bit sb)"
proof (cases "canShrink sb")
  case False
  then show ?thesis using ok by (simp add: shrinkToFit_def)
next
  case True
  then obtain b where b: "m_buffer sb = Some b" by (auto simp: canShrink_def split: option.splits)
  note o = old_buffer [OF ok b]
  show ?thesis
  proof (cases b)
    case (String8 bs)
    have "shrinkToFit sb = Some (sb\<lparr>m_buffer := None, m_string := Some (String8 (take (m_length sb) bs))\<rparr>)"
      using True b String8 o allocateBuffer8_Some [of "sb\<lparr>m_string := None\<rparr>" bs "m_length sb"] r
      by (simp add: shrinkToFit_def reallocateBuffer8_def)
    then show ?thesis using o String8 by (auto simp: sb_ok_def sb_abs_def take_map)
  next
    case (String16 bs)
    show ?thesis
    proof (cases "m_length sb = 0")
      case False
      then have "shrinkToFit sb = Some (sb\<lparr>m_buffer := None, m_string := Some (String16 (take (m_length sb) bs))\<rparr>)"
        using True b String16 o allocateBuffer16_Some [of "sb\<lparr>m_string := None\<rparr>" bs "m_length sb"] r
        by (simp add: shrinkToFit_def reallocateBuffer16_def)
      then show ?thesis using o String16 False by (auto simp: sb_ok_def sb_abs_def)
    next
      case z: True
      then have "shrinkToFit sb = Some (sb\<lparr>m_buffer := None, m_string := Some (String8 [])\<rparr>)"
        using True b String16 o
        by (simp add: shrinkToFit_def reallocateBuffer16_def allocateBuffer16_def createUninitialized16_def
            emptyString_def copy_into_def)
      then show ?thesis using sb_abs_empty [OF ok z] z by (auto simp: sb_ok_def sb_abs_def)
    qed
  qed
qed

lemma toString_ok:
  assumes "sb_ok sb" "m_length sb \<le> limit16"
  shows "\<exists>s sb'. sb_toString sb = Some (s, sb') \<and> str_chars s = sb_abs sb \<and> sb_ok sb' \<and> sb_abs sb' = sb_abs sb"
proof -
  obtain sb1 where s: "shrinkToFit sb = Some sb1" "sb_ok sb1" "sb_abs sb1 = sb_abs sb"
    using shrinkToFit_ok [OF assms] by blast
  obtain t sb2 where r: "(if m_string sb1 = None then reifyString sb1 else Some sb1) = Some sb2"
    "m_string sb2 = Some t" "str_chars t = sb_abs sb1" "sb_ok sb2" "sb_abs sb2 = sb_abs sb1"
    using reify_ok [OF s(2)] by blast
  have "sb_toString sb = Some (t, sb2)"
    unfolding sb_toString_def s(1) bind.bind_lunit r(1) r(2) by simp
  then show ?thesis using r s by auto
qed

lemma append_Strings_ok:
  "sb_ok sb \<Longrightarrow> cap_ok sb \<Longrightarrow> 8 * (m_length sb + sum_list (map str_length strs)) + 64 \<le> limit16 \<Longrightarrow>
    \<exists>sb'. foldM append_String strs sb = Some sb' \<and> sb_ok sb' \<and> cap_ok sb'
      \<and> sb_abs sb' = sb_abs sb @ concat (map str_chars strs)"
proof (induction strs arbitrary: sb)
  case (Cons s strs)
  have "room (str_length s) sb" using Cons.prems by (intro room_iff) simp_all
  from append_String_ok [OF Cons.prems(1) this] obtain sb1 where
    sb1: "append_String s sb = Some sb1" "appended (str_chars s) sb sb1" by blast
  then have a: "sb_ok sb1" "cap_ok sb1" "sb_abs sb1 = sb_abs sb @ str_chars s"
    using Cons.prems(2) by (auto simp: appended_def)
  have "m_length sb1 = m_length sb + str_length s"
    using sb_abs_length [OF a(1)] sb_abs_length [OF Cons.prems(1)] a(3) by simp
  then show ?case using Cons.IH [OF a(1,2)] Cons.prems(3) sb1(1) a(3) by simp
qed simp

text \<open>C35.
  A string builder refines the concatenation of lists: whatever the widths of the strings, the reallocations and the
  up-conversions, appending strings to a new builder does not trap while the total stays under a quarter of
  a gigabyte, and the string it gives out has exactly the characters of the strings in order.
\<close>

theorem StringBuilder_concatenates:
  assumes "sum_list (map str_length strs) \<le> 268435440"
  shows "\<exists>sb s sb'. foldM append_String strs new_StringBuilder = Some sb \<and> sb_toString sb = Some (s, sb')
    \<and> str_chars s = concat (map str_chars strs)"
proof -
  have "8 * (m_length new_StringBuilder + sum_list (map str_length strs)) + 64 \<le> limit16"
    using assms by (simp add: new_StringBuilder_def limit16_def)
  from append_Strings_ok [OF new_StringBuilder_ok(1,3) this] obtain sb where
    sb: "foldM append_String strs new_StringBuilder = Some sb" "sb_ok sb" "sb_abs sb = concat (map str_chars strs)"
    by (auto simp: new_StringBuilder_ok)
  have "m_length sb = sum_list (map str_length strs)"
    using sb_abs_length [OF sb(2)] sb(3) by (simp add: length_concat comp_def)
  then have "m_length sb \<le> limit16" using assms by (simp add: limit16_def)
  with toString_ok [OF sb(2)] sb show ?thesis by metis
qed

theorem StringBuilder_concatenates_witness:
  "\<exists>sb s sb'. foldM append_String [String8 [97], String16 [945, 98]] new_StringBuilder = Some sb
    \<and> sb_toString sb = Some (s, sb') \<and> str_chars s = [97, 945, 98]"
  using StringBuilder_concatenates [of "[String8 [97], String16 [945, 98]]"] by simp

text \<open>  Appending a builder to a new builder loses the width: the first fast path of \<^verbatim>\<open>append(const StringBuilder&)\<close>
  copies the string and the length but not \<^verbatim>\<open>m_is8Bit\<close>, so after a builder that retains a 16-bit string is appended
  to an empty one, the builder claims to hold 8-bit characters and the next character appended trips the assertion
  of \<^verbatim>\<open>characters8\<close>.
\<close>

lemma append_StringBuilder_loses_width:
  "\<exists>other sb. append_String (String16 [945]) new_StringBuilder = Some other
    \<and> append_StringBuilder other new_StringBuilder = Some sb
    \<and> m_is8Bit sb \<and> m_string sb = Some (String16 [945]) \<and> append_LChar c sb = None"
  by (simp add: append_String_def append_StringBuilder_def new_StringBuilder_def append_LChar_def
      append_LChars_def appendUninitialized8_def requiredLengthFor_def fits_buffer_def
      appendUninitializedSlow8_def Let_def)

text \<open>Resizing drops characters from the end; reserving capacity changes no character.\<close>

lemma sb_resize_ok:
  assumes ok: "sb_ok sb" and n: "n \<le> m_length sb"
  shows "\<exists>sb'. sb_resize n sb = Some sb' \<and> sb_ok sb' \<and> sb_abs sb' = take n (sb_abs sb)"
proof (cases "n = m_length sb")
  case True
  then show ?thesis using ok sb_abs_length [OF ok] by (simp add: sb_resize_def)
next
  case False
  show ?thesis
  proof (cases "m_buffer sb")
    case (Some b)
    then show ?thesis using ok n False old_buffer [OF ok Some]
      by (auto simp: sb_resize_def sb_ok_def sb_abs_def min_def split: option.splits)
  next
    case None
    then obtain s where s: "m_string sb = Some s" using ok n False by (auto simp: sb_ok_def split: option.splits)
    then show ?thesis using ok n False None
      by (cases s) (auto simp: sb_resize_def createSubstringSharingImpl_def emptyString_def sb_ok_def sb_abs_def
          take_map min_def)
  qed
qed

lemma reserveCapacity_ok:
  assumes ok: "sb_ok sb" and n: "n \<le> limit16" and w: "m_length sb \<noteq> 0 \<or> m_is8Bit sb"
  shows "\<exists>sb'. reserveCapacity n sb = Some sb' \<and> sb_ok sb' \<and> sb_abs sb' = sb_abs sb"
proof (cases "m_buffer sb")
  case (Some b)
  note o = old_buffer [OF ok Some]
  show ?thesis
  proof (cases "n > str_length b")
    case False
    then show ?thesis using Some ok by (simp add: reserveCapacity_def)
  next
    case True
    show ?thesis
    proof (cases b)
      case (String8 bs)
      then show ?thesis
        using Some o True n allocateBuffer8_Some [of "sb\<lparr>m_string := None\<rparr>" bs n]
        by (auto simp: reserveCapacity_def reallocateBuffer8_def sb_ok_def sb_abs_def take_map)
    next
      case (String16 bs)
      then show ?thesis
        using Some o True n allocateBuffer16_Some [of "sb\<lparr>m_string := None\<rparr>" bs n]
        by (auto simp: reserveCapacity_def reallocateBuffer16_def sb_ok_def sb_abs_def)
    qed
  qed
next
  case None
  consider "n \<le> m_length sb" | "m_length sb < n" "m_length sb = 0" | "m_length sb < n" "m_length sb \<noteq> 0" by linarith
  then show ?thesis
  proof cases
    case 1
    then show ?thesis using None ok by (simp add: reserveCapacity_def)
  next
    case 2
    then show ?thesis
      using None w n allocateBuffer8_Some [of sb "[]" n] sb_abs_empty [OF ok]
      by (auto simp: reserveCapacity_def sb_ok_def sb_abs_def)
  next
    case 3
    show ?thesis
    proof (cases "m_is8Bit sb")
      case True
      from old_chars8 [OF ok True None 3(2)] obtain cs where
        "m_string sb = Some (String8 cs)" "length cs = m_length sb" "sb_abs sb = map ucast cs" .
      then show ?thesis using None 3 n True allocateBuffer8_Some [of sb cs n]
        by (auto simp: reserveCapacity_def sb_ok_def sb_abs_def)
    next
      case False
      from old_chars16 [OF ok False None 3(2)] obtain cs where
        "m_string sb = Some (String16 cs)" "length cs = m_length sb" "sb_abs sb = cs" .
      then show ?thesis using None 3 n False allocateBuffer16_Some [of sb cs n]
        by (auto simp: reserveCapacity_def sb_ok_def sb_abs_def)
    qed
  qed
qed

text \<open>  A builder that retains a 16-bit string keeps its width when it is resized to nothing, and \<^verbatim>\<open>reserveCapacity\<close> then
  allocates an 8-bit buffer, against its assertion: characters appended later would be written 16 bits wide into it.
\<close>

lemma reserveCapacity_after_resize:
  "\<exists>sb sb'. append_String (String16 [945]) new_StringBuilder = Some sb \<and> sb_resize 0 sb = Some sb'
    \<and> \<not> m_is8Bit sb' \<and> m_length sb' = 0 \<and> reserveCapacity 16 sb' = None"
  by (simp add: append_String_def new_StringBuilder_def sb_resize_def createSubstringSharingImpl_def
      emptyString_def reserveCapacity_def allocateBuffer8_def)

end
