(* ===== verification/ContentExtensionRule.thy ===== *)
theory ContentExtensionRule
  imports StringBuilder
begin

text \<open>
  \<^verbatim>\<open>ContentExtensionActions.h\<close>, \<^verbatim>\<open>ContentExtensionRule.h\<close>, \<^verbatim>\<open>ContentExtensionRule.cpp\<close> and the
  serialization of actions in \<^verbatim>\<open>ContentExtensionCompiler.cpp\<close> (all in
  \<^verbatim>\<open>Source/WebCore/contentextensions\<close>): the rules, the byte vector their actions are written
  to, and reading an action back from its location. A failed \<^verbatim>\<open>RELEASE_ASSERT\<close> or a read outside
  of the vector is \<open>None\<close>. A null \<^verbatim>\<open>String\<close> is \<open>None\<close> in a string field.
\<close>

section \<open>Rules\<close>

datatype ActionType = BlockLoad | BlockCookies | CSSDisplayNoneSelector | CSSDisplayNoneStyleSheet
  | IgnorePreviousRules | InvalidAction

record Action =
  m_extensionIdentifier :: "WString option"
  m_type :: ActionType
  m_actionID :: u32
  m_stringArgument :: "WString option"

record Trigger =
  urlFilter :: WString
  urlFilterIsCaseSensitive :: bool
  trigger_flags :: u16

record Rule =
  m_trigger :: Trigger
  m_action :: Action

definition new_Trigger :: Trigger where
  "new_Trigger = \<lparr>urlFilter = emptyString, urlFilterIsCaseSensitive = False, trigger_flags = 0\<rparr>"

definition trigger_eq :: "Trigger \<Rightarrow> Trigger \<Rightarrow> bool" where
  "trigger_eq a b \<longleftrightarrow> wstring_eq (urlFilter a) (urlFilter b)
     \<and> urlFilterIsCaseSensitive a = urlFilterIsCaseSensitive b \<and> trigger_flags a = trigger_flags b"

definition new_Action :: Action where
  "new_Action = \<lparr>m_extensionIdentifier = None, m_type = InvalidAction, m_actionID = - 1, m_stringArgument = None\<rparr>"

text \<open>The two constructors assert which types take a string.\<close>

definition new_Action_string :: "ActionType \<Rightarrow> WString \<Rightarrow> u32 \<Rightarrow> Action option" where
  "new_Action_string type stringArgument actionID =
     (if type = CSSDisplayNoneSelector \<or> type = CSSDisplayNoneStyleSheet
      then Some \<lparr>m_extensionIdentifier = None, m_type = type, m_actionID = actionID,
                m_stringArgument = Some stringArgument\<rparr>
      else None)"

definition new_Action_type :: "ActionType \<Rightarrow> u32 \<Rightarrow> Action option" where
  "new_Action_type type actionID =
     (if type \<noteq> CSSDisplayNoneSelector \<and> type \<noteq> CSSDisplayNoneStyleSheet
      then Some \<lparr>m_extensionIdentifier = None, m_type = type, m_actionID = actionID, m_stringArgument = None\<rparr>
      else None)"

definition opt_string_eq :: "WString option \<Rightarrow> WString option \<Rightarrow> bool" where
  "opt_string_eq a b \<longleftrightarrow> (case (a, b) of
     (None, None) \<Rightarrow> True | (Some s, Some t) \<Rightarrow> wstring_eq s t | _ \<Rightarrow> False)"

definition action_eq :: "Action \<Rightarrow> Action \<Rightarrow> bool" where
  "action_eq a b \<longleftrightarrow> m_type a = m_type b \<and> opt_string_eq (m_extensionIdentifier a) (m_extensionIdentifier b)
     \<and> m_actionID a = m_actionID b \<and> opt_string_eq (m_stringArgument a) (m_stringArgument b)"

definition setExtensionIdentifier :: "WString \<Rightarrow> Action \<Rightarrow> Action" where
  "setExtensionIdentifier extensionIdentifier a = a\<lparr>m_extensionIdentifier := Some extensionIdentifier\<rparr>"

definition new_Rule :: "Trigger \<Rightarrow> Action \<Rightarrow> Rule option" where
  "new_Rule trigger action =
     (if str_length (urlFilter trigger) = 0 then None else Some \<lparr>m_trigger = trigger, m_action = action\<rparr>)"

section \<open>Serialization\<close>

text \<open>The value of the enumeration, and \<^verbatim>\<open>static_cast\<close> back; a value outside matches no case.\<close>

fun action_byte :: "ActionType \<Rightarrow> u8" where
  "action_byte BlockLoad = 0"
| "action_byte BlockCookies = 1"
| "action_byte CSSDisplayNoneSelector = 2"
| "action_byte CSSDisplayNoneStyleSheet = 3"
| "action_byte IgnorePreviousRules = 4"
| "action_byte InvalidAction = 5"

definition byte_action :: "u8 \<Rightarrow> ActionType option" where
  "byte_action b = (if b = 0 then Some BlockLoad else if b = 1 then Some BlockCookies
     else if b = 2 then Some CSSDisplayNoneSelector else if b = 3 then Some CSSDisplayNoneStyleSheet
     else if b = 4 then Some IgnorePreviousRules else if b = 5 then Some InvalidAction else None)"

definition serializeSelector :: "u8 list \<Rightarrow> WString \<Rightarrow> u8 list" where
  "serializeSelector actions selector =
     actions @ [action_byte CSSDisplayNoneSelector] @ bytes32 (of_nat (str_length selector))
       @ [if is8Bit selector then 0 else 1]
       @ (case selector of String8 cs \<Rightarrow> cs | String16 cs \<Rightarrow> concat (map bytes16 cs))"

text \<open>The selectors that follow with the same trigger are joined to the first, separated by commas.\<close>

definition isSelector :: "Rule \<Rightarrow> bool" where
  "isSelector r \<longleftrightarrow> m_type (m_action r) = CSSDisplayNoneSelector"

definition sameTriggerSelector :: "Rule \<Rightarrow> Rule \<Rightarrow> bool" where
  "sameTriggerSelector rule r \<longleftrightarrow> trigger_eq (m_trigger rule) (m_trigger r) \<and> isSelector r"

definition append_argument :: "Rule \<Rightarrow> StringBuilder \<Rightarrow> StringBuilder option" where
  "append_argument r sb = (case m_stringArgument (m_action r) of
     None \<Rightarrow> Some sb | Some s \<Rightarrow> append_String s sb)"

definition consolidateSelectors :: "Rule \<Rightarrow> Rule list \<Rightarrow> WString option" where
  "consolidateSelectors rule run = do {
     sb \<leftarrow> append_argument rule new_StringBuilder;
     sb \<leftarrow> foldM (\<lambda>r sb. do { sb \<leftarrow> append_LChar 44 sb; append_argument r sb }) run sb;
     (s, _) \<leftarrow> sb_toString sb;
     Some s
   }"

text \<open>
  The loop over the rules: the rules left, the rule before them, the bytes and the locations so
  far.
\<close>

function serializeActionsFrom ::
  "Rule list \<Rightarrow> Rule option \<Rightarrow> u8 list \<Rightarrow> nat list \<Rightarrow> (u8 list \<times> nat list) option" where
  "serializeActionsFrom [] previous actions actionLocations = Some (actions, actionLocations)"
| "serializeActionsFrom (rule # rules) previous actions actionLocations =
     (if isSelector rule then
        let run = takeWhile (sameTriggerSelector rule) rules in do {
          selector \<leftarrow> consolidateSelectors rule run;
          serializeActionsFrom (dropWhile (sameTriggerSelector rule) rules) (Some (last (rule # run)))
            (serializeSelector actions selector)
            (actionLocations @ replicate (Suc (length run)) (length actions))
        }
      else if (case previous of Some p \<Rightarrow> action_eq (m_action rule) (m_action p) | None \<Rightarrow> False)
      then serializeActionsFrom rules (Some rule) actions (actionLocations @ [last actionLocations])
      else if m_type (m_action rule) = BlockLoad \<or> m_type (m_action rule) = BlockCookies
          \<or> m_type (m_action rule) = IgnorePreviousRules
      then serializeActionsFrom rules (Some rule) (actions @ [action_byte (m_type (m_action rule))])
        (actionLocations @ [length actions])
      else None)"
  by pat_completeness auto
termination
  by (relation "measure (\<lambda>(rules, _, _, _). length rules)")
    (auto simp: less_Suc_eq_le length_dropWhile_le)

definition serializeActions :: "Rule list \<Rightarrow> (u8 list \<times> nat list) option" where
  "serializeActions ruleList = serializeActionsFrom ruleList None [] []"

section \<open>Deserialization\<close>

definition read_chars8 :: "u8 list \<Rightarrow> nat \<Rightarrow> nat \<Rightarrow> u8 list option" where
  "read_chars8 actions start len = mapM (vec_at actions) [start..<start + len]"

definition read_chars16 :: "u8 list \<Rightarrow> nat \<Rightarrow> nat \<Rightarrow> u16 list option" where
  "read_chars16 actions start len = mapM (\<lambda>i. read16 actions (start + 2 * i)) [0..<len]"

definition deserialize :: "u8 list \<Rightarrow> nat \<Rightarrow> nat \<Rightarrow> Action option" where
  "deserialize actions actionsLength location = do {
     b \<leftarrow> vec_at actions location;
     type \<leftarrow> byte_action b;
     (case type of
        BlockCookies \<Rightarrow> new_Action_type BlockCookies (of_nat location)
      | BlockLoad \<Rightarrow> new_Action_type BlockLoad (of_nat location)
      | IgnorePreviousRules \<Rightarrow> new_Action_type IgnorePreviousRules (of_nat location)
      | CSSDisplayNoneSelector \<Rightarrow>
          (let stringStartIndex = (location + 1 + 4 + 1) mod 4294967296 in
           if actionsLength < stringStartIndex then None
           else do {
             selectorLength \<leftarrow> read32 actions (location + 1);
             wide \<leftarrow> vec_at actions (location + 1 + 4);
             (if wide \<noteq> 0 then
                if actionsLength < stringStartIndex + unat selectorLength * 2 then None
                else do {
                  cs \<leftarrow> read_chars16 actions stringStartIndex (unat selectorLength);
                  new_Action_string CSSDisplayNoneSelector
                    (if selectorLength = 0 then emptyString else String16 cs) (of_nat location)
                }
              else
                if actionsLength < stringStartIndex + unat selectorLength then None
                else do {
                  cs \<leftarrow> read_chars8 actions stringStartIndex (unat selectorLength);
                  new_Action_string CSSDisplayNoneSelector (String8 cs) (of_nat location)
                })
           })
      | CSSDisplayNoneStyleSheet \<Rightarrow> None
      | InvalidAction \<Rightarrow> None)
   }"


section \<open>Reading back what was written\<close>

lemma mapM_list_all2: "list_all2 (\<lambda>x y. f x = Some y) xs ys \<Longrightarrow> mapM f xs = Some ys"
  by (induction rule: list_all2_induct) simp_all

lemma read_chars8_at: "bytes_at bs i cs \<Longrightarrow> read_chars8 bs i (length cs) = Some cs"
  unfolding read_chars8_def
  by (rule mapM_list_all2) (auto simp: list_all2_conv_all_nth bytes_at_def vec_at_def)

lemma bytes16_at:
  "bytes_at bs i (concat (map bytes16 cs)) \<Longrightarrow> k < length cs \<Longrightarrow> bytes_at bs (i + 2 * k) (bytes16 (cs ! k))"
proof (induction cs arbitrary: i k)
  case (Cons c cs)
  then have c: "bytes_at bs i (bytes16 c)" "bytes_at bs (i + 2) (concat (map bytes16 cs))"
    by (simp_all add: bytes_at_append)
  show ?case
  proof (cases k)
    case (Suc n)
    then show ?thesis using Cons.IH [OF c(2), of n] Cons.prems(2) by (simp add: add.commute)
  qed (use c in simp)
qed simp

lemma read_chars16_at: "bytes_at bs i (concat (map bytes16 cs)) \<Longrightarrow> read_chars16 bs i (length cs) = Some cs"
  unfolding read_chars16_def
  by (rule mapM_list_all2) (auto simp: list_all2_conv_all_nth intro!: read16_bytes16 bytes16_at)

definition selector_bytes :: "WString \<Rightarrow> u8 list" where
  "selector_bytes s = serializeSelector [] s"

lemma serializeSelector_append: "serializeSelector actions s = actions @ selector_bytes s"
  by (simp add: serializeSelector_def selector_bytes_def)

lemma bytes_at_length: "bytes_at bs i xs \<Longrightarrow> i + length xs \<le> length bs"
  by (simp add: bytes_at_def)

lemma byte_action_byte: "byte_action (action_byte t) = Some t"
  by (cases t) (simp_all add: byte_action_def)

lemma deserialize_selector:
  assumes at: "bytes_at bs loc (selector_bytes s)" and len: "length bs < 4294967296"
  shows "\<exists>t. deserialize bs (length bs) loc = new_Action_string CSSDisplayNoneSelector t (of_nat loc)
    \<and> str_chars t = str_chars s"
proof -
  let ?tail = "case s of String8 cs \<Rightarrow> cs | String16 cs \<Rightarrow> concat (map bytes16 cs)"
  have p: "bytes_at bs loc [2]" "bytes_at bs (loc + 1) (bytes32 (of_nat (str_length s)))"
    "bytes_at bs (loc + 5) [if is8Bit s then 0 else 1]" "bytes_at bs (loc + 6) ?tail"
    using at by (simp_all add: selector_bytes_def serializeSelector_def bytes_at_append bytes_at_Cons add.commute)
  have l: "loc + 6 + length ?tail < 4294967296" "loc + 6 + length ?tail \<le> length bs" "str_length s \<le> length ?tail"
    using bytes_at_length [OF p(4)] len by (auto split: WString.split) (auto simp: length_concat comp_def sum_list_triv)
  have b: "vec_at bs loc = Some 2" "vec_at bs (loc + 5) = Some (if is8Bit s then 0 else 1)"
    using p(1,3) by (simp_all add: bytes_at_Cons vec_at_def)
  have n: "unat (of_nat (str_length s) :: u32) = str_length s"
    using l by (simp add: unat_of_nat)
  note r32 = read32_bytes32 [OF p(2)]
  show ?thesis
  proof (cases s)
    case (String8 cs)
    have "deserialize bs (length bs) loc = new_Action_string CSSDisplayNoneSelector (String8 cs) (of_nat loc)"
      using b r32 l n p(4) read_chars8_at [of bs "loc + 6" cs] String8
      by (simp add: deserialize_def byte_action_def Let_def add.commute)
    then show ?thesis using String8 by auto
  next
    case (String16 cs)
    have w: "length (concat (map bytes16 cs)) = 2 * length cs"
      by (induction cs) simp_all
    have "deserialize bs (length bs) loc = new_Action_string CSSDisplayNoneSelector
        (if of_nat (length cs) = (0 :: u32) then emptyString else String16 cs) (of_nat loc)"
      using b r32 l n p(4) read_chars16_at [of bs "loc + 6" cs] String16 w
      by (simp add: deserialize_def byte_action_def Let_def add.commute)
    moreover have "of_nat (length cs) = (0 :: u32) \<longleftrightarrow> cs = []"
      using n String16 by (simp only: unat_eq_zero [symmetric] str_length.simps length_0_conv)
    ultimately show ?thesis using String16 by (auto simp: emptyString_def)
  qed
qed

lemma deserialize_simple:
  assumes "bytes_at bs loc [action_byte t]" "t = BlockLoad \<or> t = BlockCookies \<or> t = IgnorePreviousRules"
  shows "deserialize bs n loc = new_Action_type t (of_nat loc)"
proof -
  have "vec_at bs loc = Some (action_byte t)" using assms(1) by (simp add: bytes_at_Cons vec_at_def)
  then show ?thesis using assms(2) byte_action_byte [of t] by (auto simp: deserialize_def)
qed

text \<open>The rules the parser produces, and the size of their selectors.\<close>

definition serializable :: "Rule \<Rightarrow> bool" where
  "serializable r \<longleftrightarrow> (case m_type (m_action r) of
     BlockLoad \<Rightarrow> True | BlockCookies \<Rightarrow> True | IgnorePreviousRules \<Rightarrow> True
   | CSSDisplayNoneSelector \<Rightarrow> m_stringArgument (m_action r) \<noteq> None | _ \<Rightarrow> False)"

definition selector_chars :: "Rule \<Rightarrow> u16 list" where
  "selector_chars r = (case m_stringArgument (m_action r) of None \<Rightarrow> [] | Some s \<Rightarrow> str_chars s)"

definition weight :: "Rule list \<Rightarrow> nat" where
  "weight rs = sum_list (map (\<lambda>r. 1 + length (selector_chars r)) rs)"

lemma weight_simps [simp]:
  "weight [] = 0" "weight (r # rs) = Suc (length (selector_chars r) + weight rs)"
  by (simp_all add: weight_def)

lemma append_argument_ok:
  assumes "sb_ok sb" "cap_ok sb" "8 * (m_length sb + length (selector_chars r)) + 64 \<le> limit16"
  shows "\<exists>sb'. append_argument r sb = Some sb' \<and> sb_ok sb' \<and> cap_ok sb' \<and> sb_abs sb' = sb_abs sb @ selector_chars r
    \<and> m_length sb' = m_length sb + length (selector_chars r)"
proof (cases "m_stringArgument (m_action r)")
  case None
  then show ?thesis using assms by (simp add: append_argument_def selector_chars_def)
next
  case (Some s)
  have "room (str_length s) sb" using assms Some by (intro room_iff) (simp_all add: selector_chars_def)
  from append_String_ok [OF assms(1) this] obtain sb' where
    sb': "append_String s sb = Some sb'" "appended (str_chars s) sb sb'" by blast
  then have a: "sb_ok sb'" "sb_abs sb' = sb_abs sb @ str_chars s" "cap_ok sb'"
    using assms(2) by (auto simp: appended_def)
  moreover have "m_length sb' = m_length sb + str_length s"
    using sb_abs_length [OF a(1)] sb_abs_length [OF assms(1)] a(2) by simp
  ultimately show ?thesis using sb'(1) Some by (simp add: append_argument_def selector_chars_def)
qed

lemma append_run_ok:
  "sb_ok sb \<Longrightarrow> cap_ok sb \<Longrightarrow> 8 * (m_length sb + weight run) + 64 \<le> limit16 \<Longrightarrow>
    \<exists>sb'. foldM (\<lambda>r sb. do { sb \<leftarrow> append_LChar 44 sb; append_argument r sb }) run sb = Some sb'
      \<and> sb_ok sb' \<and> sb_abs sb' = sb_abs sb @ concat (map (\<lambda>r. 44 # selector_chars r) run)
      \<and> m_length sb' = m_length sb + weight run"
proof (induction run arbitrary: sb)
  case Nil
  then show ?case by simp
next
  case (Cons r run)
  have "room 1 sb" using Cons.prems by (intro room_iff) (simp_all add: weight_def)
  from append_LChar_ok [OF Cons.prems(1) this, of 44] obtain sb1 where
    sb1: "append_LChar 44 sb = Some sb1" "appended [44] sb sb1" by auto
  then have a: "sb_ok sb1" "sb_abs sb1 = sb_abs sb @ [44]" "cap_ok sb1"
    using Cons.prems(2) by (auto simp: appended_def)
  have l: "m_length sb1 = m_length sb + 1"
    using sb_abs_length [OF a(1)] sb_abs_length [OF Cons.prems(1)] a(2) by simp
  obtain sb2 where sb2: "append_argument r sb1 = Some sb2" "sb_ok sb2" "cap_ok sb2"
    "sb_abs sb2 = sb_abs sb1 @ selector_chars r" "m_length sb2 = m_length sb1 + length (selector_chars r)"
    using append_argument_ok [OF a(1,3), of r] Cons.prems(3) l by auto
  from Cons.IH [OF sb2(2,3)] sb1(1) sb2 a(2) l Cons.prems(3) show ?case by (simp add: add.assoc)
qed

lemma consolidateSelectors_ok:
  assumes "weight (rule # run) \<le> 268435440"
  shows "\<exists>s. consolidateSelectors rule run = Some s
    \<and> str_chars s = selector_chars rule @ concat (map (\<lambda>r. 44 # selector_chars r) run)"
proof -
  have w: "8 * (length (selector_chars rule) + weight run) + 64 \<le> limit16"
    using assms by (simp add: limit16_def)
  have "m_length new_StringBuilder = 0" by (simp add: new_StringBuilder_def)
  then obtain sb where sb: "append_argument rule new_StringBuilder = Some sb" "sb_ok sb" "cap_ok sb"
    "sb_abs sb = selector_chars rule" "m_length sb = length (selector_chars rule)"
    using append_argument_ok [OF new_StringBuilder_ok(1,3), of rule] w by (auto simp: new_StringBuilder_ok)
  obtain sb' where sb': "foldM (\<lambda>r sb. do { sb \<leftarrow> append_LChar 44 sb; append_argument r sb }) run sb = Some sb'"
    "sb_ok sb'" "sb_abs sb' = sb_abs sb @ concat (map (\<lambda>r. 44 # selector_chars r) run)"
    "m_length sb' = m_length sb + weight run"
    using append_run_ok [OF sb(2,3), of run] w sb(5) by auto
  obtain s x where "sb_toString sb' = Some (s, x)" "str_chars s = sb_abs sb'"
    using toString_ok [OF sb'(2)] sb'(4) sb(5) w by (auto simp: limit16_def)
  then show ?thesis using sb sb' by (simp add: consolidateSelectors_def)
qed


section \<open>The groups of rules that share an action\<close>

text \<open>
  The reference: consecutive selectors with the trigger of the first, and consecutive equal
  actions, form a group; every group is written once.
\<close>

definition joins :: "Rule \<Rightarrow> Rule \<Rightarrow> bool" where
  "joins r x \<longleftrightarrow> (if isSelector r then sameTriggerSelector r x else action_eq (m_action x) (m_action r))"

function groups :: "Rule list \<Rightarrow> Rule list list" where
  "groups [] = []"
| "groups (r # rs) = (r # takeWhile (joins r) rs) # groups (dropWhile (joins r) rs)"
  by pat_completeness auto
termination
  by (relation "measure length") (auto simp: less_Suc_eq_le length_dropWhile_le)

definition joined :: "Rule list \<Rightarrow> u16 list" where
  "joined g = selector_chars (hd g) @ concat (map (\<lambda>r. 44 # selector_chars r) (tl g))"

definition represents :: "Rule list \<Rightarrow> nat \<Rightarrow> Action \<Rightarrow> bool" where
  "represents g loc a \<longleftrightarrow> m_type a = m_type (m_action (hd g)) \<and> m_actionID a = of_nat loc
     \<and> map_option str_chars (m_stringArgument a) = (if isSelector (hd g) then Some (joined g) else None)"

definition chunk_of :: "Rule list \<Rightarrow> u8 list \<Rightarrow> bool" where
  "chunk_of g c \<longleftrightarrow> (if isSelector (hd g) then \<exists>s. c = selector_bytes s \<and> str_chars s = joined g
     else c = [action_byte (m_type (m_action (hd g)))])"

fun offsets :: "nat \<Rightarrow> 'a list list \<Rightarrow> nat list" where
  "offsets n [] = []"
| "offsets n (c # cs) = n # offsets (n + length c) cs"

definition spread :: "'a list list \<Rightarrow> nat list \<Rightarrow> nat list" where
  "spread gs offs = concat (map2 (\<lambda>g off. replicate (length g) off) gs offs)"

lemma spread_Cons [simp]: "spread (g # gs) (n # offs) = replicate (length g) n @ spread gs offs"
  by (simp add: spread_def)

lemma spread_Nil [simp]: "spread [] offs = []"
  by (simp add: spread_def)

lemma concat_groups: "concat (groups rs) = rs"
  by (induction rs rule: groups.induct) simp_all

lemma opt_string_eq_iff: "opt_string_eq a b \<longleftrightarrow> map_option str_chars a = map_option str_chars b"
  by (cases a; cases b) (simp_all add: opt_string_eq_def wstring_eq_def)

definition action_key :: "Action \<Rightarrow> ActionType \<times> u16 list option \<times> u32 \<times> u16 list option" where
  "action_key a = (m_type a, map_option str_chars (m_extensionIdentifier a), m_actionID a,
     map_option str_chars (m_stringArgument a))"

lemma action_eq_iff: "action_eq a b \<longleftrightarrow> action_key a = action_key b"
  by (simp add: action_eq_def action_key_def opt_string_eq_iff)

lemma action_key_type: "action_key a = action_key b \<Longrightarrow> m_type a = m_type b"
  by (simp add: action_key_def)

lemma joins_isSelector: "joins r x \<Longrightarrow> isSelector x = isSelector r"
  using action_key_type [of "m_action x" "m_action r"]
  by (auto simp: joins_def sameTriggerSelector_def action_eq_iff isSelector_def split: if_splits)

lemma serializeActionsFrom_equal:
  "\<forall>x\<in>set xs. action_eq (m_action x) (m_action r) \<Longrightarrow> \<not> isSelector r \<Longrightarrow>
     action_eq (m_action p) (m_action r) \<Longrightarrow>
     serializeActionsFrom (xs @ rs) (Some p) actions locs
       = serializeActionsFrom rs (Some (last (p # xs))) actions (locs @ replicate (length xs) (last locs))"
proof (induction xs arbitrary: p locs)
  case (Cons x xs)
  have x: "action_eq (m_action x) (m_action p)" "\<not> isSelector x"
    using Cons.prems action_key_type [of "m_action x" "m_action r"]
    by (simp_all add: action_eq_iff isSelector_def)
  have "serializeActionsFrom ((x # xs) @ rs) (Some p) actions locs
      = serializeActionsFrom (xs @ rs) (Some x) actions (locs @ [last locs])"
    using x by simp
  also have "\<dots> = serializeActionsFrom rs (Some (last (x # xs))) actions
      ((locs @ [last locs]) @ replicate (length xs) (last (locs @ [last locs])))"
    using Cons.prems by (intro Cons.IH) simp_all
  finally show ?case by simp
qed simp

lemma chunks_at:
  "list_all2 Q gs cs \<Longrightarrow> list_all2 (\<lambda>g off. \<exists>c. Q g c \<and> bytes_at (pre @ concat cs) off c) gs (offsets (length pre) cs)"
proof (induction arbitrary: pre rule: list_all2_induct)
  case (Cons g gs c cs)
  have "bytes_at (pre @ c @ concat cs) (length pre) c" by (rule bytes_at_appendI)
  with Cons.hyps(1) Cons.IH [of "pre @ c"] show ?case by auto
qed simp

lemma offsets_increasing:
  "list_all (\<lambda>c. c \<noteq> []) cs \<Longrightarrow> sorted_wrt (<) (offsets n cs) \<and> (\<forall>m\<in>set (offsets n cs). n \<le> m)"
proof (induction cs arbitrary: n)
  case (Cons c cs)
  then have "0 < length c" by simp
  moreover have "sorted_wrt (<) (offsets (n + length c) cs) \<and> (\<forall>m\<in>set (offsets (n + length c) cs). n + length c \<le> m)"
    using Cons.prems by (intro Cons.IH) simp
  ultimately have "sorted_wrt (<) (offsets (n + length c) cs)" "\<forall>m\<in>set (offsets (n + length c) cs). n < m"
    by (simp, meson add_strict_left_mono less_add_same_cancel1 less_le_trans)
  then show ?case by (auto intro: less_imp_le)
qed simp

lemma length_offsets [simp]: "length (offsets n cs) = length cs"
  by (induction cs arbitrary: n) simp_all

lemma weight_append [simp]: "weight (xs @ ys) = weight xs + weight ys"
  by (induction xs) simp_all

lemma takeWhile_joins_selector: "isSelector r \<Longrightarrow> joins r = sameTriggerSelector r"
  by (simp add: joins_def fun_eq_iff)

lemma weight_split: "weight (takeWhile P rs) + weight (dropWhile P rs) = weight rs"
  by (metis takeWhile_dropWhile_id weight_append)

lemma serializeActionsFrom_groups:
  assumes "list_all serializable rules" "weight rules \<le> 268435440"
    and "\<And>r p. rules \<noteq> [] \<Longrightarrow> r = hd rules \<Longrightarrow> previous = Some p \<Longrightarrow> \<not> isSelector r \<Longrightarrow> \<not> action_eq (m_action r) (m_action p)"
  shows "\<exists>cs. serializeActionsFrom rules previous actions locs
      = Some (actions @ concat cs, locs @ spread (groups rules) (offsets (length actions) cs))
    \<and> list_all2 chunk_of (groups rules) cs"
  using assms
proof (induction rules arbitrary: previous actions locs rule: groups.induct)
  case 1
  then show ?case by simp
next
  case (2 r rs)
  let ?run = "takeWhile (joins r) rs" and ?rest = "dropWhile (joins r) rs"
  have rest: "list_all serializable ?rest" "weight ?rest \<le> 268435440"
    using 2 weight_split [of "joins r" rs] by (auto simp: list_all_iff dest: set_dropWhileD)
  have hd_rest: "\<not> joins r (hd ?rest)" if "?rest \<noteq> []" using that hd_dropWhile by blast
  show ?case
  proof (cases "isSelector r")
    case True
    note j = takeWhile_joins_selector [OF True]
    have "weight (r # ?run) \<le> 268435440" using 2 weight_split [of "joins r" rs] by simp
    from consolidateSelectors_ok [OF this] obtain s where
      s: "consolidateSelectors r ?run = Some s" "str_chars s = joined (r # ?run)" by (auto simp: joined_def)
    have "isSelector (last (r # ?run))"
      using True j by (auto simp: last_ConsR dest!: last_in_set set_takeWhileD simp: sameTriggerSelector_def)
    then have "\<exists>cs. serializeActionsFrom ?rest (Some (last (r # ?run))) (actions @ selector_bytes s)
          (locs @ replicate (Suc (length ?run)) (length actions))
        = Some ((actions @ selector_bytes s) @ concat cs,
            (locs @ replicate (Suc (length ?run)) (length actions))
              @ spread (groups ?rest) (offsets (length (actions @ selector_bytes s)) cs))
      \<and> list_all2 chunk_of (groups ?rest) cs"
      by (intro "2.IH" rest) (auto simp: action_eq_iff isSelector_def dest: action_key_type)
    then obtain cs where "serializeActionsFrom ?rest (Some (last (r # ?run))) (actions @ selector_bytes s)
          (locs @ replicate (Suc (length ?run)) (length actions))
        = Some (actions @ concat (selector_bytes s # cs),
            locs @ spread (groups (r # rs)) (offsets (length actions) (selector_bytes s # cs)))"
        "list_all2 chunk_of (groups (r # rs)) (selector_bytes s # cs)"
      using True s by (auto simp: chunk_of_def)
    then show ?thesis
      using True s j by (intro exI [of _ "selector_bytes s # cs"]) (simp add: serializeSelector_append Let_def)
  next
    case False
    let ?b = "[action_byte (m_type (m_action r))]"
    have simple: "m_type (m_action r) = BlockLoad \<or> m_type (m_action r) = BlockCookies
        \<or> m_type (m_action r) = IgnorePreviousRules"
      using 2 False by (auto simp: serializable_def isSelector_def split: ActionType.splits)
    have neq: "\<not> (case previous of Some p \<Rightarrow> action_eq (m_action r) (m_action p) | None \<Rightarrow> False)"
      using 2(4) False by (auto split: option.splits)
    have run: "\<forall>x\<in>set ?run. action_eq (m_action x) (m_action r)"
      using False by (auto simp: joins_def dest: set_takeWhileD)
    have last: "action_eq (m_action r) (m_action (last (r # ?run)))"
      using run by (cases "?run = []") (auto simp: action_eq_iff)
    have "serializeActionsFrom (r # rs) previous actions locs
      = serializeActionsFrom (?run @ ?rest) (Some r) (actions @ ?b) (locs @ [length actions])"
      unfolding takeWhile_dropWhile_id using False neq simple by simp
    also have "\<dots> = serializeActionsFrom ?rest (Some (last (r # ?run))) (actions @ ?b)
        (locs @ replicate (Suc (length ?run)) (length actions))"
      by (subst serializeActionsFrom_equal [OF run False]) (simp_all add: action_eq_iff)
    finally have *: "serializeActionsFrom (r # rs) previous actions locs = \<dots>" .
    have "\<exists>cs. serializeActionsFrom ?rest (Some (last (r # ?run))) (actions @ ?b)
          (locs @ replicate (Suc (length ?run)) (length actions))
        = Some ((actions @ ?b) @ concat cs,
            (locs @ replicate (Suc (length ?run)) (length actions))
              @ spread (groups ?rest) (offsets (length (actions @ ?b)) cs))
      \<and> list_all2 chunk_of (groups ?rest) cs"
    proof (rule "2.IH" [OF rest])
      fix x p
      assume x: "?rest \<noteq> []" "x = hd ?rest" "Some (last (r # ?run)) = Some p"
      then have "\<not> action_eq (m_action x) (m_action r)" using hd_rest [OF x(1)] False by (simp only: joins_def if_False not_False_eq_True)
      then show "\<not> action_eq (m_action x) (m_action p)" using last x(3) unfolding action_eq_iff by (metis option.inject)
    qed
    then obtain cs where cs: "serializeActionsFrom ?rest (Some (last (r # ?run))) (actions @ ?b)
          (locs @ replicate (Suc (length ?run)) (length actions))
        = Some ((actions @ ?b) @ concat cs,
            (locs @ replicate (Suc (length ?run)) (length actions))
              @ spread (groups ?rest) (offsets (length (actions @ ?b)) cs))"
      "list_all2 chunk_of (groups ?rest) cs" by (elim exE conjE)
    have "(actions @ ?b) @ concat cs = actions @ concat (?b # cs)"
      "(locs @ replicate (Suc (length ?run)) (length actions)) @ spread (groups ?rest) (offsets (length (actions @ ?b)) cs)
        = locs @ spread (groups (r # rs)) (offsets (length actions) (?b # cs))"
      by simp_all
    note cs [unfolded this]
    moreover have "chunk_of (r # ?run) ?b" using False by (simp add: chunk_of_def)
    ultimately show ?thesis unfolding * by (intro exI [of _ "?b # cs"] conjI) simp_all
  qed
qed


lemma deserialize_chunk:
  assumes c: "chunk_of g c" "bytes_at bs off c" and len: "length bs < 4294967296"
    and g: "serializable (hd g)"
  shows "\<exists>a. deserialize bs (length bs) off = Some a \<and> represents g off a"
proof (cases "isSelector (hd g)")
  case True
  then obtain s where s: "c = selector_bytes s" "str_chars s = joined g" using c(1) by (auto simp: chunk_of_def)
  with deserialize_selector [of bs off s] c(2) len obtain t where
    "deserialize bs (length bs) off = new_Action_string CSSDisplayNoneSelector t (of_nat off)" "str_chars t = joined g"
    by auto
  then show ?thesis using True by (simp add: new_Action_string_def represents_def isSelector_def)
next
  case False
  then have t: "m_type (m_action (hd g)) = BlockLoad \<or> m_type (m_action (hd g)) = BlockCookies
      \<or> m_type (m_action (hd g)) = IgnorePreviousRules"
    using g by (auto simp: serializable_def isSelector_def split: ActionType.splits)
  have "bytes_at bs off [action_byte (m_type (m_action (hd g)))]" using c False by (simp add: chunk_of_def)
  from deserialize_simple [OF this t, of "length bs"] show ?thesis
    using t False by (auto simp: new_Action_type_def represents_def)
qed

lemma weight_groups:
  "sum_list (map (\<lambda>g. 8 * weight g) (groups rs)) = 8 * weight rs"
proof (induction rs rule: groups.induct)
  case (2 r rs)
  then show ?case using weight_split [of "joins r" rs] by simp
qed simp

lemma length_joined: "g \<noteq> [] \<Longrightarrow> Suc (length (joined g)) = weight g"
proof -
  have *: "length (concat (map (\<lambda>r. 44 # selector_chars r) rs)) = weight rs" for rs
    by (induction rs) simp_all
  show "g \<noteq> [] \<Longrightarrow> ?thesis" by (cases g) (simp_all add: joined_def *)
qed

lemma chunk_length:
  assumes "chunk_of g c" "g \<noteq> []"
  shows "c \<noteq> [] \<and> length c \<le> 8 * weight g"
proof -
  have s: "length (selector_bytes s) \<le> 6 + 2 * length (str_chars s)" "selector_bytes s \<noteq> []" for s
    by (auto simp: selector_bytes_def serializeSelector_def length_concat comp_def sum_list_triv
      split: WString.splits)
  have "length (selector_bytes t) \<le> 8 * weight g" if "str_chars t = joined g" for t
  proof -
    have "str_length t = length (joined g)" using that by (metis str_length_chars)
    then show ?thesis using s(1) [of t] length_joined [OF assms(2)] by simp
  qed
  then show ?thesis
    using assms(1) length_joined [OF assms(2)] s(2) by (auto simp: chunk_of_def split: if_splits)
qed

lemma groups_nonempty: "list_all (\<lambda>g. g \<noteq> []) (groups rs)"
  by (induction rs rule: groups.induct) simp_all

lemma chunks_length:
  "list_all2 chunk_of gs cs \<Longrightarrow> list_all (\<lambda>g. g \<noteq> []) gs \<Longrightarrow>
    list_all (\<lambda>c. c \<noteq> []) cs \<and> length (concat cs) \<le> sum_list (map (\<lambda>g. 8 * weight g) gs)"
proof (induction rule: list_all2_induct)
  case (Cons g gs c cs)
  then show ?case using chunk_length [OF Cons.hyps(1)] by auto
qed simp


lemma groups_serializable: "list_all serializable rs \<Longrightarrow> list_all (\<lambda>g. serializable (hd g)) (groups rs)"
  by (induction rs rule: groups.induct) (auto simp: list_all_iff dest: set_dropWhileD)

lemma serializeActions_reads:
  assumes "list_all serializable rules" "weight rules \<le> 268435440"
  shows "\<exists>bytes offs. serializeActions rules = Some (bytes, spread (groups rules) offs)
    \<and> sorted_wrt (<) offs \<and> concat (groups rules) = rules
    \<and> list_all2 (\<lambda>g off. \<exists>a. deserialize bytes (length bytes) off = Some a \<and> represents g off a) (groups rules) offs
    \<and> length bytes < 4294967296"
proof -
  obtain cs where cs: "serializeActions rules = Some (concat cs, spread (groups rules) (offsets 0 cs))"
    "list_all2 chunk_of (groups rules) cs"
    using serializeActionsFrom_groups [OF assms, of None "[]" "[]"] by (auto simp: serializeActions_def)
  note l = chunks_length [OF cs(2) groups_nonempty]
  have len: "length (concat cs) < 4294967296"
    using l assms(2) unfolding weight_groups by simp
  have at: "list_all2 (\<lambda>g off. \<exists>c. chunk_of g c \<and> bytes_at (concat cs) off c) (groups rules) (offsets 0 cs)"
    using chunks_at [OF cs(2), of "[]"] by simp
  have "list_all2 (\<lambda>g off. \<exists>a. deserialize (concat cs) (length (concat cs)) off = Some a \<and> represents g off a)
      (groups rules) (offsets 0 cs)"
    unfolding list_all2_conv_all_nth
  proof (intro conjI allI impI)
    show "length (groups rules) = length (offsets 0 cs)" using at by (rule list_all2_lengthD)
    fix i assume i: "i < length (groups rules)"
    obtain c where "chunk_of (groups rules ! i) c" "bytes_at (concat cs) (offsets 0 cs ! i) c"
      using list_all2_nthD [OF at i] by blast
    moreover have "serializable (hd (groups rules ! i))"
      using groups_serializable [OF assms(1)] i by (simp add: list_all_length)
    ultimately show "\<exists>a. deserialize (concat cs) (length (concat cs)) (offsets 0 cs ! i) = Some a
        \<and> represents (groups rules ! i) (offsets 0 cs ! i) a"
      by (intro deserialize_chunk [OF _ _ len])
  qed
  moreover have "sorted_wrt (<) (offsets 0 cs)" using l offsets_increasing by blast
  ultimately show ?thesis using cs(1) concat_groups len by blast
qed

text \<open>Every rule has the location of its group.\<close>

lemma spread_zip:
  "length gs = length offs \<Longrightarrow> (r, l) \<in> set (zip (concat gs) (spread gs offs)) \<Longrightarrow> \<exists>k < length gs. r \<in> set (gs ! k) \<and> l = offs ! k"
proof (induction gs offs rule: list_induct2)
  case (Cons g gs l' offs)
  have "set (zip (concat (g # gs)) (spread (g # gs) (l' # offs)))
      = set (zip g (replicate (length g) l')) \<union> set (zip (concat gs) (spread gs offs))" by (simp add: zip_append)
  then consider "(r, l) \<in> set (zip g (replicate (length g) l'))" | "(r, l) \<in> set (zip (concat gs) (spread gs offs))" using Cons.prems by blast
  then show ?case
  proof cases
    case 1
    then have "r \<in> set g" "l = l'" by (auto dest: set_zip_leftD set_zip_rightD)
    then show ?thesis by (intro exI [of _ 0]) simp
  next
    case 2
    then obtain k where "k < length gs" "r \<in> set (gs ! k)" "l = offs ! k" using Cons.IH by blast
    then show ?thesis by (intro exI [of _ "Suc k"]) simp
  qed
qed simp

lemma length_spread: "length gs = length offs \<Longrightarrow> length (spread gs offs) = length (concat gs)"
  by (induction gs offs rule: list_induct2) simp_all

lemma spread_mem: "length gs = length offs \<Longrightarrow> set (spread gs offs) \<subseteq> set offs"
  by (induction gs offs rule: list_induct2) auto

lemma spread_sorted: "length gs = length offs \<Longrightarrow> sorted_wrt (<) offs \<Longrightarrow> sorted (spread gs offs)"
proof (induction gs offs rule: list_induct2)
  case (Cons g gs l offs)
  have "\<forall>x \<in> set (spread gs offs). l \<le> x" using spread_mem [OF Cons.hyps] Cons.prems by (auto intro: less_imp_le)
  then show ?case using Cons by (simp add: sorted_append)
qed simp

lemma group_type: "g \<in> set (groups rs) \<Longrightarrow> r \<in> set g \<Longrightarrow> m_type (m_action r) = m_type (m_action (hd g))"
proof (induction rs rule: groups.induct)
  case (2 r0 rs)
  show ?case
  proof (cases "g \<in> set (groups (dropWhile (joins r0) rs))")
    case False
    then have g: "g = r0 # takeWhile (joins r0) rs" using "2.prems"(1) by simp
    then have "r = r0 \<or> joins r0 r" using "2.prems"(2) by (auto dest: set_takeWhileD)
    then show ?thesis unfolding g by (auto simp: joins_def sameTriggerSelector_def isSelector_def action_eq_def split: if_splits)
  qed (use 2 in blast)
qed simp

text \<open>
  C26. For rules as the parser builds them, whose selectors have at most 268435440 characters in
  all, \<^verbatim>\<open>serializeActions\<close> writes one action for every group of rules (consecutive selectors with
  equal triggers, consecutive equal actions), gives every rule of a group the location of that
  action, and \<^verbatim>\<open>Action::deserialize\<close> reads from each location an action of the group's type, whose
  identifier is the location and whose string is the group's selectors joined by commas.
\<close>

theorem serializeActions_roundtrip:
  assumes "list_all serializable rules" "weight rules \<le> 268435440"
  shows "\<exists>bytes offs. serializeActions rules = Some (bytes, spread (groups rules) offs)
    \<and> sorted_wrt (<) offs \<and> concat (groups rules) = rules
    \<and> list_all2 (\<lambda>g off. \<exists>a. deserialize bytes (length bytes) off = Some a \<and> represents g off a) (groups rules) offs"
  using serializeActions_reads [OF assms] by blast

definition example_rule :: "u8 list \<Rightarrow> ActionType \<Rightarrow> u8 list option \<Rightarrow> Rule" where
  "example_rule url type selector =
     \<lparr>m_trigger = \<lparr>urlFilter = String8 url, urlFilterIsCaseSensitive = False, trigger_flags = 0\<rparr>,
      m_action = \<lparr>m_extensionIdentifier = None, m_type = type, m_actionID = - 1,
        m_stringArgument = map_option String8 selector\<rparr>\<rparr>"

definition example_rules :: "Rule list" where
  "example_rules = [example_rule [97] CSSDisplayNoneSelector (Some [98]),
     example_rule [97] CSSDisplayNoneSelector (Some [99, 100]), example_rule [97] BlockLoad None,
     example_rule [98] BlockLoad None]"

theorem serializeActions_roundtrip_witness:
  "\<exists>bytes offs. serializeActions example_rules = Some (bytes, spread (groups example_rules) offs)
    \<and> sorted_wrt (<) offs \<and> concat (groups example_rules) = example_rules
    \<and> list_all2 (\<lambda>g off. \<exists>a. deserialize bytes (length bytes) off = Some a \<and> represents g off a)
        (groups example_rules) offs"
  by (rule serializeActions_roundtrip)
    (simp_all add: example_rules_def example_rule_def serializable_def selector_chars_def)

end
