(* ===== verification/DFABytecode.thy ===== *)
theory DFABytecode
  imports Prelude
begin

text \<open>
  \<^verbatim>\<open>Source/WebCore/contentextensions/DFABytecode.h\<close>: the instructions of the bytecode, their
  opcodes and their sizes. The code that reads bytecode casts a byte to the enumeration; a byte that
  is no enumerator has no instruction here.
\<close>

datatype DFABytecodeInstruction =
  CheckValueCaseInsensitive | CheckValueCaseSensitive
  | CheckValueRangeCaseInsensitive | CheckValueRangeCaseSensitive
  | AppendAction | TestFlagsAndAppendAction | Terminate | Jump

fun opcode :: "DFABytecodeInstruction \<Rightarrow> u8" where
  "opcode CheckValueCaseInsensitive = 0"
| "opcode CheckValueCaseSensitive = 1"
| "opcode CheckValueRangeCaseInsensitive = 2"
| "opcode CheckValueRangeCaseSensitive = 3"
| "opcode AppendAction = 4"
| "opcode TestFlagsAndAppendAction = 5"
| "opcode Terminate = 6"
| "opcode Jump = 7"

definition decode_instruction :: "u8 \<Rightarrow> DFABytecodeInstruction option" where
  "decode_instruction b = find (\<lambda>i. opcode i = b)
     [CheckValueCaseInsensitive, CheckValueCaseSensitive, CheckValueRangeCaseInsensitive,
      CheckValueRangeCaseSensitive, AppendAction, TestFlagsAndAppendAction, Terminate, Jump]"

fun instructionSizeWithArguments :: "DFABytecodeInstruction \<Rightarrow> nat" where
  "instructionSizeWithArguments CheckValueCaseSensitive = 1 + 1 + 4"
| "instructionSizeWithArguments CheckValueCaseInsensitive = 1 + 1 + 4"
| "instructionSizeWithArguments CheckValueRangeCaseSensitive = 1 + 1 + 1 + 4"
| "instructionSizeWithArguments CheckValueRangeCaseInsensitive = 1 + 1 + 1 + 4"
| "instructionSizeWithArguments AppendAction = 1 + 4"
| "instructionSizeWithArguments TestFlagsAndAppendAction = 1 + 2 + 4"
| "instructionSizeWithArguments Terminate = 1"
| "instructionSizeWithArguments Jump = 1 + 4"

lemma decode_opcode [simp]: "decode_instruction (opcode i) = Some i"
  by (cases i) (simp_all add: decode_instruction_def)

lemma decode_instruction_simps [simp]:
  "decode_instruction 0 = Some CheckValueCaseInsensitive" "decode_instruction 1 = Some CheckValueCaseSensitive"
  "decode_instruction 2 = Some CheckValueRangeCaseInsensitive" "decode_instruction 3 = Some CheckValueRangeCaseSensitive"
  "decode_instruction 4 = Some AppendAction" "decode_instruction 5 = Some TestFlagsAndAppendAction"
  "decode_instruction 6 = Some Terminate" "decode_instruction 7 = Some Jump"
  by (simp_all add: decode_instruction_def)

end
