(* ===== verification/DFA.thy ===== *)
theory DFA
  imports Prelude
begin

text \<open>
  \<^verbatim>\<open>Source/WebCore/contentextensions/DFA.h\<close>, \<^verbatim>\<open>DFANode.h\<close> and \<^verbatim>\<open>DFA.cpp\<close>: a DFA keeps all
  actions and all transitions in two flat vectors; a node is a window into each. The fallback
  transition of a node, taken on every character without a transition of its own except the
  terminator, is the entry just after the window of its transitions.
\<close>

section \<open>The data structure\<close>

record DFANode =
  m_actionsStart :: nat
  m_transitionsStart :: nat
  m_actionsLength :: nat
  m_transitionsLength :: nat
  m_flags :: u8

record DFA =
  dfa_actions :: "u64 list"
  dfa_transitions :: "(nat \<times> nat) list"
  nodes :: "DFANode list"
  root :: nat

definition new_DFANode :: DFANode where
  "new_DFANode = \<lparr>m_actionsStart = 0, m_transitionsStart = 0, m_actionsLength = 0,
     m_transitionsLength = 0, m_flags = 0\<rparr>"

definition new_DFA :: DFA where
  "new_DFA = \<lparr>dfa_actions = [], dfa_transitions = [], nodes = [], root = 0\<rparr>"

definition HasFallbackTransition :: u8 where
  "HasFallbackTransition = 0x01"

definition IsKilled :: u8 where
  "IsKilled = 0x02"

text \<open>\<^verbatim>\<open>std::numeric_limits<...>::max()\<close> of the two components of a transition and of an action.\<close>

definition max_u8 :: nat where
  "max_u8 = 255"

definition max_u32 :: nat where
  "max_u32 = 4294967295"

definition isKilled :: "DFANode \<Rightarrow> bool" where
  "isKilled node \<longleftrightarrow> m_flags node AND IsKilled \<noteq> 0"

definition hasFallbackTransition :: "DFANode \<Rightarrow> bool" where
  "hasFallbackTransition node \<longleftrightarrow> m_flags node AND HasFallbackTransition \<noteq> 0"

definition hasActions :: "DFANode \<Rightarrow> bool" where
  "hasActions node \<longleftrightarrow> m_actionsLength node \<noteq> 0"

text \<open>The setters narrow the lengths to the width of the fields (16 and 8 bits).\<close>

definition node_setActions :: "nat \<Rightarrow> nat \<Rightarrow> DFANode \<Rightarrow> DFANode" where
  "node_setActions start len node = node\<lparr>m_actionsStart := start, m_actionsLength := len mod 65536\<rparr>"

definition node_setTransitions :: "nat \<Rightarrow> nat \<Rightarrow> DFANode \<Rightarrow> DFANode" where
  "node_setTransitions start len node = node\<lparr>m_transitionsStart := start, m_transitionsLength := len mod 256\<rparr>"

definition node_resetTransitions :: "nat \<Rightarrow> nat \<Rightarrow> DFANode \<Rightarrow> DFANode" where
  "node_resetTransitions start len node = node\<lparr>m_transitionsStart := start, m_transitionsLength := len mod 256\<rparr>"

definition setHasFallbackTransitionWithoutChangingDFA :: "bool \<Rightarrow> DFANode \<Rightarrow> DFANode" where
  "setHasFallbackTransitionWithoutChangingDFA b node =
     (if b then node\<lparr>m_flags := m_flags node OR HasFallbackTransition\<rparr>
      else node\<lparr>m_flags := m_flags node AND NOT HasFallbackTransition\<rparr>)"

definition DFANode_actions :: "DFANode \<Rightarrow> DFA \<Rightarrow> u64 list option" where
  "DFANode_actions node dfa =
     mapM (vec_at (dfa_actions dfa)) [m_actionsStart node..<m_actionsStart node + m_actionsLength node]"

definition DFANode_transitions :: "DFANode \<Rightarrow> DFA \<Rightarrow> (nat \<times> nat) list option" where
  "DFANode_transitions node dfa =
     mapM (vec_at (dfa_transitions dfa))
       [m_transitionsStart node..<m_transitionsStart node + m_transitionsLength node]"

definition fallbackTransitionDestination :: "DFANode \<Rightarrow> DFA \<Rightarrow> nat option" where
  "fallbackTransitionDestination node dfa =
     (if hasFallbackTransition node
      then map_option snd (vec_at (dfa_transitions dfa) (m_transitionsStart node + m_transitionsLength node))
      else None)"

definition changeFallbackTransition :: "DFANode \<Rightarrow> DFA \<Rightarrow> nat \<Rightarrow> DFA option" where
  "changeFallbackTransition node dfa newDestination =
     (if hasFallbackTransition node then do {
        tr \<leftarrow> vec_set (dfa_transitions dfa) (m_transitionsStart node + m_transitionsLength node)
               (max_u8, newDestination);
        Some (dfa\<lparr>dfa_transitions := tr\<rparr>)
      } else None)"

definition addFallbackTransition :: "DFANode \<Rightarrow> DFA \<Rightarrow> nat \<Rightarrow> (DFANode \<times> DFA) option" where
  "addFallbackTransition node dfa destination =
     (if length (dfa_transitions dfa) = m_transitionsStart node + m_transitionsLength node
      then Some (node\<lparr>m_flags := m_flags node OR HasFallbackTransition\<rparr>,
                 dfa\<lparr>dfa_transitions := dfa_transitions dfa @ [(max_u8, destination)]\<rparr>)
      else None)"

fun containsTransitionFrom :: "(nat \<times> nat) list \<Rightarrow> nat \<Rightarrow> nat \<Rightarrow> nat \<Rightarrow> bool option" where
  "containsTransitionFrom ts c i 0 = Some False"
| "containsTransitionFrom ts c i (Suc n) = do {
     t \<leftarrow> vec_at ts i;
     if fst t = c then Some True else containsTransitionFrom ts c (Suc i) n
   }"

definition containsTransition :: "DFANode \<Rightarrow> nat \<Rightarrow> DFA \<Rightarrow> bool option" where
  "containsTransition node c dfa =
     containsTransitionFrom (dfa_transitions dfa) c (m_transitionsStart node) (m_transitionsLength node)"

definition kill :: "DFANode \<Rightarrow> DFA \<Rightarrow> (DFANode \<times> DFA) option" where
  "kill node dfa = do {
     tr \<leftarrow> foldM (\<lambda>i tr. vec_set tr i (max_u8, max_u32))
             [m_transitionsStart node..<m_transitionsStart node + m_transitionsLength node] (dfa_transitions dfa);
     acts \<leftarrow> foldM (\<lambda>i acts. vec_set acts i (- 1))
             [m_actionsStart node..<m_actionsStart node + m_actionsLength node] (dfa_actions dfa);
     Some (\<lparr>m_actionsStart = 0, m_transitionsStart = 0, m_actionsLength = 0, m_transitionsLength = 0,
            m_flags = IsKilled\<rparr>,
           dfa\<lparr>dfa_transitions := tr, dfa_actions := acts\<rparr>)
   }"

section \<open>Windows\<close>

definition window :: "'a list \<Rightarrow> nat \<Rightarrow> nat \<Rightarrow> 'a list" where
  "window xs start len = take len (drop start xs)"

lemma mapM_window:
  "start + len \<le> length xs \<Longrightarrow> mapM (vec_at xs) [start..<start + len] = Some (window xs start len)"
proof (induction len arbitrary: start)
  case 0
  then show ?case by (simp add: window_def)
next
  case (Suc len)
  have "mapM (vec_at xs) [Suc start..<Suc start + len] = Some (window xs (Suc start) len)"
    by (rule Suc.IH) (use Suc.prems in simp)
  moreover have "window xs start (Suc len) = xs ! start # window xs (Suc start) len"
    using Suc.prems by (simp add: window_def flip: Cons_nth_drop_Suc)
  moreover have "[start..<start + Suc len] = start # [Suc start..<Suc start + len]"
    by (simp only: upt_conv_Cons add_Suc_right add_Suc less_Suc_eq_le le_add1)
  ultimately show ?case using Suc.prems by (simp add: vec_simps del: upt_Suc)
qed

lemma length_window [simp]: "start + len \<le> length xs \<Longrightarrow> length (window xs start len) = len"
  by (simp add: window_def)

lemma window_append: "start + len \<le> length xs \<Longrightarrow> window (xs @ ys) start len = window xs start len"
  by (simp add: window_def)

lemma window_end: "window (xs @ ys) (length xs) (length ys) = ys"
  by (simp add: window_def)

lemma window_nth: "start + len \<le> length xs \<Longrightarrow> k < len \<Longrightarrow> window xs start len ! k = xs ! (start + k)"
  by (simp add: window_def)

section \<open>The automaton\<close>

definition node_actions :: "DFA \<Rightarrow> DFANode \<Rightarrow> u64 list" where
  "node_actions dfa node = window (dfa_actions dfa) (m_actionsStart node) (m_actionsLength node)"

definition node_transitions :: "DFA \<Rightarrow> DFANode \<Rightarrow> (nat \<times> nat) list" where
  "node_transitions dfa node = window (dfa_transitions dfa) (m_transitionsStart node) (m_transitionsLength node)"

definition node_fallback :: "DFA \<Rightarrow> DFANode \<Rightarrow> nat option" where
  "node_fallback dfa node = (if hasFallbackTransition node
     then Some (snd (dfa_transitions dfa ! (m_transitionsStart node + m_transitionsLength node))) else None)"

text \<open>The windows of a node lie inside the vectors.\<close>

definition node_in_range :: "DFA \<Rightarrow> DFANode \<Rightarrow> bool" where
  "node_in_range dfa node \<longleftrightarrow>
     m_actionsStart node + m_actionsLength node \<le> length (dfa_actions dfa)
     \<and> m_transitionsStart node + m_transitionsLength node
         + (if hasFallbackTransition node then 1 else 0) \<le> length (dfa_transitions dfa)"

lemma DFANode_actions_eq: "node_in_range dfa node \<Longrightarrow> DFANode_actions node dfa = Some (node_actions dfa node)"
  by (simp add: DFANode_actions_def node_actions_def node_in_range_def mapM_window)

lemma DFANode_transitions_eq:
  "node_in_range dfa node \<Longrightarrow> DFANode_transitions node dfa = Some (node_transitions dfa node)"
  by (simp add: DFANode_transitions_def node_transitions_def node_in_range_def mapM_window split: if_splits)

lemma fallbackTransitionDestination_eq:
  "node_in_range dfa node \<Longrightarrow> fallbackTransitionDestination node dfa = node_fallback dfa node"
  by (cases "hasFallbackTransition node")
    (simp_all add: fallbackTransitionDestination_def node_fallback_def node_in_range_def vec_at_def)

text \<open>One step on a character: its own transition, or the fallback unless it is the terminator.\<close>

definition node_step :: "DFA \<Rightarrow> DFANode \<Rightarrow> nat \<Rightarrow> nat option" where
  "node_step dfa node c = (case map_of (node_transitions dfa node) c of
     Some t \<Rightarrow> Some t
   | None \<Rightarrow> if c \<noteq> 0 then node_fallback dfa node else None)"

definition dfa_step :: "DFA \<Rightarrow> nat \<Rightarrow> nat \<Rightarrow> nat option" where
  "dfa_step dfa q c = (if q < length (nodes dfa) then node_step dfa (nodes dfa ! q) c else None)"

fun dfa_run :: "DFA \<Rightarrow> nat \<Rightarrow> nat list \<Rightarrow> nat option" where
  "dfa_run dfa q [] = Some q"
| "dfa_run dfa q (c # w) = (case dfa_step dfa q c of None \<Rightarrow> None | Some q' \<Rightarrow> dfa_run dfa q' w)"

definition state_actions :: "DFA \<Rightarrow> nat \<Rightarrow> u64 set" where
  "state_actions dfa q = set (node_actions dfa (nodes dfa ! q))"

lemma dfa_run_append: "dfa_run dfa q (u @ v) = Option.bind (dfa_run dfa q u) (\<lambda>q'. dfa_run dfa q' v)"
  by (induction u arbitrary: q) (auto split: option.splits)

text \<open>The type invariant of a DFA.\<close>

definition dfa_node_wf :: "DFA \<Rightarrow> DFANode \<Rightarrow> bool" where
  "dfa_node_wf dfa node \<longleftrightarrow> node_in_range dfa node
     \<and> distinct (map fst (node_transitions dfa node))
     \<and> (\<forall>(c, t) \<in> set (node_transitions dfa node). c < 128 \<and> t < length (nodes dfa) \<and> \<not> isKilled (nodes dfa ! t))
     \<and> (\<forall>t. node_fallback dfa node = Some t \<longrightarrow> t < length (nodes dfa) \<and> \<not> isKilled (nodes dfa ! t))"

definition dfa_wf :: "DFA \<Rightarrow> bool" where
  "dfa_wf dfa \<longleftrightarrow> root dfa < length (nodes dfa) \<and> \<not> isKilled (nodes dfa ! root dfa)
     \<and> (\<forall>node \<in> set (nodes dfa). \<not> isKilled node \<longrightarrow> dfa_node_wf dfa node)"

lemma dfa_step_wf:
  assumes "dfa_wf dfa" "\<not> isKilled (nodes dfa ! q)" "dfa_step dfa q c = Some q'"
  shows "q' < length (nodes dfa) \<and> \<not> isKilled (nodes dfa ! q')"
proof -
  from assms(3) have q: "q < length (nodes dfa)" and s: "node_step dfa (nodes dfa ! q) c = Some q'"
    by (auto simp: dfa_step_def split: if_splits)
  with assms(1,2) have wf: "dfa_node_wf dfa (nodes dfa ! q)" by (auto simp: dfa_wf_def)
  show ?thesis
  proof (cases "map_of (node_transitions dfa (nodes dfa ! q)) c")
    case None
    with s have "node_fallback dfa (nodes dfa ! q) = Some q'"
      by (auto simp: node_step_def split: if_splits)
    with wf show ?thesis by (simp add: dfa_node_wf_def)
  next
    case (Some t)
    with s have "(c, q') \<in> set (node_transitions dfa (nodes dfa ! q))"
      by (auto simp: node_step_def dest: map_of_SomeD)
    with wf show ?thesis by (auto simp: dfa_node_wf_def)
  qed
qed

lemma flag_simps [simp]:
  "(f OR HasFallbackTransition) AND HasFallbackTransition \<noteq> 0"
  "(f AND NOT HasFallbackTransition) AND HasFallbackTransition = 0"
  "(f OR HasFallbackTransition) AND IsKilled = f AND IsKilled"
  "(f AND NOT HasFallbackTransition) AND IsKilled = f AND IsKilled"
  "IsKilled AND IsKilled \<noteq> 0" "IsKilled AND HasFallbackTransition = 0"
proof -
  have c: "bit (1 :: u8) n \<longleftrightarrow> n = 0" "bit (2 :: u8) n \<longleftrightarrow> n = 1" for n
    using bit_exp_iff [of 1 n, where ?'a = "8 word"] by (auto simp: bit_1_iff)
  have "bit ((f OR HasFallbackTransition) AND HasFallbackTransition) 0"
    by (simp add: HasFallbackTransition_def bit_simps c)
  then show "(f OR HasFallbackTransition) AND HasFallbackTransition \<noteq> 0" by auto
  show "(f AND NOT HasFallbackTransition) AND HasFallbackTransition = 0"
    by (auto simp: HasFallbackTransition_def bit_eq_iff bit_simps c)
  show "(f OR HasFallbackTransition) AND IsKilled = f AND IsKilled"
    by (auto simp: HasFallbackTransition_def IsKilled_def bit_eq_iff bit_simps c)
  show "(f AND NOT HasFallbackTransition) AND IsKilled = f AND IsKilled"
    by (auto simp: HasFallbackTransition_def IsKilled_def bit_eq_iff bit_simps c)
  show "IsKilled AND IsKilled \<noteq> 0" "IsKilled AND HasFallbackTransition = 0"
    by (simp_all add: IsKilled_def HasFallbackTransition_def)
qed

end
