(* ===== verification/DFABytecodeCompiler.thy ===== *)
theory DFABytecodeCompiler
  imports DFABytecode DFA ASCIICType
begin

text \<open>
  \<^verbatim>\<open>Source/WebCore/contentextensions/DFABytecodeCompiler.cpp\<close>: the bytecode of a DFA. Every node
  is compiled to its actions, checks for ranges of characters and a final jump or terminate; jump
  targets are emitted as zeros and linked at the end. The second half describes the result: the
  bytes are those of a symbolic program whose jumps name nodes.
\<close>

section \<open>Emitting\<close>

record Range =
  range_min :: nat
  range_max :: nat
  destination :: nat
  caseSensitive :: bool

record compiler =
  m_bytecode :: "u8 list"
  m_nodeStartOffsets :: "nat list"
  m_linkRecords :: "(nat \<times> nat) list"

definition append_bytes :: "u8 list \<Rightarrow> compiler \<Rightarrow> compiler" where
  "append_bytes bs c = c\<lparr>m_bytecode := m_bytecode c @ bs\<rparr>"

definition set32Bits :: "u8 list \<Rightarrow> nat \<Rightarrow> u32 \<Rightarrow> u8 list option" where
  "set32Bits bytecode index v = (if index + 4 \<le> length bytecode
     then Some (take index bytecode @ bytes32 v @ drop (index + 4) bytecode) else None)"

definition emitAppendAction :: "u32 \<Rightarrow> compiler \<Rightarrow> compiler" where
  "emitAppendAction action c = append_bytes (bytes32 action) (append_bytes [opcode AppendAction] c)"

definition emitTestFlagsAndAppendAction :: "u16 \<Rightarrow> u32 \<Rightarrow> compiler \<Rightarrow> compiler" where
  "emitTestFlagsAndAppendAction flags action c =
     append_bytes (bytes32 action) (append_bytes (bytes16 flags) (append_bytes [opcode TestFlagsAndAppendAction] c))"

definition record_link :: "nat \<Rightarrow> compiler \<Rightarrow> compiler" where
  "record_link destinationNodeIndex c =
     append_bytes (bytes32 0) (c\<lparr>m_linkRecords := m_linkRecords c @ [(length (m_bytecode c), destinationNodeIndex)]\<rparr>)"

definition emitJump :: "nat \<Rightarrow> compiler \<Rightarrow> compiler" where
  "emitJump destinationNodeIndex c = record_link destinationNodeIndex (append_bytes [opcode Jump] c)"

definition emitCheckValue :: "u8 \<Rightarrow> nat \<Rightarrow> bool \<Rightarrow> compiler \<Rightarrow> compiler" where
  "emitCheckValue v destinationNodeIndex cs c =
     record_link destinationNodeIndex (append_bytes [v]
       (append_bytes [opcode (if cs then CheckValueCaseSensitive else CheckValueCaseInsensitive)] c))"

definition emitCheckValueRange :: "u8 \<Rightarrow> u8 \<Rightarrow> nat \<Rightarrow> bool \<Rightarrow> compiler \<Rightarrow> compiler" where
  "emitCheckValueRange lowValue highValue destinationNodeIndex cs c =
     record_link destinationNodeIndex (append_bytes [highValue] (append_bytes [lowValue]
       (append_bytes [opcode (if cs then CheckValueRangeCaseSensitive else CheckValueRangeCaseInsensitive)] c)))"

definition emitTerminate :: "compiler \<Rightarrow> compiler" where
  "emitTerminate c = append_bytes [opcode Terminate] c"

section \<open>Ranges\<close>

text \<open>\<^verbatim>\<open>toASCIILower\<close> on the character codes of the table.\<close>

definition lower :: "nat \<Rightarrow> nat" where
  "lower c = unat (toASCIILower (word_of_nat c :: u8))"

definition noDestination :: nat where
  "noDestination = max_u32"

definition fillDestinations :: "(nat \<times> nat) list \<Rightarrow> nat list option" where
  "fillDestinations slots = foldM (\<lambda>(c, target) destinations. vec_set destinations c target) slots (replicate 128 noDestination)"

type_synonym range_state = "nat list \<times> Range list \<times> nat option"

text \<open>The end of a range: case insensitive when the lower case letters lead to the same node.\<close>

definition closeRange :: "nat \<Rightarrow> nat \<Rightarrow> nat list \<Rightarrow> nat list \<times> Range" where
  "closeRange rangeMin rangeMax destinations =
     (let caseInsensitive = 65 \<le> rangeMin \<and> rangeMax \<le> 90
            \<and> list_all (\<lambda>rangeIndex. destinations ! rangeMin = destinations ! lower rangeIndex) [rangeMin..<Suc rangeMax]
      in if caseInsensitive
         then (fold (\<lambda>rangeIndex ds. ds[lower rangeIndex := noDestination]) [rangeMin..<Suc rangeMax] destinations,
               \<lparr>range_min = lower rangeMin, range_max = lower rangeMax, destination = destinations ! rangeMin, caseSensitive = False\<rparr>)
         else (destinations,
               \<lparr>range_min = rangeMin, range_max = rangeMax, destination = destinations ! rangeMin, caseSensitive = True\<rparr>))"

definition rangeStep :: "nat \<Rightarrow> range_state \<Rightarrow> range_state" where
  "rangeStep i = (\<lambda>(destinations, ranges, current). case current of
     Some rangeMin \<Rightarrow>
       if destinations ! i \<noteq> destinations ! rangeMin then
         let (destinations', r) = closeRange rangeMin (i - 1) destinations
         in (destinations', ranges @ [r], if destinations' ! i = noDestination then None else Some i)
       else (destinations, ranges, current)
   | None \<Rightarrow> (destinations, ranges, if destinations ! i \<noteq> noDestination then Some i else None))"

definition nodeRanges :: "nat list \<Rightarrow> Range list" where
  "nodeRanges destinations =
     (case fold rangeStep [0..<128] (destinations, [], None) of
        (destinations, ranges, None) \<Rightarrow> ranges
      | (destinations, ranges, Some rangeMin) \<Rightarrow>
          ranges @ [\<lparr>range_min = rangeMin, range_max = 127, destination = destinations ! rangeMin, caseSensitive = True\<rparr>])"

section \<open>Compiling\<close>

definition compileCheckForRange :: "Range \<Rightarrow> compiler \<Rightarrow> compiler" where
  "compileCheckForRange r c =
     (if range_min r = range_max r
      then emitCheckValue (word_of_nat (range_min r)) (destination r) (caseSensitive r) c
      else emitCheckValueRange (word_of_nat (range_min r)) (word_of_nat (range_max r))
             (destination r) (caseSensitive r) c)"

definition compileNodeTransitions :: "DFA \<Rightarrow> DFANode \<Rightarrow> compiler \<Rightarrow> compiler option" where
  "compileNodeTransitions dfa node c = do {
     slots \<leftarrow> DFANode_transitions node dfa;
     destinations \<leftarrow> fillDestinations slots;
     let c = fold compileCheckForRange (nodeRanges destinations) c;
     if hasFallbackTransition node then do {
       target \<leftarrow> fallbackTransitionDestination node dfa;
       Some (emitJump target c)
     } else Some (emitTerminate c)
   }"

text \<open>The high bits of an action hold its flags, the low bits the location of the action.\<close>

definition emitAction :: "u64 \<Rightarrow> compiler \<Rightarrow> compiler" where
  "emitAction action c =
     (if action AND 0xFFFF00000000 \<noteq> 0
      then emitTestFlagsAndAppendAction (ucast (drop_bit 32 action)) (ucast action) c
      else emitAppendAction (ucast action) c)"

definition set_offset :: "nat \<Rightarrow> nat \<Rightarrow> compiler \<Rightarrow> compiler option" where
  "set_offset index off c = do {
     offsets \<leftarrow> vec_set (m_nodeStartOffsets c) index (off mod 4294967296);
     Some (c\<lparr>m_nodeStartOffsets := offsets\<rparr>)
   }"

definition compileNode :: "DFA \<Rightarrow> nat \<Rightarrow> bool \<Rightarrow> compiler \<Rightarrow> compiler option" where
  "compileNode dfa index isRoot c = do {
     node \<leftarrow> vec_at (nodes dfa) index;
     if isKilled node then set_offset index max_u32 c
     else do {
       c \<leftarrow> (if \<not> isRoot then set_offset index (length (m_bytecode c)) c else Some c);
       acts \<leftarrow> DFANode_actions node dfa;
       let c = fold emitAction acts c;
       c \<leftarrow> (if isRoot then set_offset index (length (m_bytecode c)) c else Some c);
       compileNodeTransitions dfa node c
     }
   }"

definition link :: "nat list \<Rightarrow> (nat \<times> nat) list \<Rightarrow> u8 list \<Rightarrow> u8 list option" where
  "link offsets records bytecode = foldM (\<lambda>(offset, nodeIndex) bytecode. do {
     target \<leftarrow> vec_at offsets nodeIndex;
     if target \<noteq> max_u32 then set32Bits bytecode offset (word_of_nat target) else None
   }) records bytecode"

text \<open>\<^verbatim>\<open>DFABytecodeCompiler::compile\<close>, on the vector that the bytecode is appended to.\<close>

definition compile_dfa :: "DFA \<Rightarrow> u8 list \<Rightarrow> u8 list option" where
  "compile_dfa dfa bytecode = do {
     let startLocation = length bytecode;
     let c = append_bytes (bytes32 0) \<lparr>m_bytecode = bytecode,
               m_nodeStartOffsets = replicate (length (nodes dfa)) 0, m_linkRecords = []\<rparr>;
     c \<leftarrow> compileNode dfa (root dfa) True c;
     c \<leftarrow> foldM (\<lambda>i c. if i \<noteq> root dfa then compileNode dfa i False c else Some c) [0..<length (nodes dfa)] c;
     bytecode \<leftarrow> link (m_nodeStartOffsets c) (m_linkRecords c) (m_bytecode c);
     set32Bits bytecode startLocation (word_of_nat (length bytecode - startLocation))
   }"

section \<open>Symbolic programs\<close>

text \<open>An instruction whose target is the index of a node.\<close>

datatype instr =
  CheckI bool u8 nat
| RangeI bool u8 u8 nat
| AppendI u32
| TestI u16 u32
| TerminateI
| JumpI nat

definition addr :: "(nat \<Rightarrow> nat) \<Rightarrow> nat \<Rightarrow> u8 list" where
  "addr off d = bytes32 (word_of_nat (off d))"

fun enc :: "(nat \<Rightarrow> nat) \<Rightarrow> instr \<Rightarrow> u8 list" where
  "enc off (CheckI cs v d) = [opcode (if cs then CheckValueCaseSensitive else CheckValueCaseInsensitive), v] @ addr off d"
| "enc off (RangeI cs lo hi d) =
     [opcode (if cs then CheckValueRangeCaseSensitive else CheckValueRangeCaseInsensitive), lo, hi] @ addr off d"
| "enc off (AppendI a) = opcode AppendAction # bytes32 a"
| "enc off (TestI f a) = opcode TestFlagsAndAppendAction # bytes16 f @ bytes32 a"
| "enc off TerminateI = [opcode Terminate]"
| "enc off (JumpI d) = opcode Jump # addr off d"

fun isize :: "instr \<Rightarrow> nat" where
  "isize (CheckI cs v d) = 6"
| "isize (RangeI cs lo hi d) = 7"
| "isize (AppendI a) = 5"
| "isize (TestI f a) = 7"
| "isize TerminateI = 1"
| "isize (JumpI d) = 5"

fun target_of :: "instr \<Rightarrow> nat option" where
  "target_of (CheckI cs v d) = Some d"
| "target_of (RangeI cs lo hi d) = Some d"
| "target_of (JumpI d) = Some d"
| "target_of _ = None"

definition encode :: "(nat \<Rightarrow> nat) \<Rightarrow> instr list \<Rightarrow> u8 list" where
  "encode off is = concat (map (enc off) is)"

definition code_size :: "instr list \<Rightarrow> nat" where
  "code_size is = sum_list (map isize is)"

lemma length_addr [simp]: "length (addr off d) = 4"
  by (simp add: addr_def)

lemma length_enc [simp]: "length (enc off i) = isize i"
  by (cases i) simp_all

lemma length_encode [simp]: "length (encode off is) = code_size is"
  by (induction "is") (simp_all add: encode_def code_size_def)

lemma encode_simps [simp]:
  "encode off [] = []" "encode off (i # is) = enc off i @ encode off is"
  "encode off (is @ js) = encode off is @ encode off js"
  by (simp_all add: encode_def)

lemma code_size_simps [simp]:
  "code_size [] = 0" "code_size (i # is) = isize i + code_size is" "code_size (is @ js) = code_size is + code_size js"
  by (simp_all add: code_size_def)

text \<open>The link records of a program that starts at a position.\<close>

fun links :: "nat \<Rightarrow> instr list \<Rightarrow> (nat \<times> nat) list" where
  "links p [] = []"
| "links p (i # is) = (case target_of i of None \<Rightarrow> [] | Some d \<Rightarrow> [(p + isize i - 4, d)]) @ links (p + isize i) is"

lemma links_append: "links p (is @ js) = links p is @ links (p + code_size is) js"
  by (induction "is" arbitrary: p) (simp_all add: add.assoc)

definition emits :: "instr list \<Rightarrow> compiler \<Rightarrow> compiler \<Rightarrow> bool" where
  "emits is c c' \<longleftrightarrow> m_bytecode c' = m_bytecode c @ encode (\<lambda>_. 0) is
     \<and> m_linkRecords c' = m_linkRecords c @ links (length (m_bytecode c)) is
     \<and> m_nodeStartOffsets c' = m_nodeStartOffsets c"

lemma emits_Nil [simp]: "emits [] c c"
  by (simp add: emits_def)

lemma emits_append: "emits is c c' \<Longrightarrow> emits js c' c'' \<Longrightarrow> emits (is @ js) c c''"
  by (simp add: emits_def links_append)

lemma emits_fold: "(\<And>x c. x \<in> set xs \<Longrightarrow> emits (f x) c (g x c)) \<Longrightarrow> emits (concat (map f xs)) c (fold g xs c)"
proof (induction xs arbitrary: c)
  case (Cons x xs)
  then have "emits (f x) c (g x c)" "emits (concat (map f xs)) (g x c) (fold g xs (g x c))" by simp_all
  then show ?case using emits_append by simp
qed simp

definition act_instr :: "u64 \<Rightarrow> instr" where
  "act_instr a = (if a AND 0xFFFF00000000 \<noteq> 0 then TestI (ucast (drop_bit 32 a)) (ucast a) else AppendI (ucast a))"

definition range_instr :: "Range \<Rightarrow> instr" where
  "range_instr r = (if range_min r = range_max r then CheckI (caseSensitive r) (word_of_nat (range_min r)) (destination r)
     else RangeI (caseSensitive r) (word_of_nat (range_min r)) (word_of_nat (range_max r)) (destination r))"

named_theorems emit_defs

lemmas [emit_defs] = append_bytes_def record_link_def emitAppendAction_def emitTestFlagsAndAppendAction_def
  emitJump_def emitCheckValue_def emitCheckValueRange_def emitTerminate_def addr_def emits_def

lemma emits_emitAction: "emits [act_instr a] c (emitAction a c)"
  by (simp add: emitAction_def act_instr_def emit_defs)

lemma emits_compileCheckForRange: "emits [range_instr r] c (compileCheckForRange r c)"
  by (simp add: compileCheckForRange_def range_instr_def emit_defs)

lemma emits_final: "emits [JumpI d] c (emitJump d c)" "emits [TerminateI] c (emitTerminate c)"
  by (simp_all add: emit_defs)

text \<open>The program of a node.\<close>

definition destinations_of :: "DFA \<Rightarrow> DFANode \<Rightarrow> nat list" where
  "destinations_of dfa node = map (\<lambda>c. case map_of (node_transitions dfa node) c of None \<Rightarrow> noDestination | Some t \<Rightarrow> t) [0..<128]"

definition action_instrs :: "DFA \<Rightarrow> DFANode \<Rightarrow> instr list" where
  "action_instrs dfa node = map act_instr (node_actions dfa node)"

definition transition_instrs :: "DFA \<Rightarrow> DFANode \<Rightarrow> instr list" where
  "transition_instrs dfa node = map range_instr (nodeRanges (destinations_of dfa node))
     @ [case node_fallback dfa node of None \<Rightarrow> TerminateI | Some t \<Rightarrow> JumpI t]"

lemma fillDestinations_aux:
  assumes "\<forall>(c, t) \<in> set ts. c < 128" "distinct (map fst ts)" "length ds = 128"
  shows "foldM (\<lambda>(c, target) destinations. vec_set destinations c target) ts ds
    = Some (map (\<lambda>c. case map_of ts c of None \<Rightarrow> ds ! c | Some t \<Rightarrow> t) [0..<128])"
  using assms
proof (induction ts arbitrary: ds)
  case Nil
  have "map ((!) ds) [0..<128] = ds" using map_nth [of ds] Nil(3) by simp
  then show ?case by simp
next
  case (Cons ct ts)
  obtain c t where ct: "ct = (c, t)" by fastforce
  have c: "c < 128" "map_of ts c = None" using Cons.prems by (auto simp: ct map_of_eq_None_iff)
  have "foldM (\<lambda>(c, target) destinations. vec_set destinations c target) ts (ds[c := t])
    = Some (map (\<lambda>c'. case map_of ts c' of None \<Rightarrow> ds[c := t] ! c' | Some t \<Rightarrow> t) [0..<128])"
    by (rule Cons.IH) (use Cons.prems in auto)
  also have "map (\<lambda>c'. case map_of ts c' of None \<Rightarrow> ds[c := t] ! c' | Some t \<Rightarrow> t) [0..<128]
    = map (\<lambda>c'. case map_of (ct # ts) c' of None \<Rightarrow> ds ! c' | Some t \<Rightarrow> t) [0..<128]"
    by (rule map_cong [OF refl]) (use c Cons.prems(3) in \<open>auto simp: ct nth_list_update split: option.split\<close>)
  finally show ?case using c Cons.prems(3) by (simp add: ct vec_simps)
qed

lemma fillDestinations_eq:
  "dfa_node_wf dfa node \<Longrightarrow> fillDestinations (node_transitions dfa node) = Some (destinations_of dfa node)"
  unfolding fillDestinations_def destinations_of_def
proof (subst fillDestinations_aux)
  show "Some (map (\<lambda>c. case map_of (node_transitions dfa node) c of None \<Rightarrow> replicate 128 noDestination ! c | Some t \<Rightarrow> t) [0..<128])
    = Some (map (\<lambda>c. case map_of (node_transitions dfa node) c of None \<Rightarrow> noDestination | Some t \<Rightarrow> t) [0..<128])"
    by (intro arg_cong [of _ _ Some] map_cong refl) (simp split: option.split)
qed (auto simp: dfa_node_wf_def)

lemma compileNodeTransitions_emits:
  assumes "dfa_node_wf dfa node"
  shows "\<exists>c'. compileNodeTransitions dfa node c = Some c' \<and> emits (transition_instrs dfa node) c c'"
proof -
  have r: "node_in_range dfa node" using assms by (simp add: dfa_node_wf_def)
  let ?c = "fold compileCheckForRange (nodeRanges (destinations_of dfa node)) c"
  have "emits (concat (map (\<lambda>r. [range_instr r]) (nodeRanges (destinations_of dfa node)))) c ?c"
    by (rule emits_fold) (rule emits_compileCheckForRange)
  then have e: "emits (map range_instr (nodeRanges (destinations_of dfa node))) c ?c" by (simp add: concat_map_singleton)
  show ?thesis
  proof (cases "hasFallbackTransition node")
    case True
    then obtain t where "node_fallback dfa node = Some t" by (simp add: node_fallback_def)
    then show ?thesis using True emits_append [OF e emits_final(1)]
      by (simp add: compileNodeTransitions_def transition_instrs_def DFANode_transitions_eq [OF r] Let_def
          fillDestinations_eq [OF assms] fallbackTransitionDestination_eq [OF r])
  next
    case False
    then have "node_fallback dfa node = None" by (simp add: node_fallback_def)
    then show ?thesis using False emits_append [OF e emits_final(2)]
      by (simp add: compileNodeTransitions_def transition_instrs_def DFANode_transitions_eq [OF r] Let_def
          fillDestinations_eq [OF assms])
  qed
qed

section \<open>The program of a DFA\<close>

definition node_order :: "DFA \<Rightarrow> nat list" where
  "node_order dfa = root dfa # filter (\<lambda>i. i \<noteq> root dfa) [0..<length (nodes dfa)]"

definition block :: "DFA \<Rightarrow> nat \<Rightarrow> instr list" where
  "block dfa i = (let node = nodes dfa ! i in
     if isKilled node then [] else action_instrs dfa node @ transition_instrs dfa node)"

definition program :: "DFA \<Rightarrow> instr list" where
  "program dfa = concat (map (block dfa) (node_order dfa))"

text \<open>Where a jump to a node goes: to its actions, but past them for the root.\<close>

definition entry_size :: "DFA \<Rightarrow> nat \<Rightarrow> nat" where
  "entry_size dfa i = (if i = root dfa then code_size (action_instrs dfa (nodes dfa ! i)) else 0)"

definition entry_offset :: "DFA \<Rightarrow> nat \<Rightarrow> nat list \<Rightarrow> nat \<Rightarrow> nat" where
  "entry_offset dfa base before i = base + code_size (concat (map (block dfa) before)) + entry_size dfa i"

definition node_offset :: "DFA \<Rightarrow> nat \<Rightarrow> nat \<Rightarrow> nat" where
  "node_offset dfa base i = entry_offset dfa base (takeWhile (\<lambda>j. j \<noteq> i) (node_order dfa)) i"

lemma emits_actions: "emits (action_instrs dfa node) c (fold emitAction (node_actions dfa node) c)"
  using emits_fold [of "node_actions dfa node" "\<lambda>a. [act_instr a]" emitAction c]
  by (simp add: action_instrs_def emits_emitAction concat_map_singleton)

text \<open>\<^verbatim>\<open>compileNode\<close> appends the block of the node and records its offset.\<close>

definition compiled :: "instr list \<Rightarrow> nat list \<Rightarrow> compiler \<Rightarrow> compiler \<Rightarrow> bool" where
  "compiled is offsets c c' \<longleftrightarrow> emits is c (c'\<lparr>m_nodeStartOffsets := m_nodeStartOffsets c\<rparr>)
     \<and> m_nodeStartOffsets c' = offsets"

lemma set_offset_eq:
  "i < length (m_nodeStartOffsets c) \<Longrightarrow> set_offset i off c =
     Some (c\<lparr>m_nodeStartOffsets := (m_nodeStartOffsets c)[i := off mod 4294967296]\<rparr>)"
  by (simp add: set_offset_def vec_simps)

lemma compileNode_compiled:
  assumes wf: "dfa_wf dfa" and i: "i < length (nodes dfa)" "length (m_nodeStartOffsets c) = length (nodes dfa)"
    and small: "\<not> isKilled (nodes dfa ! i) \<Longrightarrow> length (m_bytecode c) + entry_size dfa i < max_u32"
  shows "\<exists>c'. compileNode dfa i (i = root dfa) c = Some c'
    \<and> compiled (block dfa i) ((m_nodeStartOffsets c)[i := if isKilled (nodes dfa ! i) then max_u32
         else length (m_bytecode c) + entry_size dfa i]) c c'"
proof (cases "isKilled (nodes dfa ! i)")
  case True
  then show ?thesis using i
    by (simp add: compileNode_def vec_simps set_offset_eq block_def compiled_def emits_def max_u32_def)
next
  case False
  let ?node = "nodes dfa ! i"
  have nwf: "dfa_node_wf dfa ?node" using wf i False by (simp add: dfa_wf_def)
  then have acts: "DFANode_actions ?node dfa = Some (node_actions dfa ?node)"
    by (simp add: DFANode_actions_eq dfa_node_wf_def)
  let ?off = "length (m_bytecode c) + entry_size dfa i"
  have mod: "?off mod 4294967296 = ?off" using small [OF False] by (simp add: max_u32_def)
  show ?thesis
  proof (cases "i = root dfa")
    case True
    let ?c1 = "fold emitAction (node_actions dfa ?node) c"
    let ?c2 = "?c1\<lparr>m_nodeStartOffsets := (m_nodeStartOffsets c)[i := ?off]\<rparr>"
    have e1: "emits (action_instrs dfa ?node) c ?c1" by (rule emits_actions)
    then have l: "length (m_bytecode ?c1) = ?off" "m_nodeStartOffsets ?c1 = m_nodeStartOffsets c"
      using True by (simp_all add: emits_def entry_size_def)
    have "set_offset i (length (m_bytecode ?c1)) ?c1 = Some ?c2" using l i mod by (simp add: set_offset_eq)
    moreover obtain c' where c': "compileNodeTransitions dfa ?node ?c2 = Some c'" "emits (transition_instrs dfa ?node) ?c2 c'"
      using compileNodeTransitions_emits [OF nwf] by blast
    ultimately have "compileNode dfa i (i = root dfa) c = Some c'"
      using True False acts i(1) by (simp add: compileNode_def vec_simps Let_def)
    moreover have "compiled (block dfa i) ((m_nodeStartOffsets c)[i := ?off]) c c'"
      using e1 c'(2) False by (simp add: compiled_def block_def emits_def links_append Let_def)
    ultimately show ?thesis using False by simp
  next
    case nr: False
    let ?c1 = "c\<lparr>m_nodeStartOffsets := (m_nodeStartOffsets c)[i := ?off]\<rparr>"
    let ?c2 = "fold emitAction (node_actions dfa ?node) ?c1"
    have off: "?off = length (m_bytecode c)" using nr by (simp add: entry_size_def)
    have s: "set_offset i (length (m_bytecode c)) c = Some ?c1"
      using mod i(2) i(1) unfolding off by (simp add: set_offset_eq)
    have e1: "emits (action_instrs dfa ?node) ?c1 ?c2" by (rule emits_actions)
    obtain c' where c': "compileNodeTransitions dfa ?node ?c2 = Some c'" "emits (transition_instrs dfa ?node) ?c2 c'"
      using compileNodeTransitions_emits [OF nwf] by blast
    have "compileNode dfa i (i = root dfa) c = Some c'"
      using nr False acts i(1) s c'(1) by (simp add: compileNode_def vec_simps Let_def)
    moreover have "compiled (block dfa i) ((m_nodeStartOffsets c)[i := ?off]) c c'"
      using e1 c'(2) False by (simp add: compiled_def block_def emits_def links_append Let_def)
    ultimately show ?thesis using False by simp
  qed
qed

lemma compiled_append: "compiled is o1 c c1 \<Longrightarrow> compiled js o2 c1 c2 \<Longrightarrow> compiled (is @ js) o2 c c2"
  by (simp add: compiled_def emits_def links_append)

text \<open>Compiling a list of distinct nodes.\<close>

lemma compileNodes:
  assumes wf: "dfa_wf dfa" and "\<forall>i \<in> set is. i < length (nodes dfa)" "distinct is"
    and "length (m_nodeStartOffsets c) = length (nodes dfa)"
    and "length (m_bytecode c) + code_size (concat (map (block dfa) is)) < max_u32"
  shows "\<exists>c'. foldM (\<lambda>i c. compileNode dfa i (i = root dfa) c) is c = Some c'
    \<and> (\<exists>offsets. compiled (concat (map (block dfa) is)) offsets c c' \<and> length offsets = length (nodes dfa)
       \<and> (\<forall>i. i < length (nodes dfa) \<and> i \<notin> set is \<longrightarrow> offsets ! i = m_nodeStartOffsets c ! i)
       \<and> (\<forall>i \<in> set is. \<not> isKilled (nodes dfa ! i) \<longrightarrow>
            offsets ! i = entry_offset dfa (length (m_bytecode c)) (takeWhile (\<lambda>j. j \<noteq> i) is) i))"
  using assms(2-)
proof (induction "is" arbitrary: c)
  case Nil
  then show ?case by (simp add: compiled_def emits_def)
next
  case (Cons i "is")
  have es: "entry_size dfa i \<le> code_size (block dfa i)" if "\<not> isKilled (nodes dfa ! i)"
    using that by (simp add: entry_size_def block_def Let_def)
  then obtain c1 where c1: "compileNode dfa i (i = root dfa) c = Some c1"
    "compiled (block dfa i) ((m_nodeStartOffsets c)[i := if isKilled (nodes dfa ! i) then max_u32
         else length (m_bytecode c) + entry_size dfa i]) c c1"
    using compileNode_compiled [OF wf, of i c] Cons.prems by fastforce
  have len1: "length (m_bytecode c1) = length (m_bytecode c) + code_size (block dfa i)"
    "length (m_nodeStartOffsets c1) = length (nodes dfa)"
    using c1(2) Cons.prems(3) by (simp_all add: compiled_def emits_def)
  obtain c' offsets where c': "foldM (\<lambda>i c. compileNode dfa i (i = root dfa) c) is c1 = Some c'"
    "compiled (concat (map (block dfa) is)) offsets c1 c'" "length offsets = length (nodes dfa)"
    "\<forall>j. j < length (nodes dfa) \<and> j \<notin> set is \<longrightarrow> offsets ! j = m_nodeStartOffsets c1 ! j"
    "\<forall>j \<in> set is. \<not> isKilled (nodes dfa ! j) \<longrightarrow>
            offsets ! j = entry_offset dfa (length (m_bytecode c1)) (takeWhile (\<lambda>k. k \<noteq> j) is) j"
    using Cons.IH [of c1] Cons.prems len1 by auto
  have i: "i < length (nodes dfa)" "i \<notin> set is" using Cons.prems by auto
  have "offsets ! i = (if isKilled (nodes dfa ! i) then max_u32 else length (m_bytecode c) + entry_size dfa i)"
    using c'(4) i c1(2) Cons.prems(3) by (simp add: compiled_def)
  moreover have "offsets ! j = m_nodeStartOffsets c ! j" if "j < length (nodes dfa)" "j \<notin> set (i # is)" for j
    using c'(4) that c1(2) by (simp add: compiled_def)
  moreover have "compiled (concat (map (block dfa) (i # is))) offsets c c'"
    using compiled_append [OF c1(2) c'(2)] by simp
  ultimately show ?case
    using c1(1) c'(1,3,5) i(2) by (auto simp: entry_offset_def len1 intro!: exI [of _ offsets])
qed

section \<open>The ranges of a node\<close>

lemma lower_eq: "c < 256 \<Longrightarrow> lower c = (if 65 \<le> c \<and> c \<le> 90 then c + 32 else c)"
proof -
  have "list_all (\<lambda>c. lower c = (if 65 \<le> c \<and> c \<le> 90 then c + 32 else c)) [0..<256]" by code_simp
  then show "c < 256 \<Longrightarrow> lower c = (if 65 \<le> c \<and> c \<le> 90 then c + 32 else c)" by (simp add: list_all_iff del: upt_rec_numeral)
qed

definition range_matches :: "Range \<Rightarrow> nat \<Rightarrow> bool" where
  "range_matches r c \<longleftrightarrow> (let c' = if caseSensitive r then c else lower c in range_min r \<le> c' \<and> c' \<le> range_max r)"

text \<open>
  The loop over the characters: \<open>D\<close> is the table it starts from. A range that was closed leads
  every character that it matches to the right node; an entry that was cleared is matched by a
  closed range; the open range has one destination.
\<close>

definition ranges_ok :: "nat list \<Rightarrow> Range list \<Rightarrow> bool" where
  "ranges_ok D ranges \<longleftrightarrow> (\<forall>r \<in> set ranges. range_min r \<le> range_max r \<and> range_max r < 128
     \<and> (\<exists>c < 128. range_matches r c)
     \<and> (\<forall>c < 256. range_matches r c \<longrightarrow> c < 128 \<and> D ! c = destination r \<and> D ! c \<noteq> noDestination))"

definition matched :: "Range list \<Rightarrow> nat \<Rightarrow> bool" where
  "matched ranges c \<longleftrightarrow> (\<exists>r \<in> set ranges. range_matches r c)"

definition ranges_inv :: "nat list \<Rightarrow> nat \<Rightarrow> range_state \<Rightarrow> bool" where
  "ranges_inv D i = (\<lambda>(ds, ranges, current). length ds = 128 \<and> ranges_ok D ranges
     \<and> (\<forall>c < 128. ds ! c = D ! c \<or> ds ! c = noDestination \<and> matched ranges c)
     \<and> (\<forall>c < 128. c < (case current of None \<Rightarrow> i | Some m \<Rightarrow> m) \<and> D ! c \<noteq> noDestination \<longrightarrow> matched ranges c)
     \<and> (\<forall>m. current = Some m \<longrightarrow> m < i \<and> ds ! m \<noteq> noDestination \<and> (\<forall>c. m \<le> c \<and> c < i \<longrightarrow> ds ! c = ds ! m)))"

lemma fold_clear:
  "length ds = 128 \<Longrightarrow> \<forall>x \<in> set xs. f x < 128 \<Longrightarrow>
     length (fold (\<lambda>x ds. ds[f x := v]) xs ds) = 128
     \<and> (\<forall>c < 128. fold (\<lambda>x ds. ds[f x := v]) xs ds ! c = (if c \<in> f ` set xs then v else ds ! c))"
  by (induction xs arbitrary: ds) (auto simp: nth_list_update)

lemma matched_append: "matched (ranges @ [r]) c \<longleftrightarrow> matched ranges c \<or> range_matches r c"
  by (auto simp: matched_def)

lemma ranges_ok_append:
  "ranges_ok D (ranges @ [r]) \<longleftrightarrow> ranges_ok D ranges \<and> range_min r \<le> range_max r \<and> range_max r < 128
     \<and> (\<exists>c < 128. range_matches r c)
     \<and> (\<forall>c < 256. range_matches r c \<longrightarrow> c < 128 \<and> D ! c = destination r \<and> D ! c \<noteq> noDestination)"
  by (auto simp: ranges_ok_def)

lemma closeRange_effect:
  assumes len: "length ds = 128" and mi: "m < i" and i: "i < 128"
    and I7: "\<And>c. m \<le> c \<Longrightarrow> c < i \<Longrightarrow> ds ! c = ds ! m" and close: "closeRange m (i - 1) ds = (ds', r)"
  shows "length ds' = 128 \<and> range_min r \<le> range_max r \<and> range_max r < 128
      \<and> (\<forall>c < 256. range_matches r c \<longrightarrow> c < 128 \<and> ds ! c = ds ! m \<and> destination r = ds ! m)
      \<and> (\<forall>c < 128. ds' ! c = ds ! c \<or> ds' ! c = noDestination \<and> range_matches r c) \<and> (\<forall>c. m \<le> c \<and> c < i \<longrightarrow> range_matches r c)"
proof -
  let ?rs = "[m..<Suc (i - 1)]"
  have rs: "set ?rs = {m..<i}" using mi by auto
  let ?ci = "65 \<le> m \<and> i - 1 \<le> 90 \<and> list_all (\<lambda>k. ds ! m = ds ! lower k) ?rs"
  show ?thesis
  proof (cases ?ci)
    case False
    have "closeRange m (i - 1) ds = (ds, \<lparr>range_min = m, range_max = i - 1, destination = ds ! m, caseSensitive = True\<rparr>)"
      unfolding closeRange_def Let_def by (rule if_not_P [OF False])
    then have "ds' = ds" "r = \<lparr>range_min = m, range_max = i - 1, destination = ds ! m, caseSensitive = True\<rparr>"
      using close by auto
    moreover have "range_matches r c \<longleftrightarrow> m \<le> c \<and> c < i" for c
      using \<open>r = _\<close> mi by (auto simp: range_matches_def)
    moreover have "m \<le> i - 1" "i - 1 < 128" using mi i by auto
    moreover have "c < 128" if "c < i" for c using that i by simp
    ultimately show ?thesis using len by (intro conjI allI impI) (simp_all, blast intro: I7)
  next
    case True
    have hi: "65 \<le> m" "i \<le> 91" using True by auto
    have low: "lower k = k + 32" if "k \<in> {m..<i}" for k using that hi by (simp add: lower_eq)
    have eq: "ds' = fold (\<lambda>k ds. ds[lower k := noDestination]) ?rs ds"
      "r = \<lparr>range_min = m + 32, range_max = i - 1 + 32, destination = ds ! m, caseSensitive = False\<rparr>"
    proof -
      have "closeRange m (i - 1) ds = (fold (\<lambda>k ds. ds[lower k := noDestination]) ?rs ds,
          \<lparr>range_min = lower m, range_max = lower (i - 1), destination = ds ! m, caseSensitive = False\<rparr>)"
        unfolding closeRange_def Let_def by (rule if_P [OF True])
      then show "ds' = fold (\<lambda>k ds. ds[lower k := noDestination]) ?rs ds"
        "r = \<lparr>range_min = m + 32, range_max = i - 1 + 32, destination = ds ! m, caseSensitive = False\<rparr>"
        using close low [of m] low [of "i - 1"] mi by auto
    qed
    have same: "ds ! (k + 32) = ds ! m" if "k \<in> {m..<i}" for k
      using True low [OF that] that rs unfolding list_all_iff by metis
    have clear: "length ds' = 128" "\<And>c. c < 128 \<Longrightarrow> ds' ! c = (if c \<in> lower ` set ?rs then noDestination else ds ! c)"
    proof -
      have "\<forall>x \<in> set ?rs. lower x < 128" unfolding rs using low hi by auto
      from fold_clear [OF len this, of noDestination]
      show "length ds' = 128" "\<And>c. c < 128 \<Longrightarrow> ds' ! c = (if c \<in> lower ` set ?rs then noDestination else ds ! c)"
        unfolding eq(1) by blast+
    qed
    have img: "c \<in> lower ` set ?rs \<longleftrightarrow> m + 32 \<le> c \<and> c \<le> i - 1 + 32" for c
    proof -
      have "lower ` set ?rs = (\<lambda>k. k + 32) ` {m..<i}" unfolding rs by (rule image_cong [OF refl low])
      moreover have "c \<in> (\<lambda>k. k + 32) ` {m..<i} \<longleftrightarrow> m + 32 \<le> c \<and> c \<le> i - 1 + 32"
        using mi by (auto simp: image_iff intro: bexI [of _ "c - 32"])
      ultimately show ?thesis by simp
    qed
    have m: "range_matches r c \<longleftrightarrow> m + 32 \<le> lower c \<and> lower c \<le> i - 1 + 32" for c by (simp add: range_matches_def eq(2) Let_def)
    have "c < 128 \<and> ds ! c = ds ! m" if c: "c < 256" "range_matches r c" for c
    proof (cases "65 \<le> c \<and> c \<le> 90")
      case True
      then have "m \<le> c" "c < i" using c m mi by (auto simp: lower_eq)
      then show ?thesis using I7 [of c] True by simp
    next
      case False
      then have "c - 32 \<in> {m..<i}" "c - 32 + 32 = c" using c m mi by (auto simp: lower_eq)
      then show ?thesis using same [of "c - 32"] hi by auto
    qed
    moreover have "range_matches r c" if "m \<le> c" "c < i" for c using that low [of c] m by auto
    moreover have "ds' ! c = ds ! c \<or> ds' ! c = noDestination \<and> range_matches r c" if "c < 128" for c
    proof (cases "c \<in> lower ` set ?rs")
      case True
      then have "range_matches r c" using hi that unfolding img m by (auto simp: lower_eq)
      then show ?thesis using clear(2) [OF that] True by (simp only: if_True simp_thms)
    next
      case False
      then show ?thesis using clear(2) [OF that] by (simp only: if_False simp_thms)
    qed
    moreover have "range_min r \<le> range_max r" "range_max r < 128" "destination r = ds ! m"
      using hi mi by (auto simp: eq(2))
    ultimately show ?thesis using clear(1) by blast
  qed
qed

lemma closeRange_inv:
  assumes inv: "ranges_inv D i (ds, ranges, Some m)" and i: "i < 128" and close: "closeRange m (i - 1) ds = (ds', r)"
  shows "length ds' = 128" "ranges_ok D (ranges @ [r])"
    "\<forall>c < 128. ds' ! c = D ! c \<or> ds' ! c = noDestination \<and> matched (ranges @ [r]) c"
    "\<forall>c < i. D ! c \<noteq> noDestination \<longrightarrow> matched (ranges @ [r]) c"
proof -
  have I: "length ds = 128" "ranges_ok D ranges" "\<And>c. c < 128 \<Longrightarrow> ds ! c = D ! c \<or> ds ! c = noDestination \<and> matched ranges c"
    "\<And>c. c < 128 \<Longrightarrow> c < m \<Longrightarrow> D ! c \<noteq> noDestination \<Longrightarrow> matched ranges c" "m < i" "ds ! m \<noteq> noDestination"
    "\<And>c. m \<le> c \<Longrightarrow> c < i \<Longrightarrow> ds ! c = ds ! m"
    using inv unfolding ranges_inv_def split option.case by blast+
  have D: "D ! c = ds ! m \<and> D ! c \<noteq> noDestination" if "c < 128" "ds ! c = ds ! m" for c
    using I(3) [OF that(1)] that(2) I(6) by auto
  have E: "length ds' = 128 \<and> range_min r \<le> range_max r \<and> range_max r < 128
      \<and> (\<forall>c < 256. range_matches r c \<longrightarrow> c < 128 \<and> ds ! c = ds ! m \<and> destination r = ds ! m)
      \<and> (\<forall>c < 128. ds' ! c = ds ! c \<or> ds' ! c = noDestination \<and> range_matches r c) \<and> (\<forall>c. m \<le> c \<and> c < i \<longrightarrow> range_matches r c)"
    by (rule closeRange_effect [OF I(1,5) i I(7) close])
  have C: "length ds' = 128" "range_min r \<le> range_max r" "range_max r < 128"
    "\<And>c. c < 256 \<Longrightarrow> range_matches r c \<Longrightarrow> c < 128 \<and> ds ! c = ds ! m \<and> destination r = ds ! m"
    "\<And>c. c < 128 \<Longrightarrow> ds' ! c = ds ! c \<or> ds' ! c = noDestination \<and> range_matches r c"
    "\<And>c. m \<le> c \<Longrightarrow> c < i \<Longrightarrow> range_matches r c" using E by blast+
  show "length ds' = 128" by (rule C(1))
  show "ranges_ok D (ranges @ [r])"
    unfolding ranges_ok_append using I(2) C(2,3) C(4) C(6) [of m] D I(5) i by (metis le_refl less_trans)
  show "\<forall>c < 128. ds' ! c = D ! c \<or> ds' ! c = noDestination \<and> matched (ranges @ [r]) c"
    unfolding matched_append using C(5) I(3) by metis
  show "\<forall>c < i. D ! c \<noteq> noDestination \<longrightarrow> matched (ranges @ [r]) c"
    using I(4) C(6) i unfolding matched_append by (metis less_trans not_less)
qed

lemma rangeStep_inv:
  assumes inv: "ranges_inv D i st" and i: "i < 128"
  shows "ranges_inv D (Suc i) (rangeStep i st)"
proof -
  obtain ds ranges current where st: "st = (ds, ranges, current)" by (cases st)
  have I: "length ds = 128" "ranges_ok D ranges" "\<forall>c < 128. ds ! c = D ! c \<or> ds ! c = noDestination \<and> matched ranges c"
    "\<forall>c < 128. c < (case current of None \<Rightarrow> i | Some m \<Rightarrow> m) \<and> D ! c \<noteq> noDestination \<longrightarrow> matched ranges c"
    using inv unfolding ranges_inv_def st split by blast+
  show ?thesis
  proof (cases current)
    case None
    then have "matched ranges c" if "c < i" "D ! c \<noteq> noDestination" for c using I(4) that i by simp
    moreover have "matched ranges i" if "ds ! i = noDestination" "D ! i \<noteq> noDestination" using I(3) i that by metis
    ultimately show ?thesis using I(1-3) None by (auto simp: ranges_inv_def st rangeStep_def less_Suc_eq)
  next
    case (Some m)
    have cur: "m < i" "ds ! m \<noteq> noDestination" "\<And>c. m \<le> c \<Longrightarrow> c < i \<Longrightarrow> ds ! c = ds ! m"
      using inv unfolding ranges_inv_def st Some by blast+
    show ?thesis
    proof (cases "ds ! i = ds ! m")
      case True
      then have "ds ! c = ds ! m" if "m \<le> c" "c < Suc i" for c using cur(3) that by (auto simp: less_Suc_eq)
      moreover have st': "rangeStep i st = (ds, ranges, Some m)" using True Some by (simp add: rangeStep_def st)
      moreover have "\<forall>c < 128. c < m \<and> D ! c \<noteq> noDestination \<longrightarrow> matched ranges c" using I(4) Some by simp
      moreover have "m < Suc i" using cur(1) by simp
      ultimately show ?thesis using I(1-3) cur(2) unfolding st' ranges_inv_def split option.case by blast
    next
      case False
      obtain ds' r where close: "closeRange m (i - 1) ds = (ds', r)" by fastforce
      note C = closeRange_inv [OF inv [unfolded st Some] i close]
      have step: "rangeStep i st = (ds', ranges @ [r], if ds' ! i = noDestination then None else Some i)"
        using False Some close by (simp add: rangeStep_def st)
      have "matched (ranges @ [r]) c" if "c < Suc i" "D ! c \<noteq> noDestination" "ds' ! i = noDestination" for c
        using C(3,4) that i by (metis less_SucE)
      then show ?thesis using C unfolding step ranges_inv_def by (auto simp: less_Suc_eq)
    qed
  qed
qed

lemma ranges_inv_fold: "length D = 128 \<Longrightarrow> n \<le> 128 \<Longrightarrow> ranges_inv D n (fold rangeStep [0..<n] (D, [], None))"
proof (induction n)
  case 0
  then show ?case by (simp add: ranges_inv_def ranges_ok_def)
next
  case (Suc n)
  then show ?case using rangeStep_inv [of D n] by simp
qed

text \<open>
  The ranges of a node match exactly the characters that have a destination, and every range that
  matches a character leads to its destination; no byte above 127 is matched.
\<close>

lemma nodeRanges_correct:
  assumes "length D = 128"
  shows "ranges_ok D (nodeRanges D)" "\<forall>c < 128. D ! c \<noteq> noDestination \<longrightarrow> matched (nodeRanges D) c"
proof -
  obtain ds ranges current where f: "fold rangeStep [0..<128] (D, [], None) = (ds, ranges, current)"
    by (metis prod_cases3)
  have inv: "ranges_inv D 128 (ds, ranges, current)" using ranges_inv_fold [OF assms, of 128] f by simp
  then have I: "ranges_ok D ranges" "\<forall>c < 128. ds ! c = D ! c \<or> ds ! c = noDestination \<and> matched ranges c"
    "\<forall>c < 128. c < (case current of None \<Rightarrow> 128 | Some m \<Rightarrow> m) \<and> D ! c \<noteq> noDestination \<longrightarrow> matched ranges c"
    unfolding ranges_inv_def split by blast+
  have "ranges_ok D (nodeRanges D) \<and> (\<forall>c < 128. D ! c \<noteq> noDestination \<longrightarrow> matched (nodeRanges D) c)"
  proof (cases current)
    case None
    then have "nodeRanges D = ranges" by (simp only: nodeRanges_def f split option.case)
    then show ?thesis using I(1,3) None by simp
  next
    case (Some m)
    let ?r = "\<lparr>range_min = m, range_max = 127, destination = ds ! m, caseSensitive = True\<rparr>"
    have r: "nodeRanges D = ranges @ [?r]" using Some by (simp only: nodeRanges_def f split option.case)
    have cur: "m < 128" "ds ! m \<noteq> noDestination" "\<And>c. m \<le> c \<Longrightarrow> c < 128 \<Longrightarrow> ds ! c = ds ! m"
      using inv unfolding ranges_inv_def Some by blast+
    have m: "range_matches ?r c \<longleftrightarrow> m \<le> c \<and> c < 128" for c by (auto simp: range_matches_def)
    have "D ! c = ds ! m \<and> D ! c \<noteq> noDestination" if "m \<le> c" "c < 128" for c
      using I(2) cur that by metis
    then have "ranges_ok D (ranges @ [?r])" using I(1) cur(1,2) unfolding ranges_ok_append m by auto
    moreover have "matched (ranges @ [?r]) c" if "c < 128" "D ! c \<noteq> noDestination" for c
      using I(3) that Some unfolding matched_append m by (cases "c < m") auto
    ultimately show ?thesis unfolding r by blast
  qed
  then show "ranges_ok D (nodeRanges D)" "\<forall>c < 128. D ! c \<noteq> noDestination \<longrightarrow> matched (nodeRanges D) c" by blast+
qed

section \<open>Linking\<close>

definition head_bytes :: "instr \<Rightarrow> u8 list" where
  "head_bytes i = take (isize i - 4) (enc (\<lambda>_. 0) i)"

lemma enc_split: "target_of i = Some d \<Longrightarrow> enc off i = head_bytes i @ addr off d"
  by (cases i) (auto simp: head_bytes_def)

lemma length_head_bytes: "target_of i = Some d \<Longrightarrow> length (head_bytes i) = isize i - 4"
  by (cases i) (auto simp: head_bytes_def)

lemma enc_no_target: "target_of i = None \<Longrightarrow> enc off i = enc off' i"
  by (cases i) simp_all

lemma set32Bits_at: "length xs = 4 \<Longrightarrow> set32Bits (pre @ xs @ post) (length pre) v = Some (pre @ bytes32 v @ post)"
  by (simp add: set32Bits_def)

lemma link_links:
  assumes "\<forall>i \<in> set is. \<forall>d. target_of i = Some d \<longrightarrow> d < length offsets \<and> offsets ! d = off d \<and> off d \<noteq> max_u32"
  shows "link offsets (links (length pre) is) (pre @ encode (\<lambda>_. 0) is) = Some (pre @ encode off is)"
  using assms
proof (induction "is" arbitrary: pre)
  case Nil
  then show ?case by (simp add: link_def)
next
  case (Cons i "is")
  have IH: "link offsets (links (length pre + isize i) is) (pre @ enc off i @ encode (\<lambda>_. 0) is)
      = Some (pre @ enc off i @ encode off is)"
    using Cons.IH [of "pre @ enc off i"] Cons.prems by simp
  show ?case
  proof (cases "target_of i")
    case None
    then show ?thesis using IH enc_no_target [OF None, of "\<lambda>_. 0" off] by simp
  next
    case (Some d)
    have d: "d < length offsets" "offsets ! d = off d" "off d \<noteq> max_u32" using Cons.prems Some by auto
    have "isize i \<ge> 4" using Some by (cases i) auto
    then have p: "length (pre @ head_bytes i) = length pre + isize i - 4" using length_head_bytes [OF Some] by simp
    have "set32Bits (pre @ enc (\<lambda>_. 0) i @ encode (\<lambda>_. 0) is) (length pre + isize i - 4) (word_of_nat (off d))
        = Some (pre @ enc off i @ encode (\<lambda>_. 0) is)"
      using set32Bits_at [of "addr (\<lambda>_. 0) d" "pre @ head_bytes i" "encode (\<lambda>_. 0) is" "word_of_nat (off d)"]
      unfolding p by (simp add: enc_split [OF Some] addr_def)
    then show ?thesis using IH d Some by (simp add: link_def vec_simps)
  qed
qed

lemma block_targets:
  assumes wf: "dfa_wf dfa" and i: "i < length (nodes dfa)" and "ins \<in> set (block dfa i)" "target_of ins = Some d"
  shows "d < length (nodes dfa) \<and> \<not> isKilled (nodes dfa ! d)"
proof -
  let ?node = "nodes dfa ! i" and ?D = "destinations_of dfa (nodes dfa ! i)"
  have alive: "\<not> isKilled ?node" and ins: "ins \<in> set (action_instrs dfa ?node) \<union> set (transition_instrs dfa ?node)"
    using assms(3) by (auto simp: block_def Let_def split: if_splits)
  have nwf: "dfa_node_wf dfa ?node" using wf i alive by (simp add: dfa_wf_def)
  have len: "length ?D = 128" by (simp add: destinations_of_def)
  have "target_of (act_instr a) = None" for a by (simp add: act_instr_def)
  then consider (range) r where "r \<in> set (nodeRanges ?D)" "ins = range_instr r"
    | (jump) "node_fallback dfa ?node = Some d"
    using ins assms(4) by (auto simp: action_instrs_def transition_instrs_def split: option.splits)
  then show ?thesis
  proof cases
    case range
    have dr: "d = destination r" using assms(4) range(2) by (auto simp: range_instr_def split: if_splits)
    obtain c where "c < 128" "range_matches r c"
      "c < 256 \<longrightarrow> ?D ! c = destination r \<and> ?D ! c \<noteq> noDestination"
      using nodeRanges_correct(1) [OF len] range(1) unfolding ranges_ok_def by blast
    then have "c < 128" "?D ! c = d" "?D ! c \<noteq> noDestination" using dr by simp_all
    then have "map_of (node_transitions dfa ?node) c = Some d"
      by (auto simp: destinations_of_def split: option.splits)
    then show ?thesis using nwf map_of_SomeD by (fastforce simp: dfa_node_wf_def)
  next
    case jump
    then show ?thesis using nwf by (simp add: dfa_node_wf_def)
  qed
qed

lemma node_order_mem: "dfa_wf dfa \<Longrightarrow> set (node_order dfa) = {..<length (nodes dfa)} \<and> distinct (node_order dfa)"
  by (auto simp: node_order_def dfa_wf_def)

lemma split_at: "i \<in> set xs \<Longrightarrow> \<exists>ys. xs = takeWhile (\<lambda>j. j \<noteq> i) xs @ i # ys"
  by (induction xs) auto

lemma program_split:
  assumes "dfa_wf dfa" "i < length (nodes dfa)"
  shows "\<exists>rest. program dfa = concat (map (block dfa) (takeWhile (\<lambda>j. j \<noteq> i) (node_order dfa))) @ block dfa i @ rest"
proof -
  have "i \<in> set (node_order dfa)" using node_order_mem [OF assms(1)] assms(2) by simp
  from split_at [OF this] obtain P where "P = takeWhile (\<lambda>j. j \<noteq> i) (node_order dfa)" "\<exists>ys. node_order dfa = P @ i # ys"
    by simp
  then obtain ys where P: "node_order dfa = P @ i # ys" "P = takeWhile (\<lambda>j. j \<noteq> i) (node_order dfa)" by (elim exE)
  have "program dfa = concat (map (block dfa) (P @ i # ys))" unfolding program_def P(1) ..
  also have "\<dots> = concat (map (block dfa) P) @ block dfa i @ concat (map (block dfa) ys)" by simp
  finally show ?thesis unfolding P(2) by blast
qed

lemma foldM_filter: "foldM (\<lambda>x s. if P x then f x s else Some s) xs s = foldM f (filter P xs) s"
  by (induction xs arbitrary: s) (auto split: Option.bind_splits)

lemma compile_dfa_fold:
  "compile_dfa dfa pre = do {
     c \<leftarrow> foldM (\<lambda>i c. compileNode dfa i (i = root dfa) c) (node_order dfa)
       (append_bytes (bytes32 0) \<lparr>m_bytecode = pre, m_nodeStartOffsets = replicate (length (nodes dfa)) 0, m_linkRecords = []\<rparr>);
     bytecode \<leftarrow> link (m_nodeStartOffsets c) (m_linkRecords c) (m_bytecode c);
     set32Bits bytecode (length pre) (word_of_nat (length bytecode - length pre))
   }"
proof -
  have "foldM (\<lambda>i c. compileNode dfa i False c) (filter (\<lambda>i. i \<noteq> root dfa) xs) c
      = foldM (\<lambda>i c. compileNode dfa i (i = root dfa) c) (filter (\<lambda>i. i \<noteq> root dfa) xs) c" for xs c
    by (rule foldM_cong) auto
  then show ?thesis unfolding compile_dfa_def Let_def foldM_filter by (simp add: node_order_def)
qed

text \<open>
  The whole compilation: a well-formed DFA is compiled, to a header with the length of its code
  and the encoding of its program, in which every jump goes to the entry of its node.
\<close>

lemma compile_dfa_program:
  assumes wf: "dfa_wf dfa" and size: "length pre + 4 + code_size (program dfa) < max_u32"
  shows "compile_dfa dfa pre = Some (pre @ bytes32 (word_of_nat (4 + code_size (program dfa)))
    @ encode (node_offset dfa (length pre + 4)) (program dfa))"
proof -
  let ?n = "length (nodes dfa)" and ?base = "length pre + 4"
  let ?c0 = "append_bytes (bytes32 0) \<lparr>m_bytecode = pre, m_nodeStartOffsets = replicate ?n 0, m_linkRecords = []\<rparr>"
  have ord: "set (node_order dfa) = {..<?n}" "distinct (node_order dfa)" using node_order_mem [OF wf] by auto
  have c0: "length (m_nodeStartOffsets ?c0) = ?n" "length (m_bytecode ?c0) = ?base" by (simp_all add: append_bytes_def)
  obtain c' offsets where c': "foldM (\<lambda>i c. compileNode dfa i (i = root dfa) c) (node_order dfa) ?c0 = Some c'"
    "compiled (concat (map (block dfa) (node_order dfa))) offsets ?c0 c'" "length offsets = ?n"
    "\<forall>i \<in> set (node_order dfa). \<not> isKilled (nodes dfa ! i) \<longrightarrow>
        offsets ! i = entry_offset dfa (length (m_bytecode ?c0)) (takeWhile (\<lambda>j. j \<noteq> i) (node_order dfa)) i"
    using compileNodes [OF wf, of "node_order dfa" ?c0] ord c0 size by (auto simp: program_def)
  have off: "offsets ! i = node_offset dfa ?base i" if "i < ?n" "\<not> isKilled (nodes dfa ! i)" for i
    using c'(4) that ord(1) c0(2) by (simp add: node_offset_def)
  have small: "node_offset dfa ?base i \<noteq> max_u32" if i: "i < ?n" and alive: "\<not> isKilled (nodes dfa ! i)" for i
  proof -
    obtain rest where "program dfa = concat (map (block dfa) (takeWhile (\<lambda>j. j \<noteq> i) (node_order dfa))) @ block dfa i @ rest"
      using program_split [OF wf i] by blast
    moreover have "entry_size dfa i \<le> code_size (block dfa i)" using alive by (simp add: entry_size_def block_def Let_def)
    ultimately show ?thesis using size by (simp add: node_offset_def entry_offset_def)
  qed
  have bc: "m_bytecode c' = (pre @ bytes32 0) @ encode (\<lambda>_. 0) (program dfa)"
    "m_linkRecords c' = links (length (pre @ bytes32 0)) (program dfa)" "m_nodeStartOffsets c' = offsets"
    using c'(2) by (simp_all add: compiled_def emits_def program_def append_bytes_def)
  have "link offsets (m_linkRecords c') (m_bytecode c') = Some ((pre @ bytes32 0) @ encode (node_offset dfa ?base) (program dfa))"
    unfolding bc
  proof (rule link_links, intro ballI allI impI)
    fix ins d assume "ins \<in> set (program dfa)" "target_of ins = Some d"
    then obtain i where "i < ?n" "ins \<in> set (block dfa i)" using ord(1) by (auto simp: program_def)
    then have "d < ?n" "\<not> isKilled (nodes dfa ! d)" using block_targets [OF wf] \<open>target_of ins = Some d\<close> by blast+
    then show "d < length offsets \<and> offsets ! d = node_offset dfa ?base d \<and> node_offset dfa ?base d \<noteq> max_u32"
      using off small c'(3) by simp
  qed
  then have "compile_dfa dfa pre = set32Bits (pre @ bytes32 0 @ encode (node_offset dfa ?base) (program dfa)) (length pre)
      (word_of_nat (4 + code_size (program dfa)))"
    using c'(1) bc(3) by (simp add: compile_dfa_fold)
  then show ?thesis by (simp add: set32Bits_at)
qed

end
