(* ===== verification/DFABytecodeInterpreter.thy ===== *)
theory DFABytecodeInterpreter
  imports DFABytecodeCompiler
begin

text \<open>
  \<^verbatim>\<open>Source/WebCore/contentextensions/DFABytecodeInterpreter.cpp\<close>. The bytecode is read through
  a raw pointer and the URL through the pointer of a \<^verbatim>\<open>CString\<close>, whose memory is the characters
  and a terminating zero; a read outside of either is a trap here. The program counter is a 32-bit
  unsigned integer. The loops follow jumps of arbitrary bytecode, so not returning is \<open>None\<close>; for
  bytecode that \<^verbatim>\<open>DFABytecodeCompiler\<close> produced, the second half shows that they return and
  that what they return is what the automaton says.
\<close>

section \<open>The interpreter\<close>

definition pc_add :: "nat \<Rightarrow> nat \<Rightarrow> nat" where
  "pc_add pc n = (pc + n) mod 4294967296"

definition interpretAppendAction :: "u8 list \<Rightarrow> nat \<Rightarrow> u64 list \<Rightarrow> (nat \<times> u64 list) option" where
  "interpretAppendAction bc pc actions = do {
     action \<leftarrow> read32 bc (pc_add pc 1);
     Some (pc_add pc (instructionSizeWithArguments AppendAction), hs_add (ucast action) actions)
   }"

definition interpretTestFlagsAndAppendAction ::
  "u8 list \<Rightarrow> u16 \<Rightarrow> nat \<Rightarrow> u64 list \<Rightarrow> (nat \<times> u64 list) option" where
  "interpretTestFlagsAndAppendAction bc flags pc actions = do {
     test \<leftarrow> read16 bc (pc_add pc 1);
     actions \<leftarrow> (if flags AND test \<noteq> 0
        then do { action \<leftarrow> read32 bc (pc_add pc 3); Some (hs_add (ucast action) actions) }
        else Some actions);
     Some (pc_add pc (instructionSizeWithArguments TestFlagsAndAppendAction), actions)
   }"

partial_function (option) skipAppendActions ::
  "u8 list \<Rightarrow> nat \<Rightarrow> (nat \<times> u64 list) \<Rightarrow> (nat \<times> u64 list) option" where
  "skipAppendActions bc dfaBytecodeLength st =
     (if fst st < dfaBytecodeLength then
        Option.bind (vec_at bc (fst st)) (\<lambda>instruction.
          if instruction = opcode AppendAction then
            Option.bind (interpretAppendAction bc (fst st) (snd st)) (skipAppendActions bc dfaBytecodeLength)
          else if instruction = opcode TestFlagsAndAppendAction then
            skipAppendActions bc dfaBytecodeLength
              (pc_add (fst st) (instructionSizeWithArguments TestFlagsAndAppendAction), snd st)
          else Some st)
      else Some st)"

definition actionsFromDFARoot :: "u8 list \<Rightarrow> u64 list option" where
  "actionsFromDFARoot bc = do {
     dfaBytecodeLength \<leftarrow> read32 bc 0;
     (pc, actions) \<leftarrow> skipAppendActions bc (unat dfaBytecodeLength) (4, []);
     Some actions
   }"

text \<open>The loop over the actions of the root in \<^verbatim>\<open>interpret\<close>.\<close>

partial_function (option) interpretRootActions ::
  "u8 list \<Rightarrow> u16 \<Rightarrow> nat \<Rightarrow> (nat \<times> u64 list) \<Rightarrow> (nat \<times> u64 list) option" where
  "interpretRootActions bc flags dfaBytecodeLength st =
     (if fst st < dfaBytecodeLength then
        Option.bind (vec_at bc (fst st)) (\<lambda>instruction.
          if instruction = opcode AppendAction then
            interpretRootActions bc flags dfaBytecodeLength
              (pc_add (fst st) (instructionSizeWithArguments AppendAction), snd st)
          else if instruction = opcode TestFlagsAndAppendAction then
            Option.bind (interpretTestFlagsAndAppendAction bc flags (fst st) (snd st))
              (interpretRootActions bc flags dfaBytecodeLength)
          else Some st)
      else Some st)"

record interpreter_state =
  programCounter :: nat
  urlIndex :: nat
  urlIndexIsAfterEndOfString :: bool
  actions :: "u64 list"

datatype outcome = NextDFA "u64 list" | Continue interpreter_state

text \<open>A \<^verbatim>\<open>char\<close> is signed, the bytes of the bytecode are not.\<close>

definition char_le :: "u8 \<Rightarrow> u8 \<Rightarrow> bool" where
  "char_le v character \<longleftrightarrow> int (unat v) \<le> sint character"

definition char_ge :: "u8 \<Rightarrow> u8 \<Rightarrow> bool" where
  "char_ge v character \<longleftrightarrow> sint character \<le> int (unat v)"

text \<open>The four checks: the character is read, compared with one or two bytes, and consumed.\<close>

definition interpretCheck ::
  "u8 list \<Rightarrow> u8 list \<Rightarrow> DFABytecodeInstruction \<Rightarrow> bool \<Rightarrow> bool \<Rightarrow> interpreter_state \<Rightarrow> outcome option" where
  "interpretCheck bc url instruction cs isRange st =
     (let pc = programCounter st in
      if urlIndexIsAfterEndOfString st then Some (NextDFA (actions st))
      else do {
        character \<leftarrow> vec_at url (urlIndex st);
        let character = (if cs then character else toASCIILower_char character);
        low \<leftarrow> read8 bc (pc_add pc 1);
        high \<leftarrow> (if isRange then read8 bc (pc_add pc 2) else Some low);
        if char_le low character \<and> char_ge high character
        then do {
          target \<leftarrow> read32 bc (pc_add pc (if isRange then 3 else 2));
          Some (Continue (st\<lparr>programCounter := unat target,
             urlIndexIsAfterEndOfString := (if character = 0 then True else urlIndexIsAfterEndOfString st),
             urlIndex := urlIndex st + 1\<rparr>))
        } else Some (Continue (st\<lparr>programCounter := pc_add pc (instructionSizeWithArguments instruction)\<rparr>))
      })"

definition interpretJump :: "u8 list \<Rightarrow> u8 list \<Rightarrow> interpreter_state \<Rightarrow> outcome option" where
  "interpretJump bc url st = do {
     character \<leftarrow> vec_at url (urlIndex st);
     if character = 0 \<or> urlIndexIsAfterEndOfString st then Some (NextDFA (actions st))
     else do {
       target \<leftarrow> read32 bc (pc_add (programCounter st) 1);
       Some (Continue (st\<lparr>programCounter := unat target, urlIndex := urlIndex st + 1\<rparr>))
     }
   }"

definition with_actions :: "interpreter_state \<Rightarrow> (nat \<times> u64 list) option \<Rightarrow> outcome option" where
  "with_actions st r = do { (pc, acts) \<leftarrow> r; Some (Continue (st\<lparr>programCounter := pc, actions := acts\<rparr>)) }"

definition interpretStep :: "u8 list \<Rightarrow> u8 list \<Rightarrow> u16 \<Rightarrow> interpreter_state \<Rightarrow> outcome option" where
  "interpretStep bc url flags st = do {
     b \<leftarrow> vec_at bc (programCounter st);
     instruction \<leftarrow> decode_instruction b;
     (case instruction of
        Terminate \<Rightarrow> Some (NextDFA (actions st))
      | CheckValueCaseSensitive \<Rightarrow> interpretCheck bc url instruction True False st
      | CheckValueCaseInsensitive \<Rightarrow> interpretCheck bc url instruction False False st
      | CheckValueRangeCaseSensitive \<Rightarrow> interpretCheck bc url instruction True True st
      | CheckValueRangeCaseInsensitive \<Rightarrow> interpretCheck bc url instruction False True st
      | Jump \<Rightarrow> interpretJump bc url st
      | AppendAction \<Rightarrow> with_actions st (interpretAppendAction bc (programCounter st) (actions st))
      | TestFlagsAndAppendAction \<Rightarrow>
          with_actions st (interpretTestFlagsAndAppendAction bc flags (programCounter st) (actions st)))
   }"

partial_function (option) interpretLoop :: "u8 list \<Rightarrow> u8 list \<Rightarrow> u16 \<Rightarrow> interpreter_state \<Rightarrow> u64 list option" where
  "interpretLoop bc url flags st = Option.bind (interpretStep bc url flags st) (\<lambda>r. case r of
     NextDFA acts \<Rightarrow> Some acts
   | Continue st' \<Rightarrow> interpretLoop bc url flags st')"

definition interpretDFA :: "u8 list \<Rightarrow> u8 list \<Rightarrow> u16 \<Rightarrow> nat \<Rightarrow> u64 list \<Rightarrow> u64 list option" where
  "interpretDFA bc url flags pc acts = interpretLoop bc url flags
     \<lparr>programCounter = pc, urlIndex = 0, urlIndexIsAfterEndOfString = False, actions = acts\<rparr>"

partial_function (option) interpretDFAs :: "u8 list \<Rightarrow> u8 list \<Rightarrow> u16 \<Rightarrow> nat \<Rightarrow> u64 list \<Rightarrow> u64 list option" where
  "interpretDFAs bc url flags dfaStart acts =
     (if dfaStart < length bc then
        Option.bind (read32 bc dfaStart) (\<lambda>dfaBytecodeLength.
        Option.bind (if dfaStart = 0 then interpretRootActions bc flags (unat dfaBytecodeLength) (pc_add dfaStart 4, acts)
                     else Some (pc_add dfaStart 4, acts)) (\<lambda>st.
        if dfaStart = 0 \<and> length bc \<le> fst st then Some (snd st)
        else Option.bind (interpretDFA bc url flags (fst st) (snd st))
               (interpretDFAs bc url flags (pc_add dfaStart (unat dfaBytecodeLength)))))
      else Some acts)"

text \<open>\<^verbatim>\<open>DFABytecodeInterpreter::interpret\<close>; the memory of the URL ends with a zero.\<close>

definition interpret_bytecode :: "u8 list \<Rightarrow> u8 list \<Rightarrow> u16 \<Rightarrow> u64 list option" where
  "interpret_bytecode bc url flags = interpretDFAs bc (url @ [0]) flags 0 []"

section \<open>Steps of compiled code\<close>

text \<open>\<open>code_at bc off p is\<close>: the instructions \<open>is\<close> are encoded at \<open>p\<close>.\<close>

definition code_at :: "u8 list \<Rightarrow> (nat \<Rightarrow> nat) \<Rightarrow> nat \<Rightarrow> instr list \<Rightarrow> bool" where
  "code_at bc off p is \<longleftrightarrow> bytes_at bc p (encode off is) \<and> length bc < max_u32"

lemma code_at_Cons: "code_at bc off p (i # is) \<longleftrightarrow> bytes_at bc p (enc off i) \<and> code_at bc off (p + isize i) is"
  by (auto simp: code_at_def bytes_at_append)

lemma code_at_append: "code_at bc off p (is @ js) \<longleftrightarrow> code_at bc off p is \<and> code_at bc off (p + code_size is) js"
  by (auto simp: code_at_def bytes_at_append)

lemma code_at_start: "code_at bc off p is \<Longrightarrow> code_at bc off p []"
  by (auto simp: code_at_def bytes_at_def)

lemma bytes_at_bound: "bytes_at bs p xs \<Longrightarrow> p + length xs \<le> length bs"
  by (simp add: bytes_at_def)

lemma interpretLoop_Continue:
  "interpretStep bc url flags st = Some (Continue st') \<Longrightarrow> interpretLoop bc url flags st = interpretLoop bc url flags st'"
  by (subst interpretLoop.simps) simp

lemma interpretLoop_NextDFA:
  "interpretStep bc url flags st = Some (NextDFA acts) \<Longrightarrow> interpretLoop bc url flags st = Some acts"
  by (subst interpretLoop.simps) simp

text \<open>The effect of an action of a node.\<close>

definition passes :: "u16 \<Rightarrow> u64 \<Rightarrow> bool" where
  "passes flags a \<longleftrightarrow> a AND 0xFFFF00000000 = 0 \<or> flags AND ucast (drop_bit 32 a) \<noteq> 0"

definition location :: "u64 \<Rightarrow> u64" where
  "location a = ucast (ucast a :: u32)"

definition perform :: "u16 \<Rightarrow> u64 \<Rightarrow> u64 list \<Rightarrow> u64 list" where
  "perform flags a acts = (if passes flags a then hs_add (location a) acts else acts)"

lemma code_at_small:
  "code_at bc off p (i # is) \<Longrightarrow> p + isize i \<le> length bc \<and> p + isize i < 4294967296"
  using bytes_at_bound [of bc p "enc off i"] by (auto simp: code_at_def bytes_at_append max_u32_def)

lemma vec_at_bytes: "bytes_at bs p (x # xs) \<Longrightarrow> vec_at bs p = Some x"
  by (simp add: bytes_at_Cons vec_at_def)

lemma read8_Cons: "bytes_at bs p (x # xs) \<Longrightarrow> read8 bs p = Some x"
  by (simp add: bytes_at_Cons read8_def)

lemma bytes_at_tl: "bytes_at bs p (x # xs) \<Longrightarrow> bytes_at bs (p + 1) xs"
  by (simp add: bytes_at_Cons)

lemma step_action:
  assumes "code_at bc off p (act_instr a # is)"
  shows "interpretStep bc url flags \<lparr>programCounter = p, urlIndex = i, urlIndexIsAfterEndOfString = e, actions = acts\<rparr>
    = Some (Continue \<lparr>programCounter = p + isize (act_instr a), urlIndex = i, urlIndexIsAfterEndOfString = e,
        actions = perform flags a acts\<rparr>)"
proof (cases "a AND 0xFFFF00000000 = 0")
  case True
  then have b: "bytes_at bc p (opcode AppendAction # bytes32 (ucast a))" using assms by (simp add: act_instr_def code_at_Cons)
  then have "read32 bc (Suc p) = Some (ucast a)" by (intro read32_bytes32) (simp add: bytes_at_Cons)
  moreover have "p + 5 < 4294967296" using code_at_small [OF assms] True by (simp add: act_instr_def)
  ultimately show ?thesis using vec_at_bytes [OF b] True
    by (simp add: interpretStep_def with_actions_def interpretAppendAction_def pc_add_def act_instr_def perform_def
        passes_def location_def)
next
  case False
  then have b: "bytes_at bc p (opcode TestFlagsAndAppendAction # bytes16 (ucast (drop_bit 32 a)) @ bytes32 (ucast a))"
    using assms by (simp add: act_instr_def code_at_Cons)
  then have "bytes_at bc (Suc p) (bytes16 (ucast (drop_bit 32 a)))" "bytes_at bc (p + 3) (bytes32 (ucast a))"
    by (simp_all add: bytes_at_Cons bytes_at_append numeral_3_eq_3)
  then have "read16 bc (Suc p) = Some (ucast (drop_bit 32 a))" "read32 bc (p + 3) = Some (ucast a)"
    by (simp_all only: read16_bytes16 read32_bytes32)
  moreover have "p + 7 < 4294967296" using code_at_small [OF assms] False by (simp add: act_instr_def)
  ultimately show ?thesis using vec_at_bytes [OF b] False
    by (simp add: interpretStep_def with_actions_def interpretTestFlagsAndAppendAction_def pc_add_def act_instr_def
        perform_def passes_def location_def)
qed

lemma run_actions:
  assumes "code_at bc off p (map act_instr as @ is)"
  shows "interpretLoop bc url flags \<lparr>programCounter = p, urlIndex = i, urlIndexIsAfterEndOfString = e, actions = acts\<rparr>
    = interpretLoop bc url flags \<lparr>programCounter = p + code_size (map act_instr as), urlIndex = i,
        urlIndexIsAfterEndOfString = e, actions = fold (perform flags) as acts\<rparr>"
  using assms
proof (induction as arbitrary: p acts)
  case (Cons a as)
  have c: "code_at bc off p (act_instr a # map act_instr as @ is)" using Cons.prems by simp
  have "code_at bc off (p + isize (act_instr a)) (map act_instr as @ is)" using c by (simp only: code_at_Cons)
  from Cons.IH [OF this] show ?case
    using interpretLoop_Continue [OF step_action [OF c]] by (simp add: add.assoc)
qed simp

lemma u8_less: "unat (c :: u8) < 256"
  using unsigned_less [of c, where 'a = nat] by simp

lemma sint_u8: "sint (c :: u8) = (if unat c < 128 then int (unat c) else int (unat c) - 256)"
proof -
  have "list_all (\<lambda>n. sint (word_of_nat n :: u8) = (if n < 128 then int n else int n - 256)) [0..<256]" by code_simp
  then have "\<forall>n < 256. sint (word_of_nat n :: u8) = (if n < 128 then int n else int n - 256)"
    by (simp add: list_all_iff del: upt_rec_numeral)
  moreover have "unat c < 256" by (rule u8_less)
  ultimately have "sint (word_of_nat (unat c) :: u8) = (if unat c < 128 then int (unat c) else int (unat c) - 256)" by blast
  then show ?thesis by simp
qed

lemma char_bounds:
  assumes "m \<le> M" "M < 128"
  shows "char_le (word_of_nat m) c \<and> char_ge (word_of_nat M) c \<longleftrightarrow> m \<le> unat c \<and> unat c \<le> M"
proof -
  obtain k where k: "unat c = k" by blast
  have "sint c = (if k < 128 then int k else int k - 256)" using sint_u8 [of c] unfolding k .
  moreover have "k < 256" using u8_less [of c] k by simp
  ultimately show ?thesis using assms unfolding char_le_def char_ge_def k by (auto simp: unat_of_nat)
qed

lemma unat_lower: "unat (toASCIILower_char c) = lower (unat c)"
  by (simp add: lower_def toASCIILower_char_eq)

lemma lower_0: "toASCIILower_char c = 0 \<longleftrightarrow> c = 0"
proof -
  have "lower (unat c) = 0 \<longleftrightarrow> unat c = 0" using u8_less [of c] by (simp add: lower_eq)
  then show ?thesis unfolding unat_lower [symmetric] by (simp add: unat_eq_0)
qed

lemma interpretCheck_eq:
  assumes "i < length url" "c = (if cs then url ! i else toASCIILower_char (url ! i))"
    and "read8 bc (pc_add pc 1) = Some lo" "isRange \<Longrightarrow> read8 bc (pc_add pc 2) = Some hi" "\<not> isRange \<Longrightarrow> hi = lo"
    and "read32 bc (pc_add pc (if isRange then 3 else 2)) = Some target"
  shows "interpretCheck bc url ins cs isRange \<lparr>programCounter = pc, urlIndex = i, urlIndexIsAfterEndOfString = False, actions = acts\<rparr>
    = Some (Continue (if char_le lo c \<and> char_ge hi c
        then \<lparr>programCounter = unat target, urlIndex = i + 1, urlIndexIsAfterEndOfString = (c = 0), actions = acts\<rparr>
        else \<lparr>programCounter = pc_add pc (instructionSizeWithArguments ins), urlIndex = i,
               urlIndexIsAfterEndOfString = False, actions = acts\<rparr>))"
  using assms by (cases isRange) (simp_all add: interpretCheck_def Let_def vec_simps)

text \<open>A check of a range, on a character of the URL.\<close>

lemma step_range:
  assumes code: "code_at bc off p (range_instr r # is)" and r: "range_min r \<le> range_max r" "range_max r < 128"
    and i: "i < length url" and off: "off (destination r) < 4294967296"
  shows "interpretStep bc url flags \<lparr>programCounter = p, urlIndex = i, urlIndexIsAfterEndOfString = False, actions = acts\<rparr>
    = Some (Continue (if range_matches r (unat (url ! i))
        then \<lparr>programCounter = off (destination r), urlIndex = i + 1, urlIndexIsAfterEndOfString = (url ! i = 0), actions = acts\<rparr>
        else \<lparr>programCounter = p + isize (range_instr r), urlIndex = i, urlIndexIsAfterEndOfString = False, actions = acts\<rparr>))"
    (is "interpretStep bc url flags ?st = _")
proof -
  let ?c = "if caseSensitive r then url ! i else toASCIILower_char (url ! i)"
  let ?isRange = "range_min r \<noteq> range_max r"
  let ?ins = "if ?isRange then if caseSensitive r then CheckValueRangeCaseSensitive else CheckValueRangeCaseInsensitive
    else if caseSensitive r then CheckValueCaseSensitive else CheckValueCaseInsensitive"
  have m: "range_matches r (unat (url ! i)) \<longleftrightarrow> char_le (word_of_nat (range_min r)) ?c \<and> char_ge (word_of_nat (range_max r)) ?c"
    using char_bounds [OF r, of ?c] by (simp add: range_matches_def Let_def unat_lower)
  have z: "?c = 0 \<longleftrightarrow> url ! i = 0" by (simp add: lower_0)
  have u: "unat (word_of_nat (off (destination r)) :: u32) = off (destination r)" using off by (simp add: unat_of_nat)
  have small: "p + isize (range_instr r) < 4294967296" using code_at_small [OF code] by simp
  have b: "bytes_at bc p (opcode ?ins # word_of_nat (range_min r)
      # (if ?isRange then [word_of_nat (range_max r)] else []) @ addr off (destination r))"
    using code by (cases ?isRange) (simp_all add: code_at_Cons range_instr_def)
  then have "vec_at bc p = Some (opcode ?ins)" by (rule vec_at_bytes)
  then have step: "interpretStep bc url flags ?st = interpretCheck bc url ?ins (caseSensitive r) ?isRange ?st"
    by (cases ?isRange; cases "caseSensitive r") (simp_all add: interpretStep_def)
  have pcs: "pc_add p 1 = p + 1" "pc_add p 2 = p + 1 + 1" "?isRange \<Longrightarrow> pc_add p 3 = p + 1 + 1 + 1"
    "pc_add p (instructionSizeWithArguments ?ins) = p + isize (range_instr r)"
    using small by (auto simp: pc_add_def range_instr_def split: if_splits)
  note b1 = bytes_at_tl [OF b]
  note b2 = bytes_at_tl [OF b1]
  have r1: "read8 bc (pc_add p 1) = Some (word_of_nat (range_min r))" unfolding pcs(1) by (rule read8_Cons [OF b1])
  have b3: "bytes_at bc (p + 1 + 1) (word_of_nat (range_max r) # addr off (destination r))" if ?isRange
    using b2 that by simp
  have r2: "read8 bc (pc_add p 2) = Some (word_of_nat (range_max r))" if ?isRange
    unfolding pcs(2) by (rule read8_Cons [OF b3 [OF that]])
  have r3: "read32 bc (pc_add p (if ?isRange then 3 else 2)) = Some (word_of_nat (off (destination r)))"
  proof (cases ?isRange)
    case True
    then show ?thesis using bytes_at_tl [OF b3 [OF True]] pcs(3) read32_bytes32 by (simp add: addr_def)
  next
    case False
    then have "bytes_at bc (p + 1 + 1) (addr off (destination r))" using b2 by simp
    then show ?thesis using False pcs(2) read32_bytes32 by (simp add: addr_def)
  qed
  from interpretCheck_eq [OF i refl r1 r2 _ r3, where cs = "caseSensitive r" and ins = ?ins and acts = acts] pcs(4) show ?thesis
    unfolding step u z m by simp
qed

lemma run_ranges:
  assumes "code_at bc off p (map range_instr rs @ is)" "\<forall>r \<in> set rs. range_min r \<le> range_max r \<and> range_max r < 128
      \<and> off (destination r) < 4294967296" "i < length url"
  shows "interpretLoop bc url flags \<lparr>programCounter = p, urlIndex = i, urlIndexIsAfterEndOfString = False, actions = acts\<rparr>
    = interpretLoop bc url flags (case find (\<lambda>r. range_matches r (unat (url ! i))) rs of
        Some r \<Rightarrow> \<lparr>programCounter = off (destination r), urlIndex = i + 1, urlIndexIsAfterEndOfString = (url ! i = 0), actions = acts\<rparr>
      | None \<Rightarrow> \<lparr>programCounter = p + code_size (map range_instr rs), urlIndex = i, urlIndexIsAfterEndOfString = False, actions = acts\<rparr>)"
  using assms
proof (induction rs arbitrary: p)
  case (Cons r rs)
  have c: "code_at bc off p (range_instr r # map range_instr rs @ is)" using Cons.prems(1) by simp
  have "code_at bc off (p + isize (range_instr r)) (map range_instr rs @ is)" using c by (simp only: code_at_Cons)
  note IH = Cons.IH [OF this]
  have "range_min r \<le> range_max r" "range_max r < 128" "off (destination r) < 4294967296" using Cons.prems(2) by auto
  note step = interpretLoop_Continue [OF step_range [OF c this(1,2) Cons.prems(3) this(3), of flags acts]]
  show ?case
  proof (cases "range_matches r (unat (url ! i))")
    case True
    then show ?thesis using step by simp
  next
    case False
    then show ?thesis using step IH Cons.prems(2,3)
      by (cases "find (\<lambda>r. range_matches r (unat (url ! i))) rs") (simp_all add: add.assoc)
  qed
qed simp

text \<open>A node whose program starts with a check, or terminates, ends the run after the terminator.\<close>

lemma step_after_end:
  assumes "code_at bc off p (range_instr r # is)"
  shows "interpretStep bc url flags \<lparr>programCounter = p, urlIndex = i, urlIndexIsAfterEndOfString = True, actions = acts\<rparr>
    = Some (NextDFA acts)"
proof -
  have "\<exists>xs. bytes_at bc p (opcode (if range_min r = range_max r
      then if caseSensitive r then CheckValueCaseSensitive else CheckValueCaseInsensitive
      else if caseSensitive r then CheckValueRangeCaseSensitive else CheckValueRangeCaseInsensitive) # xs)"
    using assms by (cases "range_min r = range_max r") (auto simp: code_at_Cons range_instr_def)
  then obtain xs where "bytes_at bc p (opcode (if range_min r = range_max r
      then if caseSensitive r then CheckValueCaseSensitive else CheckValueCaseInsensitive
      else if caseSensitive r then CheckValueRangeCaseSensitive else CheckValueRangeCaseInsensitive) # xs)" by blast
  from vec_at_bytes [OF this] show ?thesis by (auto simp: interpretStep_def interpretCheck_def)
qed

lemma step_terminate:
  assumes "code_at bc off p (TerminateI # is)"
  shows "interpretStep bc url flags \<lparr>programCounter = p, urlIndex = i, urlIndexIsAfterEndOfString = e, actions = acts\<rparr>
    = Some (NextDFA acts)"
proof -
  have "bytes_at bc p (opcode Terminate # [])" using assms by (simp add: code_at_Cons)
  from vec_at_bytes [OF this] show ?thesis by (simp add: interpretStep_def)
qed

lemma step_jump:
  assumes code: "code_at bc off p (JumpI t # is)" and "i < length url" "off t < 4294967296"
  shows "interpretStep bc url flags \<lparr>programCounter = p, urlIndex = i, urlIndexIsAfterEndOfString = False, actions = acts\<rparr>
    = Some (if url ! i = 0 then NextDFA acts else
        Continue \<lparr>programCounter = off t, urlIndex = i + 1, urlIndexIsAfterEndOfString = False, actions = acts\<rparr>)"
proof -
  have b: "bytes_at bc p (opcode Jump # addr off t)" using code by (simp add: code_at_Cons)
  then have "read32 bc (Suc p) = Some (word_of_nat (off t))"
    by (auto intro!: read32_bytes32 simp: bytes_at_Cons addr_def)
  moreover have "p + 5 < 4294967296" using code_at_small [OF code] by simp
  moreover have "unat (word_of_nat (off t) :: u32) = off t" using assms(3) by (simp add: unat_of_nat)
  ultimately show ?thesis using vec_at_bytes [OF b] assms(2)
    by (simp add: interpretStep_def interpretJump_def pc_add_def vec_simps)
qed

section \<open>Simulating the automaton\<close>

text \<open>
  What a run over the characters of the URL and its terminator collects: the actions of every node
  that it enters. The actions of the root are collected before the run, and not again.
\<close>

definition enter :: "u16 \<Rightarrow> DFA \<Rightarrow> nat \<Rightarrow> u64 list \<Rightarrow> u64 list" where
  "enter flags dfa t acts = (if t = root dfa then acts else fold (perform flags) (node_actions dfa (nodes dfa ! t)) acts)"

fun simulate :: "u16 \<Rightarrow> DFA \<Rightarrow> nat \<Rightarrow> nat list \<Rightarrow> u64 list \<Rightarrow> u64 list" where
  "simulate flags dfa q [] acts = acts"
| "simulate flags dfa q (c # w) acts = (case dfa_step dfa q c of
     None \<Rightarrow> acts
   | Some t \<Rightarrow> simulate flags dfa t w (enter flags dfa t acts))"

text \<open>
  \<^verbatim>\<open>Jump\<close> reads the character before it looks at \<^verbatim>\<open>urlIndexIsAfterEndOfString\<close>; after the
  terminator that would be one byte past the end of the string. It cannot happen when the nodes that
  the terminator leads to have no fallback transition, as an end of line assertion ends its pattern.
\<close>

definition eol_ok :: "DFA \<Rightarrow> bool" where
  "eol_ok dfa \<longleftrightarrow> (\<forall>node \<in> set (nodes dfa). \<not> isKilled node \<longrightarrow>
     (\<forall>t. node_step dfa node 0 = Some t \<longrightarrow> node_fallback dfa (nodes dfa ! t) = None))"

definition dfa_ok :: "DFA \<Rightarrow> bool" where
  "dfa_ok dfa \<longleftrightarrow> dfa_wf dfa \<and> eol_ok dfa \<and> length (nodes dfa) \<le> max_u32"

definition dfa_at :: "u8 list \<Rightarrow> nat \<Rightarrow> DFA \<Rightarrow> bool" where
  "dfa_at bc start dfa \<longleftrightarrow> code_at bc (node_offset dfa (start + 4)) (start + 4) (program dfa)"

definition alive :: "DFA \<Rightarrow> nat \<Rightarrow> bool" where
  "alive dfa q \<longleftrightarrow> q < length (nodes dfa) \<and> \<not> isKilled (nodes dfa ! q)"

definition transitions_offset :: "DFA \<Rightarrow> nat \<Rightarrow> nat \<Rightarrow> nat" where
  "transitions_offset dfa base q = node_offset dfa base q
     + (if q = root dfa then 0 else code_size (action_instrs dfa (nodes dfa ! q)))"

lemma dfa_step_alive: "dfa_wf dfa \<Longrightarrow> alive dfa q \<Longrightarrow> dfa_step dfa q c = Some t \<Longrightarrow> alive dfa t"
  using dfa_step_wf by (auto simp: alive_def)

lemma root_alive: "dfa_wf dfa \<Longrightarrow> alive dfa (root dfa)"
  by (simp add: dfa_wf_def alive_def)

lemma node_code:
  assumes "dfa_wf dfa" "dfa_at bc start dfa" "alive dfa q"
  shows "code_at bc (node_offset dfa (start + 4)) (node_offset dfa (start + 4) q)
      ((if q = root dfa then [] else action_instrs dfa (nodes dfa ! q)) @ transition_instrs dfa (nodes dfa ! q))"
    "code_at bc (node_offset dfa (start + 4)) (transitions_offset dfa (start + 4) q) (transition_instrs dfa (nodes dfa ! q))"
    "node_offset dfa (start + 4) q < 4294967296"
proof -
  let ?off = "node_offset dfa (start + 4)"
  let ?P = "concat (map (block dfa) (takeWhile (\<lambda>j. j \<noteq> q) (node_order dfa)))"
  obtain rest where "program dfa = ?P @ block dfa q @ rest"
    using program_split [OF assms(1)] assms(3) by (auto simp: alive_def)
  then have "code_at bc ?off (start + 4) (?P @ (action_instrs dfa (nodes dfa ! q) @ transition_instrs dfa (nodes dfa ! q)) @ rest)"
    using assms(2,3) by (simp add: dfa_at_def alive_def block_def Let_def)
  then have c: "code_at bc ?off (start + 4 + code_size ?P) (action_instrs dfa (nodes dfa ! q))"
    "code_at bc ?off (start + 4 + code_size ?P + code_size (action_instrs dfa (nodes dfa ! q))) (transition_instrs dfa (nodes dfa ! q))"
    by (simp_all add: code_at_append add.assoc)
  from code_at_start [OF c(2)] c show "code_at bc ?off (?off q)
      ((if q = root dfa then [] else action_instrs dfa (nodes dfa ! q)) @ transition_instrs dfa (nodes dfa ! q))"
    "code_at bc ?off (transitions_offset dfa (start + 4) q) (transition_instrs dfa (nodes dfa ! q))"
    by (auto simp: code_at_append transitions_offset_def node_offset_def entry_offset_def entry_size_def)
  from code_at_start [OF this(1)] have "?off q \<le> length bc" "length bc < max_u32"
    by (simp_all add: code_at_def)
  then show "?off q < 4294967296" by (simp add: max_u32_def)
qed

lemma range_lookup:
  assumes ok: "dfa_ok dfa" and q: "alive dfa q" and c: "c < 256"
  shows "case find (\<lambda>r. range_matches r c) (nodeRanges (destinations_of dfa (nodes dfa ! q))) of
      Some r \<Rightarrow> map_of (node_transitions dfa (nodes dfa ! q)) c = Some (destination r)
    | None \<Rightarrow> map_of (node_transitions dfa (nodes dfa ! q)) c = None"
proof -
  let ?node = "nodes dfa ! q" and ?D = "destinations_of dfa (nodes dfa ! q)"
  have nwf: "dfa_node_wf dfa ?node" using ok q by (simp add: dfa_ok_def dfa_wf_def alive_def)
  have len: "length ?D = 128" by (simp add: destinations_of_def)
  have D: "?D ! c = (case map_of (node_transitions dfa ?node) c of None \<Rightarrow> noDestination | Some t \<Rightarrow> t)" if "c < 128"
    using that by (simp add: destinations_of_def)
  note R = nodeRanges_correct [OF len]
  show ?thesis
  proof (cases "find (\<lambda>r. range_matches r c) (nodeRanges ?D)")
    case None
    then have nm: "\<not> matched (nodeRanges ?D) c" by (auto simp: find_None_iff matched_def)
    have "map_of (node_transitions dfa ?node) c = None"
    proof (rule ccontr)
      assume "map_of (node_transitions dfa ?node) c \<noteq> None"
      then obtain t where t: "map_of (node_transitions dfa ?node) c = Some t" by blast
      then have "c < 128" "t < length (nodes dfa)" using nwf map_of_SomeD [OF t] by (auto simp: dfa_node_wf_def)
      moreover from this have "t \<noteq> noDestination" using ok by (simp add: dfa_ok_def noDestination_def)
      ultimately show False using D t R(2) nm by simp
    qed
    then show ?thesis using None by simp
  next
    case (Some r)
    then have "r \<in> set (nodeRanges ?D)" "range_matches r c" by (auto simp: find_Some_iff)
    then have "c < 128" "?D ! c = destination r" "?D ! c \<noteq> noDestination" using R(1) c unfolding ranges_ok_def by blast+
    then show ?thesis using D Some by (auto split: option.splits)
  qed
qed

text \<open>One character at a node.\<close>

lemma run_node:
  assumes ok: "dfa_ok dfa" and at: "dfa_at bc start dfa" and q: "alive dfa q" and i: "i < length url"
  shows "interpretLoop bc url flags \<lparr>programCounter = transitions_offset dfa (start + 4) q, urlIndex = i,
      urlIndexIsAfterEndOfString = False, actions = acts\<rparr>
    = (case dfa_step dfa q (unat (url ! i)) of None \<Rightarrow> Some acts
       | Some t \<Rightarrow> interpretLoop bc url flags \<lparr>programCounter = node_offset dfa (start + 4) t, urlIndex = i + 1,
           urlIndexIsAfterEndOfString = (url ! i = 0), actions = acts\<rparr>)"
proof -
  let ?off = "node_offset dfa (start + 4)" and ?node = "nodes dfa ! q" and ?c = "unat (url ! i)"
  let ?rs = "nodeRanges (destinations_of dfa ?node)" and ?p = "transitions_offset dfa (start + 4) q"
  let ?last = "case node_fallback dfa ?node of None \<Rightarrow> TerminateI | Some t \<Rightarrow> JumpI t"
  have wf: "dfa_wf dfa" using ok by (simp add: dfa_ok_def)
  have len: "length (destinations_of dfa ?node) = 128" by (simp add: destinations_of_def)
  have code: "code_at bc ?off ?p (map range_instr ?rs @ [?last])"
    using node_code(2) [OF wf at q] by (simp add: transition_instrs_def)
  have small: "?off t < 4294967296" if "alive dfa t" for t using node_code(3) [OF wf at that] .
  have targets: "alive dfa t" if "target_of ins = Some t" "ins \<in> set (transition_instrs dfa ?node)" for t ins
    using block_targets [OF wf, of q ins t] that q by (auto simp: alive_def block_def Let_def)
  have "alive dfa (destination r)" if "r \<in> set ?rs" for r
    using targets [of "range_instr r"] that by (auto simp: transition_instrs_def range_instr_def)
  then have rs: "\<forall>r \<in> set ?rs. range_min r \<le> range_max r \<and> range_max r < 128 \<and> ?off (destination r) < 4294967296"
    using nodeRanges_correct(1) [OF len] small unfolding ranges_ok_def by blast
  note run = run_ranges [OF code rs i, of flags acts]
  have step: "dfa_step dfa q ?c = (case map_of (node_transitions dfa ?node) ?c of
     Some t \<Rightarrow> Some t | None \<Rightarrow> if url ! i \<noteq> 0 then node_fallback dfa ?node else None)"
    using q by (simp add: dfa_step_def node_step_def alive_def unat_eq_0)
  note look = range_lookup [OF ok q u8_less [of "url ! i"]]
  show ?thesis
  proof (cases "find (\<lambda>r. range_matches r ?c) ?rs")
    case (Some r)
    then show ?thesis using run step look by simp
  next
    case None
    have last: "code_at bc ?off (?p + code_size (map range_instr ?rs)) (?last # [])" using code by (simp add: code_at_append)
    show ?thesis
    proof (cases "node_fallback dfa ?node")
      case f: None
      then show ?thesis using run step look None interpretLoop_NextDFA [OF step_terminate] last by simp
    next
      case (Some t)
      then have "alive dfa t" using targets [of "JumpI t"] by (simp add: transition_instrs_def)
      then have "?off t < 4294967296" by (rule small)
      moreover have "code_at bc ?off (?p + code_size (map range_instr ?rs)) (JumpI t # [])" using last Some by simp
      ultimately have "interpretStep bc url flags \<lparr>programCounter = ?p + code_size (map range_instr ?rs), urlIndex = i,
          urlIndexIsAfterEndOfString = False, actions = acts\<rparr>
        = Some (if url ! i = 0 then NextDFA acts else
          Continue \<lparr>programCounter = ?off t, urlIndex = i + 1, urlIndexIsAfterEndOfString = False, actions = acts\<rparr>)"
        using step_jump i by blast
      then show ?thesis using run step look None Some
        by (cases "url ! i = 0") (simp_all add: interpretLoop_NextDFA interpretLoop_Continue)
    qed
  qed
qed

lemma run_enter:
  assumes "dfa_wf dfa" "dfa_at bc start dfa" "alive dfa q"
  shows "interpretLoop bc url flags \<lparr>programCounter = node_offset dfa (start + 4) q, urlIndex = i,
      urlIndexIsAfterEndOfString = e, actions = acts\<rparr>
    = interpretLoop bc url flags \<lparr>programCounter = transitions_offset dfa (start + 4) q, urlIndex = i,
      urlIndexIsAfterEndOfString = e, actions = enter flags dfa q acts\<rparr>"
  using run_actions [of bc "node_offset dfa (start + 4)" "node_offset dfa (start + 4) q"
      "node_actions dfa (nodes dfa ! q)" "transition_instrs dfa (nodes dfa ! q)" url flags i e acts] node_code(1) [OF assms]
  by (auto simp: transitions_offset_def enter_def action_instrs_def)

lemma run_after_end:
  assumes "dfa_wf dfa" "dfa_at bc start dfa" "alive dfa q" and f: "node_fallback dfa (nodes dfa ! q) = None"
  shows "interpretLoop bc url flags \<lparr>programCounter = transitions_offset dfa (start + 4) q, urlIndex = i,
      urlIndexIsAfterEndOfString = True, actions = acts\<rparr> = Some acts"
proof (cases "nodeRanges (destinations_of dfa (nodes dfa ! q))")
  case Nil
  then show ?thesis using node_code(2) [OF assms(1-3)] f interpretLoop_NextDFA [OF step_terminate]
    by (simp add: transition_instrs_def)
next
  case (Cons r rs)
  then show ?thesis using node_code(2) [OF assms(1-3)] interpretLoop_NextDFA [OF step_after_end]
    by (simp add: transition_instrs_def)
qed

lemma run_simulate:
  assumes ok: "dfa_ok dfa" and at: "dfa_at bc start dfa" and q: "alive dfa q"
    and url: "i < length url" "\<And>j. j < length url \<Longrightarrow> url ! j = 0 \<longleftrightarrow> Suc j = length url"
  shows "interpretLoop bc url flags \<lparr>programCounter = transitions_offset dfa (start + 4) q, urlIndex = i,
      urlIndexIsAfterEndOfString = False, actions = acts\<rparr>
    = Some (simulate flags dfa q (map unat (drop i url)) acts)"
  using q url(1)
proof (induction "length url - i" arbitrary: i q acts)
  case 0
  then show ?case by simp
next
  case (Suc n)
  have wf: "dfa_wf dfa" "eol_ok dfa" using ok by (auto simp: dfa_ok_def)
  let ?c = "unat (url ! i)"
  have w: "map unat (drop i url) = ?c # map unat (drop (Suc i) url)"
    using Suc.prems(2) by (simp add: Cons_nth_drop_Suc [symmetric])
  show ?case
  proof (cases "dfa_step dfa q ?c")
    case None
    then show ?thesis using run_node [OF ok at Suc.prems] w by simp
  next
    case (Some t)
    then have t: "alive dfa t" using dfa_step_alive wf(1) Suc.prems(1) by blast
    note run = run_node [OF ok at Suc.prems, of flags acts] run_enter [OF wf(1) at t, of url flags "i + 1" "url ! i = 0" acts]
    show ?thesis
    proof (cases "url ! i = 0")
      case True
      then have "Suc i = length url" using url(2) Suc.prems(2) by simp
      moreover have "node_fallback dfa (nodes dfa ! t) = None"
        using wf(2) Suc.prems(1) Some True by (auto simp: eol_ok_def alive_def dfa_step_def split: if_splits)
      ultimately show ?thesis using run Some w True run_after_end [OF wf(1) at t] by simp
    next
      case False
      then have "Suc i < length url" using url(2) [OF Suc.prems(2)] Suc.prems(2) by linarith
      moreover have "n = length url - Suc i" using Suc.hyps(2) by simp
      ultimately show ?thesis using Suc.hyps(1) [OF _ t, of "Suc i"] run Some w False by simp
    qed
  qed
qed

section \<open>The actions of a whole run\<close>

text \<open>
  Every automaton contributes the actions of the nodes that the prefixes of the URL and its
  terminator reach. The first one is special: the unconditional actions of its root are left to
  \<^verbatim>\<open>actionsFromDFARoot\<close>.
\<close>

definition flagged :: "u64 \<Rightarrow> bool" where
  "flagged a \<longleftrightarrow> a AND 0xFFFF00000000 \<noteq> 0"

definition terminated :: "u8 list \<Rightarrow> nat list" where
  "terminated url = map unat (url @ [0])"

definition root_actions :: "bool \<Rightarrow> DFA \<Rightarrow> u64 list" where
  "root_actions first dfa = (if first then filter flagged (node_actions dfa (nodes dfa ! root dfa))
     else node_actions dfa (nodes dfa ! root dfa))"

definition run_dfa :: "u16 \<Rightarrow> u8 list \<Rightarrow> bool \<Rightarrow> DFA \<Rightarrow> u64 list \<Rightarrow> u64 list" where
  "run_dfa flags url first dfa acts =
     simulate flags dfa (root dfa) (terminated url) (fold (perform flags) (root_actions first dfa) acts)"

definition matched_actions :: "u16 \<Rightarrow> u8 list \<Rightarrow> bool \<Rightarrow> DFA \<Rightarrow> u64 set" where
  "matched_actions flags url first dfa = {location a | a k q. dfa_run dfa (root dfa) (take k (terminated url)) = Some q
     \<and> a \<in> state_actions dfa q \<and> passes flags a \<and> (first \<and> q = root dfa \<longrightarrow> flagged a)}"

lemma set_fold_perform: "set (fold (perform flags) as acts) = set acts \<union> {location a | a. a \<in> set as \<and> passes flags a}"
  by (induction as arbitrary: acts) (auto simp: perform_def hs_simps)

text \<open>The nodes that a nonempty prefix leads to.\<close>

definition visits :: "DFA \<Rightarrow> nat \<Rightarrow> nat list \<Rightarrow> nat \<Rightarrow> bool" where
  "visits dfa q w t \<longleftrightarrow> (\<exists>k. dfa_run dfa q (take (Suc k) w) = Some t \<and> w \<noteq> [])"

lemma visits_Nil [simp]: "\<not> visits dfa q [] t"
  by (simp add: visits_def)

lemma visits_Cons: "visits dfa q (c # w) t \<longleftrightarrow> (\<exists>s. dfa_step dfa q c = Some s \<and> (t = s \<or> visits dfa s w t))"
proof (cases "dfa_step dfa q c")
  case (Some s)
  have "(\<exists>k. dfa_run dfa s (take k w) = Some t) \<longleftrightarrow> t = s \<or> visits dfa s w t"
  proof
    assume "\<exists>k. dfa_run dfa s (take k w) = Some t"
    then obtain k where k: "dfa_run dfa s (take k w) = Some t" by blast
    then show "t = s \<or> visits dfa s w t" by (cases k; cases w) (auto simp: visits_def)
  next
    assume "t = s \<or> visits dfa s w t"
    then show "\<exists>k. dfa_run dfa s (take k w) = Some t"
      by (auto simp: visits_def intro: exI [of _ 0])
  qed
  then show ?thesis using Some by (simp add: visits_def)
qed (simp add: visits_def)

lemma visits_run: "(\<exists>k. dfa_run dfa q (take k w) = Some t) \<longleftrightarrow> t = q \<or> visits dfa q w t"
proof
  assume "\<exists>k. dfa_run dfa q (take k w) = Some t"
  then obtain k where "dfa_run dfa q (take k w) = Some t" by blast
  then show "t = q \<or> visits dfa q w t" by (cases k; cases w) (auto simp: visits_def)
qed (auto simp: visits_def intro: exI [of _ 0])

lemma set_simulate:
  "set (simulate flags dfa q w acts) = set acts \<union> {location a | a t. visits dfa q w t \<and> t \<noteq> root dfa
     \<and> a \<in> state_actions dfa t \<and> passes flags a}"
proof (induction w arbitrary: q acts)
  case (Cons c w)
  show ?case
  proof (cases "dfa_step dfa q c")
    case (Some t)
    have "set (enter flags dfa t acts)
      = set acts \<union> {location a | a. t \<noteq> root dfa \<and> a \<in> state_actions dfa t \<and> passes flags a}"
      by (auto simp: enter_def set_fold_perform state_actions_def)
    then have "set (simulate flags dfa q (c # w) acts) = set acts
      \<union> {location a | a. t \<noteq> root dfa \<and> a \<in> state_actions dfa t \<and> passes flags a}
      \<union> {location a | a s. visits dfa t w s \<and> s \<noteq> root dfa \<and> a \<in> state_actions dfa s \<and> passes flags a}"
      using Cons.IH Some by simp
    then show ?thesis using Some unfolding visits_Cons by auto
  qed (simp add: visits_Cons)
qed simp

lemma set_run_dfa: "set (run_dfa flags url first dfa acts) = set acts \<union> matched_actions flags url first dfa"
proof -
  have "matched_actions flags url first dfa = {location a | a. a \<in> set (root_actions first dfa) \<and> passes flags a}
    \<union> {location a | a t. visits dfa (root dfa) (terminated url) t \<and> t \<noteq> root dfa \<and> a \<in> state_actions dfa t \<and> passes flags a}"
  proof -
    have "matched_actions flags url first dfa = {location a | a q. (q = root dfa \<or> visits dfa (root dfa) (terminated url) q)
      \<and> a \<in> state_actions dfa q \<and> passes flags a \<and> (first \<and> q = root dfa \<longrightarrow> flagged a)}"
      unfolding matched_actions_def visits_run [symmetric] by blast
    also have "\<dots> = {location a | a. a \<in> state_actions dfa (root dfa) \<and> passes flags a \<and> (first \<longrightarrow> flagged a)}
      \<union> {location a | a t. visits dfa (root dfa) (terminated url) t \<and> t \<noteq> root dfa \<and> a \<in> state_actions dfa t \<and> passes flags a}"
      by blast
    also have "{location a | a. a \<in> state_actions dfa (root dfa) \<and> passes flags a \<and> (first \<longrightarrow> flagged a)}
      = {location a | a. a \<in> set (root_actions first dfa) \<and> passes flags a}"
      by (auto simp: root_actions_def state_actions_def)
    finally show ?thesis .
  qed
  then show ?thesis by (auto simp: run_dfa_def set_simulate set_fold_perform)
qed

section \<open>The whole bytecode\<close>

definition segment :: "nat \<Rightarrow> DFA \<Rightarrow> u8 list" where
  "segment start dfa = bytes32 (word_of_nat (4 + code_size (program dfa)))
     @ encode (node_offset dfa (start + 4)) (program dfa)"

fun segments :: "nat \<Rightarrow> DFA list \<Rightarrow> u8 list" where
  "segments start [] = []"
| "segments start (dfa # dfas) = segment start dfa @ segments (start + 4 + code_size (program dfa)) dfas"

definition total_size :: "DFA list \<Rightarrow> nat" where
  "total_size dfas = sum_list (map (\<lambda>dfa. 4 + code_size (program dfa)) dfas)"

lemma length_segment [simp]: "length (segment start dfa) = 4 + code_size (program dfa)"
  by (simp add: segment_def)

lemma length_segments [simp]: "length (segments start dfas) = total_size dfas"
  by (induction dfas arbitrary: start) (simp_all add: total_size_def)

lemma compile_dfas:
  "\<forall>dfa \<in> set dfas. dfa_wf dfa \<Longrightarrow> length pre + total_size dfas < max_u32 \<Longrightarrow>
     foldM compile_dfa dfas pre = Some (pre @ segments (length pre) dfas)"
proof (induction dfas arbitrary: pre)
  case (Cons dfa dfas)
  have "compile_dfa dfa pre = Some (pre @ segment (length pre) dfa)"
    using compile_dfa_program [of dfa pre] Cons.prems by (simp add: segment_def total_size_def)
  then show ?case using Cons.IH [of "pre @ segment (length pre) dfa"] Cons.prems by (simp add: total_size_def add.assoc)
qed simp

lemma segment_at:
  assumes "bc = pre @ segment (length pre) dfa @ post" "length bc < max_u32"
  shows "dfa_at bc (length pre) dfa" "\<exists>w. read32 bc (length pre) = Some w \<and> unat w = 4 + code_size (program dfa)"
proof -
  let ?h = "bytes32 (word_of_nat (4 + code_size (program dfa)))"
  have "bytes_at (pre @ (?h @ encode (node_offset dfa (length pre + 4)) (program dfa)) @ post) (length pre)
      (?h @ encode (node_offset dfa (length pre + 4)) (program dfa))" by (rule bytes_at_appendI)
  then have b: "bytes_at bc (length pre) ?h" "bytes_at bc (length pre + 4) (encode (node_offset dfa (length pre + 4)) (program dfa))"
    by (simp_all add: assms(1) segment_def bytes_at_append)
  show "dfa_at bc (length pre) dfa" using b(2) assms(2) by (simp add: dfa_at_def code_at_def)
  have "4 + code_size (program dfa) < 2 ^ LENGTH(32)" using assms by (simp add: max_u32_def)
  then have "unat (word_of_nat (4 + code_size (program dfa)) :: u32) = 4 + code_size (program dfa)" by (simp only: unat_of_nat mod_less)
  then show "\<exists>w. read32 bc (length pre) = Some w \<and> unat w = 4 + code_size (program dfa)" using read32_bytes32 [OF b(1)] by blast
qed

text \<open>The root comes first in the program.\<close>

lemma root_offset: "dfa_wf dfa \<Longrightarrow> transitions_offset dfa base (root dfa) = base + code_size (action_instrs dfa (nodes dfa ! root dfa))"
  by (simp add: transitions_offset_def node_offset_def entry_offset_def entry_size_def node_order_def)

lemma root_code:
  assumes "dfa_wf dfa" "dfa_at bc start dfa"
  shows "\<exists>rest. code_at bc (node_offset dfa (start + 4)) (start + 4)
    (map act_instr (node_actions dfa (nodes dfa ! root dfa)) @ transition_instrs dfa (nodes dfa ! root dfa) @ rest)"
proof -
  have "program dfa = block dfa (root dfa) @ concat (map (block dfa) (filter (\<lambda>i. i \<noteq> root dfa) [0..<length (nodes dfa)]))"
    by (simp add: program_def node_order_def)
  then show ?thesis using assms by (auto simp: dfa_at_def block_def Let_def action_instrs_def dfa_wf_def)
qed

lemma terminated_url:
  assumes "0 \<notin> set url" "j < length (url @ [0 :: u8])"
  shows "(url @ [0]) ! j = 0 \<longleftrightarrow> Suc j = length (url @ [0])"
  using assms by (auto simp: nth_append) (metis nth_mem)

lemma interpretDFA_simulate:
  assumes "dfa_ok dfa" "dfa_at bc start dfa" "0 \<notin> set url"
  shows "interpretDFA bc (url @ [0]) flags (transitions_offset dfa (start + 4) (root dfa)) acts
    = Some (simulate flags dfa (root dfa) (terminated url) acts)"
proof -
  have wf: "dfa_wf dfa" using assms(1) by (simp add: dfa_ok_def)
  show ?thesis
    unfolding interpretDFA_def using run_simulate [OF assms(1,2) root_alive [OF wf], of 0 "url @ [0]"] terminated_url [OF assms(3)]
    by (simp add: terminated_def)
qed

text \<open>The automata after the first.\<close>

lemma interpretDFAs_rest:
  assumes "\<forall>dfa \<in> set dfas. dfa_ok dfa" "0 \<notin> set url" "pre \<noteq> []" "bc = pre @ segments (length pre) dfas" "length bc < max_u32"
  shows "interpretDFAs bc (url @ [0]) flags (length pre) acts = Some (fold (run_dfa flags url False) dfas acts)"
  using assms
proof (induction dfas arbitrary: pre acts)
  case Nil
  then show ?case by (subst interpretDFAs.simps) simp
next
  case (Cons dfa dfas)
  let ?start = "length pre"
  have ok: "dfa_ok dfa" and wf: "dfa_wf dfa" using Cons.prems(1) by (auto simp: dfa_ok_def)
  have bc: "bc = pre @ segment ?start dfa @ segments (?start + 4 + code_size (program dfa)) dfas"
    using Cons.prems(4) by simp
  note S = segment_at [OF bc Cons.prems(5)]
  let ?ra = "node_actions dfa (nodes dfa ! root dfa)"
  obtain rest where code: "code_at bc (node_offset dfa (?start + 4)) (?start + 4)
      (map act_instr ?ra @ transition_instrs dfa (nodes dfa ! root dfa) @ rest)" using root_code [OF wf S(1)] by blast
  have run: "interpretDFA bc (url @ [0]) flags (?start + 4) acts = Some (run_dfa flags url False dfa acts)"
  proof -
    have "interpretDFA bc (url @ [0]) flags (?start + 4) acts
      = interpretDFA bc (url @ [0]) flags (transitions_offset dfa (?start + 4) (root dfa)) (fold (perform flags) ?ra acts)"
      unfolding interpretDFA_def using run_actions [OF code] by (simp add: root_offset [OF wf] action_instrs_def)
    then show ?thesis
      using interpretDFA_simulate [OF ok S(1) Cons.prems(2)] by (simp add: run_dfa_def root_actions_def)
  qed
  obtain w where w: "read32 bc ?start = Some w" "unat w = 4 + code_size (program dfa)" using S(2) by blast
  have len: "length bc = ?start + 4 + code_size (program dfa) + total_size dfas" using bc by simp
  have pcs: "pc_add ?start 4 = ?start + 4" "pc_add ?start (4 + code_size (program dfa)) = ?start + 4 + code_size (program dfa)"
    using Cons.prems(5) len by (simp_all add: pc_add_def max_u32_def)
  have "interpretDFAs bc (url @ [0]) flags (?start + 4 + code_size (program dfa)) (run_dfa flags url False dfa acts)
      = Some (fold (run_dfa flags url False) dfas (run_dfa flags url False dfa acts))"
    using Cons.IH [of "pre @ segment ?start dfa" "run_dfa flags url False dfa acts"] Cons.prems bc by (simp add: add.assoc)
  then show ?case using Cons.prems(3) len run w pcs by (subst interpretDFAs.simps) simp
qed

section \<open>The first automaton\<close>

text \<open>The byte after the actions of the root is the opcode of a check, a jump or a terminate.\<close>

lemma transition_opcode:
  assumes "code_at bc off p (transition_instrs dfa node @ rest)"
  shows "\<exists>b. vec_at bc p = Some b \<and> b \<noteq> opcode AppendAction \<and> b \<noteq> opcode TestFlagsAndAppendAction"
proof -
  have "transition_instrs dfa node \<noteq> []" by (simp add: transition_instrs_def)
  then obtain ins ts where i: "transition_instrs dfa node = ins # ts" "ins \<in> set (transition_instrs dfa node)"
    by (metis list.exhaust list.set_intros(1))
  have enc: "\<exists>b bs. enc off ins = b # bs \<and> b \<noteq> opcode AppendAction \<and> b \<noteq> opcode TestFlagsAndAppendAction"
    using i(2) by (auto simp: transition_instrs_def range_instr_def split: option.splits)
  have "bytes_at bc p (enc off ins)" using assms i(1) by (simp add: code_at_Cons)
  then show ?thesis using enc vec_at_bytes by metis
qed

lemma act_instr_flag:
  "flagged a \<Longrightarrow> act_instr a = TestI (ucast (drop_bit 32 a)) (ucast a)"
  "\<not> flagged a \<Longrightarrow> act_instr a = AppendI (ucast a)"
  by (simp_all add: act_instr_def flagged_def)

lemma skip_actions:
  assumes "code_at bc off p (map act_instr as @ transition_instrs dfa node @ rest)"
    and "p + code_size (map act_instr as) < len"
  shows "skipAppendActions bc len (p, acts) = Some (p + code_size (map act_instr as),
      fold (\<lambda>a acts. if flagged a then acts else hs_add (location a) acts) as acts)"
  using assms
proof (induction as arbitrary: p acts)
  case Nil
  obtain b where "vec_at bc p = Some b" "b \<noteq> opcode AppendAction" "b \<noteq> opcode TestFlagsAndAppendAction"
    using transition_opcode [of bc off p dfa node rest] Nil.prems(1) by auto
  then show ?case using Nil.prems(2) by (subst skipAppendActions.simps) simp
next
  case (Cons a as)
  have c: "code_at bc off p (act_instr a # map act_instr as @ transition_instrs dfa node @ rest)" using Cons.prems(1) by simp
  have "code_at bc off (p + isize (act_instr a)) (map act_instr as @ transition_instrs dfa node @ rest)"
    using c by (simp only: code_at_Cons)
  note IH = Cons.IH [OF this]
  have small: "p + isize (act_instr a) < 4294967296" using code_at_small [OF c] by simp
  have b: "bytes_at bc p (enc off (act_instr a))" using c by (simp only: code_at_Cons)
  have lt: "p < len" using Cons.prems(2) by simp
  show ?case
  proof (cases "flagged a")
    case True
    then have "bytes_at bc p (opcode TestFlagsAndAppendAction # bytes16 (ucast (drop_bit 32 a)) @ bytes32 (ucast a))"
      using b by (simp add: act_instr_flag)
    from vec_at_bytes [OF this] show ?thesis
      using True IH lt small Cons.prems(2) by (subst skipAppendActions.simps) (simp add: pc_add_def act_instr_flag add.assoc)
  next
    case False
    then have e: "bytes_at bc p (opcode AppendAction # bytes32 (ucast a))" using b by (simp add: act_instr_flag)
    then have "read32 bc (Suc p) = Some (ucast a)" by (intro read32_bytes32) (simp add: bytes_at_Cons)
    then show ?thesis
      using False IH lt small Cons.prems(2) vec_at_bytes [OF e]
      by (subst skipAppendActions.simps)
        (simp add: pc_add_def act_instr_flag interpretAppendAction_def location_def add.assoc)
  qed
qed

lemma run_root_actions:
  assumes "code_at bc off p (map act_instr as @ transition_instrs dfa node @ rest)"
    and "p + code_size (map act_instr as) < len"
  shows "interpretRootActions bc flags len (p, acts) = Some (p + code_size (map act_instr as),
      fold (perform flags) (filter flagged as) acts)"
  using assms
proof (induction as arbitrary: p acts)
  case Nil
  obtain b where "vec_at bc p = Some b" "b \<noteq> opcode AppendAction" "b \<noteq> opcode TestFlagsAndAppendAction"
    using transition_opcode [of bc off p dfa node rest] Nil.prems(1) by auto
  then show ?case using Nil.prems(2) by (subst interpretRootActions.simps) simp
next
  case (Cons a as)
  have c: "code_at bc off p (act_instr a # map act_instr as @ transition_instrs dfa node @ rest)" using Cons.prems(1) by simp
  have "code_at bc off (p + isize (act_instr a)) (map act_instr as @ transition_instrs dfa node @ rest)"
    using c by (simp only: code_at_Cons)
  note IH = Cons.IH [OF this]
  have small: "p + isize (act_instr a) < 4294967296" using code_at_small [OF c] by simp
  have b: "bytes_at bc p (enc off (act_instr a))" using c by (simp only: code_at_Cons)
  have lt: "p < len" using Cons.prems(2) by simp
  show ?case
  proof (cases "flagged a")
    case False
    then have "bytes_at bc p (opcode AppendAction # bytes32 (ucast a))" using b by (simp add: act_instr_flag)
    from vec_at_bytes [OF this] show ?thesis
      using False IH lt small Cons.prems(2) by (subst interpretRootActions.simps) (simp add: pc_add_def act_instr_flag add.assoc)
  next
    case True
    then have e: "bytes_at bc p (opcode TestFlagsAndAppendAction # bytes16 (ucast (drop_bit 32 a)) @ bytes32 (ucast a))"
      using b by (simp add: act_instr_flag)
    then have "bytes_at bc (Suc p) (bytes16 (ucast (drop_bit 32 a)))" "bytes_at bc (p + 3) (bytes32 (ucast a))"
      by (simp_all add: bytes_at_Cons bytes_at_append numeral_3_eq_3)
    then have "read16 bc (Suc p) = Some (ucast (drop_bit 32 a))" "read32 bc (p + 3) = Some (ucast a)"
      by (simp_all only: read16_bytes16 read32_bytes32)
    moreover have "interpretTestFlagsAndAppendAction bc flags p acts = Some (p + 7, perform flags a acts)"
      using calculation small True act_instr_flag(1) [OF True] by (simp add: interpretTestFlagsAndAppendAction_def pc_add_def perform_def flagged_def passes_def location_def)
    ultimately show ?thesis
      using True IH lt small Cons.prems(2) vec_at_bytes [OF e]
      by (subst interpretRootActions.simps) (simp add: act_instr_flag add.assoc)
  qed
qed

lemma transition_instrs_pos: "0 < code_size (transition_instrs dfa node)"
  by (auto simp: transition_instrs_def split: option.splits)

lemma root_actions_small:
  assumes "dfa_wf dfa"
  shows "code_size (map act_instr (node_actions dfa (nodes dfa ! root dfa))) < code_size (program dfa)"
proof -
  have "program dfa = block dfa (root dfa) @ concat (map (block dfa) (filter (\<lambda>i. i \<noteq> root dfa) [0..<length (nodes dfa)]))"
    by (simp add: program_def node_order_def)
  then show ?thesis using assms transition_instrs_pos [of dfa "nodes dfa ! root dfa"]
    by (simp add: block_def Let_def action_instrs_def dfa_wf_def)
qed

text \<open>The bytecode of a list of automata, and what the interpreter makes of it.\<close>

fun run_dfas :: "u16 \<Rightarrow> u8 list \<Rightarrow> DFA list \<Rightarrow> u64 list" where
  "run_dfas flags url [] = []"
| "run_dfas flags url (dfa # dfas) = fold (run_dfa flags url False) dfas (run_dfa flags url True dfa [])"

lemma interpret_segments:
  assumes ok: "\<forall>dfa \<in> set dfas. dfa_ok dfa" and url: "0 \<notin> set url" and size: "total_size dfas < max_u32"
  shows "interpret_bytecode (segments 0 dfas) url flags = Some (run_dfas flags url dfas)"
proof (cases dfas)
  case Nil
  then show ?thesis by (simp add: interpret_bytecode_def) (subst interpretDFAs.simps, simp)
next
  case (Cons dfa rest)
  let ?bc = "segments 0 dfas" and ?ra = "node_actions dfa (nodes dfa ! root dfa)"
  have bc: "?bc = [] @ segment (length ([] :: u8 list)) dfa @ segments (4 + code_size (program dfa)) rest"
    using Cons by simp
  have len: "length ?bc < max_u32" using size by simp
  note S = segment_at [OF bc len]
  obtain w where w: "read32 ?bc 0 = Some w" "unat w = 4 + code_size (program dfa)" using S(2) by auto
  have d: "dfa_ok dfa" "dfa_wf dfa" using ok Cons by (auto simp: dfa_ok_def)
  obtain more where code: "code_at ?bc (node_offset dfa 4) 4
      (map act_instr ?ra @ transition_instrs dfa (nodes dfa ! root dfa) @ more)" using root_code [OF d(2) S(1)] by auto
  have small: "4 + code_size (map act_instr ?ra) < 4 + code_size (program dfa)" using root_actions_small [OF d(2)] by simp
  note root = run_root_actions [OF code small, of flags "[]"]
  let ?acts = "fold (perform flags) (filter flagged ?ra) []"
  have run: "interpretDFA ?bc (url @ [0]) flags (4 + code_size (map act_instr ?ra)) ?acts = Some (run_dfa flags url True dfa [])"
    using interpretDFA_simulate [OF d(1) S(1) url, of flags ?acts] root_offset [OF d(2), of 4]
    by (simp add: run_dfa_def root_actions_def action_instrs_def)
  have ne: "segment 0 dfa \<noteq> []" using length_segment [of 0 dfa] by (metis add_is_0 list.size(3) zero_neq_numeral)
  have rest: "interpretDFAs ?bc (url @ [0]) flags (4 + code_size (program dfa)) acts
      = Some (fold (run_dfa flags url False) rest acts)" for acts
    using interpretDFAs_rest [of rest url "segment 0 dfa" ?bc flags acts] ok Cons url len ne by simp
  have "4 + code_size (map act_instr ?ra) < length ?bc" using small Cons by (simp add: total_size_def)
  moreover have "pc_add 0 (4 + code_size (program dfa)) = 4 + code_size (program dfa)" "pc_add 0 4 = 4"
    using size Cons by (simp_all add: pc_add_def max_u32_def total_size_def)
  ultimately show ?thesis using w root run rest Cons
    unfolding interpret_bytecode_def by (subst interpretDFAs.simps) simp
qed

lemma root_of_segments:
  assumes ok: "\<forall>dfa \<in> set (dfa # dfas). dfa_ok dfa" and size: "total_size (dfa # dfas) < max_u32"
  shows "\<exists>acts. actionsFromDFARoot (segments 0 (dfa # dfas)) = Some acts
    \<and> set acts = {location a | a. a \<in> state_actions dfa (root dfa) \<and> \<not> flagged a}"
proof -
  let ?bc = "segments 0 (dfa # dfas)" and ?ra = "node_actions dfa (nodes dfa ! root dfa)"
  have bc: "?bc = [] @ segment (length ([] :: u8 list)) dfa @ segments (4 + code_size (program dfa)) dfas" by simp
  have len: "length ?bc < max_u32" using size by (simp add: total_size_def)
  note S = segment_at [OF bc len]
  obtain w where w: "read32 ?bc 0 = Some w" "unat w = 4 + code_size (program dfa)" using S(2) by auto
  have d: "dfa_ok dfa" "dfa_wf dfa" using ok by (auto simp: dfa_ok_def)
  obtain more where code: "code_at ?bc (node_offset dfa 4) 4
      (map act_instr ?ra @ transition_instrs dfa (nodes dfa ! root dfa) @ more)" using root_code [OF d(2) S(1)] by auto
  have small: "4 + code_size (map act_instr ?ra) < 4 + code_size (program dfa)" using root_actions_small [OF d(2)] by simp
  have f: "set (fold (\<lambda>a acts. if flagged a then acts else hs_add (location a) acts) as acts)
      = set acts \<union> {location a | a. a \<in> set as \<and> \<not> flagged a}" for as acts
    by (induction as arbitrary: acts) (auto simp: hs_simps)
  show ?thesis
    using w skip_actions [OF code small, of "[]"] f [of ?ra "[]"]
    by (simp del: segments.simps add: actionsFromDFARoot_def state_actions_def)
qed

lemma set_run_dfas:
  "set (run_dfas flags url (dfa # dfas)) = matched_actions flags url True dfa \<union> (\<Union>d \<in> set dfas. matched_actions flags url False d)"
proof -
  have "set (fold (run_dfa flags url False) ds acts) = set acts \<union> (\<Union>d \<in> set ds. matched_actions flags url False d)" for ds acts
    by (induction ds arbitrary: acts) (auto simp: set_run_dfa)
  then show ?thesis by (simp add: set_run_dfa)
qed

section \<open>The size of the code\<close>

lemma fold_rangeStep_length: "length (fst (snd (fold rangeStep xs st))) \<le> length (fst (snd st)) + length xs"
proof (induction xs arbitrary: st)
  case (Cons x xs)
  have "length (fst (snd (rangeStep x st))) \<le> Suc (length (fst (snd st)))"
    by (cases st) (auto simp: rangeStep_def Let_def split: option.split prod.split)
  with Cons.IH [of "rangeStep x st"] show ?case by simp
qed simp

lemma nodeRanges_length: "length (nodeRanges D) \<le> 129"
proof -
  have "length (fst (snd (fold rangeStep [0..<128] (D, [], None)))) \<le> 128"
    using fold_rangeStep_length [of "[0..<128]" "(D, [], None)"] by (simp del: upt_rec_numeral)
  then show ?thesis by (auto simp: nodeRanges_def split: prod.split option.split simp del: upt_rec_numeral)
qed

lemma code_size_bound: "\<forall>i \<in> set is. isize i \<le> 7 \<Longrightarrow> code_size is \<le> 7 * length is"
  by (induction "is") auto

text \<open>Each node takes at most seven bytes for each of its actions, 129 checks and a jump.\<close>

definition size_bound :: "DFA \<Rightarrow> nat" where
  "size_bound dfa = sum_list (map (\<lambda>node. 7 * m_actionsLength node + 908) (nodes dfa))"

lemma block_size:
  assumes "i < length (nodes dfa)"
  shows "code_size (block dfa i) \<le> 7 * m_actionsLength (nodes dfa ! i) + 908"
proof -
  let ?node = "nodes dfa ! i"
  have "isize (range_instr r) \<le> 7" "isize (act_instr a) \<le> 7" for r a by (auto simp: range_instr_def act_instr_def)
  then have "code_size (map range_instr rs) \<le> 7 * length rs" "code_size (map act_instr as) \<le> 7 * length as" for rs as
    using code_size_bound [of "map range_instr rs"] code_size_bound [of "map act_instr as"] by auto
  then have "code_size (map range_instr (nodeRanges (destinations_of dfa ?node))) \<le> 903"
    "code_size (action_instrs dfa ?node) \<le> 7 * length (node_actions dfa ?node)"
    using nodeRanges_length [of "destinations_of dfa ?node"]
    by (auto simp: action_instrs_def intro: order_trans [of _ "7 * length (nodeRanges (destinations_of dfa ?node))"])
  moreover have "length (node_actions dfa ?node) \<le> m_actionsLength ?node"
    by (simp add: node_actions_def window_def)
  moreover have "isize (case node_fallback dfa ?node of None \<Rightarrow> TerminateI | Some t \<Rightarrow> JumpI t) \<le> 5" by (simp split: option.split)
  ultimately show ?thesis by (simp add: block_def transition_instrs_def Let_def)
qed

lemma program_size: "dfa_wf dfa \<Longrightarrow> code_size (program dfa) \<le> size_bound dfa"
proof -
  assume wf: "dfa_wf dfa"
  let ?f = "\<lambda>i. 7 * m_actionsLength (nodes dfa ! i) + 908"
  have ord: "set (node_order dfa) = {..<length (nodes dfa)}" "distinct (node_order dfa)" using node_order_mem [OF wf] by auto
  have "code_size (concat (map (block dfa) is)) \<le> sum_list (map ?f is)" if "set is \<subseteq> {..<length (nodes dfa)}" for "is"
    using that
  proof (induction "is")
    case (Cons i "is")
    then show ?case using block_size [of i dfa] by simp
  qed simp
  then have "code_size (program dfa) \<le> sum_list (map ?f (node_order dfa))" using ord(1) by (simp add: program_def)
  also have "\<dots> = sum ?f {..<length (nodes dfa)}" using ord by (metis sum.distinct_set_conv_list)
  also have "\<dots> = size_bound dfa"
    unfolding size_bound_def by (simp add: sum_list_sum_nth atLeast0LessThan)
  finally show ?thesis .
qed

lemma total_size_bound:
  assumes "\<forall>dfa \<in> set dfas. dfa_ok dfa"
  shows "total_size dfas \<le> sum_list (map (\<lambda>dfa. 4 + size_bound dfa) dfas)"
  using assms
proof (induction dfas)
  case (Cons dfa dfas)
  then show ?case using program_size [of dfa] by (simp add: total_size_def dfa_ok_def)
qed (simp add: total_size_def)

section \<open>Compiling and interpreting\<close>

text \<open>C4.
  For well-formed automata whose code is shorter than \<^verbatim>\<open>2^32 - 1\<close> bytes, the compiler returns
  bytecode, and interpreting it on any URL and any flags returns: the result are the locations of the
  actions, passing the test of their flags, of the nodes that the prefixes of the URL and its
  terminator reach in each automaton, except the unconditional actions of the root of the first one.
\<close>

theorem compile_interpret_correct:
  assumes "\<forall>dfa \<in> set (dfa # dfas). dfa_ok dfa" "total_size (dfa # dfas) < max_u32" "0 \<notin> set url"
  shows "\<exists>bc acts. foldM compile_dfa (dfa # dfas) [] = Some bc \<and> interpret_bytecode bc url flags = Some acts
    \<and> set acts = matched_actions flags url True dfa \<union> (\<Union>d \<in> set dfas. matched_actions flags url False d)"
proof (intro exI conjI)
  show "foldM compile_dfa (dfa # dfas) [] = Some (segments 0 (dfa # dfas))"
    using compile_dfas [of "dfa # dfas" "[]"] assms(1,2) by (simp add: dfa_ok_def)
  show "interpret_bytecode (segments 0 (dfa # dfas)) url flags = Some (run_dfas flags url (dfa # dfas))"
    by (rule interpret_segments [OF assms(1,3,2)])
qed (rule set_run_dfas)

text \<open>C8.
  Under the same bounds, \<^verbatim>\<open>actionsFromDFARoot\<close> returns exactly the locations of the unconditional
  actions of the root of the first automaton.
\<close>

theorem actionsFromDFARoot_correct:
  assumes "\<forall>dfa \<in> set (dfa # dfas). dfa_ok dfa" "total_size (dfa # dfas) < max_u32"
  shows "\<exists>bc acts. foldM compile_dfa (dfa # dfas) [] = Some bc \<and> actionsFromDFARoot bc = Some acts
    \<and> set acts = {location a | a. a \<in> state_actions dfa (root dfa) \<and> \<not> flagged a}"
proof -
  have "foldM compile_dfa (dfa # dfas) [] = Some (segments 0 (dfa # dfas))"
    using compile_dfas [of "dfa # dfas" "[]"] assms(1,2) by (simp add: dfa_ok_def)
  then show ?thesis using root_of_segments [OF assms] by blast
qed

section \<open>A concrete automaton\<close>

text \<open>The automaton of the rule \<^verbatim>\<open>a\<close> with the action location 5.\<close>

definition example_dfa :: DFA where
  "example_dfa = \<lparr>dfa_actions = [5], dfa_transitions = [(97, 1), (255, 0)],
     nodes = [\<lparr>m_actionsStart = 0, m_transitionsStart = 0, m_actionsLength = 0, m_transitionsLength = 1, m_flags = 1\<rparr>,
              \<lparr>m_actionsStart = 0, m_transitionsStart = 2, m_actionsLength = 1, m_transitionsLength = 0, m_flags = 0\<rparr>],
     root = 0\<rparr>"

lemma example_dfa_ok: "dfa_ok example_dfa"
proof -
  let ?n0 = "nodes example_dfa ! 0" and ?n1 = "nodes example_dfa ! 1"
  have t: "node_transitions example_dfa ?n0 = [(97, 1)]" "node_fallback example_dfa ?n0 = Some 0"
    "node_transitions example_dfa ?n1 = []" "node_fallback example_dfa ?n1 = None"
    "node_in_range example_dfa ?n0" "node_in_range example_dfa ?n1" "\<not> isKilled ?n0" "\<not> isKilled ?n1"
    "length (nodes example_dfa) = 2" "root example_dfa = 0" by code_simp+
  have n: "set (nodes example_dfa) = {?n0, ?n1}" by (simp add: example_dfa_def)
  have "dfa_node_wf example_dfa ?n0" "dfa_node_wf example_dfa ?n1" using t by (simp_all add: dfa_node_wf_def)
  then have "dfa_wf example_dfa" unfolding dfa_wf_def n using t by simp
  moreover have "eol_ok example_dfa" unfolding eol_ok_def n using t by (simp add: node_step_def)
  ultimately show ?thesis using t(9) by (simp add: dfa_ok_def max_u32_def)
qed

lemma example_dfa_size: "total_size [example_dfa] < max_u32"
proof -
  have "size_bound example_dfa = 1823" by (simp add: size_bound_def example_dfa_def)
  then have "total_size [example_dfa] \<le> 1827" using total_size_bound [of "[example_dfa]"] example_dfa_ok by simp
  then show ?thesis by (simp add: max_u32_def)
qed

theorem compile_interpret_correct_witness:
  "\<exists>bc acts. foldM compile_dfa [example_dfa] [] = Some bc \<and> interpret_bytecode bc [98, 97] 0 = Some acts
    \<and> set acts = matched_actions 0 [98, 97] True example_dfa"
  using compile_interpret_correct [of example_dfa "[]" "[98, 97]" 0] example_dfa_ok example_dfa_size by simp

theorem actionsFromDFARoot_correct_witness:
  "\<exists>bc acts. foldM compile_dfa [example_dfa] [] = Some bc \<and> actionsFromDFARoot bc = Some acts
    \<and> set acts = {location a | a. a \<in> state_actions example_dfa (root example_dfa) \<and> \<not> flagged a}"
  using actionsFromDFARoot_correct [of example_dfa "[]"] example_dfa_ok example_dfa_size by simp

end
