(* ===== verification/Term.thy ===== *)
theory Term
  imports ASCIICType
begin

text \<open>
  \<^verbatim>\<open>Source/WebCore/contentextensions/Term.h\<close>: the terms of a URL filter. A term is an atom (a
  character set or a group of terms) with a quantifier. The 128 bit \<^verbatim>\<open>BitVector\<close> of a character
  set is a 128 bit word. This theory holds the term operations that do not touch an NFA, the
  language a term stands for, and what the static predicates promise about that language.
\<close>

section \<open>The bit vector of a character set\<close>

definition bv_set :: "nat \<Rightarrow> 128 word \<Rightarrow> 128 word" where
  "bv_set i w = w OR push_bit i 1"

definition setBits :: "128 word \<Rightarrow> nat list" where
  "setBits w = filter (bit w) [0..<128]"

definition bitCount :: "128 word \<Rightarrow> nat" where
  "bitCount w = length (setBits w)"

lemma bit_bv_set: "i < 128 \<Longrightarrow> bit (bv_set i w) c \<longleftrightarrow> c = i \<or> bit w c"
  by (auto simp: bv_set_def bit_simps)

lemma bit128_lt: "bit (w :: 128 word) c \<Longrightarrow> c < 128"
  using bit_imp_le_length [of w c] by simp

lemma set_setBits [simp]: "set (setBits w) = {c. bit w c}"
  by (auto simp: setBits_def dest: bit128_lt)

lemma bitCount_full: "bitCount w = 128 \<longleftrightarrow> (\<forall>c < 128. bit w c)"
proof -
  have "length (filter (bit w) [0..<128]) = length [0..<128] \<longleftrightarrow> (\<forall>c \<in> set [0..<128]. bit w c)"
    by (metis filter_True length_filter_less linorder_less_linear order_less_irrefl)
  then show ?thesis by (auto simp: bitCount_def setBits_def)
qed

lemma bitCount_zero: "bitCount w = 0 \<longleftrightarrow> (\<forall>c. \<not> bit w c)"
  by (metis bitCount_def Collect_empty_eq length_0_conv set_empty set_setBits)

lemma bitCount_one: "bitCount w = 1 \<Longrightarrow> bit w i \<Longrightarrow> bit w c \<longleftrightarrow> c = i"
proof -
  assume "bitCount w = 1" "bit w i"
  then obtain x where x: "setBits w = [x]" by (auto simp: bitCount_def length_Suc_conv)
  then have "{c. bit w c} = {x}" by (metis set_setBits list.simps(15) empty_set)
  then show ?thesis using \<open>bit w i\<close> by (metis mem_Collect_eq singletonD)
qed

section \<open>Terms\<close>

datatype AtomQuantifier = One | ZeroOrOne | ZeroOrMore | OneOrMore

datatype Term =
    EmptyTerm AtomQuantifier
  | DeletedTerm AtomQuantifier
  | CharacterSet AtomQuantifier bool "128 word"
  | Group AtomQuantifier "Term list"

text \<open>The constructors of the class.\<close>

definition new_Term :: Term where
  "new_Term = EmptyTerm One"

definition new_CharacterSetTerm :: "bool \<Rightarrow> Term" where
  "new_CharacterSetTerm isInverted = CharacterSet One isInverted 0"

definition new_UniversalTransition :: Term where
  "new_UniversalTransition = CharacterSet One False (fold bv_set [0..<128] 0)"

definition new_GroupTerm :: Term where
  "new_GroupTerm = Group One []"

definition new_EndOfLineAssertionTerm :: Term where
  "new_EndOfLineAssertionTerm = CharacterSet One False (bv_set 0 0)"

fun isValid :: "Term \<Rightarrow> bool" where
  "isValid (EmptyTerm q) = False"
| "isValid (DeletedTerm q) = False"
| "isValid t = True"

fun m_quantifier :: "Term \<Rightarrow> AtomQuantifier" where
  "m_quantifier (EmptyTerm q) = q"
| "m_quantifier (DeletedTerm q) = q"
| "m_quantifier (CharacterSet q i w) = q"
| "m_quantifier (Group q ts) = q"

fun addCharacter :: "Term \<Rightarrow> u16 \<Rightarrow> bool \<Rightarrow> Term" where
  "addCharacter (CharacterSet q inverted characters) character isCaseSensitive =
     (if isCaseSensitive \<or> \<not> isASCIIAlpha character
      then CharacterSet q inverted (bv_set (unat character) characters)
      else CharacterSet q inverted
        (bv_set (unat (toASCIILower character)) (bv_set (unat (toASCIIUpper character)) characters)))"
| "addCharacter t character isCaseSensitive = t"

definition new_CharacterTerm :: "u8 \<Rightarrow> bool \<Rightarrow> Term" where
  "new_CharacterTerm character isCaseSensitive =
     addCharacter (CharacterSet One False 0) (scast character) isCaseSensitive"

fun extendGroupSubpattern :: "Term \<Rightarrow> Term \<Rightarrow> Term" where
  "extendGroupSubpattern (Group q terms) term = Group q (terms @ [term])"
| "extendGroupSubpattern t term = t"

fun quantify :: "Term \<Rightarrow> AtomQuantifier \<Rightarrow> Term" where
  "quantify (EmptyTerm _) q = EmptyTerm q"
| "quantify (DeletedTerm _) q = DeletedTerm q"
| "quantify (CharacterSet _ i w) q = CharacterSet q i w"
| "quantify (Group _ ts) q = Group q ts"

fun isEndOfLineAssertion :: "Term \<Rightarrow> bool" where
  "isEndOfLineAssertion (CharacterSet q inverted characters) \<longleftrightarrow>
     bitCount characters = 1 \<and> bit characters 0"
| "isEndOfLineAssertion t \<longleftrightarrow> False"

fun matchesAtLeastOneCharacter :: "Term \<Rightarrow> bool" where
  "matchesAtLeastOneCharacter t =
     (if m_quantifier t = ZeroOrOne \<or> m_quantifier t = ZeroOrMore then False
      else if isEndOfLineAssertion t then False
      else case t of Group q terms \<Rightarrow> list_ex matchesAtLeastOneCharacter terms | _ \<Rightarrow> True)"

fun isUniversalTransition :: "Term \<Rightarrow> bool" where
  "isUniversalTransition (CharacterSet q inverted characters) \<longleftrightarrow>
     (inverted \<and> bitCount characters = 0) \<or> (\<not> inverted \<and> bitCount characters = 128)"
| "isUniversalTransition (Group q [t]) \<longleftrightarrow> isUniversalTransition t"
| "isUniversalTransition t \<longleftrightarrow> False"

fun isKnownToMatchAnyString :: "Term \<Rightarrow> bool" where
  "isKnownToMatchAnyString (CharacterSet q inverted characters) \<longleftrightarrow>
     isUniversalTransition (CharacterSet q inverted characters) \<and> q = ZeroOrMore"
| "isKnownToMatchAnyString (Group q [first]) \<longleftrightarrow>
     isKnownToMatchAnyString first
     \<or> (isUniversalTransition first
        \<and> (q = ZeroOrMore
           \<or> (q = ZeroOrOne \<and> m_quantifier first = OneOrMore)
           \<or> (q = OneOrMore \<and> m_quantifier first = ZeroOrOne)))"
| "isKnownToMatchAnyString t \<longleftrightarrow> False"

fun hasFixedLength :: "Term \<Rightarrow> bool" where
  "hasFixedLength (CharacterSet q i w) \<longleftrightarrow> q = One"
| "hasFixedLength (Group q terms) \<longleftrightarrow> q = One \<and> list_all hasFixedLength terms"
| "hasFixedLength t \<longleftrightarrow> False"

text \<open>\<^verbatim>\<open>operator==\<close>, \<^verbatim>\<open>destroy\<close> and the move constructor (which destroys its source).\<close>

fun term_eq :: "Term \<Rightarrow> Term \<Rightarrow> bool" where
  "term_eq (EmptyTerm q) (EmptyTerm q') \<longleftrightarrow> q = q'"
| "term_eq (DeletedTerm q) (DeletedTerm q') \<longleftrightarrow> q = q'"
| "term_eq (CharacterSet q i w) (CharacterSet q' i' w') \<longleftrightarrow> q = q' \<and> i' = i \<and> w' = w"
| "term_eq (Group q ts) (Group q' ts') \<longleftrightarrow> q = q' \<and> list_all2 term_eq ts ts'"
| "term_eq t t' \<longleftrightarrow> False"

definition destroy :: "Term \<Rightarrow> Term" where
  "destroy t = DeletedTerm (m_quantifier t)"

definition move_Term :: "Term \<Rightarrow> Term \<times> Term" where
  "move_Term other = (other, destroy other)"

definition isEmptyValue :: "Term \<Rightarrow> bool" where
  "isEmptyValue t \<longleftrightarrow> (case t of EmptyTerm q \<Rightarrow> True | _ \<Rightarrow> False)"

definition isDeletedValue :: "Term \<Rightarrow> bool" where
  "isDeletedValue t \<longleftrightarrow> (case t of DeletedTerm q \<Rightarrow> True | _ \<Rightarrow> False)"

section \<open>The language of a term\<close>

text \<open>
  Characters are numbers; 0 is the terminator of the URL string, which only the end of line
  assertion reads. A universal character set matches every character but the terminator.
\<close>

type_synonym lang = "nat list set"

definition conc :: "lang \<Rightarrow> lang \<Rightarrow> lang" where
  "conc A B = {u @ v | u v. u \<in> A \<and> v \<in> B}"

inductive_set lstar :: "lang \<Rightarrow> lang" for A :: lang where
  lstar_Nil: "[] \<in> lstar A"
| lstar_snoc: "u \<in> lstar A \<Longrightarrow> v \<in> A \<Longrightarrow> u @ v \<in> lstar A"

fun quant_lang :: "AtomQuantifier \<Rightarrow> lang \<Rightarrow> lang" where
  "quant_lang One A = A"
| "quant_lang ZeroOrOne A = insert [] A"
| "quant_lang ZeroOrMore A = lstar A"
| "quant_lang OneOrMore A = conc (lstar A) A"

definition charset_matches :: "bool \<Rightarrow> 128 word \<Rightarrow> nat \<Rightarrow> bool" where
  "charset_matches inverted characters c \<longleftrightarrow>
     (if isUniversalTransition (CharacterSet One inverted characters) then c \<noteq> 0
      else if inverted then 1 \<le> c \<and> c < 128 \<and> \<not> bit characters c
      else bit characters c)"

fun term_lang :: "Term \<Rightarrow> lang" where
  "term_lang (EmptyTerm q) = {}"
| "term_lang (DeletedTerm q) = {}"
| "term_lang (CharacterSet q inverted characters) =
     quant_lang q {[c] | c. charset_matches inverted characters c}"
| "term_lang (Group q terms) = quant_lang q (foldr (\<lambda>t L. conc (term_lang t) L) terms {[]})"

abbreviation terms_lang :: "Term list \<Rightarrow> lang" where
  "terms_lang ts \<equiv> foldr (\<lambda>t L. conc (term_lang t) L) ts {[]}"

section \<open>Languages\<close>

lemma conc_Nil [simp]: "conc A {[]} = A" "conc {[]} A = A"
  by (auto simp: conc_def)

lemma conc_empty [simp]: "conc {} A = {}" "conc A {} = {}"
  by (auto simp: conc_def)

lemma concI: "u \<in> A \<Longrightarrow> v \<in> B \<Longrightarrow> u @ v \<in> conc A B"
  by (auto simp: conc_def)

lemma concE: "w \<in> conc A B \<Longrightarrow> (\<And>u v. w = u @ v \<Longrightarrow> u \<in> A \<Longrightarrow> v \<in> B \<Longrightarrow> P) \<Longrightarrow> P"
  by (auto simp: conc_def)

lemma conc_assoc: "conc (conc A B) C = conc A (conc B C)"
proof -
  have "w \<in> conc (conc A B) C \<longleftrightarrow> w \<in> conc A (conc B C)" for w
    unfolding conc_def by simp (metis append.assoc)
  then show ?thesis by blast
qed

lemma terms_lang_append: "terms_lang (ts @ us) = conc (terms_lang ts) (terms_lang us)"
  by (induction ts) (auto simp: conc_assoc)

lemma lstar_one: "u \<in> A \<Longrightarrow> u \<in> lstar A"
  using lstar_snoc [OF lstar_Nil, of u A] by simp

lemma lstar_append: "u \<in> lstar A \<Longrightarrow> v \<in> lstar A \<Longrightarrow> u @ v \<in> lstar A"
  by (rotate_tac 1, induction rule: lstar.induct) (auto simp flip: append_assoc intro: lstar.intros)

lemma lstar_mono: "A \<subseteq> B \<Longrightarrow> u \<in> lstar A \<Longrightarrow> u \<in> lstar B"
  by (rotate_tac, induction rule: lstar.induct) (auto intro: lstar.intros)

lemma lstar_all_chars:
  "(\<And>c. c \<in> set w \<Longrightarrow> [c] \<in> A) \<Longrightarrow> w \<in> lstar A"
  by (induction w rule: rev_induct) (auto intro: lstar.intros)

lemma lstar_unfold: "lstar A = insert [] (conc (lstar A) A)"
  by (auto simp: conc_def intro: lstar.intros elim: lstar.cases)

lemma singleton_in_quant: "[c] \<in> A \<Longrightarrow> [c] \<in> quant_lang q A"
  by (cases q) (auto simp: conc_def intro: lstar_one exI [of _ "[]"] lstar_Nil)

text \<open>\<^verbatim>\<open>operator==\<close> is equality of terms.\<close>

lemma term_eq_iff: "term_eq s t \<longleftrightarrow> s = t"
proof (induction s arbitrary: t)
  case (Group q ts)
  show ?case
  proof (cases t)
    case (Group q' ts')
    have "list_all2 term_eq ts ts' \<longleftrightarrow> list_all2 (=) ts ts'"
      using Group.IH by (auto simp: list_all2_conv_all_nth)
    then show ?thesis using Group by (simp add: list.rel_eq)
  qed auto
qed (case_tac t; auto)+

section \<open>What the static predicates promise\<close>

lemma universal_matches: "isUniversalTransition (CharacterSet q i w) \<Longrightarrow> charset_matches i w c \<longleftrightarrow> c \<noteq> 0"
  by (simp add: charset_matches_def)

lemma universal_single:
  "isUniversalTransition t \<Longrightarrow> c \<noteq> 0 \<Longrightarrow> [c] \<in> term_lang t"
proof (induction t rule: isUniversalTransition.induct)
  case (1 q inverted characters)
  then have "[c] \<in> {[c] | c. charset_matches inverted characters c}"
    by (simp add: universal_matches [OF 1(1)])
  then show ?case by (simp add: singleton_in_quant)
next
  case (2 q t)
  then show ?case by (simp add: singleton_in_quant)
qed auto

lemma universal_quantified:
  assumes "isUniversalTransition t" "w \<noteq> []" "\<forall>c \<in> set w. c \<noteq> 0"
  shows "w \<in> quant_lang OneOrMore (term_lang t)"
proof -
  obtain u c where w: "w = u @ [c]" using assms(2) by (metis rev_exhaust)
  have "u \<in> lstar (term_lang t)"
    using assms(1,3) w by (auto intro: lstar_all_chars universal_single)
  moreover have "[c] \<in> term_lang t" using assms w by (auto intro: universal_single)
  ultimately show ?thesis by (auto simp: w intro: concI)
qed

lemma universal_inner:
  assumes "isUniversalTransition t" "m_quantifier t = OneOrMore" "w \<noteq> []" "\<forall>c \<in> set w. c \<noteq> 0"
  shows "w \<in> term_lang t"
  using assms
proof (cases t rule: isUniversalTransition.cases)
  case (1 q inverted characters)
  with assms have "isUniversalTransition (CharacterSet One inverted characters)" by simp
  from universal_quantified [OF this assms(3,4)] 1 assms(2) show ?thesis by simp
next
  case (2 q t')
  with assms have "isUniversalTransition t'" by simp
  from universal_quantified [OF this assms(3,4)] 2 assms(2) show ?thesis by simp
qed auto

lemma any_string_quant: "(\<forall>w. (\<forall>c \<in> set w. c \<noteq> 0) \<longrightarrow> w \<in> A) \<Longrightarrow> \<forall>c \<in> set w. c \<noteq> 0 \<Longrightarrow> w \<in> quant_lang q A"
proof (cases q)
  case OneOrMore
  assume A: "\<forall>w. (\<forall>c \<in> set w. c \<noteq> 0) \<longrightarrow> w \<in> A" "\<forall>c \<in> set w. c \<noteq> 0"
  then have "[] @ w \<in> conc (lstar A) A" by (intro concI lstar_Nil) simp
  then show ?thesis using OneOrMore by simp
qed (auto intro: lstar_one)

lemma any_string_lang:
  "isKnownToMatchAnyString t \<Longrightarrow> \<forall>c \<in> set w. c \<noteq> 0 \<Longrightarrow> w \<in> term_lang t"
proof (induction t arbitrary: w rule: isKnownToMatchAnyString.induct)
  case (1 q inverted characters)
  then have "w \<in> lstar {[c] | c. charset_matches inverted characters c}"
    by (intro lstar_all_chars) (auto simp: universal_matches)
  with 1 show ?case by simp
next
  case (2 q first)
  consider "isKnownToMatchAnyString first"
    | "isUniversalTransition first" "q = ZeroOrMore"
    | "isUniversalTransition first" "q = ZeroOrOne" "m_quantifier first = OneOrMore"
    | "isUniversalTransition first" "q = OneOrMore" "m_quantifier first = ZeroOrOne"
    using 2(2) by auto
  then show ?case
  proof cases
    case 1
    with 2 show ?thesis by (auto intro: any_string_quant)
  next
    case 2
    with \<open>\<forall>c \<in> set w. c \<noteq> 0\<close> show ?thesis by (auto intro: lstar_all_chars universal_single)
  next
    case 3
    with \<open>\<forall>c \<in> set w. c \<noteq> 0\<close> show ?thesis by (cases "w = []") (auto intro: universal_inner)
  next
    case 4
    have "[] \<in> term_lang first"
      using 4 by (cases first rule: isUniversalTransition.cases) auto
    moreover have "w \<in> lstar (term_lang first)"
      using 4 \<open>\<forall>c \<in> set w. c \<noteq> 0\<close> by (auto intro: lstar_all_chars universal_single)
    ultimately have "w @ [] \<in> conc (lstar (term_lang first)) (term_lang first)" by (rule concI [rotated])
    with 4 show ?thesis by simp
  qed
qed auto

lemma conc_nonempty: "[] \<notin> A \<or> [] \<notin> B \<Longrightarrow> [] \<notin> conc A B"
  by (auto simp: conc_def)

lemma quant_nonempty: "[] \<notin> A \<Longrightarrow> q = One \<or> q = OneOrMore \<Longrightarrow> [] \<notin> quant_lang q A"
  by (auto simp: conc_def)

lemma terms_nonempty: "t \<in> set ts \<Longrightarrow> [] \<notin> term_lang t \<Longrightarrow> [] \<notin> terms_lang ts"
  by (induction ts) (auto simp: conc_def)

lemma matches_at_least_one:
  "isValid t \<Longrightarrow> matchesAtLeastOneCharacter t \<Longrightarrow> [] \<notin> term_lang t"
proof (induction t)
  case (Group q ts)
  then obtain t where t: "t \<in> set ts" "matchesAtLeastOneCharacter t"
    by (auto simp: list_ex_iff split: if_splits)
  have "[] \<notin> term_lang t"
    using Group.IH [OF t(1)] t(2) by (cases t) auto
  then have "[] \<notin> terms_lang ts" using t(1) by (rule terms_nonempty [rotated])
  moreover have "q = One \<or> q = OneOrMore" using Group.prems(2) by (cases q) (auto split: if_splits)
  ultimately show ?case using quant_nonempty [of "terms_lang ts" q] by simp
next
  case (CharacterSet q i w)
  then have "q = One \<or> q = OneOrMore" by (cases q) (auto split: if_splits)
  then show ?case using quant_nonempty [of "{[c] | c. charset_matches i w c}" q] by simp
qed auto

fun term_width :: "Term \<Rightarrow> nat" where
  "term_width (Group q ts) = sum_list (map term_width ts)"
| "term_width t = 1"

lemma fixed_length_width:
  "hasFixedLength t \<Longrightarrow> w \<in> term_lang t \<Longrightarrow> length w = term_width t"
proof (induction t arbitrary: w)
  case (Group q ts)
  have "length w = sum_list (map term_width ts)"
    if "list_all hasFixedLength ts" "w \<in> terms_lang ts" "set ts \<subseteq> set ts'"
      "\<And>t w. t \<in> set ts' \<Longrightarrow> hasFixedLength t \<Longrightarrow> w \<in> term_lang t \<Longrightarrow> length w = term_width t"
    for ts ts' w
    using that by (induction ts arbitrary: w) (auto elim!: concE)
  from this [of ts w ts] Group show ?case by auto
qed auto

text \<open>Case folding of a character added to a set.\<close>

lemma addCharacter_bits:
  assumes "isASCII c"
  shows "\<exists>w'. addCharacter (CharacterSet q i w) c cs = CharacterSet q i w' \<and>
    (\<forall>k. bit w' k \<longleftrightarrow> bit w k \<or> k = unat c
       \<or> (\<not> cs \<and> isASCIIAlpha c \<and> (k = unat (toASCIILower c) \<or> k = unat (toASCIIUpper c))))"
  using ascii_case_conversions [OF assms] assms
  by (auto simp: bit_bv_set isASCII_unat)

section \<open>The static predicates are sound\<close>

text \<open>C9.
  The three predicates that the parser and the prefix tree decide from the shape of a valid term are
  sound for its language: a term that matches at least one character does not match the empty string, a
  term known to match any string matches every string of characters other than the terminator, and all
  the words of a term of fixed length have the same length.
\<close>

theorem term_static_predicates_sound:
  assumes "isValid t"
  shows "(matchesAtLeastOneCharacter t \<longrightarrow> [] \<notin> term_lang t)
    \<and> (isKnownToMatchAnyString t \<longrightarrow> (\<forall>w. 0 \<notin> set w \<longrightarrow> w \<in> term_lang t))
    \<and> (hasFixedLength t \<longrightarrow> (\<forall>v \<in> term_lang t. \<forall>w \<in> term_lang t. length v = length w))"
  using matches_at_least_one [OF assms] any_string_lang [of t] fixed_length_width [of t] by metis

theorem term_static_predicates_sound_witness:
  "[97, 98] \<in> term_lang (quantify (new_CharacterSetTerm True) ZeroOrMore)"
proof -
  let ?t = "quantify (new_CharacterSetTerm True) ZeroOrMore"
  have "isValid ?t" "isKnownToMatchAnyString ?t" by (simp_all add: new_CharacterSetTerm_def bitCount_zero)
  then show ?thesis using term_static_predicates_sound [of ?t] by simp
qed

end
