(* ===== verification/NFA.thy ===== *)
theory NFA
  imports Term
begin

text \<open>
  \<^verbatim>\<open>Source/WebCore/contentextensions/NFA.h\<close>, \<^verbatim>\<open>NFA.cpp\<close>, \<^verbatim>\<open>NFANode.h\<close> and the graph
  generating part of \<^verbatim>\<open>Term.h\<close>. An NFA is a vector of nodes; a node maps characters (and the
  pseudo character 256 for epsilon) to sets of target nodes. The second half abstracts an NFA to
  its set of edges and shows that \<^verbatim>\<open>Term::generateGraph\<close> adds a fragment that accepts exactly the
  language of the term.
\<close>

section \<open>The data structure\<close>

record NFANode =
  transitions :: "(nat \<times> nat list) list"
  transitionsOnAnyCharacter :: "nat list"
  finalRuleIds :: "u64 list"

record NFA =
  m_nodes :: "NFANode list"
  m_root :: nat

definition epsilonTransitionCharacter :: nat where
  "epsilonTransitionCharacter = 256"

definition new_NFANode :: NFANode where
  "new_NFANode = \<lparr>transitions = [], transitionsOnAnyCharacter = [], finalRuleIds = []\<rparr>"

definition createNode :: "NFA \<Rightarrow> NFA \<times> nat" where
  "createNode nfa = (nfa\<lparr>m_nodes := m_nodes nfa @ [new_NFANode]\<rparr>, length (m_nodes nfa))"

definition new_NFA :: NFA where
  "new_NFA = (let (nfa, root) = createNode \<lparr>m_nodes = [], m_root = 0\<rparr> in nfa\<lparr>m_root := root\<rparr>)"

definition addToSlot :: "nat \<Rightarrow> nat \<Rightarrow> NFANode \<Rightarrow> NFANode" where
  "addToSlot key to node =
     node\<lparr>transitions := hm_upd key
       (hs_add to (case map_of (transitions node) key of None \<Rightarrow> [] | Some targets \<Rightarrow> targets))
       (transitions node)\<rparr>"

definition addTransition :: "NFA \<Rightarrow> nat \<Rightarrow> nat \<Rightarrow> nat \<Rightarrow> NFA option" where
  "addTransition nfa from to character = do {
     fromNode \<leftarrow> vec_at (m_nodes nfa) from;
     if to \<in> set (transitionsOnAnyCharacter fromNode) then Some nfa
     else Some (nfa\<lparr>m_nodes := (m_nodes nfa)[from := addToSlot character to fromNode]\<rparr>)
   }"

definition addEpsilonTransition :: "NFA \<Rightarrow> nat \<Rightarrow> nat \<Rightarrow> NFA option" where
  "addEpsilonTransition nfa from to = do {
     fromNode \<leftarrow> vec_at (m_nodes nfa) from;
     Some (nfa\<lparr>m_nodes := (m_nodes nfa)[from := addToSlot epsilonTransitionCharacter to fromNode]\<rparr>)
   }"

text \<open>
  The loop that follows in the source removes the target from a copy of each slot
  (\<^verbatim>\<open>for (auto transitionSlot : fromNode.transitions)\<close> copies the key-value pair), so the slots
  of the node do not change.
\<close>

definition addTransitionsOnAnyCharacter :: "NFA \<Rightarrow> nat \<Rightarrow> nat \<Rightarrow> NFA option" where
  "addTransitionsOnAnyCharacter nfa from to = do {
     fromNode \<leftarrow> vec_at (m_nodes nfa) from;
     Some (nfa\<lparr>m_nodes := (m_nodes nfa)[from :=
       fromNode\<lparr>transitionsOnAnyCharacter := hs_add to (transitionsOnAnyCharacter fromNode)\<rparr>]\<rparr>)
   }"

definition setActions :: "NFA \<Rightarrow> nat \<Rightarrow> u64 list \<Rightarrow> NFA option" where
  "setActions nfa node actions = do {
     n \<leftarrow> vec_at (m_nodes nfa) node;
     Some (nfa\<lparr>m_nodes := (m_nodes nfa)[node := n\<lparr>finalRuleIds := actions\<rparr>]\<rparr>)
   }"

definition graphSize :: "NFA \<Rightarrow> nat" where
  "graphSize nfa = length (m_nodes nfa)"

definition restoreToGraphSize :: "NFA \<Rightarrow> nat \<Rightarrow> NFA" where
  "restoreToGraphSize nfa n = nfa\<lparr>m_nodes := take n (m_nodes nfa)\<rparr>"

section \<open>Generating the graph of a term\<close>

text \<open>
  \<^verbatim>\<open>Term::generateGraph\<close> without its final \<^verbatim>\<open>setActions\<close>: what the quantifier adds around the
  subgraph of the atom, which \<open>sub\<close> generates.
\<close>

definition quantifyGraph ::
  "AtomQuantifier \<Rightarrow> (NFA \<Rightarrow> nat \<Rightarrow> (NFA \<times> nat) option) \<Rightarrow> NFA \<Rightarrow> nat \<Rightarrow> (NFA \<times> nat) option" where
  "quantifyGraph q sub nfa start = (case q of
     One \<Rightarrow> sub nfa start
   | ZeroOrOne \<Rightarrow> do {
       (nfa, newEnd) \<leftarrow> sub nfa start;
       nfa \<leftarrow> addEpsilonTransition nfa start newEnd;
       Some (nfa, newEnd)
     }
   | ZeroOrMore \<Rightarrow> do {
       let (nfa, repeatStart) = createNode nfa;
       nfa \<leftarrow> addEpsilonTransition nfa start repeatStart;
       (nfa, repeatEnd) \<leftarrow> sub nfa repeatStart;
       nfa \<leftarrow> addEpsilonTransition nfa repeatEnd repeatStart;
       let (nfa, kleenEnd) = createNode nfa;
       nfa \<leftarrow> addEpsilonTransition nfa repeatEnd kleenEnd;
       nfa \<leftarrow> addEpsilonTransition nfa start kleenEnd;
       Some (nfa, kleenEnd)
     }
   | OneOrMore \<Rightarrow> do {
       let (nfa, repeatStart) = createNode nfa;
       nfa \<leftarrow> addEpsilonTransition nfa start repeatStart;
       (nfa, repeatEnd) \<leftarrow> sub nfa repeatStart;
       nfa \<leftarrow> addEpsilonTransition nfa repeatEnd repeatStart;
       let (nfa, afterRepeat) = createNode nfa;
       nfa \<leftarrow> addEpsilonTransition nfa repeatEnd afterRepeat;
       Some (nfa, afterRepeat)
     })"

text \<open>The transitions of a character set atom.\<close>

definition charsetTransitions :: "bool \<Rightarrow> 128 word \<Rightarrow> NFA \<Rightarrow> nat \<Rightarrow> nat \<Rightarrow> NFA option" where
  "charsetTransitions inverted characters nfa source target =
     (if isUniversalTransition (CharacterSet One inverted characters)
      then addTransitionsOnAnyCharacter nfa source target
      else if \<not> inverted
      then foldM (\<lambda>c nfa. addTransition nfa source target c) (setBits characters) nfa
      else foldM (\<lambda>i nfa. if bit characters i then Some nfa else addTransition nfa source target i)
             [1..<128] nfa)"

text \<open>\<^verbatim>\<open>Term::generateSubgraphForAtom\<close>; an invalid term returns \<^verbatim>\<open>-1\<close> as an unsigned.\<close>

fun generateSubgraphForAtom :: "Term \<Rightarrow> NFA \<Rightarrow> nat \<Rightarrow> (NFA \<times> nat) option" where
  "generateSubgraphForAtom (EmptyTerm q) nfa source = Some (nfa, 4294967295)"
| "generateSubgraphForAtom (DeletedTerm q) nfa source = Some (nfa, 4294967295)"
| "generateSubgraphForAtom (CharacterSet q inverted characters) nfa source = do {
     let (nfa, target) = createNode nfa;
     nfa \<leftarrow> charsetTransitions inverted characters nfa source target;
     Some (nfa, target)
   }"
| "generateSubgraphForAtom (Group q terms) nfa source =
     foldM (\<lambda>term (nfa, lastTarget). do {
        (nfa, newEnd) \<leftarrow> quantifyGraph (m_quantifier term) (generateSubgraphForAtom term) nfa lastTarget;
        nfa \<leftarrow> setActions nfa newEnd [];
        Some (nfa, newEnd)
      }) terms (nfa, source)"

definition generateGraph :: "Term \<Rightarrow> NFA \<Rightarrow> nat \<Rightarrow> u64 list \<Rightarrow> (NFA \<times> nat) option" where
  "generateGraph term nfa start finalActions = do {
     (nfa, newEnd) \<leftarrow> quantifyGraph (m_quantifier term) (generateSubgraphForAtom term) nfa start;
     nfa \<leftarrow> setActions nfa newEnd finalActions;
     Some (nfa, newEnd)
   }"

lemma generateSubgraphForAtom_Group [simp]:
  "generateSubgraphForAtom (Group q terms) nfa source =
     foldM (\<lambda>term (nfa, lastTarget). generateGraph term nfa lastTarget []) terms (nfa, source)"
  by (simp add: generateGraph_def)

declare generateSubgraphForAtom.simps(4) [simp del]

section \<open>Graphs\<close>

text \<open>
  An edge is labelled with a character or, for \<open>None\<close>, with epsilon. \<open>path E p w q\<close>: the edges
  lead from \<open>p\<close> to \<open>q\<close> reading \<open>w\<close>.
\<close>

type_synonym edge = "nat \<times> nat option \<times> nat"

fun lab :: "nat option \<Rightarrow> nat list" where
  "lab None = []"
| "lab (Some c) = [c]"

inductive path :: "edge set \<Rightarrow> nat \<Rightarrow> nat list \<Rightarrow> nat \<Rightarrow> bool" for E p where
  path_refl: "path E p [] p"
| path_step: "path E p w q \<Longrightarrow> (q, a, r) \<in> E \<Longrightarrow> path E p (w @ lab a) r"

lemma path_eps: "path E p w q \<Longrightarrow> (q, None, r) \<in> E \<Longrightarrow> path E p w r"
  using path_step [of E p w q None r] by simp

lemma path_chr: "path E p w q \<Longrightarrow> (q, Some c, r) \<in> E \<Longrightarrow> path E p (w @ [c]) r"
  using path_step [of E p w q "Some c" r] by simp

lemma path_mono: "path E p w q \<Longrightarrow> E \<subseteq> F \<Longrightarrow> path F p w q"
  by (induction rule: path.induct) (auto intro: path.intros)

lemma path_append: "path E q v r \<Longrightarrow> path E p u q \<Longrightarrow> path E p (u @ v) r"
  by (induction rule: path.induct) (auto intro: path.intros simp flip: append_assoc)

lemma path_Cons_eps: "(p, None, q) \<in> E \<Longrightarrow> path E q w r \<Longrightarrow> path E p w r"
  using path_append [of E q w r p "[]"] path_eps [OF path_refl] by auto

text \<open>A fragment from \<open>s\<close> to \<open>e\<close> over the fresh nodes \<open>N\<close>: no edge enters \<open>s\<close> or leaves \<open>e\<close>.\<close>

definition fragment :: "edge set \<Rightarrow> nat set \<Rightarrow> nat \<Rightarrow> nat \<Rightarrow> lang \<Rightarrow> bool" where
  "fragment E N s e L \<longleftrightarrow> s \<notin> N \<and> e \<in> insert s N
     \<and> (\<forall>p a q. (p, a, q) \<in> E \<longrightarrow> p \<in> insert s N \<and> p \<noteq> e \<and> q \<in> N)
     \<and> (\<forall>w. path E s w e \<longleftrightarrow> w \<in> L)"

lemma fragmentD:
  assumes "fragment E N s e L"
  shows "s \<notin> N" "e \<in> insert s N" "(p, a, q) \<in> E \<Longrightarrow> p \<in> insert s N \<and> p \<noteq> e \<and> q \<in> N"
    "path E s w e \<longleftrightarrow> w \<in> L"
  using assms unfolding fragment_def by blast+

lemma fragment_trivial:
  assumes "fragment E N s s L" shows "L = {[]}"
proof -
  have "w = [] \<and> q = s" if "path E s w q" for w q
    using that by induction (use fragmentD(3) [OF assms] in blast)+
  then show ?thesis using fragmentD(4) [OF assms] path_refl [of E s] by blast
qed

lemma fragment_nil: "fragment {} {} s s {[]}"
proof -
  have "w = [] \<and> q = s" if "path {} s w q" for w q
    using that by induction auto
  then show ?thesis by (auto simp: fragment_def intro: path_refl)
qed

lemma fragment_chars:
  assumes "t \<noteq> s" shows "fragment {(s, Some c, t) | c. P c} {t} s t {[c] | c. P c}"
proof -
  have "(q = s \<and> w = []) \<or> (q = t \<and> (\<exists>c. w = [c] \<and> P c))"
    if "path {(s, Some c, t) | c. P c} s w q" for w q
    using that by induction (use assms in auto)
  moreover have "path {(s, Some c, t) | c. P c} s [c] t" if "P c" for c
    using path_chr [OF path_refl, of s c t "{(s, Some c, t) | c. P c}"] that by simp
  ultimately show ?thesis using assms unfolding fragment_def by auto
qed

lemma fragment_seq:
  assumes f1: "fragment E1 N1 s m L1" and f2: "fragment E2 N2 m e L2"
    and d: "N1 \<inter> N2 = {}" "s \<notin> N2"
  shows "fragment (E1 \<union> E2) (N1 \<union> N2) s e (conc L1 L2)"
proof -
  note D1 = fragmentD [OF f1] and D2 = fragmentD [OF f2]
  have inv: "(q \<in> insert s N1 \<and> path E1 s w q)
      \<or> (q \<in> N2 \<and> (\<exists>u v. w = u @ v \<and> path E1 s u m \<and> path E2 m v q))"
    if "path (E1 \<union> E2) s w q" for w q
    using that
  proof induction
    case path_refl
    then show ?case by (auto intro: path.path_refl)
  next
    case (path_step w q a r)
    from path_step.IH show ?case
    proof (elim disjE conjE exE)
      assume q: "q \<in> insert s N1" "path E1 s w q"
      show ?thesis
      proof (cases "(q, a, r) \<in> E1")
        case True
        then have "path E1 s (w @ lab a) r" "r \<in> N1"
          using path.path_step [OF q(2)] D1(3) by auto
        then show ?thesis by simp
      next
        case False
        with path_step.hyps have e2: "(q, a, r) \<in> E2" by blast
        with D2(3) q(1) d have "q = m" "r \<in> N2" by blast+
        moreover have "path E2 m (lab a) r"
          using path.path_step [OF path.path_refl, of q a r E2] e2 \<open>q = m\<close> by simp
        ultimately show ?thesis using q(2) by blast
      qed
    next
      fix u v assume q: "q \<in> N2" "w = u @ v" "path E1 s u m" "path E2 m v q"
      have "(q, a, r) \<in> E2" using path_step.hyps q(1) D1(3) d by blast
      then have "path E2 m (v @ lab a) r" "r \<in> N2" using q(4) D2(3) path.path_step by blast+
      then show ?thesis using q(2,3) by (metis append.assoc)
    qed
  qed
  have "w \<in> conc L1 L2" if "path (E1 \<union> E2) s w e" for w
    using inv [OF that]
  proof (elim disjE conjE exE)
    assume e: "e \<in> insert s N1" "path E1 s w e"
    then have "e = m" using D2(2) d by blast
    then have "w \<in> L1" "[] \<in> L2" using e(2) D1(4) D2(4) path.path_refl by blast+
    then show ?thesis using concI [of w L1 "[]" L2] by simp
  next
    fix u v assume "w = u @ v" "path E1 s u m" "path E2 m v e"
    then show ?thesis using D1(4) D2(4) by (auto intro: concI)
  qed
  moreover have "path (E1 \<union> E2) s w e" if "w \<in> conc L1 L2" for w
  proof -
    from that obtain u v where "w = u @ v" "u \<in> L1" "v \<in> L2" by (rule concE)
    then have "path (E1 \<union> E2) s u m" "path (E1 \<union> E2) m v e"
      using D1(4) D2(4) path_mono by (metis sup_ge1, metis sup_ge2)
    then show ?thesis using \<open>w = u @ v\<close> path_append by blast
  qed
  moreover have "p \<in> insert s (N1 \<union> N2) \<and> p \<noteq> e \<and> q \<in> N1 \<union> N2" if "(p, a, q) \<in> E1 \<union> E2" for p a q
    using that D1(1-3) D2(1-3) d by blast
  ultimately show ?thesis
    using D1(1,2) D2(1,2) d unfolding fragment_def by blast
qed

definition eps_edge :: "nat \<Rightarrow> nat \<Rightarrow> edge set" where
  "eps_edge p q = (if p = q then {} else {(p, None, q)})"

lemma fragment_opt:
  assumes f: "fragment E N s e L"
  shows "fragment (E \<union> eps_edge s e) N s e (insert [] L)"
proof (cases "s = e")
  case True
  then show ?thesis using f fragment_trivial [of E N s L] by (simp add: eps_edge_def)
next
  case False
  note D = fragmentD [OF f]
  have "path E s w q \<or> (w = [] \<and> q = e)" if "path (E \<union> eps_edge s e) s w q" for w q
    using that
  proof induction
    case (path_step w q a r)
    consider "(q, a, r) \<in> E" | "q = s" "a = None" "r = e"
      using path_step.hyps(2) False by (auto simp: eps_edge_def)
    then show ?case
    proof cases
      case 1
      then show ?thesis using path_step.IH D(3) path.path_step by blast
    next
      case 2
      have "w = []" if "path E s w s"
        using that D(1,3) by (cases rule: path.cases) blast+
      then show ?thesis using 2 path_step.IH False by auto
    qed
  qed (auto intro: path.path_refl)
  moreover have "path (E \<union> eps_edge s e) s [] e"
    using path_eps [OF path_refl, of s e "E \<union> eps_edge s e"] False by (simp add: eps_edge_def)
  moreover have "path E s w e \<Longrightarrow> path (E \<union> eps_edge s e) s w e" for w
    using path_mono by blast
  ultimately have "path (E \<union> eps_edge s e) s w e \<longleftrightarrow> w \<in> insert [] L" for w
    using D(4) by blast
  then show ?thesis using D(1-3) False unfolding fragment_def by (auto simp: eps_edge_def)
qed

text \<open>
  The loop that both repeating quantifiers build: the atom from \<open>r\<close> to \<open>x\<close>, an edge back, and
  an exit to \<open>k\<close>.
\<close>

definition loop_edges :: "edge set \<Rightarrow> nat \<Rightarrow> nat \<Rightarrow> nat \<Rightarrow> nat \<Rightarrow> edge set" where
  "loop_edges E s r x k = insert (s, None, r) (E \<union> eps_edge x r) \<union> {(x, None, k)}"

lemma loop_inv:
  assumes f: "fragment E N r x L" and n: "s \<notin> insert r N" "k \<notin> insert r N" "s \<noteq> k"
    and p: "path (loop_edges E s r x k \<union> B) s w q" and B: "B \<subseteq> {(s, None, k)}"
  shows "(q = s \<and> w = []) \<or> (q \<in> insert r N \<and> (\<exists>u v. w = u @ v \<and> u \<in> lstar L \<and> path E r v q))
    \<or> (q = k \<and> (w \<in> conc (lstar L) L \<or> (w = [] \<and> B \<noteq> {})))"
  using p
proof induction
  case (path_step w q a r')
  note D = fragmentD [OF f]
  consider "(q, a, r') \<in> E" | "q = s" "a = None" "r' = r" | "q = x" "a = None" "r' = r" "x \<noteq> r"
    | "q = x" "a = None" "r' = k" | "q = s" "a = None" "r' = k" "B \<noteq> {}"
    using path_step.hyps(2) B by (auto simp: loop_edges_def eps_edge_def split: if_splits)
  then show ?case
  proof cases
    case 1
    with D(3) n have q: "q \<in> insert r N" "r' \<in> N" "q \<noteq> s" "q \<noteq> k" by blast+
    with path_step.IH obtain u v where "w = u @ v" "u \<in> lstar L" "path E r v q" by blast
    with 1 have "w @ lab a = u @ (v @ lab a)" "path E r (v @ lab a) r'"
      by (simp_all add: path.path_step)
    with \<open>u \<in> lstar L\<close> q(2) show ?thesis by blast
  next
    case 2
    with path_step.IH n have "w = []" by auto
    then have "w @ lab a = [] @ []" using 2 by simp
    with 2 show ?thesis using lstar_Nil [of L] path.path_refl [of E r] by blast
  next
    case 3
    then have "q \<noteq> s" "q \<noteq> k" using D(2) n by blast+
    with path_step.IH 3 obtain u v where "w = u @ v" "u \<in> lstar L" "v \<in> L" using D(4) by blast
    with 3 have "w \<in> lstar L" by (simp add: lstar_snoc)
    with 3 have "w @ lab a = w @ []" "w \<in> lstar L" by simp_all
    with 3(3) show ?thesis using path.path_refl [of E r] by blast
  next
    case 4
    then have "q \<noteq> s" "q \<noteq> k" using D(2) n by blast+
    with path_step.IH 4 obtain u v where "w = u @ v" "u \<in> lstar L" "v \<in> L" using D(4) by blast
    with 4 show ?thesis by (simp add: concI)
  next
    case 5
    with path_step.IH n have "w = []" by auto
    with 5 show ?thesis by simp
  qed
qed simp

lemma loop_path:
  assumes f: "fragment E N r x L" and S: "loop_edges E s r x k \<subseteq> F" and w: "w \<in> conc (lstar L) L"
  shows "path F s w k"
proof -
  note D = fragmentD [OF f]
  have EF: "E \<subseteq> F" "(s, None, r) \<in> F" "(x, None, k) \<in> F" "x \<noteq> r \<Longrightarrow> (x, None, r) \<in> F"
    using S by (auto simp: loop_edges_def eps_edge_def)
  have body: "path F r v x" if "v \<in> L" for v
    using that D(4) path_mono [OF _ EF(1)] by blast
  have star: "path F r u r" if "u \<in> lstar L" for u
    using that
  proof induction
    case (lstar_snoc u v)
    have "path F r (u @ v) x" using body [OF lstar_snoc.hyps(2)] lstar_snoc.IH by (rule path_append)
    then show ?case using EF(4) by (cases "x = r") (auto intro: path_eps)
  qed (rule path_refl)
  from w obtain u v where "w = u @ v" "u \<in> lstar L" "v \<in> L" by (rule concE)
  then have "path F r w x" using path_append [OF body star] by simp
  then have "path F r w k" using EF(3) by (rule path_eps)
  then show ?thesis using EF(2) path_Cons_eps by blast
qed

lemma fragment_plus:
  assumes f: "fragment E N r x L" and n: "s \<notin> insert r N" "k \<notin> insert r N" "s \<noteq> k"
  shows "fragment (loop_edges E s r x k) (insert r (insert k N)) s k (conc (lstar L) L)"
proof -
  note D = fragmentD [OF f]
  have "w \<in> conc (lstar L) L" if "path (loop_edges E s r x k) s w k" for w
    using loop_inv [OF f n, of "{}" w k] that n by auto
  moreover have "path (loop_edges E s r x k) s w k" if "w \<in> conc (lstar L) L" for w
    by (rule loop_path [OF f subset_refl that])
  moreover have "p \<in> insert s (insert r (insert k N)) \<and> p \<noteq> k \<and> q \<in> insert r (insert k N)"
    if "(p, a, q) \<in> loop_edges E s r x k" for p a q
    using that D(2,3) n by (auto simp: loop_edges_def eps_edge_def split: if_splits)
  ultimately show ?thesis using n unfolding fragment_def by blast
qed

lemma fragment_star:
  assumes f: "fragment E N r x L" and n: "s \<notin> insert r N" "k \<notin> insert r N" "s \<noteq> k"
  shows "fragment (loop_edges E s r x k \<union> {(s, None, k)}) (insert r (insert k N)) s k (lstar L)"
proof -
  let ?F = "loop_edges E s r x k \<union> {(s, None, k)}"
  note D = fragmentD [OF f]
  have "w \<in> lstar L" if "path ?F s w k" for w
    using loop_inv [OF f n that subset_refl] n lstar_unfold [of L] by auto
  moreover have "path ?F s w k" if "w \<in> lstar L" for w
  proof (cases "w = []")
    case True
    then show ?thesis using path_eps [OF path_refl, of s k ?F] by simp
  next
    case False
    then have "w \<in> conc (lstar L) L" using that lstar_unfold [of L] by blast
    then show ?thesis using loop_path [OF f] by blast
  qed
  moreover have "p \<in> insert s (insert r (insert k N)) \<and> p \<noteq> k \<and> q \<in> insert r (insert k N)"
    if "(p, a, q) \<in> ?F" for p a q
    using that D(2,3) n by (auto simp: loop_edges_def eps_edge_def split: if_splits)
  ultimately show ?thesis using n unfolding fragment_def by blast
qed

section \<open>The edges of an NFA\<close>

definition node_edge :: "NFANode \<Rightarrow> nat option \<Rightarrow> nat \<Rightarrow> bool" where
  "node_edge node a q \<longleftrightarrow> (case a of
     None \<Rightarrow> (\<exists>S. map_of (transitions node) 256 = Some S \<and> q \<in> set S)
   | Some c \<Rightarrow> (c < 128 \<and> (\<exists>S. map_of (transitions node) c = Some S \<and> q \<in> set S))
             \<or> (c \<noteq> 0 \<and> q \<in> set (transitionsOnAnyCharacter node)))"

definition edges :: "NFA \<Rightarrow> edge set" where
  "edges nfa = {(p, a, q). p < length (m_nodes nfa) \<and> node_edge (m_nodes nfa ! p) a q
     \<and> \<not> (a = None \<and> p = q)}"

definition finals :: "NFA \<Rightarrow> nat \<Rightarrow> u64 list" where
  "finals nfa p = finalRuleIds (m_nodes nfa ! p)"

text \<open>The type invariant: slots are keyed by ASCII characters or epsilon, targets are nodes.\<close>

definition node_wf :: "nat \<Rightarrow> NFANode \<Rightarrow> bool" where
  "node_wf n node \<longleftrightarrow> distinct (map fst (transitions node))
     \<and> (\<forall>(k, S) \<in> set (transitions node). (k < 128 \<or> k = 256) \<and> S \<noteq> [] \<and> distinct S \<and> set S \<subseteq> {..<n})
     \<and> set (transitionsOnAnyCharacter node) \<subseteq> {..<n}"

definition nfa_wf :: "NFA \<Rightarrow> bool" where
  "nfa_wf nfa \<longleftrightarrow> m_root nfa < length (m_nodes nfa)
     \<and> (\<forall>node \<in> set (m_nodes nfa). node_wf (length (m_nodes nfa)) node)"

lemma node_wf_mono: "node_wf n node \<Longrightarrow> n \<le> m \<Longrightarrow> node_wf m node"
  by (fastforce simp: node_wf_def)

lemma node_wf_new [simp]: "node_wf n new_NFANode"
  by (simp add: node_wf_def new_NFANode_def)

lemma node_edge_new [simp]: "\<not> node_edge new_NFANode a q"
  by (simp add: node_edge_def new_NFANode_def split: option.splits)

lemma node_edge_wf: "node_wf n node \<Longrightarrow> node_edge node a q \<Longrightarrow> q < n"
  by (auto simp: node_wf_def node_edge_def split: option.splits dest!: map_of_SomeD)

lemma edges_wf: "nfa_wf nfa \<Longrightarrow> (p, a, q) \<in> edges nfa \<Longrightarrow> p < length (m_nodes nfa) \<and> q < length (m_nodes nfa)"
  by (auto simp: nfa_wf_def edges_def intro: node_edge_wf)

lemma node_edge_addToSlot:
  "node_edge (addToSlot k to node) a q \<longleftrightarrow>
     node_edge node a q \<or> (q = to \<and> (a = None \<and> k = 256 \<or> a = Some k \<and> k < 128))"
  by (cases "map_of (transitions node) k"; cases a)
    (auto simp: node_edge_def addToSlot_def hs_simps)

lemma addToSlot_frame [simp]:
  "finalRuleIds (addToSlot k to node) = finalRuleIds node"
  "transitionsOnAnyCharacter (addToSlot k to node) = transitionsOnAnyCharacter node"
  by (simp_all add: addToSlot_def)

lemma hm_upd_mem: "(k', v') \<in> set (hm_upd k v m) \<Longrightarrow> (k' = k \<and> v' = v) \<or> (k', v') \<in> set m"
  by (induction k v m rule: hm_upd.induct) (auto split: if_splits)

lemma node_wf_addToSlot:
  assumes "node_wf n node" "to < n" "k < 128 \<or> k = 256"
  shows "node_wf n (addToSlot k to node)"
proof -
  let ?T = "case map_of (transitions node) k of None \<Rightarrow> [] | Some S \<Rightarrow> S"
  have "distinct ?T \<and> set ?T \<subseteq> {..<n}"
    using assms(1) by (auto simp: node_wf_def split: option.splits dest!: map_of_SomeD)
  then have T: "hs_add to ?T \<noteq> [] \<and> distinct (hs_add to ?T) \<and> set (hs_add to ?T) \<subseteq> {..<n}"
    using assms(2) set_hs_add [of to ?T] by (auto simp: distinct_hs_add)
  have "(k' < 128 \<or> k' = 256) \<and> S \<noteq> [] \<and> distinct S \<and> set S \<subseteq> {..<n}"
    if "(k', S) \<in> set (hm_upd k (hs_add to ?T) (transitions node))" for k' S
    using hm_upd_mem [OF that] T assms(1,3) unfolding node_wf_def by fast
  moreover have "distinct (map fst (hm_upd k (hs_add to ?T) (transitions node)))"
    using assms(1) by (simp add: node_wf_def distinct_hm_upd)
  ultimately show ?thesis
    using assms(1) unfolding node_wf_def addToSlot_def by auto
qed

lemma node_wf_finals [simp]: "node_wf n (node\<lparr>finalRuleIds := acts\<rparr>) \<longleftrightarrow> node_wf n node"
  by (simp add: node_wf_def)

section \<open>What a construction step adds\<close>

text \<open>
  \<open>extends W nfa nfa' E\<close>: \<open>nfa'\<close> has the nodes of \<open>nfa\<close> and more, the edges \<open>E\<close> are new, and no
  old node outside \<open>W\<close> has its rules changed; a node of \<open>W\<close> may have lost them.
\<close>

definition extends :: "nat set \<Rightarrow> NFA \<Rightarrow> NFA \<Rightarrow> edge set \<Rightarrow> bool" where
  "extends W nfa nfa' E \<longleftrightarrow> nfa_wf nfa' \<and> length (m_nodes nfa) \<le> length (m_nodes nfa')
     \<and> m_root nfa' = m_root nfa \<and> edges nfa' = edges nfa \<union> E
     \<and> (\<forall>p < length (m_nodes nfa). finals nfa' p = finals nfa p \<or> (p \<in> W \<and> finals nfa' p = []))
     \<and> (\<forall>p. length (m_nodes nfa) \<le> p \<and> p < length (m_nodes nfa') \<longrightarrow> finals nfa' p = [])"

lemma extendsD:
  assumes "extends W nfa nfa' E"
  shows "nfa_wf nfa'" "length (m_nodes nfa) \<le> length (m_nodes nfa')" "m_root nfa' = m_root nfa"
    "edges nfa' = edges nfa \<union> E"
    "p < length (m_nodes nfa) \<Longrightarrow> finals nfa' p = finals nfa p \<or> (p \<in> W \<and> finals nfa' p = [])"
    "length (m_nodes nfa) \<le> p \<Longrightarrow> p < length (m_nodes nfa') \<Longrightarrow> finals nfa' p = []"
  using assms unfolding extends_def by blast+

lemma extends_refl: "nfa_wf nfa \<Longrightarrow> extends W nfa nfa {}"
  by (auto simp: extends_def)

lemma extends_trans:
  assumes "extends W nfa nfa1 E1" "extends V nfa1 nfa2 E2"
  shows "extends (W \<union> V) nfa nfa2 (E1 \<union> E2)"
proof -
  note A = extendsD [OF assms(1)] and B = extendsD [OF assms(2)]
  have "finals nfa2 p = finals nfa p \<or> (p \<in> W \<union> V \<and> finals nfa2 p = [])"
    if "p < length (m_nodes nfa)" for p
    using A(5) [OF that] B(5) [of p] that A(2) by auto
  moreover have "finals nfa2 p = []" if "length (m_nodes nfa) \<le> p" "p < length (m_nodes nfa2)" for p
    using A(6) [of p] B(5) [of p] B(6) [of p] that by (cases "p < length (m_nodes nfa1)") auto
  ultimately show ?thesis using A B unfolding extends_def by auto
qed

lemma extends_weaken:
  "extends W nfa nfa' E \<Longrightarrow> W \<inter> {..<length (m_nodes nfa)} \<subseteq> V \<Longrightarrow> extends V nfa nfa' E"
  unfolding extends_def by blast

lemma extends_update:
  assumes wf: "nfa_wf nfa" and p: "p < length (m_nodes nfa)"
    and n: "node_wf (length (m_nodes nfa)) node" "finalRuleIds node = finalRuleIds (m_nodes nfa ! p)"
    and D: "\<And>a q. node_edge node a q \<longleftrightarrow> node_edge (m_nodes nfa ! p) a q \<or> D a q"
    and F: "F = {(p, a, q) | a q. D a q \<and> \<not> (a = None \<and> p = q)}"
  shows "extends {} nfa (nfa\<lparr>m_nodes := (m_nodes nfa)[p := node]\<rparr>) F"
proof -
  have "edges (nfa\<lparr>m_nodes := (m_nodes nfa)[p := node]\<rparr>) = edges nfa \<union> F"
    using p D by (auto simp: edges_def nth_list_update F split: if_splits)
  moreover have "nfa_wf (nfa\<lparr>m_nodes := (m_nodes nfa)[p := node]\<rparr>)"
    using wf n by (auto simp: nfa_wf_def dest!: set_update_subset_insert [THEN subsetD])
  ultimately show ?thesis
    using n(2) p by (auto simp: extends_def finals_def nth_list_update)
qed

lemma createNode_extends:
  assumes "nfa_wf nfa" "createNode nfa = (nfa', r)"
  shows "extends {} nfa nfa' {}" "r = length (m_nodes nfa)" "length (m_nodes nfa') = Suc r"
proof -
  have eq: "nfa' = nfa\<lparr>m_nodes := m_nodes nfa @ [new_NFANode]\<rparr>" "r = length (m_nodes nfa)"
    using assms(2) by (auto simp: createNode_def)
  have "edges nfa' = edges nfa"
    by (auto simp: eq edges_def nth_append less_Suc_eq)
  moreover have "nfa_wf nfa'"
    using assms(1) by (auto simp: eq nfa_wf_def intro: node_wf_mono)
  moreover have "finals nfa' p = []" if "length (m_nodes nfa) \<le> p" "p < length (m_nodes nfa')" for p
    using that by (auto simp: eq finals_def nth_append new_NFANode_def)
  ultimately show "extends {} nfa nfa' {}"
    by (auto simp: extends_def eq finals_def nth_append)
qed (use assms(2) in \<open>auto simp: createNode_def\<close>)

lemma addEpsilonTransition_extends:
  assumes "nfa_wf nfa" "p < length (m_nodes nfa)" "q < length (m_nodes nfa)"
  shows "\<exists>nfa'. addEpsilonTransition nfa p q = Some nfa' \<and> extends {} nfa nfa' (eps_edge p q)
    \<and> length (m_nodes nfa') = length (m_nodes nfa)"
proof -
  let ?node = "addToSlot epsilonTransitionCharacter q (m_nodes nfa ! p)"
  have wf: "node_wf (length (m_nodes nfa)) (m_nodes nfa ! p)"
    using assms by (auto simp: nfa_wf_def)
  have "extends {} nfa (nfa\<lparr>m_nodes := (m_nodes nfa)[p := ?node]\<rparr>) (eps_edge p q)"
    by (rule extends_update [OF assms(1,2), where D = "\<lambda>a r. r = q \<and> a = None"])
      (auto simp: node_wf_addToSlot wf assms(3) node_edge_addToSlot epsilonTransitionCharacter_def eps_edge_def)
  then show ?thesis
    using assms by (simp add: addEpsilonTransition_def vec_simps)
qed

lemma addTransition_extends:
  assumes "nfa_wf nfa" "p < length (m_nodes nfa)" "q < length (m_nodes nfa)" "c < 128"
    and "q \<notin> set (transitionsOnAnyCharacter (m_nodes nfa ! p))"
  shows "\<exists>nfa'. addTransition nfa p q c = Some nfa' \<and> extends {} nfa nfa' {(p, Some c, q)}
    \<and> length (m_nodes nfa') = length (m_nodes nfa)
    \<and> q \<notin> set (transitionsOnAnyCharacter (m_nodes nfa' ! p))"
proof -
  let ?node = "addToSlot c q (m_nodes nfa ! p)"
  have wf: "node_wf (length (m_nodes nfa)) (m_nodes nfa ! p)"
    using assms by (auto simp: nfa_wf_def)
  have "extends {} nfa (nfa\<lparr>m_nodes := (m_nodes nfa)[p := ?node]\<rparr>) {(p, Some c, q)}"
    using assms(4)
    by (intro extends_update [OF assms(1,2), where D = "\<lambda>a r. r = q \<and> a = Some c"])
      (auto simp: node_wf_addToSlot wf assms(3) node_edge_addToSlot)
  then show ?thesis
    using assms by (simp add: addTransition_def vec_simps)
qed

lemma addTransitionsOnAnyCharacter_extends:
  assumes "nfa_wf nfa" "p < length (m_nodes nfa)" "q < length (m_nodes nfa)"
  shows "\<exists>nfa'. addTransitionsOnAnyCharacter nfa p q = Some nfa'
    \<and> extends {} nfa nfa' {(p, Some c, q) | c. c \<noteq> 0} \<and> length (m_nodes nfa') = length (m_nodes nfa)"
proof -
  let ?n = "m_nodes nfa ! p"
  let ?node = "?n\<lparr>transitionsOnAnyCharacter := hs_add q (transitionsOnAnyCharacter ?n)\<rparr>"
  have wf: "node_wf (length (m_nodes nfa)) ?n" using assms by (auto simp: nfa_wf_def)
  have "extends {} nfa (nfa\<lparr>m_nodes := (m_nodes nfa)[p := ?node]\<rparr>) {(p, Some c, q) | c. c \<noteq> 0}"
    using wf assms(3)
    by (intro extends_update [OF assms(1,2), where D = "\<lambda>a r. r = q \<and> (\<exists>c. a = Some c \<and> c \<noteq> 0)"])
      (auto simp: node_wf_def node_edge_def hs_simps split: option.splits)
  then show ?thesis
    using assms by (simp add: addTransitionsOnAnyCharacter_def vec_simps)
qed

text \<open>\<^verbatim>\<open>setActions\<close> replaces the rules of a node and touches nothing else.\<close>

lemma setActions_effect:
  assumes "nfa_wf nfa" "p < length (m_nodes nfa)"
  shows "\<exists>nfa'. setActions nfa p acts = Some nfa' \<and> nfa_wf nfa' \<and> edges nfa' = edges nfa
    \<and> length (m_nodes nfa') = length (m_nodes nfa) \<and> m_root nfa' = m_root nfa
    \<and> finals nfa' = (finals nfa)(p := acts)"
proof -
  let ?node = "(m_nodes nfa ! p)\<lparr>finalRuleIds := acts\<rparr>"
  let ?nfa' = "nfa\<lparr>m_nodes := (m_nodes nfa)[p := ?node]\<rparr>"
  have "node_wf (length (m_nodes nfa)) ?node"
    using assms by (auto simp: nfa_wf_def)
  then have "nfa_wf ?nfa'"
    using assms(1) by (auto simp: nfa_wf_def dest!: set_update_subset_insert [THEN subsetD])
  moreover have "node_edge ?node a q \<longleftrightarrow> node_edge (m_nodes nfa ! p) a q" for a q
    by (cases a) (simp_all add: node_edge_def)
  then have "edges ?nfa' = edges nfa"
    using assms(2) by (auto simp: edges_def nth_list_update split: if_splits)
  moreover have "finals ?nfa' = (finals nfa)(p := acts)"
    using assms(2) by (auto simp: finals_def nth_list_update fun_eq_iff)
  ultimately show ?thesis using assms(2) by (simp add: setActions_def vec_simps)
qed

section \<open>The graph of a term accepts the language of the term\<close>

text \<open>
  \<open>gen_spec b sub L\<close>: started at any node of any well formed NFA, \<open>sub\<close> returns, adds a fragment
  that accepts \<open>L\<close>, and leaves the rules of the old nodes alone; without \<open>b\<close> it may end in its
  start node and clear the rules of that node.
\<close>

definition gen_spec :: "bool \<Rightarrow> (NFA \<Rightarrow> nat \<Rightarrow> (NFA \<times> nat) option) \<Rightarrow> lang \<Rightarrow> bool" where
  "gen_spec b sub L \<longleftrightarrow> (\<forall>nfa s. nfa_wf nfa \<longrightarrow> s < length (m_nodes nfa) \<longrightarrow>
     (\<exists>nfa' e E. sub nfa s = Some (nfa', e) \<and> extends (if b then {} else {s}) nfa nfa' E
       \<and> fragment E {length (m_nodes nfa)..<length (m_nodes nfa')} s e L \<and> (b \<longrightarrow> e \<noteq> s)))"

lemma gen_specE:
  assumes "gen_spec b sub L" "nfa_wf nfa" "s < length (m_nodes nfa)"
  obtains nfa' e E where "sub nfa s = Some (nfa', e)" "extends (if b then {} else {s}) nfa nfa' E"
    "fragment E {length (m_nodes nfa)..<length (m_nodes nfa')} s e L" "b \<Longrightarrow> e \<noteq> s"
    "e < length (m_nodes nfa')"
proof -
  from assms obtain nfa' e E where *: "sub nfa s = Some (nfa', e)"
    "extends (if b then {} else {s}) nfa nfa' E"
    "fragment E {length (m_nodes nfa)..<length (m_nodes nfa')} s e L" "b \<longrightarrow> e \<noteq> s"
    unfolding gen_spec_def by blast
  moreover have "e < length (m_nodes nfa')"
    using fragmentD(2) [OF *(3)] extendsD(2) [OF *(2)] assms(3) by auto
  ultimately show thesis using that by blast
qed

text \<open>The common part of the two repeating quantifiers.\<close>

lemma repeat_prefix:
  assumes sub: "gen_spec b sub L" and wf: "nfa_wf nfa" and s: "s < length (m_nodes nfa)"
  obtains nfa1 r nfa2 nfa3 x nfa4 nfa5 k nfa6 E where
    "createNode nfa = (nfa1, r)" "addEpsilonTransition nfa1 s r = Some nfa2"
    "sub nfa2 r = Some (nfa3, x)" "addEpsilonTransition nfa3 x r = Some nfa4"
    "createNode nfa4 = (nfa5, k)" "addEpsilonTransition nfa5 x k = Some nfa6"
    "extends {} nfa nfa6 (loop_edges E s r x k)"
    "fragment E {Suc r..<k} r x L" "r = length (m_nodes nfa)" "r < k" "length (m_nodes nfa6) = Suc k"
proof -
  obtain nfa1 r where c1: "createNode nfa = (nfa1, r)" by fastforce
  note n1 = createNode_extends [OF wf c1]
  obtain nfa2 where a2: "addEpsilonTransition nfa1 s r = Some nfa2" "extends {} nfa1 nfa2 (eps_edge s r)"
    "length (m_nodes nfa2) = length (m_nodes nfa1)"
    using addEpsilonTransition_extends [OF extendsD(1) [OF n1(1)], of s r] n1 s by auto
  have r2: "r < length (m_nodes nfa2)" using n1 a2 by simp
  obtain nfa3 x E where a3: "sub nfa2 r = Some (nfa3, x)" "extends (if b then {} else {r}) nfa2 nfa3 E"
    "fragment E {length (m_nodes nfa2)..<length (m_nodes nfa3)} r x L" "x < length (m_nodes nfa3)"
    using gen_specE [OF sub extendsD(1) [OF a2(2)] r2] by metis
  obtain nfa4 where a4: "addEpsilonTransition nfa3 x r = Some nfa4" "extends {} nfa3 nfa4 (eps_edge x r)"
    "length (m_nodes nfa4) = length (m_nodes nfa3)"
    using addEpsilonTransition_extends [OF extendsD(1) [OF a3(2)] a3(4), of r] r2 extendsD(2) [OF a3(2)] by auto
  obtain nfa5 k where c5: "createNode nfa4 = (nfa5, k)" by fastforce
  note n5 = createNode_extends [OF extendsD(1) [OF a4(2)] c5]
  obtain nfa6 where a6: "addEpsilonTransition nfa5 x k = Some nfa6" "extends {} nfa5 nfa6 (eps_edge x k)"
    "length (m_nodes nfa6) = length (m_nodes nfa5)"
    using addEpsilonTransition_extends [OF extendsD(1) [OF n5(1)], of x k] n5 a3(4) a4(3) by auto
  have k: "k = length (m_nodes nfa3)" "x \<noteq> k" using n5(2) a4(3) a3(4) by auto
  have "extends ({} \<union> {} \<union> (if b then {} else {r}) \<union> {} \<union> {} \<union> {}) nfa nfa6
      ({} \<union> eps_edge s r \<union> E \<union> eps_edge x r \<union> {} \<union> eps_edge x k)"
    by (intro extends_trans [OF extends_trans [OF extends_trans [OF extends_trans [OF extends_trans
          [OF n1(1) a2(2)] a3(2)] a4(2)] n5(1)] a6(2)])
  moreover have "{} \<union> eps_edge s r \<union> E \<union> eps_edge x r \<union> {} \<union> eps_edge x k = loop_edges E s r x k"
    using s n1(2) k by (auto simp: loop_edges_def eps_edge_def)
  ultimately have "extends {} nfa nfa6 (loop_edges E s r x k)"
    using n1(2) by (auto intro: extends_weaken split: if_splits)
  then show thesis
    using that [OF c1 a2(1) a3(1) a4(1) c5 a6(1)] a3(3) n1(2,3) a2(3) k n5 a6(3) r2 extendsD(2) [OF a3(2)] by simp
qed

lemma quantifyGraph_spec:
  assumes sub: "gen_spec b sub L"
  shows "gen_spec b (quantifyGraph q sub) (quant_lang q L)"
  unfolding gen_spec_def
proof (intro allI impI)
  fix nfa s assume wf: "nfa_wf nfa" and s: "s < length (m_nodes nfa)"
  let ?n = "length (m_nodes nfa)"
  let ?goal = "\<exists>nfa' e E. quantifyGraph q sub nfa s = Some (nfa', e)
    \<and> extends (if b then {} else {s}) nfa nfa' E
    \<and> fragment E {?n..<length (m_nodes nfa')} s e (quant_lang q L) \<and> (b \<longrightarrow> e \<noteq> s)"
  show ?goal
  proof (cases q)
    case One
    then show ?thesis using sub wf s by (simp add: quantifyGraph_def gen_spec_def)
  next
    case ZeroOrOne
    obtain nfa1 e E where a1: "sub nfa s = Some (nfa1, e)" "extends (if b then {} else {s}) nfa nfa1 E"
      "fragment E {?n..<length (m_nodes nfa1)} s e L" "b \<Longrightarrow> e \<noteq> s" "e < length (m_nodes nfa1)"
      using gen_specE [OF sub wf s] by metis
    obtain nfa2 where a2: "addEpsilonTransition nfa1 s e = Some nfa2" "extends {} nfa1 nfa2 (eps_edge s e)"
      "length (m_nodes nfa2) = length (m_nodes nfa1)"
      using addEpsilonTransition_extends [OF extendsD(1) [OF a1(2)] _ a1(5), of s] s extendsD(2) [OF a1(2)] by auto
    show ?thesis
      using a1 a2 extends_trans [OF a1(2) a2(2)] fragment_opt [OF a1(3)] ZeroOrOne
      by (auto simp: quantifyGraph_def)
  next
    case ZeroOrMore
    from repeat_prefix [OF sub wf s] obtain nfa1 r nfa2 nfa3 x nfa4 nfa5 k nfa6 E where
      a: "createNode nfa = (nfa1, r)" "addEpsilonTransition nfa1 s r = Some nfa2"
        "sub nfa2 r = Some (nfa3, x)" "addEpsilonTransition nfa3 x r = Some nfa4"
        "createNode nfa4 = (nfa5, k)" "addEpsilonTransition nfa5 x k = Some nfa6"
        "extends {} nfa nfa6 (loop_edges E s r x k)"
        "fragment E {Suc r..<k} r x L" "r = length (m_nodes nfa)" "r < k" "length (m_nodes nfa6) = Suc k" .
    obtain nfa7 where a7: "addEpsilonTransition nfa6 s k = Some nfa7" "extends {} nfa6 nfa7 (eps_edge s k)"
      "length (m_nodes nfa7) = length (m_nodes nfa6)"
      using addEpsilonTransition_extends [OF extendsD(1) [OF a(7)], of s k] s a(9-11) by auto
    have sk: "eps_edge s k = {(s, None, k)}" using s a(9,10) by (simp add: eps_edge_def)
    have N: "insert r (insert k {Suc r..<k}) = {?n..<length (m_nodes nfa7)}"
      using a(9-11) a7(3) by auto
    have "fragment (loop_edges E s r x k \<union> eps_edge s k) {?n..<length (m_nodes nfa7)} s k (lstar L)"
      unfolding N [symmetric] sk by (rule fragment_star [OF a(8)]) (use s a(9,10) in auto)
    then show ?thesis
      using a a7 extends_weaken [OF extends_trans [OF a(7) a7(2)]] ZeroOrMore s
      by (auto simp: quantifyGraph_def)
  next
    case OneOrMore
    from repeat_prefix [OF sub wf s] obtain nfa1 r nfa2 nfa3 x nfa4 nfa5 k nfa6 E where
      a: "createNode nfa = (nfa1, r)" "addEpsilonTransition nfa1 s r = Some nfa2"
        "sub nfa2 r = Some (nfa3, x)" "addEpsilonTransition nfa3 x r = Some nfa4"
        "createNode nfa4 = (nfa5, k)" "addEpsilonTransition nfa5 x k = Some nfa6"
        "extends {} nfa nfa6 (loop_edges E s r x k)"
        "fragment E {Suc r..<k} r x L" "r = length (m_nodes nfa)" "r < k" "length (m_nodes nfa6) = Suc k" .
    have N: "insert r (insert k {Suc r..<k}) = {?n..<length (m_nodes nfa6)}"
      using a(9-11) by auto
    have "fragment (loop_edges E s r x k) {?n..<length (m_nodes nfa6)} s k (conc (lstar L) L)"
      unfolding N [symmetric] by (rule fragment_plus [OF a(8)]) (use s a(9,10) in auto)
    then show ?thesis
      using a extends_weaken [OF a(7)] OneOrMore s by (auto simp: quantifyGraph_def)
  qed
qed

text \<open>The atom of a character set.\<close>

lemma foldM_addTransition:
  assumes "nfa_wf nfa" "p < length (m_nodes nfa)" "q < length (m_nodes nfa)" "\<forall>c \<in> set cs. c < 128"
    and "q \<notin> set (transitionsOnAnyCharacter (m_nodes nfa ! p))"
    and f: "\<And>c nfa. f c nfa = (if P c then addTransition nfa p q c else Some nfa)"
  shows "\<exists>nfa'. foldM f cs nfa = Some nfa' \<and> extends {} nfa nfa' {(p, Some c, q) | c. c \<in> set cs \<and> P c}
    \<and> length (m_nodes nfa') = length (m_nodes nfa)"
  using assms(1-5)
proof (induction cs arbitrary: nfa)
  case Nil
  then show ?case by (simp add: extends_refl)
next
  case (Cons c cs)
  show ?case
  proof (cases "P c")
    case True
    obtain nfa1 where a: "addTransition nfa p q c = Some nfa1" "extends {} nfa nfa1 {(p, Some c, q)}"
      "length (m_nodes nfa1) = length (m_nodes nfa)"
      "q \<notin> set (transitionsOnAnyCharacter (m_nodes nfa1 ! p))"
      using addTransition_extends [OF Cons.prems(1-3) _ Cons.prems(5), of c] Cons.prems(4) by auto
    obtain nfa2 where b: "foldM f cs nfa1 = Some nfa2"
      "extends {} nfa1 nfa2 {(p, Some c, q) | c. c \<in> set cs \<and> P c}"
      "length (m_nodes nfa2) = length (m_nodes nfa1)"
      using Cons.IH [OF extendsD(1) [OF a(2)] _ _ _ a(4)] Cons.prems a(3) by auto
    have "{(p, Some c, q)} \<union> {(p, Some c, q) | c. c \<in> set cs \<and> P c}
        = {(p, Some c', q) | c'. c' \<in> set (c # cs) \<and> P c'}"
      using True by auto
    then show ?thesis
      using extends_trans [OF a(2) b(2)] a b True f [of c nfa] by simp
  next
    case False
    then have "{(p, Some c', q) | c'. c' \<in> set (c # cs) \<and> P c'} = {(p, Some c', q) | c'. c' \<in> set cs \<and> P c'}"
      by auto
    then show ?thesis using Cons False f [of c nfa] by simp
  qed
qed

lemma charsetTransitions_extends:
  assumes wf: "nfa_wf nfa" and p: "p < length (m_nodes nfa)" "q < length (m_nodes nfa)"
    and q: "q \<notin> set (transitionsOnAnyCharacter (m_nodes nfa ! p))"
  shows "\<exists>nfa'. charsetTransitions i w nfa p q = Some nfa'
    \<and> extends {} nfa nfa' {(p, Some c, q) | c. charset_matches i w c}
    \<and> length (m_nodes nfa') = length (m_nodes nfa)"
proof (cases "isUniversalTransition (CharacterSet One i w)")
  case True
  then show ?thesis
    using addTransitionsOnAnyCharacter_extends [OF wf p]
    by (simp add: charsetTransitions_def charset_matches_def)
next
  case False
  show ?thesis
  proof (cases i)
    case True
    have "\<exists>nfa'. foldM (\<lambda>i nfa. if bit w i then Some nfa else addTransition nfa p q i) [1..<128] nfa = Some nfa'
        \<and> extends {} nfa nfa' {(p, Some c, q) | c. c \<in> set [1..<128] \<and> \<not> bit w c}
        \<and> length (m_nodes nfa') = length (m_nodes nfa)"
      by (rule foldM_addTransition [OF wf p _ q]) auto
    moreover have "{(p, Some c, q) | c. c \<in> set [1..<128] \<and> \<not> bit w c} = {(p, Some c, q) | c. charset_matches i w c}"
      using True False by (auto simp: charset_matches_def)
    ultimately show ?thesis using True False by (simp add: charsetTransitions_def)
  next
    case i: False
    have "\<exists>nfa'. foldM (\<lambda>c nfa. addTransition nfa p q c) (setBits w) nfa = Some nfa'
        \<and> extends {} nfa nfa' {(p, Some c, q) | c. c \<in> set (setBits w) \<and> True}
        \<and> length (m_nodes nfa') = length (m_nodes nfa)"
      by (rule foldM_addTransition [OF wf p _ q]) (auto dest: bit128_lt)
    moreover have "{(p, Some c, q) | c. c \<in> set (setBits w) \<and> True} = {(p, Some c, q) | c. charset_matches i w c}"
      using i False by (auto simp: charset_matches_def)
    ultimately show ?thesis using i False by (simp add: charsetTransitions_def)
  qed
qed

lemma charset_spec:
  "gen_spec True (generateSubgraphForAtom (CharacterSet qf i w)) {[c] | c. charset_matches i w c}"
  unfolding gen_spec_def
proof (intro allI impI)
  fix nfa s assume wf: "nfa_wf nfa" and s: "s < length (m_nodes nfa)"
  obtain nfa1 t where c1: "createNode nfa = (nfa1, t)" by fastforce
  note n1 = createNode_extends [OF wf c1]
  have "m_nodes nfa1 ! s = m_nodes nfa ! s" using c1 s by (auto simp: createNode_def nth_append)
  then have "t \<notin> set (transitionsOnAnyCharacter (m_nodes nfa1 ! s))"
    using wf s n1(2) by (auto simp: nfa_wf_def node_wf_def)
  then obtain nfa2 where a2: "charsetTransitions i w nfa1 s t = Some nfa2"
    "extends {} nfa1 nfa2 {(s, Some c, t) | c. charset_matches i w c}"
    "length (m_nodes nfa2) = length (m_nodes nfa1)"
    using charsetTransitions_extends [OF extendsD(1) [OF n1(1)], of s t i w] s n1(2,3) by auto
  have "{length (m_nodes nfa)..<length (m_nodes nfa2)} = {t}" using a2(3) n1(2,3) by auto
  then show "\<exists>nfa' e E. generateSubgraphForAtom (CharacterSet qf i w) nfa s = Some (nfa', e)
      \<and> extends (if True then {} else {s}) nfa nfa' E
      \<and> fragment E {length (m_nodes nfa)..<length (m_nodes nfa')} s e {[c] | c. charset_matches i w c}
      \<and> (True \<longrightarrow> e \<noteq> s)"
    using c1 a2 extends_trans [OF n1(1) a2(2)] fragment_chars [of t s "charset_matches i w"] s n1(2)
    by auto
qed

text \<open>Terms the generator accepts: no empty or deleted term anywhere.\<close>

fun valid_term :: "Term \<Rightarrow> bool" where
  "valid_term (EmptyTerm q) = False"
| "valid_term (DeletedTerm q) = False"
| "valid_term (CharacterSet q i w) = True"
| "valid_term (Group q ts) = list_all valid_term ts"

text \<open>No group anywhere in the term is empty.\<close>

fun solid :: "Term \<Rightarrow> bool" where
  "solid (Group q ts) \<longleftrightarrow> ts \<noteq> [] \<and> list_all solid ts"
| "solid t \<longleftrightarrow> True"

fun atom_lang :: "Term \<Rightarrow> lang" where
  "atom_lang (CharacterSet q i w) = {[c] | c. charset_matches i w c}"
| "atom_lang (Group q ts) = terms_lang ts"
| "atom_lang t = {}"

lemma term_lang_quant: "valid_term t \<Longrightarrow> term_lang t = quant_lang (m_quantifier t) (atom_lang t)"
  by (cases t) auto

lemma generateGraph_spec:
  assumes sub: "gen_spec b (generateSubgraphForAtom t) (atom_lang t)"
    and t: "valid_term t" and wf: "nfa_wf nfa" and s: "s < length (m_nodes nfa)"
  obtains nfa' e E where "generateGraph t nfa s acts = Some (nfa', e)" "nfa_wf nfa'"
    "length (m_nodes nfa) \<le> length (m_nodes nfa')" "m_root nfa' = m_root nfa"
    "edges nfa' = edges nfa \<union> E"
    "fragment E {length (m_nodes nfa)..<length (m_nodes nfa')} s e (term_lang t)"
    "e < length (m_nodes nfa')" "b \<Longrightarrow> e \<noteq> s" "finals nfa' e = acts"
    "\<And>p. p < length (m_nodes nfa) \<Longrightarrow> p \<noteq> s \<or> b \<Longrightarrow> finals nfa' p = finals nfa p"
    "\<And>p. length (m_nodes nfa) \<le> p \<Longrightarrow> p < length (m_nodes nfa') \<Longrightarrow> p \<noteq> e \<Longrightarrow> finals nfa' p = []"
    "s \<noteq> e \<Longrightarrow> finals nfa' s = finals nfa s \<or> finals nfa' s = []"
proof -
  from gen_specE [OF quantifyGraph_spec [OF sub] wf s]
  obtain nfa1 e E where a: "quantifyGraph (m_quantifier t) (generateSubgraphForAtom t) nfa s = Some (nfa1, e)"
    "extends (if b then {} else {s}) nfa nfa1 E"
    "fragment E {length (m_nodes nfa)..<length (m_nodes nfa1)} s e (quant_lang (m_quantifier t) (atom_lang t))"
    "b \<Longrightarrow> e \<noteq> s" "e < length (m_nodes nfa1)" by metis
  from setActions_effect [OF extendsD(1) [OF a(2)] a(5)] obtain nfa2 where
    b: "setActions nfa1 e acts = Some nfa2" "nfa_wf nfa2" "edges nfa2 = edges nfa1"
      "length (m_nodes nfa2) = length (m_nodes nfa1)" "m_root nfa2 = m_root nfa1"
      "finals nfa2 = (finals nfa1)(e := acts)" by blast
  note X = extendsD [OF a(2)]
  have "finals nfa2 p = finals nfa p" if "p < length (m_nodes nfa)" "p \<noteq> s \<or> b" for p
    using X(5) [OF that(1)] that a(4) fragmentD(2) [OF a(3)] by (auto simp: b(6) split: if_splits)
  moreover have "finals nfa2 p = []" if "length (m_nodes nfa) \<le> p" "p < length (m_nodes nfa2)" "p \<noteq> e" for p
    using X(6) [of p] that by (auto simp: b(4,6))
  moreover have "finals nfa2 s = finals nfa s \<or> finals nfa2 s = []" if "s \<noteq> e"
    using X(5) [OF s] that by (auto simp: b(6))
  ultimately show thesis
    using that [of nfa2 e E] a b X term_lang_quant [OF t] by (simp add: generateGraph_def)
qed

lemma terms_spec:
  assumes "\<And>t. t \<in> set ts \<Longrightarrow> gen_spec (solid t) (generateSubgraphForAtom t) (atom_lang t)"
    and "list_all valid_term ts"
  shows "gen_spec (ts \<noteq> [] \<and> list_all solid ts)
    (\<lambda>nfa s. foldM (\<lambda>t (nfa, s). generateGraph t nfa s []) ts (nfa, s)) (terms_lang ts)"
  using assms
proof (induction ts)
  case Nil
  show ?case unfolding gen_spec_def using fragment_nil extends_refl by fastforce
next
  case (Cons t ts)
  note IH = Cons.IH [OF Cons.prems(1)]
  show ?case unfolding gen_spec_def
  proof (intro allI impI)
    fix nfa s assume wf: "nfa_wf nfa" and s: "s < length (m_nodes nfa)"
    have tsub: "gen_spec (solid t) (generateSubgraphForAtom t) (atom_lang t)" "valid_term t"
      using Cons.prems by simp_all
    from generateGraph_spec [OF tsub wf s, of "[]"] obtain nfa1 m E1 where
      a: "generateGraph t nfa s [] = Some (nfa1, m)" "nfa_wf nfa1"
      "length (m_nodes nfa) \<le> length (m_nodes nfa1)" "m_root nfa1 = m_root nfa" "edges nfa1 = edges nfa \<union> E1"
      "fragment E1 {length (m_nodes nfa)..<length (m_nodes nfa1)} s m (term_lang t)"
      "m < length (m_nodes nfa1)" "solid t \<Longrightarrow> m \<noteq> s" "finals nfa1 m = []"
      "\<And>p. p < length (m_nodes nfa) \<Longrightarrow> p \<noteq> s \<or> solid t \<Longrightarrow> finals nfa1 p = finals nfa p"
      "\<And>p. length (m_nodes nfa) \<le> p \<Longrightarrow> p < length (m_nodes nfa1) \<Longrightarrow> p \<noteq> m \<Longrightarrow> finals nfa1 p = []"
      "s \<noteq> m \<Longrightarrow> finals nfa1 s = finals nfa s \<or> finals nfa1 s = []"
      by metis
    have e1: "extends (if solid t then {} else {s}) nfa nfa1 E1"
      unfolding extends_def using a(2-5,9-12) by (metis empty_iff insertI1)
    have "gen_spec (ts \<noteq> [] \<and> list_all solid ts)
        (\<lambda>nfa s. foldM (\<lambda>t (nfa, s). generateGraph t nfa s []) ts (nfa, s)) (terms_lang ts)"
      using IH Cons.prems(2) by simp
    from gen_specE [OF this a(2,7)] obtain nfa2 e E2 where
      b: "foldM (\<lambda>t (nfa, s). generateGraph t nfa s []) ts (nfa1, m) = Some (nfa2, e)"
      "extends (if ts \<noteq> [] \<and> list_all solid ts then {} else {m}) nfa1 nfa2 E2"
      "fragment E2 {length (m_nodes nfa1)..<length (m_nodes nfa2)} m e (terms_lang ts)"
      by metis
    note l2 = extendsD(2) [OF b(2)] and m = fragmentD(2) [OF a(6)] and e = fragmentD(2) [OF b(3)]
    have "{length (m_nodes nfa)..<length (m_nodes nfa1)} \<union> {length (m_nodes nfa1)..<length (m_nodes nfa2)}
        = {length (m_nodes nfa)..<length (m_nodes nfa2)}"
      using a(3) l2 by auto
    moreover have "fragment (E1 \<union> E2) ({length (m_nodes nfa)..<length (m_nodes nfa1)}
        \<union> {length (m_nodes nfa1)..<length (m_nodes nfa2)}) s e (conc (term_lang t) (terms_lang ts))"
      by (rule fragment_seq [OF a(6) b(3)]) (use s a(3) in auto)
    moreover have "extends (if t # ts \<noteq> [] \<and> list_all solid (t # ts) then {} else {s}) nfa nfa2 (E1 \<union> E2)"
      by (rule extends_weaken [OF extends_trans [OF e1 b(2)]]) (use m a(8) s in \<open>auto split: if_splits\<close>)
    moreover have "list_all solid (t # ts) \<longrightarrow> e \<noteq> s"
      using a(8) e s a(3) by auto
    ultimately show "\<exists>nfa' e E. foldM (\<lambda>t (nfa, s). generateGraph t nfa s []) (t # ts) (nfa, s) = Some (nfa', e)
        \<and> extends (if t # ts \<noteq> [] \<and> list_all solid (t # ts) then {} else {s}) nfa nfa' E
        \<and> fragment E {length (m_nodes nfa)..<length (m_nodes nfa')} s e (terms_lang (t # ts))
        \<and> (t # ts \<noteq> [] \<and> list_all solid (t # ts) \<longrightarrow> e \<noteq> s)"
      using a(1) b(1) by auto
  qed
qed

lemma atom_spec: "valid_term t \<Longrightarrow> gen_spec (solid t) (generateSubgraphForAtom t) (atom_lang t)"
proof (induction t)
  case (Group q ts)
  have "gen_spec (ts \<noteq> [] \<and> list_all solid ts)
    (\<lambda>nfa s. foldM (\<lambda>t (nfa, s). generateGraph t nfa s []) ts (nfa, s)) (terms_lang ts)"
    using Group by (intro terms_spec) (auto simp: list_all_iff)
  then show ?case unfolding gen_spec_def by simp
next
  case (CharacterSet q i w)
  then show ?case using charset_spec [of q i w] by (simp only: solid.simps atom_lang.simps)
qed auto

text \<open>
  The interface the clients of the generator use: a solid term appends a fragment for its language,
  records the rules in the new end node and changes the rules of no other node.
\<close>

lemma generateGraph_solid:
  assumes "valid_term t" "solid t" "nfa_wf nfa" "s < length (m_nodes nfa)"
  obtains nfa' e E where "generateGraph t nfa s acts = Some (nfa', e)" "nfa_wf nfa'"
    "length (m_nodes nfa) \<le> e" "e < length (m_nodes nfa')" "m_root nfa' = m_root nfa"
    "edges nfa' = edges nfa \<union> E"
    "fragment E {length (m_nodes nfa)..<length (m_nodes nfa')} s e (term_lang t)"
    "\<And>p. p < length (m_nodes nfa) \<Longrightarrow> finals nfa' p = finals nfa p" "finals nfa' e = acts"
    "\<And>p. length (m_nodes nfa) \<le> p \<Longrightarrow> p < length (m_nodes nfa') \<Longrightarrow> p \<noteq> e \<Longrightarrow> finals nfa' p = []"
proof -
  from generateGraph_spec [OF atom_spec [OF assms(1)] assms(1,3,4), of acts] obtain nfa' e E where
    a: "generateGraph t nfa s acts = Some (nfa', e)" "nfa_wf nfa'"
      "length (m_nodes nfa) \<le> length (m_nodes nfa')" "m_root nfa' = m_root nfa" "edges nfa' = edges nfa \<union> E"
      "fragment E {length (m_nodes nfa)..<length (m_nodes nfa')} s e (term_lang t)"
      "e < length (m_nodes nfa')" "solid t \<Longrightarrow> e \<noteq> s" "finals nfa' e = acts"
      "\<And>p. p < length (m_nodes nfa) \<Longrightarrow> p \<noteq> s \<or> solid t \<Longrightarrow> finals nfa' p = finals nfa p"
      "\<And>p. length (m_nodes nfa) \<le> p \<Longrightarrow> p < length (m_nodes nfa') \<Longrightarrow> p \<noteq> e \<Longrightarrow> finals nfa' p = []"
    by metis
  have "length (m_nodes nfa) \<le> e"
    using fragmentD(2) [OF a(6)] a(8) assms(2) by auto
  with a assms(2) show thesis by (intro that [of nfa' e E]) auto
qed

section \<open>Languages of nodes\<close>

definition node_lang :: "NFA \<Rightarrow> nat \<Rightarrow> lang" where
  "node_lang nfa q = {w. path (edges nfa) (m_root nfa) w q}"

text \<open>A fragment over fresh nodes does not change what leads to old nodes.\<close>

lemma path_fragment:
  assumes f: "fragment E N s e L" and old: "\<And>p a q. (p, a, q) \<in> D \<Longrightarrow> p \<notin> N \<and> q \<notin> N"
    and r: "r \<notin> N" and p: "path (D \<union> E) r w q"
  shows "(q \<notin> N \<and> path D r w q) \<or> (q \<in> N \<and> (\<exists>u v. w = u @ v \<and> path D r u s \<and> path E s v q))"
  using p
proof induction
  case path_refl
  then show ?case using r by (simp add: path.path_refl)
next
  case (path_step w q a t)
  note D = fragmentD [OF f]
  from path_step.IH show ?case
  proof (elim disjE conjE exE)
    assume q: "q \<notin> N" "path D r w q"
    show ?thesis
    proof (cases "(q, a, t) \<in> D")
      case True
      then have "path D r (w @ lab a) t" "t \<notin> N" using path.path_step [OF q(2)] old by auto
      then show ?thesis by simp
    next
      case False
      with path_step.hyps have e: "(q, a, t) \<in> E" by blast
      with D(3) q(1) have "q = s" "t \<in> N" by blast+
      moreover have "path E s (lab a) t"
        using path.path_step [OF path.path_refl, of q a t E] e \<open>q = s\<close> by simp
      ultimately show ?thesis using q(2) by blast
    qed
  next
    fix u v assume q: "q \<in> N" "w = u @ v" "path D r u s" "path E s v q"
    have "(q, a, t) \<in> E" using path_step.hyps q(1) old by blast
    then have "path E s (v @ lab a) t" "t \<in> N" using path.path_step [OF q(4)] D(3) by auto
    then show ?thesis using q(2,3) by (metis append.assoc)
  qed
qed

lemma node_lang_extend:
  assumes "nfa_wf nfa" "edges nfa' = edges nfa \<union> E" "m_root nfa' = m_root nfa"
    and f: "fragment E {length (m_nodes nfa)..<n} s e L" and e: "e \<noteq> s"
  shows "p < length (m_nodes nfa) \<Longrightarrow> node_lang nfa' p = node_lang nfa p"
    and "node_lang nfa' e = conc (node_lang nfa s) L"
proof -
  let ?N = "{length (m_nodes nfa)..<n}"
  have old: "\<And>p a q. (p, a, q) \<in> edges nfa \<Longrightarrow> p \<notin> ?N \<and> q \<notin> ?N" "m_root nfa \<notin> ?N"
    using edges_wf [OF assms(1)] assms(1) by (fastforce simp: nfa_wf_def)+
  have inv: "(q \<notin> ?N \<and> path (edges nfa) (m_root nfa) w q) \<or>
      (q \<in> ?N \<and> (\<exists>u v. w = u @ v \<and> path (edges nfa) (m_root nfa) u s \<and> path E s v q))"
    if "path (edges nfa \<union> E) (m_root nfa) w q" for w q
    using path_fragment [OF f old that] .
  have mono: "path (edges nfa) p w q \<Longrightarrow> path (edges nfa \<union> E) p w q"
    "path E p w q \<Longrightarrow> path (edges nfa \<union> E) p w q" for p w q
    by (auto intro: path_mono)
  show "node_lang nfa' p = node_lang nfa p" if "p < length (m_nodes nfa)"
    using inv [of _ p] mono(1) that by (fastforce simp: node_lang_def assms(2,3))
  have "e \<in> ?N" using fragmentD(2) [OF f] e by blast
  have "w \<in> node_lang nfa' e \<longleftrightarrow> w \<in> conc (node_lang nfa s) L" for w
  proof
    assume "w \<in> node_lang nfa' e"
    then obtain u v where "w = u @ v" "path (edges nfa) (m_root nfa) u s" "path E s v e"
      using inv [of w e] \<open>e \<in> ?N\<close> by (auto simp: node_lang_def assms(2,3))
    then show "w \<in> conc (node_lang nfa s) L"
      using fragmentD(4) [OF f] by (auto simp: node_lang_def intro: concI)
  next
    assume "w \<in> conc (node_lang nfa s) L"
    then obtain u v where "w = u @ v" "path (edges nfa) (m_root nfa) u s" "path E s v e"
      using fragmentD(4) [OF f] by (auto simp: node_lang_def elim!: concE)
    then show "w \<in> node_lang nfa' e"
      using path_append [OF mono(2) mono(1)] by (auto simp: node_lang_def assms(2,3))
  qed
  then show "node_lang nfa' e = conc (node_lang nfa s) L" by blast
qed

lemma new_NFA_wf: "nfa_wf new_NFA" "m_root new_NFA = 0" "length (m_nodes new_NFA) = 1" "finals new_NFA 0 = []"
  by (simp_all add: new_NFA_def createNode_def nfa_wf_def finals_def new_NFANode_def node_wf_def)

lemma new_NFA_edges: "edges new_NFA = {}"
  by (auto simp: new_NFA_def createNode_def edges_def)

lemma new_NFA_lang: "node_lang new_NFA 0 = {[]}"
proof -
  have "w = [] \<and> q = 0" if "path {} 0 w q" for w q using that by induction auto
  then show ?thesis by (auto simp: node_lang_def new_NFA_wf new_NFA_edges intro: path_refl)
qed

lemma generateGraph_node_lang:
  assumes "valid_term t" "solid t" "nfa_wf nfa" "s < length (m_nodes nfa)"
  shows "\<exists>nfa' e. generateGraph t nfa s acts = Some (nfa', e) \<and> nfa_wf nfa'
    \<and> length (m_nodes nfa) \<le> e \<and> e < length (m_nodes nfa') \<and> m_root nfa' = m_root nfa
    \<and> node_lang nfa' e = conc (node_lang nfa s) (term_lang t) \<and> finals nfa' e = acts
    \<and> (\<forall>p < length (m_nodes nfa). node_lang nfa' p = node_lang nfa p \<and> finals nfa' p = finals nfa p)
    \<and> (\<forall>p. length (m_nodes nfa) \<le> p \<and> p < length (m_nodes nfa') \<and> p \<noteq> e \<longrightarrow> finals nfa' p = [])"
proof -
  from generateGraph_solid [OF assms, of acts] obtain nfa' e E where
    a: "generateGraph t nfa s acts = Some (nfa', e)" "nfa_wf nfa'"
    "length (m_nodes nfa) \<le> e" "e < length (m_nodes nfa')" "m_root nfa' = m_root nfa"
    "edges nfa' = edges nfa \<union> E"
    "fragment E {length (m_nodes nfa)..<length (m_nodes nfa')} s e (term_lang t)"
    "\<And>p. p < length (m_nodes nfa) \<Longrightarrow> finals nfa' p = finals nfa p" "finals nfa' e = acts"
    "\<And>p. length (m_nodes nfa) \<le> p \<Longrightarrow> p < length (m_nodes nfa') \<Longrightarrow> p \<noteq> e \<Longrightarrow> finals nfa' p = []"
    by metis
  have "e \<noteq> s" using a(3) assms(4) by simp
  with node_lang_extend [OF assms(3) a(6,5,7)] a show ?thesis by auto
qed

section \<open>Generating a graph\<close>





end
