(* ===== verification/CombinedURLFilters.thy ===== *)
theory CombinedURLFilters
  imports NFA
begin

text \<open>
  \<^verbatim>\<open>Source/WebCore/contentextensions/CombinedURLFilters.cpp\<close>: the prefix tree that shares the
  common prefixes of all the patterns of a rule list, and the NFAs generated from it. The edges
  of a vertex are a \<^verbatim>\<open>HashMap\<close> keyed by terms, here an association list; the results do not
  depend on the order of its entries. The explicit stacks of the two traversals (a vertex and an
  iterator into its edges per level) are the recursion of the definitions below.
\<close>

section \<open>The prefix tree\<close>

datatype PrefixTreeVertex =
  PrefixTreeVertex (prefixEdges: "(Term \<times> PrefixTreeVertex) list")
    (finalActions: "u64 list") (inVariableLengthPrefix: bool)

definition new_PrefixTreeVertex :: PrefixTreeVertex where
  "new_PrefixTreeVertex = PrefixTreeVertex [] [] False"

record CombinedURLFilters =
  m_prefixTreeRoot :: PrefixTreeVertex

definition new_CombinedURLFilters :: CombinedURLFilters where
  "new_CombinedURLFilters = \<lparr>m_prefixTreeRoot = new_PrefixTreeVertex\<rparr>"

definition clear_CombinedURLFilters :: "CombinedURLFilters \<Rightarrow> CombinedURLFilters" where
  "clear_CombinedURLFilters f = f\<lparr>m_prefixTreeRoot := new_PrefixTreeVertex\<rparr>"

text \<open>
  The first loop of \<^verbatim>\<open>addPattern\<close>: walk down from the root, adding a vertex for each term that
  has no edge, add the action to the last vertex; the flag is \<^verbatim>\<open>hasNewTerm\<close>.
\<close>

fun extendPrefixTree :: "u64 \<Rightarrow> Term list \<Rightarrow> PrefixTreeVertex \<Rightarrow> PrefixTreeVertex \<times> bool" where
  "extendPrefixTree actionId [] (PrefixTreeVertex es acts var) =
     (PrefixTreeVertex es (hs_add actionId acts) var, False)"
| "extendPrefixTree actionId (term # pattern) (PrefixTreeVertex es acts var) =
     (case map_of es term of
        Some next \<Rightarrow>
          (let (next', hasNewTerm) = extendPrefixTree actionId pattern next
           in (PrefixTreeVertex (hm_upd term next' es) acts var, hasNewTerm))
      | None \<Rightarrow>
          (let (next', _) = extendPrefixTree actionId pattern new_PrefixTreeVertex
           in (PrefixTreeVertex (hm_upd term next' es) acts var, True)))"

definition markVariable :: "bool \<Rightarrow> PrefixTreeVertex \<Rightarrow> PrefixTreeVertex" where
  "markVariable b v = PrefixTreeVertex (prefixEdges v) (finalActions v) (inVariableLengthPrefix v \<or> b)"

text \<open>
  The second loop runs over the vertices of the path from the last one back to the root; the flag
  is \<^verbatim>\<open>hasSeenVariableLengthTerms\<close> once the term that leads to the vertex has been seen.
\<close>

fun markPath :: "Term list \<Rightarrow> PrefixTreeVertex \<Rightarrow> PrefixTreeVertex \<times> bool" where
  "markPath [] v = (v, False)"
| "markPath (term # pattern) (PrefixTreeVertex es acts var) =
     (case map_of es term of
        Some next \<Rightarrow>
          (let (next', seen) = markPath pattern next; seen' = (seen \<or> \<not> hasFixedLength term)
           in (PrefixTreeVertex (hm_upd term (markVariable seen' next') es) acts var, seen'))
      | None \<Rightarrow> (PrefixTreeVertex es acts var, False))"

definition addPattern_root :: "u64 \<Rightarrow> Term list \<Rightarrow> PrefixTreeVertex \<Rightarrow> PrefixTreeVertex" where
  "addPattern_root actionId pattern root =
     (if pattern = [] then root
      else let (root', hasNewTerm) = extendPrefixTree actionId pattern root
       in if \<not> hasNewTerm then root'
          else let (root'', seen) = markPath pattern root' in markVariable seen root'')"

definition addPattern :: "u64 \<Rightarrow> Term list \<Rightarrow> CombinedURLFilters \<Rightarrow> CombinedURLFilters" where
  "addPattern actionId pattern f =
     f\<lparr>m_prefixTreeRoot := addPattern_root actionId pattern (m_prefixTreeRoot f)\<rparr>"

section \<open>The NFAs of a prefix tree\<close>

fun generateNFAForSubtree :: "PrefixTreeVertex \<Rightarrow> NFA \<Rightarrow> nat \<Rightarrow> NFA option" where
  "generateNFAForSubtree (PrefixTreeVertex es acts var) nfa lastNodeIndex =
     foldM (\<lambda>(term, v) nfa.
       if inVariableLengthPrefix v then Some nfa
       else do {
         (nfa, newEndNodeIndex) \<leftarrow> generateGraph term nfa lastNodeIndex (finalActions v);
         (if prefixEdges v \<noteq> [] then generateNFAForSubtree v nfa newEndNodeIndex else Some nfa)
       }) es nfa"

text \<open>The NFA generated for the last vertex of \<^verbatim>\<open>activeStack\<close>; the rest of that stack is the argument.\<close>

definition generatePrefix :: "(Term \<times> u64 list) list \<Rightarrow> (NFA \<times> nat) option" where
  "generatePrefix stack =
     foldM (\<lambda>(term, acts) (nfa, prefixEnd). generateGraph term nfa prefixEnd acts)
       stack (new_NFA, m_root new_NFA)"

definition needToGenerate :: "PrefixTreeVertex \<Rightarrow> bool" where
  "needToGenerate v \<longleftrightarrow> (prefixEdges v = [] \<and> finalActions v \<noteq> [])
     \<or> list_ex (\<lambda>(_, v'). \<not> inVariableLengthPrefix v') (prefixEdges v)"

definition generateNFA :: "(Term \<times> u64 list) list \<Rightarrow> PrefixTreeVertex \<Rightarrow> NFA option" where
  "generateNFA stack v = do {
     (nfa, prefixEnd) \<leftarrow> generatePrefix stack;
     foldM (\<lambda>(term, v') nfa.
       if inVariableLengthPrefix v' then Some nfa
       else do {
         (nfa, newSubtreeStart) \<leftarrow> generateGraph term nfa prefixEnd (finalActions v');
         generateNFAForSubtree v' nfa newSubtreeStart
       }) (prefixEdges v) nfa
   }"

fun createNFAsFrom :: "(Term \<times> u64 list) list \<Rightarrow> PrefixTreeVertex \<Rightarrow> NFA list \<Rightarrow> NFA list option" where
  "createNFAsFrom stack (PrefixTreeVertex es acts var) nfas = do {
     nfas \<leftarrow> foldM (\<lambda>(term, v) nfas.
       if inVariableLengthPrefix v then createNFAsFrom (stack @ [(term, finalActions v)]) v nfas
       else Some nfas) es nfas;
     (if needToGenerate (PrefixTreeVertex es acts var)
      then do { nfa \<leftarrow> generateNFA stack (PrefixTreeVertex es acts var); Some (nfas @ [nfa]) }
      else Some nfas)
   }"

definition createNFAs :: "CombinedURLFilters \<Rightarrow> NFA list option" where
  "createNFAs f = createNFAsFrom [] (m_prefixTreeRoot f) []"


section \<open>The tree as a map from patterns to actions\<close>

fun patternActions :: "PrefixTreeVertex \<Rightarrow> Term list \<Rightarrow> u64 list" where
  "patternActions (PrefixTreeVertex es acts var) [] = acts"
| "patternActions (PrefixTreeVertex es acts var) (t # ts) =
     (case map_of es t of None \<Rightarrow> [] | Some v \<Rightarrow> patternActions v ts)"

lemma set_hm_upd:
  "distinct (map fst m) \<Longrightarrow> set (hm_upd k v m) = insert (k, v) {e \<in> set m. fst e \<noteq> k}"
  by (induction k v m rule: hm_upd.induct) force+

lemma patternActions_Nil [simp]: "patternActions v [] = finalActions v"
  by (cases v) simp

lemma patternActions_Cons:
  "patternActions v (t # ts) = (case map_of (prefixEdges v) t of None \<Rightarrow> [] | Some v' \<Rightarrow> patternActions v' ts)"
  by (cases v) simp

lemma patternActions_new [simp]: "patternActions new_PrefixTreeVertex p = []"
  by (cases p) (simp_all add: new_PrefixTreeVertex_def)

lemma patternActions_markVariable [simp]: "patternActions (markVariable b v) p = patternActions v p"
  by (cases v; cases p) (simp_all add: markVariable_def)

lemma patternActions_extend:
  "patternActions (fst (extendPrefixTree a p v)) q =
     (if q = p then hs_add a (patternActions v p) else patternActions v q)"
proof (induction a p v arbitrary: q rule: extendPrefixTree.induct)
  case (1 a es acts var)
  then show ?case by (cases q) simp_all
next
  case (2 a t p es acts var)
  show ?case
  proof (cases q)
    case (Cons u us)
    show ?thesis
    proof (cases "map_of es t")
      case None
      from 2(1) [OF None, of us] show ?thesis
        by (auto simp: Cons None hs_simps split_beta)
    next
      case (Some v)
      from 2(2) [OF Some, of us] show ?thesis
        by (auto simp: Cons Some hs_simps split_beta)
    qed
  qed (auto simp: split_beta split: option.split)
qed

lemma patternActions_markPath: "patternActions (fst (markPath p v)) q = patternActions v q"
proof (induction p v arbitrary: q rule: markPath.induct)
  case (2 t p es acts var)
  then show ?case
    by (cases q) (auto simp: split_beta Let_def hs_simps split: option.split)
qed simp

text \<open>Adding a pattern is a map update at exactly that pattern.\<close>

lemma patternActions_addPattern:
  assumes "p \<noteq> []"
  shows "patternActions (addPattern_root a p v) q =
    (if q = p then hs_add a (patternActions v p) else patternActions v q)"
proof -
  obtain v1 n where e: "extendPrefixTree a p v = (v1, n)" by (cases "extendPrefixTree a p v")
  obtain v2 s where m: "markPath p v1 = (v2, s)" by (cases "markPath p v1")
  from patternActions_extend [of a p v q] patternActions_markPath [of p v1 q] assms e m
  show ?thesis by (auto simp: addPattern_root_def)
qed

section \<open>The invariant of the tree\<close>

abbreviation flagged :: "(Term \<times> PrefixTreeVertex) list \<Rightarrow> bool" where
  "flagged es \<equiv> \<exists>e \<in> set es. inVariableLengthPrefix (snd e)"

definition leaf_ok :: "PrefixTreeVertex \<Rightarrow> bool" where
  "leaf_ok v \<longleftrightarrow> prefixEdges v = [] \<longrightarrow> finalActions v \<noteq> []"

definition edge_ok :: "Term \<Rightarrow> PrefixTreeVertex \<Rightarrow> bool" where
  "edge_ok t v \<longleftrightarrow> leaf_ok v
     \<and> (inVariableLengthPrefix v \<longleftrightarrow> \<not> hasFixedLength t \<or> flagged (prefixEdges v))"

fun tree_ok :: "PrefixTreeVertex \<Rightarrow> bool" where
  "tree_ok (PrefixTreeVertex es acts var) \<longleftrightarrow>
     distinct (map fst es) \<and> distinct acts
     \<and> (\<forall>e \<in> set es. edge_ok (fst e) (snd e) \<and> tree_ok (snd e))"

definition root_ok :: "PrefixTreeVertex \<Rightarrow> bool" where
  "root_ok v \<longleftrightarrow> tree_ok v \<and> (inVariableLengthPrefix v \<longleftrightarrow> flagged (prefixEdges v)) \<and> finalActions v = []"

lemma tree_ok_new [simp]: "tree_ok new_PrefixTreeVertex"
  by (simp add: new_PrefixTreeVertex_def)

lemma root_ok_new: "root_ok new_PrefixTreeVertex"
  by (simp add: root_ok_def new_PrefixTreeVertex_def)

lemma markVariable_sel [simp]:
  "prefixEdges (markVariable b v) = prefixEdges v"
  "finalActions (markVariable b v) = finalActions v"
  "inVariableLengthPrefix (markVariable b v) \<longleftrightarrow> inVariableLengthPrefix v \<or> b"
  by (simp_all add: markVariable_def)

lemma tree_ok_markVariable [simp]: "tree_ok (markVariable b v) \<longleftrightarrow> tree_ok v"
  by (cases v) (simp add: markVariable_def)

lemma bex_insert_filter:
  "(\<exists>e \<in> insert x {e \<in> A. P e}. Q e) \<longleftrightarrow> Q x \<or> (\<exists>e \<in> A. P e \<and> Q e)"
  by blast

lemma hm_upd_not_Nil [simp]: "hm_upd k v m \<noteq> []"
  by (cases "(k, v, m)" rule: hm_upd.cases) simp_all

lemma hm_upd_twice [simp]: "hm_upd k v (hm_upd k w m) = hm_upd k v m"
  by (induction k w m rule: hm_upd.induct) simp_all

lemma tree_ok_upd:
  assumes "tree_ok (PrefixTreeVertex es acts var)" "tree_ok v" "edge_ok t v"
  shows "tree_ok (PrefixTreeVertex (hm_upd t v es) acts var)"
    and "flagged (hm_upd t v es) \<longleftrightarrow> inVariableLengthPrefix v \<or> (\<exists>e \<in> set es. fst e \<noteq> t \<and> inVariableLengthPrefix (snd e))"
proof -
  have d: "distinct (map fst es)" using assms(1) by simp
  show "tree_ok (PrefixTreeVertex (hm_upd t v es) acts var)"
    using assms by (auto simp: set_hm_upd [OF d] hs_simps)
  show "flagged (hm_upd t v es) \<longleftrightarrow> inVariableLengthPrefix v \<or> (\<exists>e \<in> set es. fst e \<noteq> t \<and> inVariableLengthPrefix (snd e))"
    by (simp only: set_hm_upd [OF d] bex_insert_filter snd_conv)
qed

lemma set_map_of_split:
  "map_of es t = Some v \<Longrightarrow> distinct (map fst es) \<Longrightarrow> set es = insert (t, v) {e \<in> set es. fst e \<noteq> t}"
  by (auto dest: map_of_SomeD eq_key_imp_eq_value)

lemma flagged_split:
  assumes "map_of es t = Some v" "distinct (map fst es)"
  shows "flagged es \<longleftrightarrow> inVariableLengthPrefix v \<or> (\<exists>e \<in> set es. fst e \<noteq> t \<and> inVariableLengthPrefix (snd e))"
  by (subst set_map_of_split [OF assms]) (simp only: bex_insert_filter snd_conv)

lemma flagged_absent:
  "map_of es t = None \<Longrightarrow> flagged es \<longleftrightarrow> (\<exists>e \<in> set es. fst e \<noteq> t \<and> inVariableLengthPrefix (snd e))"
  by (auto simp: map_of_eq_None_iff)

text \<open>A pattern that is already in the tree needs no marking: its path is marked.\<close>

lemma extend_old:
  "tree_ok v \<Longrightarrow> extendPrefixTree a p v = (v', False) \<Longrightarrow>
     tree_ok v' \<and> leaf_ok v' \<and> inVariableLengthPrefix v' = inVariableLengthPrefix v
     \<and> (flagged (prefixEdges v') \<longleftrightarrow> flagged (prefixEdges v))
     \<and> (p \<noteq> [] \<longrightarrow> finalActions v' = finalActions v)"
proof (induction a p v arbitrary: v' rule: extendPrefixTree.induct)
  case (1 a es acts var)
  then show ?case by (auto simp: hs_simps leaf_ok_def) (auto simp: hs_add_def split: if_splits)
next
  case (2 a t p es acts var)
  from 2(4) obtain next1 where n: "map_of es t = Some next1"
    by (auto split: option.splits prod.splits)
  obtain next2 where e: "extendPrefixTree a p next1 = (next2, False)"
    and v': "v' = PrefixTreeVertex (hm_upd t next2 es) acts var"
    using 2(4) n by (auto split: prod.splits)
  have ok: "tree_ok next1" "edge_ok t next1" using 2(3) n by (auto dest: map_of_SomeD)
  note ih = 2(2) [OF n ok(1) e]
  then have "edge_ok t next2" using ok(2) by (auto simp: edge_ok_def)
  from tree_ok_upd [OF 2(3) _ this] ih
  have "tree_ok v'" "flagged (prefixEdges v') \<longleftrightarrow>
      inVariableLengthPrefix next2 \<or> (\<exists>e \<in> set es. fst e \<noteq> t \<and> inVariableLengthPrefix (snd e))"
    by (simp_all only: v' PrefixTreeVertex.sel)
  moreover have "flagged es \<longleftrightarrow>
      inVariableLengthPrefix next1 \<or> (\<exists>e \<in> set es. fst e \<noteq> t \<and> inVariableLengthPrefix (snd e))"
    using flagged_split [OF n] 2(3) by (simp only: tree_ok.simps)
  ultimately show ?case using ih by (simp add: v' leaf_ok_def)
qed

text \<open>A new pattern is marked on its whole path.\<close>

lemma extend_mark:
  "tree_ok v \<Longrightarrow> extendPrefixTree a p v = (v1, n) \<Longrightarrow> markPath p v1 = (v2, seen) \<Longrightarrow>
     tree_ok v2 \<and> leaf_ok v2 \<and> inVariableLengthPrefix v2 = inVariableLengthPrefix v
     \<and> (seen \<longleftrightarrow> \<not> list_all hasFixedLength p)
     \<and> (flagged (prefixEdges v2) \<longleftrightarrow> flagged (prefixEdges v) \<or> seen)
     \<and> (p \<noteq> [] \<longrightarrow> finalActions v2 = finalActions v)"
proof (induction a p v arbitrary: v1 n v2 seen rule: extendPrefixTree.induct)
  case (1 a es acts var)
  then show ?case by (auto simp: hs_simps leaf_ok_def) (auto simp: hs_add_def split: if_splits)
next
  case (2 a t p es acts var)
  let ?old = "\<exists>e \<in> set es. fst e \<noteq> t \<and> inVariableLengthPrefix (snd e)"
  obtain old where old: "old = (case map_of es t of Some v \<Rightarrow> v | None \<Rightarrow> new_PrefixTreeVertex)" by blast
  obtain next1 m where e: "extendPrefixTree a p old = (next1, m)" by fastforce
  obtain next2 s where mk: "markPath p next1 = (next2, s)" by fastforce
  obtain seen' where s': "seen' \<longleftrightarrow> s \<or> \<not> hasFixedLength t" by blast
  have v1: "v1 = PrefixTreeVertex (hm_upd t next1 es) acts var"
    using 2(4) e by (auto simp: old split: option.splits prod.splits)
  have v2: "v2 = PrefixTreeVertex (hm_upd t (markVariable seen' next2) es) acts var" "seen \<longleftrightarrow> seen'"
    using 2(5) mk by (auto simp: v1 s' hs_simps Let_def)
  have ok: "tree_ok old"
    using 2(3) by (auto simp: old split: option.splits dest: map_of_SomeD)
  have ih: "tree_ok next2 \<and> leaf_ok next2 \<and> inVariableLengthPrefix next2 = inVariableLengthPrefix old
     \<and> (s \<longleftrightarrow> \<not> list_all hasFixedLength p)
     \<and> (flagged (prefixEdges next2) \<longleftrightarrow> flagged (prefixEdges old) \<or> s)"
  proof (cases "map_of es t")
    case None
    with 2(1) [OF None _ _ mk] ok e show ?thesis by (simp add: old)
  next
    case (Some v)
    with 2(2) [OF Some _ _ mk] ok e show ?thesis by (simp add: old)
  qed
  have old_flag: "(inVariableLengthPrefix old \<longrightarrow> \<not> hasFixedLength t \<or> flagged (prefixEdges old))
      \<and> (flagged (prefixEdges old) \<longrightarrow> inVariableLengthPrefix old)
      \<and> (flagged es \<longleftrightarrow> inVariableLengthPrefix old \<or> ?old)"
  proof (cases "map_of es t")
    case None
    then show ?thesis using flagged_absent [OF None] by (simp add: old new_PrefixTreeVertex_def)
  next
    case (Some v)
    then have "edge_ok t v" using 2(3) by (auto dest: map_of_SomeD)
    then show ?thesis using flagged_split [OF Some] 2(3) by (auto simp: old Some edge_ok_def)
  qed
  have "edge_ok t (markVariable seen' next2)"
    using ih old_flag s' by (auto simp: edge_ok_def leaf_ok_def)
  note tree_ok_upd [OF 2(3) _ this, unfolded tree_ok_markVariable, OF conjunct1 [OF ih]]
  then have "tree_ok v2" "flagged (prefixEdges v2) \<longleftrightarrow> inVariableLengthPrefix next2 \<or> seen' \<or> ?old"
    by (simp_all only: v2 PrefixTreeVertex.sel markVariable_sel disj_assoc)
  then show ?case using ih old_flag s' by (simp add: v2 leaf_ok_def) blast
qed

lemma root_ok_addPattern:
  assumes "root_ok v"
  shows "root_ok (addPattern_root a p v)"
proof -
  obtain v1 n where e: "extendPrefixTree a p v = (v1, n)" by fastforce
  obtain v2 s where m: "markPath p v1 = (v2, s)" by fastforce
  show ?thesis
    using assms extend_old [of v a p v1] extend_mark [OF _ e m] e m
    by (cases n) (auto simp: addPattern_root_def root_ok_def)
qed


section \<open>The tree as a store of patterns\<close>

text \<open>
  What the rest of the compiler relies on: a store of actions under patterns, in which an addition
  changes exactly the entry of its pattern. The client's lemma is what holds after a sequence of
  additions.
\<close>

locale pattern_store =
  fixes empty :: 's
    and add :: "'a \<Rightarrow> 'p \<Rightarrow> 's \<Rightarrow> 's"
    and lookup :: "'s \<Rightarrow> 'p \<Rightarrow> 'a set"
    and invar :: "'s \<Rightarrow> bool"
    and legal :: "'p \<Rightarrow> bool"
  assumes lookup_empty: "lookup empty p = {}"
    and invar_empty: "invar empty"
    and invar_add: "invar s \<Longrightarrow> legal p \<Longrightarrow> invar (add a p s)"
    and lookup_add: "invar s \<Longrightarrow> legal p \<Longrightarrow> lookup (add a p s) = (lookup s)(p := insert a (lookup s p))"
begin

lemma invar_fold:
  "invar s \<Longrightarrow> \<forall>x \<in> set xs. legal (snd x) \<Longrightarrow> invar (fold (\<lambda>(a, p). add a p) xs s)"
  by (induction xs arbitrary: s) (auto simp: invar_add)

lemma lookup_fold:
  "invar s \<Longrightarrow> \<forall>x \<in> set xs. legal (snd x) \<Longrightarrow>
     a \<in> lookup (fold (\<lambda>(a, p). add a p) xs s) p \<longleftrightarrow> (a, p) \<in> set xs \<or> a \<in> lookup s p"
  by (induction xs arbitrary: s) (auto simp: invar_add lookup_add split: if_splits)

lemma lookup_build:
  "\<forall>x \<in> set xs. legal (snd x) \<Longrightarrow> a \<in> lookup (fold (\<lambda>(a, p). add a p) xs empty) p \<longleftrightarrow> (a, p) \<in> set xs"
  using lookup_fold [OF invar_empty, of xs a p] by (simp add: lookup_empty)

end

fun tree_terms :: "(Term \<Rightarrow> bool) \<Rightarrow> PrefixTreeVertex \<Rightarrow> bool" where
  "tree_terms P (PrefixTreeVertex es acts var) \<longleftrightarrow> (\<forall>e \<in> set es. P (fst e) \<and> tree_terms P (snd e))"

lemma tree_terms_hm_upd:
  "tree_terms P (PrefixTreeVertex es acts var) \<Longrightarrow> P t \<Longrightarrow> tree_terms P v \<Longrightarrow>
     tree_terms P (PrefixTreeVertex (hm_upd t v es) acts' var')"
  by (induction t v es rule: hm_upd.induct) auto

lemma tree_terms_extend:
  "tree_terms P v \<Longrightarrow> list_all P p \<Longrightarrow> tree_terms P (fst (extendPrefixTree a p v))"
proof (induction a p v rule: extendPrefixTree.induct)
  case (2 a t p es acts var)
  show ?case
  proof (cases "map_of es t")
    case None
    have "tree_terms P new_PrefixTreeVertex" by (simp add: new_PrefixTreeVertex_def)
    with 2(1) [OF None] 2(3,4) show ?thesis by (simp add: None split_beta tree_terms_hm_upd del: tree_terms.simps)
  next
    case (Some v)
    then have "tree_terms P v" using 2(3) by (fastforce dest: map_of_SomeD)
    with 2(2) [OF Some] 2(3,4) show ?thesis by (simp add: Some split_beta tree_terms_hm_upd del: tree_terms.simps)
  qed
qed simp

lemma tree_terms_markVariable [simp]: "tree_terms P (markVariable b v) \<longleftrightarrow> tree_terms P v"
  by (cases v) (simp add: markVariable_def)

lemma tree_terms_markPath:
  "tree_terms P v \<Longrightarrow> list_all P p \<Longrightarrow> tree_terms P (fst (markPath p v))"
proof (induction p v rule: markPath.induct)
  case (2 t p es acts var)
  show ?case
  proof (cases "map_of es t")
    case (Some v)
    then have "tree_terms P v" using 2(2) by (fastforce dest: map_of_SomeD)
    with 2(1) [OF Some] 2(2,3) show ?thesis
      by (simp add: Some split_beta Let_def tree_terms_hm_upd del: tree_terms.simps)
  qed (use 2(2) in simp)
qed simp

lemma tree_terms_addPattern:
  "tree_terms P v \<Longrightarrow> list_all P p \<Longrightarrow> tree_terms P (addPattern_root a p v)"
  using tree_terms_extend [of P v p a] tree_terms_markPath [of P "fst (extendPrefixTree a p v)" p]
  by (auto simp: addPattern_root_def split_beta)

text \<open>The terms that can be turned into graphs, and the filters built from them.\<close>

abbreviation graph_term :: "Term \<Rightarrow> bool" where
  "graph_term t \<equiv> valid_term t \<and> solid t"

definition filters_ok :: "CombinedURLFilters \<Rightarrow> bool" where
  "filters_ok f \<longleftrightarrow> root_ok (m_prefixTreeRoot f) \<and> tree_terms graph_term (m_prefixTreeRoot f)"

definition legal_pattern :: "Term list \<Rightarrow> bool" where
  "legal_pattern p \<longleftrightarrow> p \<noteq> [] \<and> list_all graph_term p"

definition filterActions :: "CombinedURLFilters \<Rightarrow> Term list \<Rightarrow> u64 set" where
  "filterActions f p = set (patternActions (m_prefixTreeRoot f) p)"

interpretation pt: pattern_store new_CombinedURLFilters addPattern filterActions filters_ok legal_pattern
proof unfold_locales
  show "filterActions new_CombinedURLFilters p = {}" for p
    by (simp add: filterActions_def new_CombinedURLFilters_def)
  show "filters_ok new_CombinedURLFilters"
    using root_ok_new by (simp add: filters_ok_def new_CombinedURLFilters_def) (simp add: new_PrefixTreeVertex_def)
  show "filters_ok (addPattern a p s)" if "filters_ok s" "legal_pattern p" for s p a
    using that root_ok_addPattern tree_terms_addPattern
    by (simp add: filters_ok_def legal_pattern_def addPattern_def)
  show "filterActions (addPattern a p s) = (filterActions s)(p := insert a (filterActions s p))"
    if "filters_ok s" "legal_pattern p" for s p a
    using that patternActions_addPattern
    by (auto simp: fun_eq_iff filterActions_def addPattern_def legal_pattern_def hs_simps)
qed

section \<open>The NFAs accept the patterns of the tree\<close>

text \<open>\<open>nfa_matches nfa w a\<close>: some path for \<open>w\<close> ends in a node that carries the action \<open>a\<close>.\<close>

definition nfa_matches :: "NFA \<Rightarrow> nat list \<Rightarrow> u64 \<Rightarrow> bool" where
  "nfa_matches nfa w a \<longleftrightarrow> 
     (\<exists>q < length (m_nodes nfa). w \<in> node_lang nfa q \<and> a \<in> set (finals nfa q))"

definition above :: "NFA \<Rightarrow> NFA \<Rightarrow> bool" where
  "above nfa nfa' \<longleftrightarrow> nfa_wf nfa' \<and> length (m_nodes nfa) \<le> length (m_nodes nfa')
     \<and> (\<forall>p < length (m_nodes nfa). node_lang nfa' p = node_lang nfa p)"

definition grown :: "NFA \<Rightarrow> NFA \<Rightarrow> (nat list \<Rightarrow> u64 \<Rightarrow> bool) \<Rightarrow> bool" where
  "grown nfa nfa' R \<longleftrightarrow> above nfa nfa' \<and> (\<forall>w a. nfa_matches nfa' w a \<longleftrightarrow> nfa_matches nfa w a \<or> R w a)"

lemma above_refl: "nfa_wf nfa \<Longrightarrow> above nfa nfa"
  by (simp add: above_def)

lemma above_trans: "above n1 n2 \<Longrightarrow> above n2 n3 \<Longrightarrow> above n1 n3"
  unfolding above_def by (metis order.trans order.strict_trans2)

lemma grown_above: "grown n1 n2 R \<Longrightarrow> above n1 n2"
  by (simp add: grown_def)

lemma grown_refl: "nfa_wf nfa \<Longrightarrow> (\<And>w a. \<not> R w a) \<Longrightarrow> grown nfa nfa R"
  by (simp add: grown_def above_refl)

lemma grown_trans: "grown n1 n2 R \<Longrightarrow> grown n2 n3 R' \<Longrightarrow> (\<And>w a. R'' w a \<longleftrightarrow> R w a \<or> R' w a) \<Longrightarrow> grown n1 n3 R''"
  unfolding grown_def using above_trans by blast

lemma generateGraph_grown:
  assumes "valid_term t" "solid t" "nfa_wf nfa" "s < length (m_nodes nfa)"
  obtains nfa' e where "generateGraph t nfa s acts = Some (nfa', e)" "e < length (m_nodes nfa')"
    "node_lang nfa' e = conc (node_lang nfa s) (term_lang t)"
    "grown nfa nfa' (\<lambda>w a. w \<in> conc (node_lang nfa s) (term_lang t) \<and> a \<in> set acts)"
proof -
  from generateGraph_node_lang [OF assms, of acts] obtain nfa' e where
    g: "generateGraph t nfa s acts = Some (nfa', e)" "nfa_wf nfa'"
      "length (m_nodes nfa) \<le> e" "e < length (m_nodes nfa')"
      "node_lang nfa' e = conc (node_lang nfa s) (term_lang t)" "finals nfa' e = acts"
    and old: "\<And>p. p < length (m_nodes nfa) \<Longrightarrow> node_lang nfa' p = node_lang nfa p \<and> finals nfa' p = finals nfa p"
    and new: "\<And>p. length (m_nodes nfa) \<le> p \<Longrightarrow> p < length (m_nodes nfa') \<Longrightarrow> p \<noteq> e \<Longrightarrow> finals nfa' p = []"
    by blast
  have "nfa_matches nfa' w a \<longleftrightarrow> nfa_matches nfa w a \<or> w \<in> conc (node_lang nfa s) (term_lang t) \<and> a \<in> set acts" for w a
  proof
    assume "nfa_matches nfa' w a"
    then obtain q where q: "q < length (m_nodes nfa')" "w \<in> node_lang nfa' q" "a \<in> set (finals nfa' q)" by (auto simp: nfa_matches_def)
    consider "q < length (m_nodes nfa)" | "q = e" | "length (m_nodes nfa) \<le> q" "q \<noteq> e" by linarith
    then show "nfa_matches nfa w a \<or> w \<in> conc (node_lang nfa s) (term_lang t) \<and> a \<in> set acts"
    proof cases
      case 3
      then have "finals nfa' q = []" using new q(1) by blast
      then show ?thesis using q(3) by simp
    qed (use q g old in \<open>auto simp: nfa_matches_def\<close>)
  next
    assume "nfa_matches nfa w a \<or> w \<in> conc (node_lang nfa s) (term_lang t) \<and> a \<in> set acts"
    then show "nfa_matches nfa' w a"
    proof
      assume "nfa_matches nfa w a"
      then obtain q where q: "q < length (m_nodes nfa)" "w \<in> node_lang nfa q" "a \<in> set (finals nfa q)"
        by (auto simp: nfa_matches_def)
      with old [OF q(1)] g(3,4) show ?thesis by (auto simp: nfa_matches_def intro!: exI [of _ q])
    qed (use g in \<open>auto simp: nfa_matches_def\<close>)
  qed
  then have "grown nfa nfa' (\<lambda>w a. w \<in> conc (node_lang nfa s) (term_lang t) \<and> a \<in> set acts)"
    using g old by (simp add: grown_def above_def)
  with that g show thesis by blast
qed

text \<open>A loop whose body adds the relation \<open>R x\<close> for each element.\<close>

lemma foldM_grown:
  assumes "nfa_wf nfa"
    and "\<And>x n. x \<in> set xs \<Longrightarrow> above nfa n \<Longrightarrow> \<exists>n'. f x n = Some n' \<and> grown n n' (R x)"
  shows "\<exists>n'. foldM f xs nfa = Some n' \<and> grown nfa n' (\<lambda>w a. \<exists>x \<in> set xs. R x w a)"
  using assms(2)
proof (induction xs rule: rev_induct)
  case Nil
  then show ?case using assms(1) by (simp add: grown_refl)
next
  case (snoc x xs)
  from snoc.IH [OF snoc.prems] obtain n where n: "foldM f xs nfa = Some n"
    "grown nfa n (\<lambda>w a. \<exists>x \<in> set xs. R x w a)" by auto
  from snoc.prems [of x n] grown_above [OF n(2)] obtain n' where n': "f x n = Some n'" "grown n n' (R x)" by auto
  have "grown nfa n' (\<lambda>w a. \<exists>x \<in> set (xs @ [x]). R x w a)"
    by (rule grown_trans [OF n(2) n'(2)]) auto
  with n(1) n'(1) show ?case by (auto simp: foldM_append)
qed

text \<open>What a subtree adds below a node with language \<open>L\<close>.\<close>

definition reach :: "lang \<Rightarrow> PrefixTreeVertex \<Rightarrow> nat list \<Rightarrow> u64 \<Rightarrow> bool" where
  "reach L v w a \<longleftrightarrow> (\<exists>t ts. a \<in> set (patternActions v (t # ts)) \<and> w \<in> conc L (terms_lang (t # ts)))"

definition reachEdge :: "lang \<Rightarrow> Term \<times> PrefixTreeVertex \<Rightarrow> nat list \<Rightarrow> u64 \<Rightarrow> bool" where
  "reachEdge L e w a \<longleftrightarrow> (w \<in> conc L (term_lang (fst e)) \<and> a \<in> set (finalActions (snd e)))
     \<or> reach (conc L (term_lang (fst e))) (snd e) w a"

lemma reach_edges:
  assumes "distinct (map fst (prefixEdges v))"
  shows "reach L v w a \<longleftrightarrow> (\<exists>e \<in> set (prefixEdges v). reachEdge L e w a)"
proof
  assume "reach L v w a"
  then obtain t ts where t: "a \<in> set (patternActions v (t # ts))" "w \<in> conc L (terms_lang (t # ts))"
    by (auto simp: reach_def)
  then obtain v' where v': "map_of (prefixEdges v) t = Some v'" "a \<in> set (patternActions v' ts)"
    by (cases "map_of (prefixEdges v) t") (auto simp: patternActions_Cons)
  have "reachEdge L (t, v') w a"
    using t(2) v'(2) by (cases ts) (auto simp: reachEdge_def reach_def conc_assoc)
  with v'(1) show "\<exists>e \<in> set (prefixEdges v). reachEdge L e w a" by (auto dest: map_of_SomeD)
next
  assume "\<exists>e \<in> set (prefixEdges v). reachEdge L e w a"
  then obtain t v' where e: "(t, v') \<in> set (prefixEdges v)" "reachEdge L (t, v') w a" by auto
  then have m: "map_of (prefixEdges v) t = Some v'" using assms map_of_is_SomeI by fast
  from e(2) obtain ts where "a \<in> set (patternActions v' ts)" "w \<in> conc L (terms_lang (t # ts))"
    unfolding reachEdge_def reach_def
    by (metis conc_assoc conc_Nil(1) foldr.simps(1,2) fst_conv id_apply o_apply patternActions_Nil snd_conv)
  then show "reach L v w a" unfolding reach_def by (metis m option.simps(5) patternActions_Cons)
qed

lemma generateNFAForSubtree_grown:
  "tree_ok v \<Longrightarrow> tree_terms graph_term v \<Longrightarrow> \<not> flagged (prefixEdges v) \<Longrightarrow> nfa_wf nfa \<Longrightarrow>
    s < length (m_nodes nfa) \<Longrightarrow>
    \<exists>nfa'. generateNFAForSubtree v nfa s = Some nfa' \<and> grown nfa nfa' (reach (node_lang nfa s) v)"
proof (induction v arbitrary: nfa s)
  case (PrefixTreeVertex es acts var)
  let ?L = "node_lang nfa s"
  let ?f = "\<lambda>(term, v) nfa. if inVariableLengthPrefix v then Some nfa
       else do {
         (nfa, newEndNodeIndex) \<leftarrow> generateGraph term nfa s (finalActions v);
         (if prefixEdges v \<noteq> [] then generateNFAForSubtree v nfa newEndNodeIndex else Some nfa)
       }"
  have step: "\<exists>n'. ?f e n = Some n' \<and> grown n n' (reachEdge ?L e)"
    if e: "e \<in> set es" and n: "above nfa n" for e n
  proof -
    obtain t v where tv: "e = (t, v)" by fastforce
    have ok: "tree_ok v" "edge_ok t v" "valid_term t" "solid t" "tree_terms graph_term v"
      "\<not> inVariableLengthPrefix v"
      using PrefixTreeVertex.prems e tv by auto
    then have nf: "\<not> flagged (prefixEdges v)" by (auto simp: edge_ok_def)
    have s: "s < length (m_nodes n)" "node_lang n s = ?L" "nfa_wf n"
      using n PrefixTreeVertex.prems(5) by (auto simp: above_def)
    from generateGraph_grown [OF ok(3,4) s(3,1), of "finalActions v"] s(2) obtain n1 x where
      g: "generateGraph t n s (finalActions v) = Some (n1, x)" "x < length (m_nodes n1)"
      "node_lang n1 x = conc ?L (term_lang t)"
      "grown n n1 (\<lambda>w a. w \<in> conc ?L (term_lang t) \<and> a \<in> set (finalActions v))" by metis
    have "(t, v) \<in> set es" "v \<in> Basic_BNFs.snds (t, v)" using e tv by auto
    note ih = PrefixTreeVertex.IH [OF this ok(1,5) nf]
    show ?thesis
    proof (cases "prefixEdges v = []")
      case True
      then have "\<not> reach L v w a" for L w a by (auto simp: reach_def patternActions_Cons)
      then have "reachEdge ?L e = (\<lambda>w a. w \<in> conc ?L (term_lang t) \<and> a \<in> set (finalActions v))"
        by (simp add: tv reachEdge_def fun_eq_iff)
      then show ?thesis using g True ok(6) by (simp add: tv)
    next
      case False
      have "nfa_wf n1" using g(4) by (auto simp: grown_def above_def)
      from ih [OF this g(2)] obtain n2 where
        n2: "generateNFAForSubtree v n1 x = Some n2" "grown n1 n2 (reach (conc ?L (term_lang t)) v)"
        by (auto simp: g(3))
      from grown_trans [OF g(4) n2(2), of "reachEdge ?L e"] show ?thesis
        using g(1) n2(1) False ok(6) by (simp add: tv reachEdge_def)
    qed
  qed
  from foldM_grown [of nfa es ?f "reachEdge ?L", OF PrefixTreeVertex.prems(4) step] obtain n' where
    "generateNFAForSubtree (PrefixTreeVertex es acts var) nfa s = Some n'"
    "grown nfa n' (\<lambda>w a. \<exists>e \<in> set es. reachEdge ?L e w a)"
    by auto
  moreover have "reach ?L (PrefixTreeVertex es acts var) = (\<lambda>w a. \<exists>e \<in> set es. reachEdge ?L e w a)"
    using reach_edges [of "PrefixTreeVertex es acts var" ?L] PrefixTreeVertex.prems(1) by (simp add: fun_eq_iff)
  ultimately show ?case by simp
qed


text \<open>What the path from the root contributes: the actions of the vertices it passes.\<close>

definition prefix_matches :: "(Term \<times> u64 list) list \<Rightarrow> nat list \<Rightarrow> u64 \<Rightarrow> bool" where
  "prefix_matches st w a \<longleftrightarrow> (\<exists>k < length st. a \<in> set (snd (st ! k))
     \<and> w \<in> terms_lang (map fst (take (Suc k) st)))"

lemma prefix_matches_snoc:
  "prefix_matches (st @ [(t, acts)]) w a \<longleftrightarrow> prefix_matches st w a
     \<or> (w \<in> conc (terms_lang (map fst st)) (term_lang t) \<and> a \<in> set acts)"
proof -
  have "terms_lang (map fst (st @ [(t, acts)])) = conc (terms_lang (map fst st)) (term_lang t)"
    by (simp only: map_append terms_lang_append) simp
  moreover have "(\<exists>k < length (st @ [(t, acts)]). Q k) \<longleftrightarrow> (\<exists>k < length st. Q k) \<or> Q (length st)" for Q
    by (auto simp: less_Suc_eq)
  ultimately show ?thesis unfolding prefix_matches_def by (auto simp: nth_append)
qed

lemma generatePrefix_spec:
  assumes "list_all (\<lambda>e. graph_term (fst e)) st"
  shows "\<exists>nfa e. generatePrefix st = Some (nfa, e) \<and> nfa_wf nfa \<and> e < length (m_nodes nfa)
    \<and> node_lang nfa e = terms_lang (map fst st) \<and> (\<forall>w a. nfa_matches nfa w a \<longleftrightarrow> prefix_matches st w a)"
  using assms
proof (induction st rule: rev_induct)
  case Nil
  have "\<not> nfa_matches new_NFA w a" for w a by (auto simp: nfa_matches_def new_NFA_wf)
  then show ?case using new_NFA_wf
    by (auto simp: generatePrefix_def new_NFA_lang prefix_matches_def)
next
  case (snoc x st)
  obtain t acts where x: "x = (t, acts)" by fastforce
  from snoc obtain nfa e where nfa: "generatePrefix st = Some (nfa, e)" "nfa_wf nfa" "e < length (m_nodes nfa)"
    "node_lang nfa e = terms_lang (map fst st)" "\<And>w a. nfa_matches nfa w a \<longleftrightarrow> prefix_matches st w a"
    by auto
  have t: "valid_term t" "solid t" using snoc.prems x by auto
  from generateGraph_grown [OF t nfa(2,3), of acts] obtain nfa' e' where
    n: "generateGraph t nfa e acts = Some (nfa', e')" "e' < length (m_nodes nfa')"
    "node_lang nfa' e' = conc (node_lang nfa e) (term_lang t)"
    "grown nfa nfa' (\<lambda>w a. w \<in> conc (node_lang nfa e) (term_lang t) \<and> a \<in> set acts)" by metis
  have "generatePrefix (st @ [x]) = Some (nfa', e')"
    using nfa(1) n(1) by (simp add: generatePrefix_def foldM_append x)
  moreover have "node_lang nfa' e' = terms_lang (map fst (st @ [x]))"
    by (simp only: n(3) nfa(4) map_append terms_lang_append) (simp add: x)
  moreover have "nfa_wf nfa'" "nfa_matches nfa' w a \<longleftrightarrow> prefix_matches (st @ [x]) w a" for w a
    using n(4) nfa(4,5) by (auto simp: grown_def above_def x prefix_matches_snoc)
  ultimately show ?case using n(2) by blast
qed

lemma generateNFA_spec:
  assumes "list_all (\<lambda>e. graph_term (fst e)) st" "tree_ok v" "tree_terms graph_term v"
  shows "\<exists>nfa. generateNFA st v = Some nfa \<and> nfa_wf nfa
    \<and> (\<forall>w a. nfa_matches nfa w a \<longleftrightarrow> prefix_matches st w a
        \<or> (\<exists>e \<in> set (prefixEdges v). \<not> inVariableLengthPrefix (snd e)
             \<and> reachEdge (terms_lang (map fst st)) e w a))"
proof -
  from generatePrefix_spec [OF assms(1)] obtain nfa s where nfa: "generatePrefix st = Some (nfa, s)" "nfa_wf nfa"
    "s < length (m_nodes nfa)" "node_lang nfa s = terms_lang (map fst st)"
    "\<And>w a. nfa_matches nfa w a \<longleftrightarrow> prefix_matches st w a" by blast
  let ?L = "terms_lang (map fst st)"
  let ?R = "\<lambda>e w a. \<not> inVariableLengthPrefix (snd e) \<and> reachEdge ?L e w a"
  let ?f = "\<lambda>(term, v') nfa. if inVariableLengthPrefix v' then Some nfa
       else do {
         (nfa, newSubtreeStart) \<leftarrow> generateGraph term nfa s (finalActions v');
         generateNFAForSubtree v' nfa newSubtreeStart
       }"
  have step: "\<exists>n'. ?f e n = Some n' \<and> grown n n' (?R e)"
    if e: "e \<in> set (prefixEdges v)" and n: "above nfa n" for e n
  proof (cases "inVariableLengthPrefix (snd e)")
    case True
    then show ?thesis using n by (auto simp: split_beta above_def intro!: grown_refl)
  next
    case False
    obtain t v' where tv: "e = (t, v')" by fastforce
    have ok: "tree_ok v'" "edge_ok t v'" "valid_term t" "solid t" "tree_terms graph_term v'"
      using assms(2,3) e tv by (cases v; auto)+
    then have nf: "\<not> flagged (prefixEdges v')" using False by (auto simp: edge_ok_def tv)
    have s: "s < length (m_nodes n)" "node_lang n s = ?L" "nfa_wf n"
      using n nfa by (auto simp: above_def)
    from generateGraph_grown [OF ok(3,4) s(3,1), of "finalActions v'", unfolded s(2)] obtain n1 x where
      g: "generateGraph t n s (finalActions v') = Some (n1, x)" "x < length (m_nodes n1)"
      "node_lang n1 x = conc ?L (term_lang t)"
      "grown n n1 (\<lambda>w a. w \<in> conc ?L (term_lang t) \<and> a \<in> set (finalActions v'))" by blast
    have "nfa_wf n1" using g(4) by (auto simp: grown_def above_def)
    from generateNFAForSubtree_grown [OF ok(1,5) nf this g(2)] obtain n2 where
      n2: "generateNFAForSubtree v' n1 x = Some n2" "grown n1 n2 (reach (conc ?L (term_lang t)) v')"
      by (auto simp: g(3))
    have "grown n n2 (?R e)"
      by (rule grown_trans [OF g(4) n2(2)]) (use False in \<open>auto simp: tv reachEdge_def\<close>)
    then show ?thesis using g(1) n2(1) False by (simp add: tv)
  qed
  from foldM_grown [of nfa "prefixEdges v" ?f ?R, OF nfa(2) step] obtain n' where
    n': "foldM ?f (prefixEdges v) nfa = Some n'" "grown nfa n' (\<lambda>w a. \<exists>e \<in> set (prefixEdges v). ?R e w a)"
    by blast
  then have "generateNFA st v = Some n'" by (simp add: generateNFA_def nfa(1))
  with n'(2) nfa(5) show ?thesis by (auto simp: grown_def above_def)
qed

text \<open>
  The traversal appends to the vector of NFAs. Each vertex with a variable length prefix hands its
  actions, through the path, to at least one NFA generated in its subtree.
\<close>

definition nfas_for :: "(Term \<times> u64 list) list \<Rightarrow> PrefixTreeVertex \<Rightarrow> NFA list \<Rightarrow> bool" where
  "nfas_for st v new \<longleftrightarrow> (\<forall>nfa \<in> set new. nfa_wf nfa) \<and> (leaf_ok v \<longrightarrow> new \<noteq> [])
     \<and> (\<forall>w a. (\<exists>nfa \<in> set new. nfa_matches nfa w a) \<longleftrightarrow>
           (new \<noteq> [] \<and> prefix_matches st w a) \<or> reach (terms_lang (map fst st)) v w a)"

lemma nfas_forI:
  assumes "\<forall>nfa \<in> set new. nfa_wf nfa" "leaf_ok v \<longrightarrow> new \<noteq> []"
    "\<And>w a. (\<exists>nfa \<in> set new. nfa_matches nfa w a) \<longleftrightarrow>
       (new \<noteq> [] \<and> prefix_matches st w a) \<or> reach (terms_lang (map fst st)) v w a"
  shows "nfas_for st v new"
  using assms unfolding nfas_for_def by blast

lemma foldM_appends:
  assumes "\<And>x xs0. x \<in> set xs \<Longrightarrow> \<exists>new. f x xs0 = Some (xs0 @ new) \<and> R x new"
  shows "\<exists>news. foldM f xs ys = Some (ys @ concat news) \<and> list_all2 R xs news"
  using assms
proof (induction xs arbitrary: ys)
  case (Cons x xs)
  from Cons.prems [of x ys] obtain new where new: "f x ys = Some (ys @ new)" "R x new" by auto
  from Cons.IH [of "ys @ new"] Cons.prems obtain news where
    "foldM f xs (ys @ new) = Some (ys @ new @ concat news)" "list_all2 R xs news" by auto
  with new have "foldM f (x # xs) ys = Some (ys @ concat (new # news)) \<and> list_all2 R (x # xs) (new # news)" by simp
  then show ?case by blast
qed simp

lemma list_all2_concat_ex:
  "list_all2 R xs news \<Longrightarrow> (\<And>x new. x \<in> set xs \<Longrightarrow> R x new \<Longrightarrow> (\<exists>n \<in> set new. Q n) \<longleftrightarrow> P x) \<Longrightarrow>
     (\<exists>n \<in> set (concat news). Q n) \<longleftrightarrow> (\<exists>x \<in> set xs. P x)"
proof (induction rule: list_all2_induct)
  case (Cons x xs y ys)
  have "(\<exists>n \<in> set y. Q n) \<longleftrightarrow> P x" by (rule Cons.prems [OF _ Cons.hyps(1)]) simp
  moreover have "(\<exists>n \<in> set (concat ys). Q n) \<longleftrightarrow> (\<exists>x \<in> set xs. P x)"
    by (rule Cons.IH [OF Cons.prems]) simp
  ultimately show ?case by auto
qed simp

lemma createNFAsFrom_spec:
  "tree_ok v \<Longrightarrow> tree_terms graph_term v \<Longrightarrow> list_all (\<lambda>e. graph_term (fst e)) st \<Longrightarrow>
    \<exists>new. createNFAsFrom st v nfas = Some (nfas @ new) \<and> nfas_for st v new"
proof (induction v arbitrary: st nfas)
  case (PrefixTreeVertex es acts var)
  let ?v = "PrefixTreeVertex es acts var"
  let ?L = "terms_lang (map fst st)"
  let ?f = "\<lambda>(term, v) nfas. if inVariableLengthPrefix v
    then createNFAsFrom (st @ [(term, finalActions v)]) v nfas else Some nfas"
  let ?R = "\<lambda>e new. if inVariableLengthPrefix (snd e)
    then nfas_for (st @ [(fst e, finalActions (snd e))]) (snd e) new else new = []"
  have step: "\<exists>new. ?f e ns = Some (ns @ new) \<and> ?R e new" if e: "e \<in> set es" for e ns
  proof -
    obtain t v where tv: "e = (t, v)" by fastforce
    have "(t, v) \<in> set es" "v \<in> Basic_BNFs.snds (t, v)" using e tv by auto
    note ih = PrefixTreeVertex.IH [OF this]
    have "tree_ok v" "tree_terms graph_term v" "graph_term t"
      using PrefixTreeVertex.prems e tv by auto
    then show ?thesis
      using PrefixTreeVertex.prems(3) ih [of "st @ [(t, finalActions v)]" ns] by (simp add: tv)
  qed
  from foldM_appends [of es ?f ?R nfas, OF step] obtain news where
    news: "foldM ?f es nfas = Some (nfas @ concat news)" "list_all2 ?R es news" by blast
  have edge: "(\<exists>n \<in> set new. nfa_matches n w a) \<longleftrightarrow>
        inVariableLengthPrefix (snd e) \<and> (prefix_matches st w a \<or> reachEdge ?L e w a)"
      "(\<exists>n \<in> set new. True) \<longleftrightarrow> inVariableLengthPrefix (snd e)"
    if e: "e \<in> set es" and r: "?R e new" for e new w a
  proof -
    have "edge_ok (fst e) (snd e)" using PrefixTreeVertex.prems(1) e by simp
    moreover have "terms_lang (map fst (st @ [(fst e, acts')])) = conc ?L (term_lang (fst e))" for acts' :: "u64 list"
      by (simp only: map_append terms_lang_append) simp
    ultimately show "(\<exists>n \<in> set new. nfa_matches n w a) \<longleftrightarrow>
        inVariableLengthPrefix (snd e) \<and> (prefix_matches st w a \<or> reachEdge ?L e w a)"
      "(\<exists>n \<in> set new. True) \<longleftrightarrow> inVariableLengthPrefix (snd e)"
      using r by (auto simp: nfas_for_def edge_ok_def prefix_matches_snoc reachEdge_def ex_in_conv split: if_splits)
  qed
  have wf: "\<forall>nfa \<in> set (concat news). nfa_wf nfa"
    using news(2) by (induction rule: list_all2_induct) (auto simp: nfas_for_def split: if_splits)
  have old: "(\<exists>n \<in> set (concat news). nfa_matches n w a) \<longleftrightarrow>
      (\<exists>e \<in> set es. inVariableLengthPrefix (snd e) \<and> (prefix_matches st w a \<or> reachEdge ?L e w a))" for w a
    by (rule list_all2_concat_ex [OF news(2) edge(1)])
  have nonempty: "concat news \<noteq> [] \<longleftrightarrow> flagged es"
  proof -
    have "xs \<noteq> [] \<longleftrightarrow> (\<exists>n \<in> set xs. True)" for xs :: "NFA list" by (cases xs) auto
    then show ?thesis by (simp only: list_all2_concat_ex [OF news(2) edge(2)])
  qed
  have reach: "reach ?L ?v w a \<longleftrightarrow> (\<exists>e \<in> set es. reachEdge ?L e w a)" for w a
    using reach_edges [of ?v ?L] PrefixTreeVertex.prems(1) by simp
  show ?case
  proof (cases "needToGenerate ?v")
    case True
    from generateNFA_spec [OF PrefixTreeVertex.prems(3,1,2)] obtain nfa where
      nfa: "generateNFA st ?v = Some nfa" "nfa_wf nfa"
      "\<And>w a. nfa_matches nfa w a \<longleftrightarrow> prefix_matches st w a
         \<or> (\<exists>e \<in> set es. \<not> inVariableLengthPrefix (snd e) \<and> reachEdge ?L e w a)" by auto
    have "createNFAsFrom st ?v nfas = Some (nfas @ (concat news @ [nfa]))"
      using news(1) nfa(1) True by simp
    moreover have "(\<exists>n \<in> set (concat news @ [nfa]). nfa_matches n w a) \<longleftrightarrow>
       (concat news @ [nfa] \<noteq> [] \<and> prefix_matches st w a) \<or> reach ?L ?v w a" for w a
    proof -
      have "(\<exists>n \<in> set (concat news @ [nfa]). nfa_matches n w a) \<longleftrightarrow>
        nfa_matches nfa w a \<or> (\<exists>n \<in> set (concat news). nfa_matches n w a)" by auto
      then show ?thesis unfolding old nfa(3) reach by blast
    qed
    moreover have "\<forall>nfa \<in> set (concat news @ [nfa]). nfa_wf nfa" using wf nfa(2) by simp
    ultimately show ?thesis by (intro exI [of _ "concat news @ [nfa]"] conjI nfas_forI) simp_all
  next
    case False
    then have all: "\<forall>e \<in> set es. inVariableLengthPrefix (snd e)" and leaf: "es = [] \<Longrightarrow> acts = []"
      by (auto simp: needToGenerate_def list_ex_iff)
    have "createNFAsFrom st ?v nfas = Some (nfas @ concat news)" using news(1) False by simp
    moreover have "leaf_ok ?v \<longrightarrow> concat news \<noteq> []"
      using nonempty all leaf by (cases es) (auto simp: leaf_ok_def)
    moreover have "(\<exists>n \<in> set (concat news). nfa_matches n w a) \<longleftrightarrow>
       concat news \<noteq> [] \<and> prefix_matches st w a \<or> reach ?L ?v w a" for w a
      unfolding old nonempty reach using all by blast
    ultimately show ?thesis using wf
      by (intro exI [of _ "concat news"] conjI nfas_forI) simp_all
  qed
qed

lemma createNFAs_spec:
  assumes "filters_ok f"
  shows "\<exists>nfas. createNFAs f = Some nfas \<and> (\<forall>nfa \<in> set nfas. nfa_wf nfa)
    \<and> (\<forall>w a. (\<exists>nfa \<in> set nfas. nfa_matches nfa w a) \<longleftrightarrow>
         (\<exists>p. a \<in> filterActions f p \<and> w \<in> terms_lang p))"
proof -
  let ?r = "m_prefixTreeRoot f"
  have ok: "tree_ok ?r" "finalActions ?r = []" "tree_terms graph_term ?r"
    using assms by (auto simp: root_ok_def filters_ok_def)
  from createNFAsFrom_spec [OF ok(1,3), of "[]" "[]"] obtain new where
    new: "createNFAs f = Some new" "nfas_for [] ?r new" by (auto simp: createNFAs_def)
  have "reach {[]} ?r w a \<longleftrightarrow> (\<exists>p. a \<in> filterActions f p \<and> w \<in> terms_lang p)" for w a
  proof
    assume "\<exists>p. a \<in> filterActions f p \<and> w \<in> terms_lang p"
    then obtain p where p: "a \<in> set (patternActions ?r p)" "w \<in> terms_lang p"
      unfolding filterActions_def by blast
    then show "reach {[]} ?r w a" using ok(2) by (cases p) (auto simp: reach_def)
  next
    assume "reach {[]} ?r w a"
    then show "\<exists>p. a \<in> filterActions f p \<and> w \<in> terms_lang p"
      unfolding reach_def filterActions_def conc_Nil by blast
  qed
  moreover have "\<not> prefix_matches [] w a" for w a by (simp add: prefix_matches_def)
  ultimately have "(\<exists>nfa \<in> set new. nfa_matches nfa w a) \<longleftrightarrow> (\<exists>p. a \<in> filterActions f p \<and> w \<in> terms_lang p)" for w a
    using new(2) unfolding nfas_for_def by simp
  moreover have "\<forall>nfa \<in> set new. nfa_wf nfa" using new(2) unfolding nfas_for_def by blast
  ultimately show ?thesis using new(1) by blast
qed



text \<open>C23.
  The invariant of the prefix tree that the NFA generation and the early return of \<^verbatim>\<open>addPattern\<close> rely on:
  after any additions the keys of every vertex are distinct, every leaf has actions, and a vertex is flagged exactly when
  the term that leads to it, or some term below it, has no fixed length.
\<close>

theorem addPattern_invariant:
  "root_ok (m_prefixTreeRoot (fold (\<lambda>(a, p). addPattern a p) patterns new_CombinedURLFilters))"
proof -
  have "root_ok (m_prefixTreeRoot f) \<Longrightarrow>
      root_ok (m_prefixTreeRoot (fold (\<lambda>(a, p). addPattern a p) patterns f))" for f
    by (induction patterns arbitrary: f) (auto simp: addPattern_def root_ok_addPattern)
  then show ?thesis using root_ok_new by (simp add: new_CombinedURLFilters_def)
qed

end
