(* ===== verification/URLFilterParser.thy ===== *)
theory URLFilterParser
  imports CombinedURLFilters
begin

text \<open>
  \<^verbatim>\<open>Source/WebCore/contentextensions/URLFilterParser.cpp\<close>: the delegate that \<^verbatim>\<open>JSC::Yarr::parse\<close>
  drives, one call per syntactic element of a pattern, and that turns the calls into a list of
  terms. Yarr is not part of the tree: it is a parameter, a function from patterns to the calls it
  makes and whether it reported an error. A call whose \<^verbatim>\<open>ASSERT\<close> fails, or that takes
  from an empty \<^verbatim>\<open>Deque\<close>, is \<open>None\<close>.
\<close>

section \<open>Parse status\<close>

datatype ParseStatus = Ok | MatchesEverything | NonASCII | UnsupportedCharacterClass | BackReference
  | MisplacedStartOfLine | WordBoundary | AtomCharacter | Group_status | Disjunction_status
  | MisplacedEndOfLine | EmptyPattern | YarrError | InvalidQuantifier

fun statusString :: "ParseStatus \<Rightarrow> string" where
  "statusString Ok = ''Ok''"
| "statusString MatchesEverything = ''Matches everything.''"
| "statusString NonASCII = ''Only ASCII characters are supported in pattern.''"
| "statusString UnsupportedCharacterClass = ''Character class is not supported.''"
| "statusString BackReference = ''Patterns cannot contain backreferences.''"
| "statusString MisplacedStartOfLine =
     ''Start of line assertion can only appear as the first term in a filter.''"
| "statusString WordBoundary = ''Word boundaries assertions are not supported yet.''"
| "statusString AtomCharacter = ''Builtins character class atoms are not supported yet.''"
| "statusString Group_status = ''Groups are not supported yet.''"
| "statusString Disjunction_status = ''Disjunctions are not supported yet.''"
| "statusString MisplacedEndOfLine =
     ''The end of line assertion must be the last term in an expression.''"
| "statusString EmptyPattern = ''Empty pattern.''"
| "statusString YarrError = ''Internal error in YARR.''"
| "statusString InvalidQuantifier = ''Arbitrary atom repetitions are not supported.''"

section \<open>The calls of Yarr\<close>

datatype YarrCall =
    CallPatternCharacter u16
  | CallBuiltInCharacterClass nat bool
  | CallQuantifyAtom u32 u32 bool
  | CallBackReference u32
  | CallAssertionBOL
  | CallAssertionEOL
  | CallAssertionWordBoundary bool
  | CallCharacterClassBegin bool
  | CallCharacterClassAtom u16
  | CallCharacterClassRange u16 u16
  | CallCharacterClassEnd
  | CallCharacterClassBuiltIn nat bool
  | CallParenthesesSubpatternBegin bool
  | CallParentheticalAssertionBegin bool
  | CallParenthesesEnd
  | CallDisjunction

text \<open>
  What the code uses of Yarr: the identifier of the newline class, the value that stands for an
  unbounded quantifier, and \<^verbatim>\<open>parse\<close>, which drives the delegate and returns an error string (a
  non-null one is \<open>True\<close> here).
\<close>

record yarr =
  NewlineClassID :: nat
  quantifyInfinite :: u32
  yarr_parse :: "u16 list \<Rightarrow> YarrCall list \<times> bool"

section \<open>The pattern parser\<close>

record PatternParser =
  m_patternIsCaseSensitive :: bool
  m_openGroups :: "Term list"
  m_sunkTerms :: "Term list"
  m_floatingTerm :: Term
  m_hasBeginningOfLineAssertion :: bool
  m_hasProcessedEndOfLineAssertion :: bool
  m_parseStatus :: ParseStatus

definition new_PatternParser :: "bool \<Rightarrow> PatternParser" where
  "new_PatternParser patternIsCaseSensitive =
     \<lparr>m_patternIsCaseSensitive = patternIsCaseSensitive, m_openGroups = [], m_sunkTerms = [],
      m_floatingTerm = new_Term, m_hasBeginningOfLineAssertion = False,
      m_hasProcessedEndOfLineAssertion = False, m_parseStatus = Ok\<rparr>"

definition hasError :: "PatternParser \<Rightarrow> bool" where
  "hasError p \<longleftrightarrow> m_parseStatus p \<noteq> Ok"

definition fail :: "ParseStatus \<Rightarrow> PatternParser \<Rightarrow> PatternParser" where
  "fail reason p = (if hasError p then p else p\<lparr>m_parseStatus := reason\<rparr>)"

definition sinkFloatingTermIfNecessary :: "PatternParser \<Rightarrow> PatternParser" where
  "sinkFloatingTermIfNecessary p =
     (if \<not> isValid (m_floatingTerm p) then p
      else if m_hasProcessedEndOfLineAssertion p
      then (fail MisplacedEndOfLine p)\<lparr>m_floatingTerm := new_Term\<rparr>
      else
        let p = (if isEndOfLineAssertion (m_floatingTerm p)
                 then p\<lparr>m_hasProcessedEndOfLineAssertion := True\<rparr> else p)
        in if m_openGroups p \<noteq> []
           then p\<lparr>m_openGroups := butlast (m_openGroups p)
                    @ [extendGroupSubpattern (last (m_openGroups p)) (m_floatingTerm p)],
                  m_floatingTerm := new_Term\<rparr>
           else p\<lparr>m_sunkTerms := m_sunkTerms p @ [m_floatingTerm p], m_floatingTerm := new_Term\<rparr>)"

definition atomPatternCharacter :: "u16 \<Rightarrow> PatternParser \<Rightarrow> PatternParser option" where
  "atomPatternCharacter character p =
     (if hasError p then Some p
      else if \<not> isASCII character then Some (fail NonASCII p)
      else let p = sinkFloatingTermIfNecessary p
        in Some (p\<lparr>m_floatingTerm := new_CharacterTerm (ucast character) (m_patternIsCaseSensitive p)\<rparr>))"

definition atomBuiltInCharacterClass :: "yarr \<Rightarrow> nat \<Rightarrow> bool \<Rightarrow> PatternParser \<Rightarrow> PatternParser option" where
  "atomBuiltInCharacterClass Y builtInCharacterClassID inverted p =
     (if hasError p then Some p
      else let p = sinkFloatingTermIfNecessary p
        in if builtInCharacterClassID = NewlineClassID Y \<and> inverted
           then Some (p\<lparr>m_floatingTerm := new_UniversalTransition\<rparr>)
           else Some (fail UnsupportedCharacterClass p))"

definition quantifyAtom :: "yarr \<Rightarrow> u32 \<Rightarrow> u32 \<Rightarrow> PatternParser \<Rightarrow> PatternParser option" where
  "quantifyAtom Y minimum maximum p =
     (if hasError p then Some p
      else if \<not> isValid (m_floatingTerm p) \<or> m_quantifier (m_floatingTerm p) \<noteq> One then None
      else if minimum = 0 \<and> maximum = 1
      then Some (p\<lparr>m_floatingTerm := quantify (m_floatingTerm p) ZeroOrOne\<rparr>)
      else if minimum = 0 \<and> maximum = quantifyInfinite Y
      then Some (p\<lparr>m_floatingTerm := quantify (m_floatingTerm p) ZeroOrMore\<rparr>)
      else if minimum = 1 \<and> maximum = quantifyInfinite Y
      then Some (p\<lparr>m_floatingTerm := quantify (m_floatingTerm p) OneOrMore\<rparr>)
      else Some (fail InvalidQuantifier p))"

definition assertionBOL :: "PatternParser \<Rightarrow> PatternParser option" where
  "assertionBOL p =
     (if hasError p then Some p
      else if isValid (m_floatingTerm p) \<or> m_sunkTerms p \<noteq> [] \<or> m_openGroups p \<noteq> []
      then Some (fail MisplacedStartOfLine p)
      else Some (p\<lparr>m_hasBeginningOfLineAssertion := True\<rparr>))"

definition assertionEOL :: "PatternParser \<Rightarrow> PatternParser option" where
  "assertionEOL p =
     (if hasError p then Some p
      else Some ((sinkFloatingTermIfNecessary p)\<lparr>m_floatingTerm := new_EndOfLineAssertionTerm\<rparr>))"

definition atomCharacterClassBegin :: "bool \<Rightarrow> PatternParser \<Rightarrow> PatternParser option" where
  "atomCharacterClassBegin inverted p =
     (if hasError p then Some p
      else Some ((sinkFloatingTermIfNecessary p)\<lparr>m_floatingTerm := new_CharacterSetTerm inverted\<rparr>))"

fun isCharacterSet :: "Term \<Rightarrow> bool" where
  "isCharacterSet (CharacterSet q i w) \<longleftrightarrow> True"
| "isCharacterSet t \<longleftrightarrow> False"

definition atomCharacterClassAtom :: "u16 \<Rightarrow> PatternParser \<Rightarrow> PatternParser option" where
  "atomCharacterClassAtom character p =
     (if hasError p then Some p
      else if \<not> isASCII character \<or> \<not> isCharacterSet (m_floatingTerm p) then None
      else Some (p\<lparr>m_floatingTerm := addCharacter (m_floatingTerm p) character (m_patternIsCaseSensitive p)\<rparr>))"

definition atomCharacterClassRange :: "u16 \<Rightarrow> u16 \<Rightarrow> PatternParser \<Rightarrow> PatternParser option" where
  "atomCharacterClassRange a b p =
     (if hasError p then Some p
      else if a = 0 \<or> b = 0 \<or> \<not> isASCII a \<or> \<not> isASCII b \<or> \<not> isCharacterSet (m_floatingTerm p) then None
      else Some (p\<lparr>m_floatingTerm :=
        fold (\<lambda>i t. addCharacter t (of_nat i) (m_patternIsCaseSensitive p))
          [unat a..<Suc (unat b)] (m_floatingTerm p)\<rparr>))"

definition atomParenthesesSubpatternBegin :: "PatternParser \<Rightarrow> PatternParser option" where
  "atomParenthesesSubpatternBegin p =
     (if hasError p then Some p
      else let p = sinkFloatingTermIfNecessary p
        in Some (p\<lparr>m_openGroups := m_openGroups p @ [new_GroupTerm]\<rparr>))"

definition atomParenthesesEnd :: "PatternParser \<Rightarrow> PatternParser option" where
  "atomParenthesesEnd p =
     (if hasError p then Some p
      else let p = sinkFloatingTermIfNecessary p
        in if m_openGroups p = [] then None
           else Some (p\<lparr>m_floatingTerm := last (m_openGroups p), m_openGroups := butlast (m_openGroups p)\<rparr>))"

definition atomBackReference :: "PatternParser \<Rightarrow> PatternParser option" where
  "atomBackReference p = Some (fail BackReference p)"

definition assertionWordBoundary :: "PatternParser \<Rightarrow> PatternParser option" where
  "assertionWordBoundary p = Some (fail WordBoundary p)"

definition atomCharacterClassEnd :: "PatternParser \<Rightarrow> PatternParser option" where
  "atomCharacterClassEnd p = Some p"

definition atomCharacterClassBuiltIn :: "PatternParser \<Rightarrow> PatternParser option" where
  "atomCharacterClassBuiltIn p = Some (fail AtomCharacter p)"

definition atomParentheticalAssertionBegin :: "PatternParser \<Rightarrow> PatternParser option" where
  "atomParentheticalAssertionBegin p = Some (fail Group_status p)"

definition disjunction :: "PatternParser \<Rightarrow> PatternParser option" where
  "disjunction p = Some (fail Disjunction_status p)"

text \<open>The calls for elements that are always an error, and for the end of a class.\<close>

lemmas simple_calls = atomBackReference_def assertionWordBoundary_def atomCharacterClassEnd_def
  atomCharacterClassBuiltIn_def atomParentheticalAssertionBegin_def disjunction_def

declare simple_calls [simp]

fun delegateCall :: "yarr \<Rightarrow> YarrCall \<Rightarrow> PatternParser \<Rightarrow> PatternParser option" where
  "delegateCall Y (CallPatternCharacter c) p = atomPatternCharacter c p"
| "delegateCall Y (CallBuiltInCharacterClass c inverted) p = atomBuiltInCharacterClass Y c inverted p"
| "delegateCall Y (CallQuantifyAtom minimum maximum _) p = quantifyAtom Y minimum maximum p"
| "delegateCall Y (CallBackReference _) p = atomBackReference p"
| "delegateCall Y CallAssertionBOL p = assertionBOL p"
| "delegateCall Y CallAssertionEOL p = assertionEOL p"
| "delegateCall Y (CallAssertionWordBoundary _) p = assertionWordBoundary p"
| "delegateCall Y (CallCharacterClassBegin inverted) p = atomCharacterClassBegin inverted p"
| "delegateCall Y (CallCharacterClassAtom c) p = atomCharacterClassAtom c p"
| "delegateCall Y (CallCharacterClassRange a b) p = atomCharacterClassRange a b p"
| "delegateCall Y CallCharacterClassEnd p = atomCharacterClassEnd p"
| "delegateCall Y (CallCharacterClassBuiltIn _ _) p = atomCharacterClassBuiltIn p"
| "delegateCall Y (CallParenthesesSubpatternBegin _) p = atomParenthesesSubpatternBegin p"
| "delegateCall Y (CallParentheticalAssertionBegin _) p = atomParentheticalAssertionBegin p"
| "delegateCall Y CallParenthesesEnd p = atomParenthesesEnd p"
| "delegateCall Y CallDisjunction p = disjunction p"

section \<open>Simplification and finalization\<close>

definition canonicalDotStar :: Term where
  "canonicalDotStar = quantify new_UniversalTransition ZeroOrMore"

text \<open>The loop over the terms; the flag is \<^verbatim>\<open>isAfterDotStar\<close>.\<close>

fun collapseDotStars :: "bool \<Rightarrow> Term list \<Rightarrow> Term list" where
  "collapseDotStars isAfterDotStar [] = []"
| "collapseDotStars isAfterDotStar (t # ts) =
     (if isAfterDotStar \<and> isKnownToMatchAnyString t then collapseDotStars True ts
      else if isKnownToMatchAnyString t then canonicalDotStar # collapseDotStars True ts
      else t # collapseDotStars False ts)"

definition removeTrailingEmpty :: "Term list \<Rightarrow> Term list" where
  "removeTrailingEmpty ts = rev (dropWhile (\<lambda>t. \<not> matchesAtLeastOneCharacter t) (rev ts))"

definition simplifyTerms :: "bool \<Rightarrow> Term list \<Rightarrow> Term list" where
  "simplifyTerms hasBeginningOfLineAssertion sunk =
     (if sunk = [] then []
      else
        let ts = collapseDotStars False sunk;
            ts = (if \<not> hasBeginningOfLineAssertion \<and> \<not> isKnownToMatchAnyString (hd ts)
                  then canonicalDotStar # ts else ts);
            ts = (if length ts > 2 \<and> isEndOfLineAssertion (last ts)
                     \<and> isKnownToMatchAnyString (ts ! (length ts - 2))
                  then take (length ts - 2) ts else ts)
        in if isEndOfLineAssertion (last ts) then ts else removeTrailingEmpty ts)"

definition simplifySunkTerms :: "PatternParser \<Rightarrow> PatternParser" where
  "simplifySunkTerms p = p\<lparr>m_sunkTerms := simplifyTerms (m_hasBeginningOfLineAssertion p) (m_sunkTerms p)\<rparr>"

definition finalize :: "u64 \<Rightarrow> PatternParser \<Rightarrow> CombinedURLFilters \<Rightarrow> PatternParser \<times> CombinedURLFilters" where
  "finalize patternId p filters =
     (if hasError p then (p, filters)
      else
        let p = simplifySunkTerms (sinkFloatingTermIfNecessary p)
        in if \<not> list_ex matchesAtLeastOneCharacter (m_sunkTerms p) then (fail MatchesEverything p, filters)
           else (p, addPattern patternId (m_sunkTerms p) filters))"

definition containsOnlyASCII :: "u16 list \<Rightarrow> bool" where
  "containsOnlyASCII s = list_all isASCII s"

definition URLFilterParser_addPattern ::
  "yarr \<Rightarrow> u16 list \<Rightarrow> bool \<Rightarrow> u64 \<Rightarrow> CombinedURLFilters \<Rightarrow> (ParseStatus \<times> CombinedURLFilters) option" where
  "URLFilterParser_addPattern Y pattern patternIsCaseSensitive patternId filters =
     (if \<not> containsOnlyASCII pattern then Some (NonASCII, filters)
      else if pattern = [] then Some (EmptyPattern, filters)
      else
        let (calls, error) = yarr_parse Y pattern
        in do {
          p \<leftarrow> foldM (delegateCall Y) calls (new_PatternParser patternIsCaseSensitive);
          (if error then Some (YarrError, filters)
           else let (p, filters) = finalize patternId p filters in Some (m_parseStatus p, filters))
        })"


section \<open>Errors\<close>

named_theorems parser_defs \<open>the delegate calls\<close>

declare atomPatternCharacter_def [parser_defs] atomBuiltInCharacterClass_def [parser_defs]
  quantifyAtom_def [parser_defs] assertionBOL_def [parser_defs] assertionEOL_def [parser_defs]
  atomCharacterClassBegin_def [parser_defs] atomCharacterClassAtom_def [parser_defs]
  atomCharacterClassRange_def [parser_defs] atomParenthesesSubpatternBegin_def [parser_defs]
  atomParenthesesEnd_def [parser_defs]

lemma delegateCall_error: "hasError p \<Longrightarrow> delegateCall Y c p = Some p"
  by (cases c) (simp_all add: parser_defs fail_def)

lemma calls_error: "hasError p \<Longrightarrow> foldM (delegateCall Y) calls p = Some p"
  by (induction calls) (simp_all add: delegateCall_error)

lemma hasError_fail [simp]: "reason \<noteq> Ok \<Longrightarrow> hasError (fail reason p)"
  by (simp add: fail_def hasError_def)

text \<open>C25.
  The first error wins: once a call has failed, no later call of Yarr changes the parser, so the status that
  \<^verbatim>\<open>addPattern\<close> reports is the one of the first offending element of the pattern.
\<close>

theorem first_error_wins:
  assumes "foldM (delegateCall Y) calls (new_PatternParser cs) = Some p" "m_parseStatus p \<noteq> Ok"
  shows "foldM (delegateCall Y) (calls @ rest) (new_PatternParser cs) = Some p
    \<and> finalize patternId p filters = (p, filters)"
  using assms calls_error [of p Y rest] by (simp add: foldM_append finalize_def hasError_def)

text \<open>An instance of Yarr: two patterns with their calls, every other pattern as plain characters.\<close>

definition example_yarr :: yarr where
  "example_yarr = \<lparr>NewlineClassID = 3, quantifyInfinite = - 1,
     yarr_parse = (\<lambda>pattern.
       if pattern = [94, 97, 63, 36]
       then ([CallAssertionBOL, CallPatternCharacter 97, CallQuantifyAtom 0 1 True, CallAssertionEOL], False)
       else if pattern = [97, 36, 98]
       then ([CallPatternCharacter 97, CallAssertionEOL, CallPatternCharacter 98], False)
       else (map CallPatternCharacter pattern, False))\<rparr>"

theorem first_error_wins_witness:
  "foldM (delegateCall example_yarr) ([CallDisjunction] @ [CallBackReference 1]) (new_PatternParser True)
     = Some ((new_PatternParser True)\<lparr>m_parseStatus := Disjunction_status\<rparr>)"
  using first_error_wins [of example_yarr "[CallDisjunction]" True
      "(new_PatternParser True)\<lparr>m_parseStatus := Disjunction_status\<rparr>" "[CallBackReference 1]"]
  by (simp add: fail_def hasError_def new_PatternParser_def)

section \<open>The calls of Yarr are accepted\<close>

text \<open>
  The call sequences that Yarr documents: groups are balanced, a quantifier follows an atom, the
  calls for the members of a class come between its begin and its end. The members of classes
  are non-null ASCII characters, as the assertions of the delegate ask. The arguments are the number of
  open groups, whether a class is open, and whether an atom has just ended.
\<close>

fun yarr_calls :: "nat \<Rightarrow> bool \<Rightarrow> bool \<Rightarrow> YarrCall list \<Rightarrow> bool" where
  "yarr_calls d cls atom [] \<longleftrightarrow> \<not> cls"
| "yarr_calls d cls atom (c # cs) \<longleftrightarrow> (case c of
     CallPatternCharacter x \<Rightarrow> \<not> cls \<and> yarr_calls d False True cs
   | CallBuiltInCharacterClass x inverted \<Rightarrow> \<not> cls \<and> yarr_calls d False True cs
   | CallQuantifyAtom m n greedy \<Rightarrow> \<not> cls \<and> atom \<and> yarr_calls d False False cs
   | CallBackReference n \<Rightarrow> \<not> cls \<and> yarr_calls d False True cs
   | CallAssertionBOL \<Rightarrow> \<not> cls \<and> yarr_calls d False False cs
   | CallAssertionEOL \<Rightarrow> \<not> cls \<and> yarr_calls d False False cs
   | CallAssertionWordBoundary inverted \<Rightarrow> \<not> cls \<and> yarr_calls d False False cs
   | CallCharacterClassBegin inverted \<Rightarrow> \<not> cls \<and> yarr_calls d True False cs
   | CallCharacterClassAtom x \<Rightarrow> cls \<and> isASCII x \<and> yarr_calls d True False cs
   | CallCharacterClassRange x y \<Rightarrow> cls \<and> x \<noteq> 0 \<and> y \<noteq> 0 \<and> isASCII x \<and> isASCII y \<and> yarr_calls d True False cs
   | CallCharacterClassEnd \<Rightarrow> cls \<and> yarr_calls d False True cs
   | CallCharacterClassBuiltIn x inverted \<Rightarrow> cls \<and> yarr_calls d True False cs
   | CallParenthesesSubpatternBegin capture \<Rightarrow> \<not> cls \<and> yarr_calls (Suc d) False False cs
   | CallParentheticalAssertionBegin inverted \<Rightarrow> \<not> cls \<and> yarr_calls (Suc d) False False cs
   | CallParenthesesEnd \<Rightarrow> \<not> cls \<and> 0 < d \<and> yarr_calls (d - 1) False True cs
   | CallDisjunction \<Rightarrow> \<not> cls \<and> yarr_calls d False False cs)"

fun fresh_group :: "Term \<Rightarrow> bool" where
  "fresh_group (Group q ts) \<longleftrightarrow> q = One \<and> list_all valid_term ts"
| "fresh_group t \<longleftrightarrow> False"

definition floating_ok :: "Term \<Rightarrow> bool" where
  "floating_ok t \<longleftrightarrow> (isValid t \<longrightarrow> valid_term t)"

text \<open>The invariant of the parser between two calls.\<close>

definition parser_ok :: "nat \<Rightarrow> bool \<Rightarrow> bool \<Rightarrow> PatternParser \<Rightarrow> bool" where
  "parser_ok d cls atom p \<longleftrightarrow>
     list_all valid_term (m_sunkTerms p) \<and> list_all fresh_group (m_openGroups p)
     \<and> floating_ok (m_floatingTerm p)
     \<and> (\<not> hasError p \<longrightarrow> length (m_openGroups p) = d
         \<and> (atom \<longrightarrow> isValid (m_floatingTerm p) \<and> m_quantifier (m_floatingTerm p) = One)
         \<and> (cls \<longrightarrow> isCharacterSet (m_floatingTerm p) \<and> m_quantifier (m_floatingTerm p) = One))"

lemma floating_ok_simps [simp]:
  "floating_ok new_Term" "floating_ok (CharacterSet q i w)" "floating_ok new_UniversalTransition"
  "floating_ok new_EndOfLineAssertionTerm" "floating_ok (new_CharacterSetTerm i)"
  "floating_ok (new_CharacterTerm c cs)" "\<not> isValid new_Term"
  by (simp_all add: floating_ok_def new_Term_def new_UniversalTransition_def new_EndOfLineAssertionTerm_def
      new_CharacterSetTerm_def new_CharacterTerm_def)

lemma valid_fresh_group: "fresh_group g \<Longrightarrow> valid_term g \<and> m_quantifier g = One \<and> isValid g"
  by (cases g) simp_all

lemma fresh_group_extend: "fresh_group g \<Longrightarrow> valid_term t \<Longrightarrow> fresh_group (extendGroupSubpattern g t)"
  by (cases g) simp_all

lemma list_all_butlast_last:
  "list_all P xs \<Longrightarrow> xs \<noteq> [] \<Longrightarrow> list_all P (butlast xs) \<and> P (last xs)"
  by (auto simp: list_all_iff dest: in_set_butlastD)

text \<open>Sinking keeps the invariant and leaves no floating term.\<close>

lemma sink_ok:
  assumes "parser_ok d cls atom p" "\<not> hasError p"
  shows "parser_ok d False False (sinkFloatingTermIfNecessary p)
    \<and> \<not> isValid (m_floatingTerm (sinkFloatingTermIfNecessary p))
    \<and> length (m_openGroups (sinkFloatingTermIfNecessary p)) = d
    \<and> m_patternIsCaseSensitive (sinkFloatingTermIfNecessary p) = m_patternIsCaseSensitive p"
proof -
  have h: "list_all valid_term (m_sunkTerms p)" "list_all fresh_group (m_openGroups p)"
    "floating_ok (m_floatingTerm p)" "length (m_openGroups p) = d"
    using assms by (simp_all add: parser_ok_def)
  consider "\<not> isValid (m_floatingTerm p)"
    | "isValid (m_floatingTerm p)" "m_hasProcessedEndOfLineAssertion p"
    | "valid_term (m_floatingTerm p)" "isValid (m_floatingTerm p)" "\<not> m_hasProcessedEndOfLineAssertion p"
    using h(3) by (auto simp: floating_ok_def)
  then show ?thesis
  proof cases
    case 1
    then show ?thesis using h by (simp add: sinkFloatingTermIfNecessary_def parser_ok_def)
  next
    case 2
    then show ?thesis using h by (simp add: sinkFloatingTermIfNecessary_def parser_ok_def fail_def)
  next
    case 3
    note g = list_all_butlast_last [OF h(2)]
    show ?thesis
    proof (cases "m_openGroups p = []")
      case True
      then show ?thesis using h 3 by (simp add: sinkFloatingTermIfNecessary_def parser_ok_def Let_def)
    next
      case False
      then show ?thesis using h 3 g fresh_group_extend [of "last (m_openGroups p)" "m_floatingTerm p"]
        by (simp add: sinkFloatingTermIfNecessary_def parser_ok_def Let_def)
    qed
  qed
qed


lemma parser_ok_error: "parser_ok d cls atom p \<Longrightarrow> hasError p \<Longrightarrow> parser_ok d' cls' atom' p"
  by (simp add: parser_ok_def)

lemma parser_ok_fail: "parser_ok d cls atom p \<Longrightarrow> reason \<noteq> Ok \<Longrightarrow> parser_ok d' cls' atom' (fail reason p)"
  by (simp add: parser_ok_def) (simp add: fail_def)

lemma parser_ok_weaken: "parser_ok d cls atom p \<Longrightarrow> parser_ok d False False p"
  by (simp add: parser_ok_def)

lemma parser_ok_floating:
  assumes "parser_ok d cls atom p" "floating_ok t"
    and "atom' \<Longrightarrow> isValid t \<and> m_quantifier t = One"
    and "cls' \<Longrightarrow> isCharacterSet t \<and> m_quantifier t = One"
  shows "parser_ok d cls' atom' (p\<lparr>m_floatingTerm := t\<rparr>)"
  using assms by (simp add: parser_ok_def hasError_def)

lemma new_terms_quantifier [simp]:
  "m_quantifier new_UniversalTransition = One" "isValid new_UniversalTransition"
  "m_quantifier (new_CharacterSetTerm i) = One" "isCharacterSet (new_CharacterSetTerm i)"
  "m_quantifier (new_CharacterTerm c cs) = One" "isValid (new_CharacterTerm c cs)"
  "isValid new_EndOfLineAssertionTerm" "m_quantifier new_EndOfLineAssertionTerm = One"
  by (simp_all add: new_UniversalTransition_def new_CharacterSetTerm_def new_CharacterTerm_def
      new_EndOfLineAssertionTerm_def)

lemma isCharacterSet_iff: "isCharacterSet t \<longleftrightarrow> (\<exists>q i w. t = CharacterSet q i w)"
  by (cases t) simp_all

lemma addCharacter_set [simp]:
  "isCharacterSet (addCharacter t c cs) \<longleftrightarrow> isCharacterSet t"
  "m_quantifier (addCharacter t c cs) = m_quantifier t"
  by (cases t; simp)+

lemma addCharacters_set:
  "isCharacterSet (fold (\<lambda>i t. addCharacter t (f i) cs) is' t) \<longleftrightarrow> isCharacterSet t"
  "m_quantifier (fold (\<lambda>i t. addCharacter t (f i) cs) is' t) = m_quantifier t"
  by (induction is' arbitrary: t) simp_all

lemma floating_ok_set: "isCharacterSet t \<Longrightarrow> floating_ok t \<and> isValid t"
  by (cases t) simp_all

lemma floating_ok_quantify: "floating_ok t \<Longrightarrow> floating_ok (quantify t q)"
  by (cases t) (simp_all add: floating_ok_def)

lemma delegateCall_ok:
  assumes "parser_ok d cls atom p" "yarr_calls d cls atom (c # cs)"
  shows "\<exists>p' d' cls' atom'. delegateCall Y c p = Some p' \<and> parser_ok d' cls' atom' p'
    \<and> yarr_calls d' cls' atom' cs"
proof (cases "hasError p")
  case True
  obtain d' cls' atom' where "yarr_calls d' cls' atom' cs"
    using assms(2) by (cases c) auto
  then show ?thesis using delegateCall_error [OF True] parser_ok_error [OF assms(1) True] by blast
next
  case False
  let ?s = "sinkFloatingTermIfNecessary p"
  note s = sink_ok [OF assms(1) False]
  note fl = parser_ok_floating [of _ False False "?s", OF conjunct1 [OF s]]
  show ?thesis
  proof (cases c)
    case (CallPatternCharacter x)
    then show ?thesis
      using assms(2) False fl [of "new_CharacterTerm (ucast x) (m_patternIsCaseSensitive ?s)" True False]
        parser_ok_fail [OF assms(1), of NonASCII d False True]
      by (auto simp: atomPatternCharacter_def Let_def)
  next
    case (CallBuiltInCharacterClass x i)
    then show ?thesis
      using assms(2) False fl [of new_UniversalTransition True False]
        parser_ok_fail [OF conjunct1 [OF s], of UnsupportedCharacterClass d False True]
      by (auto simp: atomBuiltInCharacterClass_def Let_def)
  next
    case (CallQuantifyAtom m n g)
    have a: "isValid (m_floatingTerm p)" "m_quantifier (m_floatingTerm p) = One" "floating_ok (m_floatingTerm p)"
      using assms False CallQuantifyAtom by (auto simp: parser_ok_def)
    have "parser_ok d False False (p\<lparr>m_floatingTerm := quantify (m_floatingTerm p) q\<rparr>)" for q
      by (rule parser_ok_floating [OF assms(1) floating_ok_quantify [OF a(3)]]) simp_all
    then have "\<exists>p'. quantifyAtom Y m n p = Some p' \<and> parser_ok d False False p'"
      using a False parser_ok_fail [OF assms(1), of InvalidQuantifier d False False] by (simp add: quantifyAtom_def)
    then show ?thesis using assms(2) CallQuantifyAtom by auto
  next
    case CallAssertionBOL
    moreover have "parser_ok d False False (p\<lparr>m_hasBeginningOfLineAssertion := True\<rparr>)"
      using parser_ok_weaken [OF assms(1)] by (simp add: parser_ok_def hasError_def)
    ultimately show ?thesis
      using assms(2) False parser_ok_fail [OF assms(1), of MisplacedStartOfLine d False False]
      by (auto simp: assertionBOL_def)
  next
    case CallAssertionEOL
    then show ?thesis
      using assms(2) False fl [of new_EndOfLineAssertionTerm False False] by (auto simp: assertionEOL_def)
  next
    case (CallCharacterClassBegin i)
    then show ?thesis
      using assms(2) False fl [of "new_CharacterSetTerm i" False True] by (auto simp: atomCharacterClassBegin_def)
  next
    case (CallCharacterClassAtom x)
    then have t: "isCharacterSet (m_floatingTerm p)" "m_quantifier (m_floatingTerm p) = One"
      using assms False by (auto simp: parser_ok_def)
    let ?t = "addCharacter (m_floatingTerm p) x (m_patternIsCaseSensitive p)"
    have "parser_ok d True False (p\<lparr>m_floatingTerm := ?t\<rparr>)"
      using t floating_ok_set [of ?t] by (intro parser_ok_floating [OF assms(1)]) simp_all
    then show ?thesis using assms(2) False CallCharacterClassAtom t by (auto simp: atomCharacterClassAtom_def)
  next
    case (CallCharacterClassRange x y)
    then have t: "isCharacterSet (m_floatingTerm p)" "m_quantifier (m_floatingTerm p) = One"
      using assms False by (auto simp: parser_ok_def)
    let ?t = "fold (\<lambda>i t. addCharacter t (of_nat i) (m_patternIsCaseSensitive p))
      [unat x..<Suc (unat y)] (m_floatingTerm p)"
    have "parser_ok d True False (p\<lparr>m_floatingTerm := ?t\<rparr>)"
      using t floating_ok_set [of ?t] by (intro parser_ok_floating [OF assms(1)]) (simp_all add: addCharacters_set)
    moreover have "atomCharacterClassRange x y p = Some (p\<lparr>m_floatingTerm := ?t\<rparr>)"
      using assms(2) False CallCharacterClassRange t unfolding atomCharacterClassRange_def by simp
    ultimately have "\<exists>p'. atomCharacterClassRange x y p = Some p' \<and> parser_ok d True False p'" by blast
    then show ?thesis using assms(2) CallCharacterClassRange by auto
  next
    case CallCharacterClassEnd
    moreover have "parser_ok d False True p"
      using assms False CallCharacterClassEnd floating_ok_set by (auto simp: parser_ok_def)
    ultimately show ?thesis using assms(2) by auto
  next
    case (CallParenthesesSubpatternBegin capture)
    have "parser_ok (Suc d) False False (?s\<lparr>m_openGroups := m_openGroups ?s @ [new_GroupTerm]\<rparr>)"
      using s by (auto simp: parser_ok_def new_GroupTerm_def hasError_def)
    then show ?thesis using assms(2) False CallParenthesesSubpatternBegin
      by (auto simp: atomParenthesesSubpatternBegin_def Let_def)
  next
    case CallParenthesesEnd
    then have d: "0 < d" "m_openGroups ?s \<noteq> []" using assms(2) s by auto
    have g: "list_all fresh_group (m_openGroups ?s)" using s by (simp add: parser_ok_def)
    note g' = list_all_butlast_last [OF g d(2)]
    have "parser_ok (d - 1) False True
      (?s\<lparr>m_floatingTerm := last (m_openGroups ?s), m_openGroups := butlast (m_openGroups ?s)\<rparr>)"
      using s g' valid_fresh_group [of "last (m_openGroups ?s)"]
      by (simp add: parser_ok_def floating_ok_def hasError_def)
    then show ?thesis using assms(2) False CallParenthesesEnd d
      by (auto simp: atomParenthesesEnd_def Let_def)
  qed (use assms in \<open>auto simp: parser_ok_fail\<close>)
qed

lemma calls_ok:
  "parser_ok d cls atom p \<Longrightarrow> yarr_calls d cls atom cs \<Longrightarrow>
     \<exists>p' d' atom'. foldM (delegateCall Y) cs p = Some p' \<and> parser_ok d' False atom' p'"
proof (induction cs arbitrary: d cls atom p)
  case Nil
  then show ?case by auto
next
  case (Cons c cs)
  from delegateCall_ok [OF Cons.prems, of Y] obtain p' d' cls' atom' where
    "delegateCall Y c p = Some p'" "parser_ok d' cls' atom' p'" "yarr_calls d' cls' atom' cs" by blast
  with Cons.IH [of d' cls' atom' p'] show ?case by auto
qed



end
