(* ===== verification/ContentExtensionsBackend.thy ===== *)
theory ContentExtensionsBackend
  imports ResourceLoadInfo ContentExtensionRule DFABytecodeInterpreter URLFilterParser
begin

text \<open>
  The use of the compiled rules: \<^verbatim>\<open>CompiledContentExtension\<close>, \<^verbatim>\<open>ContentExtension\<close>, \<^verbatim>\<open>ContentExtensionStyleSheet\<close> and
  \<^verbatim>\<open>ContentExtensionsBackend\<close> in \<^verbatim>\<open>Source/WebCore/contentextensions\<close>, with what they change in the \<^verbatim>\<open>DocumentLoader\<close> and the
  \<^verbatim>\<open>DocumentStyleSheetCollection\<close>. The CSS parser is a parameter that says which texts it accepts; style sheets are their
  texts and the rules that were added to them. A failed assertion is \<open>None\<close>.
\<close>

section \<open>Extensions\<close>

record CompiledContentExtension =
  ce_bytecode :: "u8 list"
  ce_actions :: "u8 list"

definition action_at :: "CompiledContentExtension \<Rightarrow> u64 \<Rightarrow> Action option" where
  "action_at c actionLocation = deserialize (ce_actions c) (length (ce_actions c)) (unat (ucast actionLocation :: u32))"

definition globalDisplayNoneSelectors :: "CompiledContentExtension \<Rightarrow> WString option list option" where
  "globalDisplayNoneSelectors c = do {
     actionLocations \<leftarrow> actionsFromDFARoot (ce_bytecode c);
     globalActions \<leftarrow> mapM (action_at c) actionLocations;
     Some (map m_stringArgument (filter (\<lambda>action. m_type action = CSSDisplayNoneSelector) globalActions))
   }"

record ContentExtension =
  ce_identifier :: WString
  m_compiledExtension :: CompiledContentExtension
  m_globalDisplayNoneStyleSheet :: "WString option"
  m_parsedGlobalDisplayNoneStyleSheet :: bool

definition new_ContentExtension :: "WString \<Rightarrow> CompiledContentExtension \<Rightarrow> ContentExtension" where
  "new_ContentExtension identifier compiledExtension =
     \<lparr>ce_identifier = identifier, m_compiledExtension = compiledExtension, m_globalDisplayNoneStyleSheet = None,
      m_parsedGlobalDisplayNoneStyleSheet = False\<rparr>"

definition displayNoneCSSRule :: WString where
  "displayNoneCSSRule = String8 (map of_char ''display:none !important;'')"

definition append_selector :: "WString option \<Rightarrow> StringBuilder \<Rightarrow> StringBuilder option" where
  "append_selector selector css = do {
     css \<leftarrow> (case selector of None \<Rightarrow> Some css | Some s \<Rightarrow> append_String s css);
     css \<leftarrow> append_LChars (map of_char ''{'') css;
     css \<leftarrow> append_String displayNoneCSSRule css;
     append_LChars (map of_char ''}'') css
   }"

definition extension_styleSheet ::
  "(ustring \<Rightarrow> bool) \<Rightarrow> ContentExtension \<Rightarrow> (ContentExtension \<times> WString option) option" where
  "extension_styleSheet parseString e =
     (if m_parsedGlobalDisplayNoneStyleSheet e then Some (e, m_globalDisplayNoneStyleSheet e)
      else do {
        let e = e\<lparr>m_parsedGlobalDisplayNoneStyleSheet := True\<rparr>;
        selectors \<leftarrow> globalDisplayNoneSelectors (m_compiledExtension e);
        (if selectors = [] then Some (e, None)
         else do {
           css \<leftarrow> foldM append_selector selectors new_StringBuilder;
           (text, _) \<leftarrow> sb_toString css;
           let sheet = (if parseString (str_chars text) then Some text else None);
           Some (e\<lparr>m_globalDisplayNoneStyleSheet := sheet\<rparr>, sheet)
         })
      })"

section \<open>The backend\<close>

text \<open>The map is keyed by the characters of the identifiers.\<close>

type_synonym ContentExtensionsBackend = "(ustring \<times> ContentExtension) list"

definition removeContentExtension :: "WString \<Rightarrow> ContentExtensionsBackend \<Rightarrow> ContentExtensionsBackend" where
  "removeContentExtension identifier m = hm_remove (str_chars identifier) m"

definition addContentExtension ::
  "WString \<Rightarrow> CompiledContentExtension option \<Rightarrow> ContentExtensionsBackend \<Rightarrow> ContentExtensionsBackend option" where
  "addContentExtension identifier compiledExtension m =
     (if str_length identifier = 0 then None
      else case compiledExtension of
        None \<Rightarrow> Some (removeContentExtension identifier m)
      | Some c \<Rightarrow> Some (hm_upd (str_chars identifier) (new_ContentExtension identifier c) m))"

definition removeAllContentExtensions :: "ContentExtensionsBackend \<Rightarrow> ContentExtensionsBackend" where
  "removeAllContentExtensions m = []"

text \<open>The triggered actions, from the last location to the first or to an ignore-previous-rules.\<close>

fun addTriggered :: "ContentExtension \<Rightarrow> u32 list \<Rightarrow> Action list \<Rightarrow> (Action list \<times> bool) option" where
  "addTriggered e [] collected = Some (collected, False)"
| "addTriggered e (l # locations) collected = do {
     action \<leftarrow> deserialize (ce_actions (m_compiledExtension e)) (length (ce_actions (m_compiledExtension e))) (unat l);
     let action = setExtensionIdentifier (ce_identifier e) action;
     (if m_type action = IgnorePreviousRules then Some (collected, True)
      else addTriggered e locations (collected @ [action]))
   }"

definition addUniversal :: "ContentExtension \<Rightarrow> Action list \<Rightarrow> Action list option" where
  "addUniversal e collected = do {
     universalActions \<leftarrow> actionsFromDFARoot (ce_bytecode (m_compiledExtension e));
     collected \<leftarrow> foldM (\<lambda>actionLocation collected. do {
         action \<leftarrow> action_at (m_compiledExtension e) actionLocation;
         let action = setExtensionIdentifier (ce_identifier e) action;
         Some (if m_type action \<noteq> CSSDisplayNoneSelector then collected @ [action] else collected)
       }) universalActions collected;
     sheet \<leftarrow> new_Action_string CSSDisplayNoneStyleSheet (ce_identifier e) (- 1);
     Some (collected @ [setExtensionIdentifier (ce_identifier e) sheet])
   }"

definition extensionActions :: "u8 list \<Rightarrow> u16 \<Rightarrow> ContentExtension \<Rightarrow> Action list \<Rightarrow> Action list option" where
  "extensionActions url flags e collected = do {
     triggeredActions \<leftarrow> interpret_bytecode (ce_bytecode (m_compiledExtension e)) url flags;
     (collected, sawIgnorePreviousRules) \<leftarrow>
       addTriggered e (rev (sort (map (\<lambda>actionLocation. ucast actionLocation :: u32) triggeredActions))) collected;
     (if sawIgnorePreviousRules then Some collected else addUniversal e collected)
   }"

definition actionsForResourceLoad ::
  "Environment \<Rightarrow> nat \<times> nat \<Rightarrow> ContentExtensionsBackend \<Rightarrow> ResourceLoadInfo \<Rightarrow> Action list option" where
  "actionsForResourceLoad env fresh m i =
     (if protocolIsData (resourceURL i) then Some []
      else if \<not> containsOnlyASCII (URL.m_string (resourceURL i)) then None
      else do {
        flags \<leftarrow> getResourceFlags env fresh i;
        foldM (extensionActions (map ucast (URL.m_string (resourceURL i))) flags) (map snd m) []
      })"

definition globalDisplayNoneStyleSheet ::
  "(ustring \<Rightarrow> bool) \<Rightarrow> ustring \<Rightarrow> ContentExtensionsBackend \<Rightarrow> (ContentExtensionsBackend \<times> WString option) option" where
  "globalDisplayNoneStyleSheet parseString identifier m =
     (case map_of m identifier of
        None \<Rightarrow> Some (m, None)
      | Some e \<Rightarrow> do {
          (e, sheet) \<leftarrow> extension_styleSheet parseString e;
          Some (hm_upd identifier e m, sheet)
        })"

section \<open>Style sheets of a document\<close>

text \<open>The sheet that the selectors of an extension are added to: the identifiers that were added and the calls of \<^verbatim>\<open>addRule\<close>.\<close>

record ContentExtensionStyleSheet =
  m_addedSelectorIDs :: "u32 list"
  addedRules :: "(WString option \<times> WString) list"

definition styleSheet_addDisplayNoneSelector ::
  "WString option \<Rightarrow> u32 \<Rightarrow> ContentExtensionStyleSheet \<Rightarrow> ContentExtensionStyleSheet option" where
  "styleSheet_addDisplayNoneSelector selector selectorID s =
     (if selectorID = - 1 then None
      else Some (if selectorID \<in> set (m_addedSelectorIDs s) then s
        else s\<lparr>m_addedSelectorIDs := m_addedSelectorIDs s @ [selectorID],
               addedRules := addedRules s @ [(selector, displayNoneCSSRule)]\<rparr>))"

record DocumentStyleSheetCollection =
  m_contentExtensionSelectorSheets :: "(ustring \<times> ContentExtensionStyleSheet) list"
  m_contentExtensionSheets :: "(ustring \<times> WString) list"

definition document_addDisplayNoneSelector ::
  "ustring \<Rightarrow> WString option \<Rightarrow> u32 \<Rightarrow> DocumentStyleSheetCollection \<Rightarrow> DocumentStyleSheetCollection option" where
  "document_addDisplayNoneSelector identifier selector selectorID d =
     (let sheet = (case map_of (m_contentExtensionSelectorSheets d) identifier of
          None \<Rightarrow> \<lparr>m_addedSelectorIDs = [], addedRules = []\<rparr> | Some sheet \<Rightarrow> sheet) in do {
        sheet \<leftarrow> styleSheet_addDisplayNoneSelector selector selectorID sheet;
        Some (d\<lparr>m_contentExtensionSelectorSheets := hm_upd identifier sheet (m_contentExtensionSelectorSheets d)\<rparr>)
      })"

definition maybeAddContentExtensionSheet :: "ustring \<Rightarrow> WString \<Rightarrow> DocumentStyleSheetCollection \<Rightarrow> DocumentStyleSheetCollection" where
  "maybeAddContentExtensionSheet identifier sheet d =
     (if map_of (m_contentExtensionSheets d) identifier \<noteq> None then d
      else d\<lparr>m_contentExtensionSheets := hm_upd identifier sheet (m_contentExtensionSheets d)\<rparr>)"

section \<open>The document loader\<close>

record DocumentLoader =
  m_gotFirstByte :: bool
  m_pendingNamedContentExtensionStyleSheets :: "(ustring \<times> WString) list"
  m_pendingContentExtensionDisplayNoneSelectors :: "(ustring \<times> WString option \<times> u32) list"
  frame_document :: "DocumentStyleSheetCollection option"
  main_document_url :: "URL option"

definition addPendingContentExtensionSheet :: "ustring \<Rightarrow> WString \<Rightarrow> DocumentLoader \<Rightarrow> DocumentLoader option" where
  "addPendingContentExtensionSheet identifier sheet l =
     (if m_gotFirstByte l then None
      else Some (l\<lparr>m_pendingNamedContentExtensionStyleSheets := hm_upd identifier sheet (m_pendingNamedContentExtensionStyleSheets l)\<rparr>))"

definition addPendingContentExtensionDisplayNoneSelector ::
  "ustring \<Rightarrow> WString option \<Rightarrow> u32 \<Rightarrow> DocumentLoader \<Rightarrow> DocumentLoader option" where
  "addPendingContentExtensionDisplayNoneSelector identifier selector selectorID l =
     (if m_gotFirstByte l then None
      else Some (l\<lparr>m_pendingContentExtensionDisplayNoneSelectors :=
        hm_upd identifier (selector, selectorID) (m_pendingContentExtensionDisplayNoneSelectors l)\<rparr>))"

text \<open>The end of the first branch of \<^verbatim>\<open>DocumentLoader::commitData\<close>: what is pending goes to the document of the frame.\<close>

definition commitPendingSheets :: "DocumentLoader \<Rightarrow> DocumentLoader option" where
  "commitPendingSheets l = do {
     d \<leftarrow> frame_document l;
     let d = fold (\<lambda>(identifier, sheet). maybeAddContentExtensionSheet identifier sheet) (m_pendingNamedContentExtensionStyleSheets l) d;
     d \<leftarrow> foldM (\<lambda>(identifier, selector, selectorID). document_addDisplayNoneSelector identifier selector selectorID)
        (m_pendingContentExtensionDisplayNoneSelectors l) d;
     Some (l\<lparr>m_pendingNamedContentExtensionStyleSheets := [], m_pendingContentExtensionDisplayNoneSelectors := [],
             frame_document := Some d\<rparr>)
   }"

section \<open>Processing a load\<close>

record ResourceRequest =
  request_url :: URL
  m_allowCookies :: bool

text \<open>The request is \<open>None\<close> when it has been replaced by the null request.\<close>

record LoadState =
  ls_backend :: ContentExtensionsBackend
  ls_request :: "ResourceRequest option"
  ls_loader :: DocumentLoader
  willBlockLoad :: bool

definition action_identifier :: "WString option \<Rightarrow> ustring" where
  "action_identifier s = (case s of None \<Rightarrow> [] | Some s \<Rightarrow> str_chars s)"

definition processSelector :: "ResourceType \<Rightarrow> Action \<Rightarrow> LoadState \<Rightarrow> LoadState option" where
  "processSelector resourceType action st =
     (let identifier = action_identifier (m_extensionIdentifier action); loader = ls_loader st in
      if resourceType = Document then do {
        loader \<leftarrow> addPendingContentExtensionDisplayNoneSelector identifier (m_stringArgument action) (m_actionID action) loader;
        Some (st\<lparr>ls_loader := loader\<rparr>)
      }
      else case frame_document loader of
        None \<Rightarrow> Some st
      | Some currentDocument \<Rightarrow> do {
          d \<leftarrow> document_addDisplayNoneSelector identifier (m_stringArgument action) (m_actionID action) currentDocument;
          Some (st\<lparr>ls_loader := loader\<lparr>frame_document := Some d\<rparr>\<rparr>)
        })"

definition processStyleSheet :: "(ustring \<Rightarrow> bool) \<Rightarrow> ResourceType \<Rightarrow> Action \<Rightarrow> LoadState \<Rightarrow> LoadState option" where
  "processStyleSheet parseString resourceType action st =
     (let identifier = action_identifier (m_stringArgument action); loader = ls_loader st in do {
        (m, styleSheetContents) \<leftarrow> globalDisplayNoneStyleSheet parseString identifier (ls_backend st);
        let st = st\<lparr>ls_backend := m\<rparr>;
        (case styleSheetContents of
           None \<Rightarrow> Some st
         | Some sheet \<Rightarrow>
             if resourceType = Document then do {
               loader \<leftarrow> addPendingContentExtensionSheet identifier sheet loader;
               Some (st\<lparr>ls_loader := loader\<rparr>)
             }
             else Some (st\<lparr>ls_loader := loader\<lparr>frame_document := map_option (maybeAddContentExtensionSheet identifier sheet) (frame_document loader)\<rparr>\<rparr>))
      })"

definition processAction :: "(ustring \<Rightarrow> bool) \<Rightarrow> ResourceType \<Rightarrow> Action \<Rightarrow> LoadState \<Rightarrow> LoadState option" where
  "processAction parseString resourceType action st = (case m_type action of
     BlockLoad \<Rightarrow> Some (st\<lparr>willBlockLoad := True\<rparr>)
   | BlockCookies \<Rightarrow> Some (st\<lparr>ls_request := map_option (\<lambda>r. r\<lparr>m_allowCookies := False\<rparr>) (ls_request st)\<rparr>)
   | CSSDisplayNoneSelector \<Rightarrow> processSelector resourceType action st
   | CSSDisplayNoneStyleSheet \<Rightarrow> processStyleSheet parseString resourceType action st
   | IgnorePreviousRules \<Rightarrow> None
   | InvalidAction \<Rightarrow> None)"

definition processContentExtensionRulesForLoad ::
  "(ustring \<Rightarrow> bool) \<Rightarrow> Environment \<Rightarrow> nat \<times> nat \<Rightarrow> ContentExtensionsBackend \<Rightarrow> ResourceRequest \<Rightarrow> ResourceType \<Rightarrow> DocumentLoader
     \<Rightarrow> (ContentExtensionsBackend \<times> ResourceRequest option \<times> DocumentLoader) option" where
  "processContentExtensionRulesForLoad parseString env fresh m request resourceType loader = do {
     let mainDocument = (case main_document_url loader of None \<Rightarrow> null_URL | Some url \<Rightarrow> url);
     actions \<leftarrow> actionsForResourceLoad env fresh m
       \<lparr>resourceURL = request_url request, mainDocumentURL = mainDocument, resource_type = resourceType\<rparr>;
     st \<leftarrow> foldM (processAction parseString resourceType) actions
       \<lparr>ls_backend = m, ls_request = Some request, ls_loader = loader, willBlockLoad = False\<rparr>;
     Some (ls_backend st, if willBlockLoad st then None else ls_request st, ls_loader st)
   }"

section \<open>The user content controller\<close>

text \<open>The backend is made when the first extension is added.\<close>

definition addUserContentExtension ::
  "WString \<Rightarrow> CompiledContentExtension option \<Rightarrow> ContentExtensionsBackend option \<Rightarrow> ContentExtensionsBackend option option" where
  "addUserContentExtension name compiledExtension controller =
     map_option Some (addContentExtension name compiledExtension (case controller of None \<Rightarrow> [] | Some m \<Rightarrow> m))"

definition removeUserContentExtension :: "WString \<Rightarrow> ContentExtensionsBackend option \<Rightarrow> ContentExtensionsBackend option" where
  "removeUserContentExtension name controller = map_option (removeContentExtension name) controller"

definition removeAllUserContentExtensions :: "ContentExtensionsBackend option \<Rightarrow> ContentExtensionsBackend option" where
  "removeAllUserContentExtensions controller = map_option removeAllContentExtensions controller"

definition controller_actionsForResourceLoad ::
  "Environment \<Rightarrow> nat \<times> nat \<Rightarrow> ContentExtensionsBackend option \<Rightarrow> ResourceLoadInfo \<Rightarrow> Action list option" where
  "controller_actionsForResourceLoad env fresh controller i =
     (case controller of None \<Rightarrow> Some [] | Some m \<Rightarrow> actionsForResourceLoad env fresh m i)"

definition controller_processContentExtensionRulesForLoad ::
  "(ustring \<Rightarrow> bool) \<Rightarrow> Environment \<Rightarrow> nat \<times> nat \<Rightarrow> ContentExtensionsBackend option \<Rightarrow> ResourceRequest \<Rightarrow> ResourceType \<Rightarrow> DocumentLoader
     \<Rightarrow> (ContentExtensionsBackend option \<times> ResourceRequest option \<times> DocumentLoader) option" where
  "controller_processContentExtensionRulesForLoad parseString env fresh controller request resourceType loader =
     (case controller of
        None \<Rightarrow> Some (None, Some request, loader)
      | Some m \<Rightarrow> map_option (apfst Some) (processContentExtensionRulesForLoad parseString env fresh m request resourceType loader))"

end
