(* ===== verification/NFAToDFA.thy ===== *)
theory NFAToDFA
  imports NFA DFA
begin

text \<open>
  \<^verbatim>\<open>Source/WebCore/contentextensions/NFAToDFA.cpp\<close>: the subset construction. The epsilon closure
  of every node is computed once and the epsilon slots are removed from the graph; then sets of
  NFA nodes are interned in a table, each with the DFA node it stands for, until no unprocessed set
  is left. A \<^verbatim>\<open>UniqueNodeIdSetImpl\<close> is a pair of its node buffer and its DFA node id.
\<close>

section \<open>Epsilon closures\<close>

type_synonym closure_state = "nat list \<times> nat list \<times> nat list"

definition closureAdd :: "nat \<Rightarrow> closure_state \<Rightarrow> closure_state" where
  "closureAdd targetNodeId = (\<lambda>(closure, unprocessedNodes, output).
     if targetNodeId \<in> set closure then (closure, unprocessedNodes, output)
     else (hs_add targetNodeId closure, unprocessedNodes @ [targetNodeId], output @ [targetNodeId]))"

definition epsilonSlot :: "nat \<Rightarrow> NFANode \<Rightarrow> nat list" where
  "epsilonSlot eps node = (case map_of (transitions node) eps of None \<Rightarrow> [] | Some targets \<Rightarrow> targets)"

text \<open>All targets of epsilon transitions; the closure computation stops because it adds only these.\<close>

definition epsilonTargets :: "nat \<Rightarrow> NFANode list \<Rightarrow> nat set" where
  "epsilonTargets eps graph = (\<Union>node \<in> set graph. set (epsilonSlot eps node))"

lemma closureAdd_fold:
  "\<exists>new. fold closureAdd ts (cl, un, out) = (cl @ new, un @ new, out @ new)
     \<and> set new = set ts - set cl \<and> distinct new"
proof (induction ts arbitrary: cl un out)
  case Nil
  then show ?case by simp
next
  case (Cons t ts)
  show ?case
  proof (cases "t \<in> set cl")
    case True
    with Cons.IH [of cl un out] show ?thesis by (auto simp: closureAdd_def)
  next
    case False
    from Cons.IH [of "cl @ [t]" "un @ [t]" "out @ [t]"] obtain new where
      "fold closureAdd ts (cl @ [t], un @ [t], out @ [t]) = ((cl @ [t]) @ new, (un @ [t]) @ new, (out @ [t]) @ new)"
      "set new = set ts - set (cl @ [t])" "distinct new" by blast
    moreover have "closureAdd t (cl, un, out) = (cl @ [t], un @ [t], out @ [t])"
      using False by (simp add: closureAdd_def hs_add_def)
    ultimately have "fold closureAdd (t # ts) (cl, un, out) = (cl @ t # new, un @ t # new, out @ t # new)"
      by simp
    moreover have "set (t # new) = set (t # ts) - set cl" "distinct (t # new)"
      using \<open>set new = _\<close> \<open>distinct new\<close> False by auto
    ultimately show ?thesis by blast
  qed
qed

function closureLoop :: "nat \<Rightarrow> NFANode list \<Rightarrow> nat list \<Rightarrow> nat list \<Rightarrow> nat list \<Rightarrow> nat list option" where
  "closureLoop eps graph closure unprocessedNodes output =
     (if unprocessedNodes = [] then None
      else case vec_at graph (last unprocessedNodes) of
        None \<Rightarrow> None
      | Some node \<Rightarrow>
          (case fold closureAdd (epsilonSlot eps node) (closure, butlast unprocessedNodes, output) of
             (closure', unprocessedNodes', output') \<Rightarrow>
               if unprocessedNodes' = [] then Some output'
               else closureLoop eps graph closure' unprocessedNodes' output'))"
  by pat_completeness auto
termination
proof (relation "measures [\<lambda>(eps, graph, closure, un, out). card (epsilonTargets eps graph - set closure),
    \<lambda>(eps, graph, closure, un, out). length un]", goal_cases)
  case 1
  show ?case by simp
next
  case (2 eps graph closure un out node closure' y un' out')
  obtain new where new: "(closure', y) = (closure @ new, butlast un @ new, out @ new)"
    "set new = set (epsilonSlot eps node) - set closure" "distinct new"
    using closureAdd_fold [of "epsilonSlot eps node" closure "butlast un" out] 2(3) by auto
  have eq: "closure' = closure @ new" "un' = butlast un @ new"
    using new(1) 2(4) by auto
  show ?case
  proof (cases "new = []")
    case True
    then show ?thesis using 2(1) by (simp add: eq)
  next
    case False
    have fin: "finite (epsilonTargets eps graph)" by (simp add: epsilonTargets_def)
    have "node \<in> set graph" using 2(2) by (auto simp: vec_at_def split: if_splits)
    then have "set new \<subseteq> epsilonTargets eps graph - set closure"
      using new(2) by (auto simp: epsilonTargets_def)
    then have "card (epsilonTargets eps graph - set closure') < card (epsilonTargets eps graph - set closure)"
      using False fin by (intro psubset_card_mono) (auto simp: eq neq_Nil_conv)
    then show ?thesis by simp
  qed
qed

declare closureLoop.simps [simp del]

definition epsilonClosureExcludingSelf :: "NFANode list \<Rightarrow> nat \<Rightarrow> nat \<Rightarrow> nat list option" where
  "epsilonClosureExcludingSelf graph nodeId eps = do {
     node \<leftarrow> vec_at graph nodeId;
     case map_of (transitions node) eps of
       None \<Rightarrow> Some []
     | Some targets \<Rightarrow> closureLoop eps graph (hs_addAll targets [nodeId]) targets targets
   }"

definition resolveEpsilonClosures :: "NFANode list \<Rightarrow> nat \<Rightarrow> (NFANode list \<times> nat list list) option" where
  "resolveEpsilonClosures graph eps = do {
     closures \<leftarrow> mapM (\<lambda>nodeId. epsilonClosureExcludingSelf graph nodeId eps) [0..<length graph];
     Some (map (\<lambda>(node, closure). if closure \<noteq> [] then node\<lparr>transitions := hm_remove eps (transitions node)\<rparr> else node)
             (zip graph closures), closures)
   }"

definition extendSetWithClosure :: "nat list list \<Rightarrow> nat \<Rightarrow> nat list \<Rightarrow> nat list option" where
  "extendSetWithClosure nfaNodeClosures nodeId s = do {
     nodeClosure \<leftarrow> vec_at nfaNodeClosures nodeId;
     Some (if nodeClosure \<noteq> [] then hs_addAll nodeClosure s else s)
   }"

section \<open>The table of node sets\<close>

type_synonym node_set = "nat list \<times> nat"

text \<open>\<^verbatim>\<open>UniqueNodeIdSet::operator==(const NodeIdSet&)\<close>.\<close>

definition uniqueNodeIdSet_eq :: "nat list \<Rightarrow> nat list \<Rightarrow> bool" where
  "uniqueNodeIdSet_eq buffer other \<longleftrightarrow> length buffer = length other \<and> list_all (\<lambda>x. x \<in> set other) buffer"

definition findNodeSet :: "nat list \<Rightarrow> node_set list \<Rightarrow> node_set option" where
  "findNodeSet s table = find (\<lambda>(buffer, dfaNodeId). uniqueNodeIdSet_eq buffer s) table"

text \<open>\<^verbatim>\<open>NodeIdSetToUniqueNodeIdSetTranslator::translate\<close>: a new DFA node for a new set.\<close>

definition translate :: "NFANode list \<Rightarrow> nat list \<Rightarrow> DFA \<Rightarrow> (DFA \<times> node_set) option" where
  "translate graph nodeIdSet dfa = do {
     acts \<leftarrow> foldM (\<lambda>nfaNodeId acts. do {
                nfaNode \<leftarrow> vec_at graph nfaNodeId;
                Some (hs_addAll (finalRuleIds nfaNode) acts)
              }) nodeIdSet [];
     let actionsStart = length (dfa_actions dfa);
     let actionsLength = length acts;
     if actionsLength \<le> 65535 then
       Some (dfa\<lparr>dfa_actions := dfa_actions dfa @ acts,
                 nodes := nodes dfa @ [node_setActions actionsStart actionsLength new_DFANode]\<rparr>,
             (nodeIdSet, length (nodes dfa)))
     else None
   }"

type_synonym convert_state = "DFA \<times> node_set list \<times> node_set list"

definition getOrCreateDFANode ::
  "nat list \<Rightarrow> NFANode list \<Rightarrow> convert_state \<Rightarrow> (convert_state \<times> nat) option" where
  "getOrCreateDFANode nfaNodeSet graph = (\<lambda>(dfa, table, unprocessedNodes).
     case findNodeSet nfaNodeSet table of
       Some (buffer, dfaNodeId) \<Rightarrow> Some ((dfa, table, unprocessedNodes), dfaNodeId)
     | None \<Rightarrow> do {
         (dfa, entry) \<leftarrow> translate graph nfaNodeSet dfa;
         Some ((dfa, table @ [entry], unprocessedNodes @ [entry]), snd entry)
       })"

section \<open>The transitions of a set\<close>

definition addWithClosure :: "nat list list \<Rightarrow> nat \<Rightarrow> nat list \<Rightarrow> nat list option" where
  "addWithClosure closures target targetSet = extendSetWithClosure closures target (hs_add target targetSet)"

definition fallbackSet :: "NFANode list \<Rightarrow> nat list list \<Rightarrow> nat list \<Rightarrow> nat list option" where
  "fallbackSet graph closures buffer = do {
     allFallbackTransitions \<leftarrow> foldM (\<lambda>nodeId acc. do {
         node \<leftarrow> vec_at graph nodeId;
         Some (acc @ transitionsOnAnyCharacter node)
       }) buffer [];
     foldM (\<lambda>target s. if target \<in> set s then Some s else addWithClosure closures target s)
       allFallbackTransitions []
   }"

definition populateSlot :: "nat list list \<Rightarrow> nat list \<Rightarrow> nat \<times> nat list \<Rightarrow> nat list list \<Rightarrow> nat list list option" where
  "populateSlot closures fallback = (\<lambda>(key, targets) setTransitions. do {
     targetSet \<leftarrow> vec_at setTransitions key;
     targetSet \<leftarrow> foldM (addWithClosure closures) targets targetSet;
     vec_set setTransitions key (if key \<noteq> 0 then hs_addAll fallback targetSet else targetSet)
   })"

definition populateTransitions ::
  "nat list \<Rightarrow> NFANode list \<Rightarrow> nat list list \<Rightarrow> (nat list list \<times> nat list) option" where
  "populateTransitions buffer graph closures = do {
     setFallbackTransition \<leftarrow> fallbackSet graph closures buffer;
     setTransitions \<leftarrow> foldM (\<lambda>nodeId sets. do {
         node \<leftarrow> vec_at graph nodeId;
         foldM (populateSlot closures setFallbackTransition) (transitions node) sets
       }) buffer (replicate 128 []);
     Some (setTransitions, setFallbackTransition)
   }"

section \<open>The conversion\<close>

definition addKeyTransition ::
  "NFANode list \<Rightarrow> nat list list \<Rightarrow> nat \<Rightarrow> convert_state \<Rightarrow> convert_state option" where
  "addKeyTransition graph sets key st =
     (if sets ! key = [] then Some st
      else do {
        ((dfa, table, unprocessedNodes), targetNodeId) \<leftarrow> getOrCreateDFANode (sets ! key) graph st;
        Some (dfa\<lparr>dfa_transitions := dfa_transitions dfa @ [(key, targetNodeId)]\<rparr>, table, unprocessedNodes)
      })"

text \<open>The body of the main loop, for the set taken from the unprocessed ones.\<close>

definition processNodeSet ::
  "NFANode list \<Rightarrow> nat list list \<Rightarrow> node_set \<Rightarrow> convert_state \<Rightarrow> convert_state option" where
  "processNodeSet graph closures entry st = do {
     let (buffer, dfaNodeId) = entry;
     let transitionsStart = length (dfa_transitions (fst st));
     (sets, fallback) \<leftarrow> populateTransitions buffer graph closures;
     (dfa, table, unprocessedNodes) \<leftarrow> foldM (addKeyTransition graph sets) [0..<128] st;
     let transitionsLength = length (dfa_transitions dfa) - transitionsStart;
     if transitionsLength \<le> 127 then do {
       node \<leftarrow> vec_at (nodes dfa) dfaNodeId;
       let dfa = dfa\<lparr>nodes := (nodes dfa)[dfaNodeId := node_setTransitions transitionsStart transitionsLength node]\<rparr>;
       if fallback = [] then Some (dfa, table, unprocessedNodes)
       else do {
         ((dfa, table, unprocessedNodes), targetNodeId) \<leftarrow>
            getOrCreateDFANode fallback graph (dfa, table, unprocessedNodes);
         node \<leftarrow> vec_at (nodes dfa) dfaNodeId;
         (node, dfa) \<leftarrow> addFallbackTransition node dfa targetNodeId;
         Some (dfa\<lparr>nodes := (nodes dfa)[dfaNodeId := node]\<rparr>, table, unprocessedNodes)
       }
     } else None
   }"

subsection \<open>The main loop terminates\<close>

text \<open>
  Every set that the loop interns is a duplicate-free list over the targets in the graph and in the
  closures, and is different from the sets already interned; there are finitely many.
\<close>

definition targetUniverse :: "NFANode list \<Rightarrow> nat list list \<Rightarrow> nat set" where
  "targetUniverse graph closures =
     (\<Union>node \<in> set graph. set (transitionsOnAnyCharacter node) \<union> (\<Union>(k, targets) \<in> set (transitions node). set targets))
     \<union> (\<Union>closure \<in> set closures. set closure)"

lemma targetUniverse_any: "node \<in> set graph \<Longrightarrow> set (transitionsOnAnyCharacter node) \<subseteq> targetUniverse graph closures"
  unfolding targetUniverse_def by blast

lemma targetUniverse_slot:
  "node \<in> set graph \<Longrightarrow> kt \<in> set (transitions node) \<Longrightarrow> set (snd kt) \<subseteq> targetUniverse graph closures"
  unfolding targetUniverse_def by fastforce

lemma targetUniverse_closure: "i < length closures \<Longrightarrow> set (closures ! i) \<subseteq> targetUniverse graph closures"
  unfolding targetUniverse_def using nth_mem [of i closures] by blast

definition interned :: "node_set list \<Rightarrow> nat set set" where
  "interned table = {set buffer | buffer dfaNodeId. (buffer, dfaNodeId) \<in> set table \<and> distinct buffer}"

definition grows :: "nat set \<Rightarrow> convert_state \<Rightarrow> convert_state \<Rightarrow> bool" where
  "grows U st st' \<longleftrightarrow> (\<exists>new. fst (snd st') = fst (snd st) @ new \<and> snd (snd st') = snd (snd st) @ new
     \<and> (new = [] \<or> interned (fst (snd st)) \<inter> Pow U \<subset> interned (fst (snd st')) \<inter> Pow U))"

lemma grows_refl: "fst (snd st') = fst (snd st) \<Longrightarrow> snd (snd st') = snd (snd st) \<Longrightarrow> grows U st st'"
  by (simp add: grows_def)

lemma grows_trans: "grows U a b \<Longrightarrow> grows U b c \<Longrightarrow> grows U a c"
  unfolding grows_def
proof (elim exE conjE)
  fix n1 n2
  assume 1: "fst (snd b) = fst (snd a) @ n1" "snd (snd b) = snd (snd a) @ n1"
    "n1 = [] \<or> interned (fst (snd a)) \<inter> Pow U \<subset> interned (fst (snd b)) \<inter> Pow U"
    and 2: "fst (snd c) = fst (snd b) @ n2" "snd (snd c) = snd (snd b) @ n2"
    "n2 = [] \<or> interned (fst (snd b)) \<inter> Pow U \<subset> interned (fst (snd c)) \<inter> Pow U"
  have "n1 @ n2 = [] \<or> interned (fst (snd a)) \<inter> Pow U \<subset> interned (fst (snd c)) \<inter> Pow U"
    using 1(3) 2(3)
  proof (elim disjE)
    assume "n1 = []" "n2 = []"
    then show ?thesis by simp
  next
    assume "n1 = []" "interned (fst (snd b)) \<inter> Pow U \<subset> interned (fst (snd c)) \<inter> Pow U"
    then show ?thesis using 1(1) by simp
  next
    assume "interned (fst (snd a)) \<inter> Pow U \<subset> interned (fst (snd b)) \<inter> Pow U" "n2 = []"
    then show ?thesis using 2(1) by simp
  next
    assume "interned (fst (snd a)) \<inter> Pow U \<subset> interned (fst (snd b)) \<inter> Pow U"
      "interned (fst (snd b)) \<inter> Pow U \<subset> interned (fst (snd c)) \<inter> Pow U"
    then show ?thesis by (meson psubset_trans)
  qed
  then show "\<exists>new. fst (snd c) = fst (snd a) @ new \<and> snd (snd c) = snd (snd a) @ new
      \<and> (new = [] \<or> interned (fst (snd a)) \<inter> Pow U \<subset> interned (fst (snd c)) \<inter> Pow U)"
    using 1 2 by (intro exI [of _ "n1 @ n2"]) simp
qed

lemma uniqueNodeIdSet_eq_iff:
  assumes "distinct buffer" "distinct other"
  shows "uniqueNodeIdSet_eq buffer other \<longleftrightarrow> set buffer = set other"
proof
  assume "uniqueNodeIdSet_eq buffer other"
  then have "set buffer \<subseteq> set other" "card (set buffer) = card (set other)"
    using assms by (auto simp: uniqueNodeIdSet_eq_def list_all_iff distinct_card)
  then show "set buffer = set other" by (simp add: card_subset_eq)
next
  assume "set buffer = set other"
  then show "uniqueNodeIdSet_eq buffer other"
    using assms distinct_card [of buffer] distinct_card [of other]
    by (auto simp: uniqueNodeIdSet_eq_def list_all_iff)
qed

lemma findNodeSet_None: "findNodeSet s table = None \<Longrightarrow> distinct s \<Longrightarrow> set s \<notin> interned table"
  by (auto simp: findNodeSet_def find_None_iff interned_def uniqueNodeIdSet_eq_iff)

lemma translate_entry: "translate graph s dfa = Some (dfa', entry) \<Longrightarrow> entry = (s, length (nodes dfa))"
  by (auto simp: translate_def Let_def split: Option.bind_splits if_splits)

lemma getOrCreateDFANode_grows:
  assumes "getOrCreateDFANode s graph st = Some (st', i)" "distinct s" "set s \<subseteq> U"
  shows "grows U st st'"
proof (cases st)
  case (fields dfa table un)
  show ?thesis
  proof (cases "findNodeSet s table")
    case None
    with assms(1) fields obtain dfa' entry where t: "translate graph s dfa = Some (dfa', entry)"
      "st' = (dfa', table @ [entry], un @ [entry])"
      by (auto simp: getOrCreateDFANode_def split: Option.bind_splits)
    have "interned (table @ [entry]) = insert (set s) (interned table)"
      using assms(2) translate_entry [OF t(1)] by (auto simp: interned_def)
    then have "interned table \<inter> Pow U \<subset> interned (table @ [entry]) \<inter> Pow U"
      using findNodeSet_None [OF None assms(2)] assms(3) by auto
    then show ?thesis by (simp add: grows_def t fields)
  next
    case (Some e)
    with assms(1) fields show ?thesis
      by (cases e) (auto simp: getOrCreateDFANode_def intro: grows_refl)
  qed
qed

lemma addWithClosure_Some:
  assumes "addWithClosure closures t s = Some s'"
  shows "t < length closures" "set s' = insert t (set (closures ! t) \<union> set s)" "distinct s \<Longrightarrow> distinct s'"
  using assms
  by (auto simp: addWithClosure_def extendSetWithClosure_def vec_at_eq_Some_iff hs_simps
      split: Option.bind_splits if_splits)

lemma addWithClosure_eq:
  "t < length closures \<Longrightarrow> \<exists>s'. addWithClosure closures t s = Some s'"
  by (simp add: addWithClosure_def extendSetWithClosure_def vec_simps)

definition good_set :: "nat set \<Rightarrow> nat list \<Rightarrow> bool" where
  "good_set U s \<longleftrightarrow> distinct s \<and> set s \<subseteq> U"

lemma addWithClosure_good:
  "addWithClosure closures t s = Some s' \<Longrightarrow> t \<in> targetUniverse graph closures \<Longrightarrow>
     good_set (targetUniverse graph closures) s \<Longrightarrow> good_set (targetUniverse graph closures) s'"
  using addWithClosure_Some [of closures t s s'] targetUniverse_closure [of t closures graph]
  by (auto simp: good_set_def)

lemma fallbackSet_good:
  assumes "fallbackSet graph closures buffer = Some s"
  shows "good_set (targetUniverse graph closures) s"
proof -
  let ?U = "targetUniverse graph closures"
  from assms obtain all where
    a: "foldM (\<lambda>nodeId acc. do { node \<leftarrow> vec_at graph nodeId; Some (acc @ transitionsOnAnyCharacter node) }) buffer [] = Some all"
    and b: "foldM (\<lambda>target s. if target \<in> set s then Some s else addWithClosure closures target s) all [] = Some s"
    by (auto simp: fallbackSet_def split: Option.bind_splits)
  have "set all \<subseteq> ?U"
  proof (rule foldM_preserves [OF a])
    fix n acc acc' assume "set acc \<subseteq> ?U"
      and "(do { node \<leftarrow> vec_at graph n; Some (acc @ transitionsOnAnyCharacter node) }) = Some acc'"
    then have acc: "n < length graph" "acc' = acc @ transitionsOnAnyCharacter (graph ! n)" "set acc \<subseteq> ?U"
      by (auto simp: vec_at_eq_Some_iff split: Option.bind_splits)
    show "set acc' \<subseteq> ?U"
      using targetUniverse_any [OF nth_mem [OF acc(1)], of closures] acc(2,3) by simp
  qed simp
  then have step: "good_set ?U u'" if "x \<in> set all" "good_set ?U u"
    "(if x \<in> set u then Some u else addWithClosure closures x u) = Some u'" for x u u'
    using that addWithClosure_good [of closures x u u' graph] by (auto split: if_splits)
  have "good_set ?U []" by (simp add: good_set_def)
  then show ?thesis using foldM_preserves [OF b, of "good_set ?U"] step by blast
qed

lemma populateSlot_good:
  assumes "populateSlot closures fb kt sets = Some sets'"
    and "\<forall>s \<in> set sets. good_set (targetUniverse graph closures) s"
    and "good_set (targetUniverse graph closures) fb" "set (snd kt) \<subseteq> targetUniverse graph closures"
  shows "length sets' = length sets \<and> (\<forall>s \<in> set sets'. good_set (targetUniverse graph closures) s)"
proof -
  let ?U = "targetUniverse graph closures"
  obtain k ts where kt: "kt = (k, ts)" by fastforce
  from assms(1) obtain s1 where k: "k < length sets" "foldM (addWithClosure closures) ts (sets ! k) = Some s1"
    "sets' = sets[k := (if k \<noteq> 0 then hs_addAll fb s1 else s1)]"
    by (auto simp: kt populateSlot_def vec_at_eq_Some_iff vec_set_eq_Some_iff split: Option.bind_splits)
  have "good_set ?U (sets ! k)" using assms(2) k(1) by simp
  moreover have "good_set ?U u'" if "x \<in> set ts" "good_set ?U u" "addWithClosure closures x u = Some u'" for x u u'
    using that assms(4) addWithClosure_good [of closures x u u' graph] by (auto simp: kt)
  ultimately have "good_set ?U s1" using foldM_preserves [OF k(2), of "good_set ?U"] by blast
  then have "good_set ?U (if k \<noteq> 0 then hs_addAll fb s1 else s1)"
    using assms(3) by (auto simp: good_set_def hs_simps)
  then have "\<forall>s \<in> set sets'. good_set ?U s"
    using assms(2) k(3) set_update_subset_insert [of sets k] by blast
  then show ?thesis using k(3) by simp
qed

lemma populateTransitions_good:
  assumes "populateTransitions buffer graph closures = Some (sets, fb)"
  shows "length sets = 128" "\<forall>s \<in> set sets. good_set (targetUniverse graph closures) s"
    "good_set (targetUniverse graph closures) fb"
proof -
  let ?U = "targetUniverse graph closures"
  from assms have fb: "fallbackSet graph closures buffer = Some fb" and
    a: "foldM (\<lambda>nodeId sets. do { node \<leftarrow> vec_at graph nodeId;
         foldM (populateSlot closures fb) (transitions node) sets }) buffer (replicate 128 []) = Some sets"
    by (auto simp: populateTransitions_def split: Option.bind_splits)
  show fbg: "good_set ?U fb" by (rule fallbackSet_good [OF fb])
  have "length sets = 128 \<and> (\<forall>s \<in> set sets. good_set ?U s)"
  proof (rule foldM_preserves [OF a])
    fix n ss ss' assume ss: "length ss = 128 \<and> (\<forall>s \<in> set ss. good_set ?U s)"
      and "(do { node \<leftarrow> vec_at graph n; foldM (populateSlot closures fb) (transitions node) ss }) = Some ss'"
    then have n: "graph ! n \<in> set graph" "foldM (populateSlot closures fb) (transitions (graph ! n)) ss = Some ss'"
      by (auto simp: vec_at_eq_Some_iff split: Option.bind_splits)
    show "length ss' = 128 \<and> (\<forall>s \<in> set ss'. good_set ?U s)"
    proof (rule foldM_preserves [OF n(2)])
      fix kt u u' assume "kt \<in> set (transitions (graph ! n))" "length u = 128 \<and> (\<forall>s \<in> set u. good_set ?U s)"
        "populateSlot closures fb kt u = Some u'"
      then show "length u' = 128 \<and> (\<forall>s \<in> set u'. good_set ?U s)"
        using populateSlot_good [of closures fb kt u u' graph] fbg targetUniverse_slot [OF n(1)] by auto
    qed (rule ss)
  qed (simp add: good_set_def)
  then show "length sets = 128" "\<forall>s \<in> set sets. good_set ?U s" by simp_all
qed

lemma processNodeSet_grows:
  assumes "processNodeSet graph closures entry st = Some st'"
  shows "grows (targetUniverse graph closures) st st'"
proof -
  let ?U = "targetUniverse graph closures"
  obtain buffer i where e: "entry = (buffer, i)" by fastforce
  from assms obtain sets fb dfa1 table1 un1 where
    p: "populateTransitions buffer graph closures = Some (sets, fb)"
    and f: "foldM (addKeyTransition graph sets) [0..<128] st = Some (dfa1, table1, un1)"
    by (auto simp: processNodeSet_def e Let_def split: Option.bind_splits)
  note good = populateTransitions_good [OF p]
  have key: "grows ?U u u'" if "addKeyTransition graph sets k u = Some u'" "k < 128" for k u u'
  proof (cases "sets ! k = []")
    case True
    with that(1) show ?thesis by (auto simp: addKeyTransition_def intro: grows_refl)
  next
    case False
    with that(1) obtain dfa2 table2 un2 t where
      g: "getOrCreateDFANode (sets ! k) graph u = Some ((dfa2, table2, un2), t)"
      and u': "u' = (dfa2\<lparr>dfa_transitions := dfa_transitions dfa2 @ [(k, t)]\<rparr>, table2, un2)"
      by (auto simp: addKeyTransition_def split: Option.bind_splits)
    have "sets ! k \<in> set sets" using that(2) good(1) by simp
    then have "grows ?U u (dfa2, table2, un2)"
      using getOrCreateDFANode_grows [OF g] good(2) by (auto simp: good_set_def)
    then show ?thesis by (simp add: u' grows_def)
  qed
  have "grows ?U st (dfa1, table1, un1)"
    by (rule foldM_preserves [OF f]) (auto intro: grows_refl grows_trans key)
  moreover have "grows ?U (dfa1, table1, un1) st'"
  proof (cases "fb = []")
    case True
    with assms p f show ?thesis
      by (auto simp: processNodeSet_def e Let_def split: Option.bind_splits if_splits intro: grows_refl)
  next
    case False
    with assms p f obtain dfa2 dfa3 table3 un3 t dfa4 where
      g: "getOrCreateDFANode fb graph (dfa2, table1, un1) = Some ((dfa3, table3, un3), t)"
      and st': "st' = (dfa4, table3, un3)"
      by (auto simp: processNodeSet_def e Let_def split: Option.bind_splits if_splits)
    show ?thesis
      using getOrCreateDFANode_grows [OF g, of ?U] good(3) by (auto simp: good_set_def grows_def st')
  qed
  ultimately show ?thesis by (rule grows_trans)
qed

function convertLoop :: "NFANode list \<Rightarrow> nat list list \<Rightarrow> convert_state \<Rightarrow> DFA option" where
  "convertLoop graph closures st =
     (case st of (dfa, table, unprocessedNodes) \<Rightarrow>
        if unprocessedNodes = [] then None
        else case processNodeSet graph closures (last unprocessedNodes) (dfa, table, butlast unprocessedNodes) of
          None \<Rightarrow> None
        | Some st' \<Rightarrow> if snd (snd st') = [] then Some (fst st') else convertLoop graph closures st')"
  by pat_completeness auto
termination
proof (relation "measures [\<lambda>(graph, closures, st). card (Pow (targetUniverse graph closures) - interned (fst (snd st))),
    \<lambda>(graph, closures, st). length (snd (snd st))]", goal_cases)
  case 1
  show ?case by simp
next
  case (2 graph closures st dfa rest table un st')
  let ?U = "targetUniverse graph closures"
  have fin: "finite (Pow ?U)" by (simp add: targetUniverse_def split_def)
  have "grows ?U (dfa, table, butlast un) st'" using 2 processNodeSet_grows by blast
  then obtain new where new: "fst (snd st') = table @ new" "snd (snd st') = butlast un @ new"
    "new = [] \<or> interned table \<inter> Pow ?U \<subset> interned (fst (snd st')) \<inter> Pow ?U"
    unfolding grows_def fst_conv snd_conv by blast
  show ?case
  proof (cases "new = []")
    case True
    then show ?thesis using 2 new by (auto dest!: sym [of _ st] sym [of _ rest])
  next
    case False
    then have "Pow ?U - interned (fst (snd st')) \<subset> Pow ?U - interned table" using new(3) by blast
    then have "card (Pow ?U - interned (fst (snd st'))) < card (Pow ?U - interned table)"
      using fin by (intro psubset_card_mono) auto
    then show ?thesis using 2 by (auto dest!: sym [of _ st] sym [of _ rest])
  qed
qed

declare convertLoop.simps [simp del]

definition convert :: "NFA \<Rightarrow> DFA option" where
  "convert nfa = do {
     (nfaGraph, nfaNodeClosures) \<leftarrow> resolveEpsilonClosures (m_nodes nfa) epsilonTransitionCharacter;
     initialSet \<leftarrow> extendSetWithClosure nfaNodeClosures (m_root nfa) [m_root nfa];
     (dfa, entry) \<leftarrow> translate nfaGraph initialSet new_DFA;
     convertLoop nfaGraph nfaNodeClosures (dfa, [entry], [entry])
   }"

end
