(* ===== verification/PartitionRefinement.thy ===== *)
theory PartitionRefinement
  imports Prelude
begin

text \<open>
  The class \<^verbatim>\<open>Partition\<close> of \<^verbatim>\<open>Source/WebCore/contentextensions/DFAMinimizer.cpp\<close>: a partition of
  \<open>{0..<n}\<close> in flat vectors, refined by marking elements and splitting every set into its marked
  and unmarked elements. All numbers are at most \<open>n\<close>, so they are natural numbers here.
  Assertions are traps.
\<close>

section \<open>The data structure\<close>

record SetDescriptor =
  sd_start :: nat
  sd_size :: nat
  sd_markedCount :: nat

record Partition =
  m_sets :: "SetDescriptor list"
  m_partitionedElements :: "nat list"
  m_elementPositionInPartitionedNodes :: "nat list"
  m_elementToSetMap :: "nat list"
  m_setsMarkedInCurrentGeneration :: "nat list"

definition indexAfterMarkedElements :: "SetDescriptor \<Rightarrow> nat" where
  "indexAfterMarkedElements d = sd_start d + sd_markedCount d"

definition sd_end :: "SetDescriptor \<Rightarrow> nat" where
  "sd_end d = sd_start d + sd_size d"

definition new_Partition :: Partition where
  "new_Partition = \<lparr>m_sets = [], m_partitionedElements = [], m_elementPositionInPartitionedNodes = [],
     m_elementToSetMap = [], m_setsMarkedInCurrentGeneration = []\<rparr>"

definition initialize :: "nat \<Rightarrow> Partition \<Rightarrow> Partition" where
  "initialize n P =
     (if n = 0 then P
      else P\<lparr>m_sets := m_sets P @ [\<lparr>sd_start = 0, sd_size = n, sd_markedCount = 0\<rparr>],
             m_partitionedElements := [0..<n], m_elementPositionInPartitionedNodes := [0..<n],
             m_elementToSetMap := replicate n 0\<rparr>)"

definition markElementInCurrentGeneration :: "nat \<Rightarrow> Partition \<Rightarrow> Partition option" where
  "markElementInCurrentGeneration elementIndex P = do {
     setIndex \<leftarrow> vec_at (m_elementToSetMap P) elementIndex;
     d \<leftarrow> vec_at (m_sets P) setIndex;
     position \<leftarrow> vec_at (m_elementPositionInPartitionedNodes P) elementIndex;
     let firstUnmarked = indexAfterMarkedElements d;
     (if sd_start d \<le> position \<and> position < sd_end d \<and> sd_start d \<le> firstUnmarked \<and> firstUnmarked < sd_end d
      then do {
        firstUnmarkedElement \<leftarrow> vec_at (m_partitionedElements P) firstUnmarked;
        es \<leftarrow> vec_set (m_partitionedElements P) firstUnmarked elementIndex;
        es \<leftarrow> vec_set es position firstUnmarkedElement;
        ps \<leftarrow> vec_set (m_elementPositionInPartitionedNodes P) elementIndex firstUnmarked;
        ps \<leftarrow> vec_set ps firstUnmarkedElement position;
        marks \<leftarrow> (if sd_markedCount d = 0
                   then if setIndex \<in> set (m_setsMarkedInCurrentGeneration P) then None
                     else Some (m_setsMarkedInCurrentGeneration P @ [setIndex])
                   else Some (m_setsMarkedInCurrentGeneration P));
        sets \<leftarrow> vec_set (m_sets P) setIndex (d\<lparr>sd_markedCount := sd_markedCount d + 1\<rparr>);
        Some (P\<lparr>m_sets := sets, m_partitionedElements := es, m_elementPositionInPartitionedNodes := ps,
                m_setsMarkedInCurrentGeneration := marks\<rparr>)
      } else None)
   }"

text \<open>The body of the loop of \<^verbatim>\<open>refineGeneration\<close>: the new set if the set is split.\<close>

definition refineSet :: "nat \<Rightarrow> Partition \<Rightarrow> (Partition \<times> nat option) option" where
  "refineSet setIndex P = do {
     d \<leftarrow> vec_at (m_sets P) setIndex;
     (if sd_markedCount d = sd_size d then do {
        sets \<leftarrow> vec_set (m_sets P) setIndex (d\<lparr>sd_markedCount := 0\<rparr>);
        Some (P\<lparr>m_sets := sets\<rparr>, None)
      } else do {
        let newSetIsMarkedSet = (sd_markedCount d * 2 \<le> sd_size d);
        let newSet = (if newSetIsMarkedSet
              then \<lparr>sd_start = sd_start d, sd_size = sd_markedCount d, sd_markedCount = 0\<rparr>
              else \<lparr>sd_start = sd_start d + sd_markedCount d, sd_size = sd_size d - sd_markedCount d,
                     sd_markedCount = 0\<rparr>);
        let start = (if newSetIsMarkedSet then sd_start d + sd_markedCount d else sd_start d);
        sets \<leftarrow> vec_set (m_sets P) setIndex
                 \<lparr>sd_start = start, sd_size = sd_size d - sd_size newSet, sd_markedCount = 0\<rparr>;
        let newSetIndex = length sets;
        es \<leftarrow> foldM (\<lambda>i es. do {
                e \<leftarrow> vec_at (m_partitionedElements P) i;
                vec_set es e newSetIndex
              }) [sd_start newSet..<sd_end newSet] (m_elementToSetMap P);
        Some (P\<lparr>m_sets := sets @ [newSet], m_elementToSetMap := es\<rparr>, Some newSetIndex)
      })
   }"

text \<open>
  \<^verbatim>\<open>refineGeneration(function)\<close>: the function is called on every new set, may not modify the partition, and has a
  state of its own.
\<close>

definition refineStep ::
  "(nat \<Rightarrow> Partition \<Rightarrow> 's \<Rightarrow> 's option) \<Rightarrow> nat \<Rightarrow> Partition \<times> 's \<Rightarrow> (Partition \<times> 's) option" where
  "refineStep function markedSet st = do {
     (P, new) \<leftarrow> refineSet markedSet (fst st);
     s \<leftarrow> (case new of None \<Rightarrow> Some (snd st) | Some newSetIndex \<Rightarrow> function newSetIndex P (snd st));
     Some (P, s)
   }"

definition refineGeneration ::
  "(nat \<Rightarrow> Partition \<Rightarrow> 's \<Rightarrow> 's option) \<Rightarrow> Partition \<Rightarrow> 's \<Rightarrow> (Partition \<times> 's) option" where
  "refineGeneration function P s = do {
     (P, s) \<leftarrow> foldM (refineStep function) (m_setsMarkedInCurrentGeneration P) (P, s);
     Some (P\<lparr>m_setsMarkedInCurrentGeneration := []\<rparr>, s)
   }"

definition iterateSet :: "nat \<Rightarrow> (nat \<Rightarrow> 's \<Rightarrow> 's option) \<Rightarrow> Partition \<Rightarrow> 's \<Rightarrow> 's option" where
  "iterateSet setIndex function P s = do {
     d \<leftarrow> vec_at (m_sets P) setIndex;
     foldM (\<lambda>i s. do {
         e \<leftarrow> vec_at (m_partitionedElements P) i;
         function e s
       }) [sd_start d..<sd_end d] s
   }"

definition setIndex :: "nat \<Rightarrow> Partition \<Rightarrow> nat option" where
  "setIndex elementIndex P = vec_at (m_elementToSetMap P) elementIndex"

definition firstElementInSet :: "nat \<Rightarrow> Partition \<Rightarrow> nat option" where
  "firstElementInSet k P = do {
     d \<leftarrow> vec_at (m_sets P) k;
     vec_at (m_partitionedElements P) (sd_start d)
   }"

definition partition_size :: "Partition \<Rightarrow> nat" where
  "partition_size P = length (m_sets P)"

section \<open>The invariant\<close>

definition cls :: "Partition \<Rightarrow> nat \<Rightarrow> nat" where
  "cls P x = m_elementToSetMap P ! x"

definition marked :: "Partition \<Rightarrow> nat \<Rightarrow> bool" where
  "marked P x \<longleftrightarrow> m_elementPositionInPartitionedNodes P ! x < indexAfterMarkedElements (m_sets P ! cls P x)"

text \<open>
  The two vectors of elements and positions are inverse to each other; every set is a window that is not
  empty, lies in the vector and holds the elements that the map sends to it.
\<close>

definition part_core :: "nat \<Rightarrow> Partition \<Rightarrow> bool" where
  "part_core n P \<longleftrightarrow>
     length (m_partitionedElements P) = n \<and> length (m_elementPositionInPartitionedNodes P) = n
     \<and> length (m_elementToSetMap P) = n
     \<and> (\<forall>x < n. m_elementPositionInPartitionedNodes P ! x < n
            \<and> m_partitionedElements P ! (m_elementPositionInPartitionedNodes P ! x) = x)
     \<and> (\<forall>i < n. m_partitionedElements P ! i < n
            \<and> m_elementPositionInPartitionedNodes P ! (m_partitionedElements P ! i) = i)
     \<and> (\<forall>x < n. cls P x < length (m_sets P)
            \<and> sd_start (m_sets P ! cls P x) \<le> m_elementPositionInPartitionedNodes P ! x
            \<and> m_elementPositionInPartitionedNodes P ! x < sd_end (m_sets P ! cls P x))
     \<and> (\<forall>k < length (m_sets P). 0 < sd_size (m_sets P ! k) \<and> sd_end (m_sets P ! k) \<le> n
            \<and> sd_markedCount (m_sets P ! k) \<le> sd_size (m_sets P ! k)
            \<and> (\<forall>i. sd_start (m_sets P ! k) \<le> i \<longrightarrow> i < sd_end (m_sets P ! k) \<longrightarrow> cls P (m_partitionedElements P ! i) = k))"

definition part_inv :: "nat \<Rightarrow> Partition \<Rightarrow> bool" where
  "part_inv n P \<longleftrightarrow> part_core n P \<and> distinct (m_setsMarkedInCurrentGeneration P)
     \<and> set (m_setsMarkedInCurrentGeneration P) = {k. k < length (m_sets P) \<and> 0 < sd_markedCount (m_sets P ! k)}"

definition unmarked :: "Partition \<Rightarrow> bool" where
  "unmarked P \<longleftrightarrow> m_setsMarkedInCurrentGeneration P = []"

lemma part_coreD:
  assumes "part_core n P"
  shows "length (m_partitionedElements P) = n" "length (m_elementPositionInPartitionedNodes P) = n"
    "length (m_elementToSetMap P) = n"
    "\<And>x. x < n \<Longrightarrow> m_elementPositionInPartitionedNodes P ! x < n"
    "\<And>x. x < n \<Longrightarrow> m_partitionedElements P ! (m_elementPositionInPartitionedNodes P ! x) = x"
    "\<And>i. i < n \<Longrightarrow> m_partitionedElements P ! i < n"
    "\<And>i. i < n \<Longrightarrow> m_elementPositionInPartitionedNodes P ! (m_partitionedElements P ! i) = i"
    "\<And>x. x < n \<Longrightarrow> cls P x < length (m_sets P)"
    "\<And>x. x < n \<Longrightarrow> sd_start (m_sets P ! cls P x) \<le> m_elementPositionInPartitionedNodes P ! x"
    "\<And>x. x < n \<Longrightarrow> m_elementPositionInPartitionedNodes P ! x < sd_end (m_sets P ! cls P x)"
    "\<And>k. k < length (m_sets P) \<Longrightarrow> 0 < sd_size (m_sets P ! k)"
    "\<And>k. k < length (m_sets P) \<Longrightarrow> sd_end (m_sets P ! k) \<le> n"
    "\<And>k. k < length (m_sets P) \<Longrightarrow> sd_markedCount (m_sets P ! k) \<le> sd_size (m_sets P ! k)"
    "\<And>k i. k < length (m_sets P) \<Longrightarrow> sd_start (m_sets P ! k) \<le> i \<Longrightarrow> i < sd_end (m_sets P ! k)
       \<Longrightarrow> cls P (m_partitionedElements P ! i) = k"
  using assms unfolding part_core_def by blast+

lemma marked_count:
  assumes "part_core n P" "x < n" "marked P x"
  shows "0 < sd_markedCount (m_sets P ! cls P x)"
  using part_coreD(9) [OF assms(1,2)] assms(3) by (simp add: marked_def indexAfterMarkedElements_def)

lemma unmarked_iff:
  assumes "part_inv n P" "unmarked P" "x < n"
  shows "\<not> marked P x"
  using assms marked_count [of n P x] part_coreD(8) [of n P x] by (auto simp: part_inv_def unmarked_def)

lemma initialize_inv:
  "part_inv n (initialize n new_Partition)" "unmarked (initialize n new_Partition)"
  "x < n \<Longrightarrow> cls (initialize n new_Partition) x = 0"
  "length (m_sets (initialize n new_Partition)) = (if n = 0 then 0 else 1)"
  by (auto simp: part_inv_def part_core_def unmarked_def initialize_def new_Partition_def cls_def sd_end_def nth_Cons
      split: nat.splits)

section \<open>Marking\<close>

lemma mark_inv:
  assumes inv: "part_inv n P" and x: "x < n" and new: "\<not> marked P x"
  shows "\<exists>P'. markElementInCurrentGeneration x P = Some P' \<and> part_inv n P'
    \<and> m_elementToSetMap P' = m_elementToSetMap P \<and> length (m_sets P') = length (m_sets P)
    \<and> (\<forall>y < n. marked P' y \<longleftrightarrow> marked P y \<or> y = x)"
proof -
  have core: "part_core n P" using inv by (simp add: part_inv_def)
  note c = part_coreD [OF core]
  let ?es = "m_partitionedElements P" and ?ps = "m_elementPositionInPartitionedNodes P"
  define k where "k = cls P x"
  define d where "d = m_sets P ! k"
  define p where "p = ?ps ! x"
  define f where "f = indexAfterMarkedElements d"
  define u where "u = ?es ! f"
  have k: "k < length (m_sets P)" using c(8) [OF x] by (simp add: k_def)
  have p: "p < n" "?es ! p = x" "p < sd_end d" "sd_start d \<le> p"
    using c(4,5,9,10) [OF x] by (simp_all add: p_def d_def k_def)
  have fp: "f \<le> p" using new by (simp add: marked_def f_def d_def k_def p_def)
  have f: "sd_start d \<le> f" "f < sd_end d" "f < n"
    using fp p by (simp_all add: f_def indexAfterMarkedElements_def)
  have u: "u < n" "?ps ! u = f" "cls P u = k"
    using c(6,7) [OF f(3)] c(14) [OF k, of f] f by (simp_all add: u_def d_def)
  define es where "es = ?es[f := x, p := u]"
  define ps where "ps = ?ps[x := f, u := p]"
  define sets where "sets = (m_sets P)[k := d\<lparr>sd_markedCount := sd_markedCount d + 1\<rparr>]"
  define marks where "marks = (if sd_markedCount d = 0 then m_setsMarkedInCurrentGeneration P @ [k]
    else m_setsMarkedInCurrentGeneration P)"
  define P' where "P' = P\<lparr>m_sets := sets, m_partitionedElements := es, m_elementPositionInPartitionedNodes := ps,
    m_setsMarkedInCurrentGeneration := marks\<rparr>"
  have es: "es ! i = (if i = p then u else if i = f then x else ?es ! i)" if "i < n" for i
    using that c(1) p(1) f(3) by (simp add: es_def nth_list_update)
  have ps: "ps ! y = (if y = u then p else if y = x then f else ?ps ! y)" if "y < n" for y
    using that c(2) x u(1) by (simp add: ps_def nth_list_update)
  have sets: "sets ! j = (if j = k then d\<lparr>sd_markedCount := sd_markedCount d + 1\<rparr> else m_sets P ! j)"
    if "j < length (m_sets P)" for j
    using that by (simp add: sets_def nth_list_update)
  have fresh: "sd_markedCount d = 0 \<Longrightarrow> k \<notin> set (m_setsMarkedInCurrentGeneration P)"
    using inv by (simp add: part_inv_def d_def)
  have run: "markElementInCurrentGeneration x P = Some P'"
    unfolding markElementInCurrentGeneration_def
    using x k p f u fresh c(1,2,3)
    by (simp add: vec_simps cls_def [symmetric] k_def [symmetric] d_def [symmetric] p_def [symmetric]
        f_def [symmetric] u_def [symmetric] Let_def P'_def es_def ps_def sets_def marks_def)
  have same: "cls P' = cls P" by (simp add: fun_eq_iff cls_def P'_def)
  have core': "part_core n P'"
  proof -
    have a: "ps ! y < n \<and> es ! (ps ! y) = y" if "y < n" for y
    proof -
      have "?ps ! y \<noteq> p" if "y \<noteq> x" using c(5) [OF \<open>y < n\<close>] p(2) that by auto
      moreover have "?ps ! y \<noteq> f" if "y \<noteq> u" using c(5) [OF \<open>y < n\<close>] that by (auto simp: u_def)
      ultimately show ?thesis using that c(4,5) [OF that] p(1) f(3) by (simp add: es ps) (auto simp: u_def p(2))
    qed
    have b: "es ! i < n \<and> ps ! (es ! i) = i" if "i < n" for i
    proof -
      have "?es ! i \<noteq> x" if "i \<noteq> p" using c(7) [OF \<open>i < n\<close>] that by (auto simp: p_def)
      moreover have "?es ! i \<noteq> u" if "i \<noteq> f" using c(7) [OF \<open>i < n\<close>] that u(2) by auto
      ultimately show ?thesis using that c(6,7) [OF that] x u(1) by (simp add: es ps) (auto simp: u_def p_def)
    qed
    have ends: "sd_start (sets ! j) = sd_start (m_sets P ! j)" "sd_end (sets ! j) = sd_end (m_sets P ! j)"
      "sd_size (sets ! j) = sd_size (m_sets P ! j)" if "j < length (m_sets P)" for j
      using that by (simp_all add: sets d_def sd_end_def)
    have w: "sd_start (m_sets P ! cls P y) \<le> ps ! y \<and> ps ! y < sd_end (m_sets P ! cls P y)" if "y < n" for y
      using c(9,10) [OF that] f p u(3) that by (auto simp: ps d_def k_def)
    have m: "cls P (es ! i) = j" if "j < length (m_sets P)" "sd_start (m_sets P ! j) \<le> i" "i < sd_end (m_sets P ! j)" for i j
    proof -
      have i: "i < n" using that c(12) [OF that(1)] by linarith
      show ?thesis using c(14) [OF that] c(14) [OF that(1), of f] c(14) [OF that(1), of p] i that u(3)
        by (auto simp: es u_def p(2) k_def)
    qed
    have l: "sd_markedCount (sets ! j) \<le> sd_size (sets ! j)" if "j < length (m_sets P)" for j
      using c(13) [OF that] f(2) that by (auto simp: sets d_def f_def sd_end_def indexAfterMarkedElements_def)
    have len: "length es = n" "length ps = n" "length sets = length (m_sets P)" using c(1,2) by (simp_all add: es_def ps_def sets_def)
    have fields: "m_partitionedElements P' = es" "m_elementPositionInPartitionedNodes P' = ps"
      "m_elementToSetMap P' = m_elementToSetMap P" "m_sets P' = sets" by (simp_all add: P'_def)
    show ?thesis unfolding part_core_def fields same len
      using a b w m l c(3,8,11,12) by (simp add: ends)
  qed
  have marks: "distinct marks \<and> set marks = {j. j < length (m_sets P') \<and> 0 < sd_markedCount (m_sets P' ! j)}"
    using inv fresh k by (auto simp: part_inv_def marks_def P'_def sets_def nth_list_update d_def)
  have mk: "marked P' y \<longleftrightarrow> marked P y \<or> y = x" if y: "y < n" for y
  proof -
    have g: "m_sets P' ! cls P y = (if cls P y = k then d\<lparr>sd_markedCount := sd_markedCount d + 1\<rparr> else m_sets P ! cls P y)"
      using sets [OF c(8) [OF y]] by (simp add: P'_def)
    have h: "m_elementPositionInPartitionedNodes P' ! y = (if y = u then p else if y = x then f else ?ps ! y)"
      using ps [OF y] by (simp add: P'_def)
    show ?thesis
    proof (cases "cls P y = k")
      case True
      have q: "?ps ! y = f \<longleftrightarrow> y = u" using c(5) [OF y] u(2) by (auto simp: u_def)
      have i: "indexAfterMarkedElements (m_sets P' ! cls P y) = Suc f" "indexAfterMarkedElements (m_sets P ! cls P y) = f"
        using g True by (simp_all add: f_def d_def indexAfterMarkedElements_def)
      have v: "u = x \<longleftrightarrow> p = f" using u(2) p(2) by (auto simp: u_def p_def)
      show ?thesis unfolding marked_def same h i using q u(2) v fp by (cases "y = u"; cases "y = x") (simp_all add: less_Suc_eq)
    next
      case False
      then have "y \<noteq> u" "y \<noteq> x" using u(3) by (auto simp: k_def)
      then show ?thesis using False by (simp add: marked_def same g h)
    qed
  qed
  have "part_inv n P'" using core' marks by (simp add: part_inv_def P'_def)
  with run mk show ?thesis by (auto simp: P'_def sets_def)
qed

lemma mark_all:
  assumes "part_inv n P" "distinct xs" "set xs \<subseteq> {..<n}" "\<forall>x \<in> set xs. \<not> marked P x"
  shows "\<exists>P'. foldM markElementInCurrentGeneration xs P = Some P' \<and> part_inv n P'
    \<and> m_elementToSetMap P' = m_elementToSetMap P \<and> length (m_sets P') = length (m_sets P)
    \<and> (\<forall>y < n. marked P' y \<longleftrightarrow> marked P y \<or> y \<in> set xs)"
  using assms
proof (induction xs arbitrary: P)
  case Nil
  then show ?case by simp
next
  case (Cons x xs)
  then obtain Q where Q: "markElementInCurrentGeneration x P = Some Q" "part_inv n Q"
    "m_elementToSetMap Q = m_elementToSetMap P" "length (m_sets Q) = length (m_sets P)"
    "\<forall>y < n. marked Q y \<longleftrightarrow> marked P y \<or> y = x"
    using mark_inv [OF Cons.prems(1), of x] by auto
  have "\<forall>y \<in> set xs. \<not> marked Q y" using Cons.prems Q(5) by auto
  then obtain R where R: "foldM markElementInCurrentGeneration xs Q = Some R" "part_inv n R"
    "m_elementToSetMap R = m_elementToSetMap Q" "length (m_sets R) = length (m_sets Q)"
    "\<forall>y < n. marked R y \<longleftrightarrow> marked Q y \<or> y \<in> set xs"
    using Cons.IH [OF Q(2)] Cons.prems by auto
  show ?case using Q(1,3,4,5) R by auto
qed

section \<open>Refining\<close>

lemma foldM_vec_set:
  assumes "\<forall>i. a \<le> i \<longrightarrow> i < b \<longrightarrow> i < length es \<and> es ! i < length xs"
  shows "\<exists>ys. foldM (\<lambda>i ys. do { e \<leftarrow> vec_at es i; vec_set ys e v }) [a..<b] xs = Some ys \<and> length ys = length xs
    \<and> (\<forall>x < length xs. ys ! x = (if \<exists>i. a \<le> i \<and> i < b \<and> es ! i = x then v else xs ! x))"
  using assms
proof (induction b)
  case 0
  then show ?case by simp
next
  case (Suc b)
  show ?case
  proof (cases "a \<le> b")
    case True
    from Suc obtain ys where ys: "foldM (\<lambda>i ys. do { e \<leftarrow> vec_at es i; vec_set ys e v }) [a..<b] xs = Some ys"
      "length ys = length xs" "\<forall>x < length xs. ys ! x = (if \<exists>i. a \<le> i \<and> i < b \<and> es ! i = x then v else xs ! x)"
      by auto
    have "b < length es" "es ! b < length xs" using Suc.prems True by simp_all
    then show ?thesis using ys True
      by (simp add: foldM_append vec_simps) (auto simp: nth_list_update less_Suc_eq)
  next
    case False
    then show ?thesis by auto
  qed
qed

lemma position_marked:
  assumes "part_core n P" "x < n" "cls P x = k"
  shows "marked P x \<longleftrightarrow> m_elementPositionInPartitionedNodes P ! x < sd_start (m_sets P ! k) + sd_markedCount (m_sets P ! k)"
  using assms(3) by (simp add: marked_def indexAfterMarkedElements_def)

text \<open>A set that is marked altogether is unmarked; any other is split, the smaller half becoming a new set.\<close>

lemma refineSet_whole:
  assumes core: "part_core n P" and k: "k < length (m_sets P)" and all: "sd_markedCount (m_sets P ! k) = sd_size (m_sets P ! k)"
  shows "\<exists>P'. refineSet k P = Some (P', None) \<and> part_core n P'
    \<and> m_setsMarkedInCurrentGeneration P' = m_setsMarkedInCurrentGeneration P
    \<and> (\<forall>x < n. marked P' x \<longleftrightarrow> marked P x \<and> cls P x \<noteq> k)
    \<and> (\<forall>j < length (m_sets P). j \<noteq> k \<longrightarrow> m_sets P' ! j = m_sets P ! j) \<and> sd_markedCount (m_sets P' ! k) = 0
    \<and> m_elementToSetMap P' = m_elementToSetMap P \<and> length (m_sets P') = length (m_sets P)
    \<and> (\<forall>x < n. cls P x = k \<longrightarrow> marked P x)"
proof -
  note c = part_coreD [OF core]
  let ?d = "m_sets P ! k"
  define P' where "P' = P\<lparr>m_sets := (m_sets P)[k := ?d\<lparr>sd_markedCount := 0\<rparr>]\<rparr>"
  have run: "refineSet k P = Some (P', None)" using k all by (simp add: refineSet_def vec_simps P'_def)
  have sets: "m_sets P' ! j = (if j = k then ?d\<lparr>sd_markedCount := 0\<rparr> else m_sets P ! j)" if "j < length (m_sets P)" for j
    using that by (simp add: P'_def nth_list_update)
  have fields: "m_partitionedElements P' = m_partitionedElements P"
    "m_elementPositionInPartitionedNodes P' = m_elementPositionInPartitionedNodes P"
    "m_elementToSetMap P' = m_elementToSetMap P" "length (m_sets P') = length (m_sets P)"
    "m_setsMarkedInCurrentGeneration P' = m_setsMarkedInCurrentGeneration P" by (simp_all add: P'_def)
  have same: "cls P' = cls P" by (simp add: fun_eq_iff cls_def P'_def)
  have ends: "sd_start (m_sets P' ! j) = sd_start (m_sets P ! j)" "sd_end (m_sets P' ! j) = sd_end (m_sets P ! j)"
    "sd_size (m_sets P' ! j) = sd_size (m_sets P ! j)" "sd_markedCount (m_sets P' ! j) \<le> sd_size (m_sets P ! j)"
    if "j < length (m_sets P)" for j
    using that c(13) [OF that] by (simp_all add: sets sd_end_def)
  have "part_core n P'"
    unfolding part_core_def fields same using c by (simp add: ends)
  moreover have "marked P' x \<longleftrightarrow> marked P x \<and> cls P x \<noteq> k" if "x < n" for x
    using c(8,9) [OF that] by (auto simp: marked_def fields same sets indexAfterMarkedElements_def)
  moreover have "marked P x" if "x < n" "cls P x = k" for x
    using c(10) [OF that(1)] that(2) all by (simp add: marked_def sd_end_def indexAfterMarkedElements_def)
  ultimately show ?thesis using run sets k fields by auto
qed

lemma refineSet_split:
  assumes core: "part_core n P" and k: "k < length (m_sets P)" and some: "sd_markedCount (m_sets P ! k) \<noteq> sd_size (m_sets P ! k)"
    and pos: "0 < sd_markedCount (m_sets P ! k)"
  shows "\<exists>P' b. refineSet k P = Some (P', Some (length (m_sets P))) \<and> part_core n P'
    \<and> m_setsMarkedInCurrentGeneration P' = m_setsMarkedInCurrentGeneration P
    \<and> (\<forall>x < n. marked P' x \<longleftrightarrow> marked P x \<and> cls P x \<noteq> k)
    \<and> (\<forall>j < length (m_sets P). j \<noteq> k \<longrightarrow> m_sets P' ! j = m_sets P ! j) \<and> sd_markedCount (m_sets P' ! k) = 0
    \<and> length (m_sets P') = Suc (length (m_sets P)) \<and> sd_markedCount (m_sets P' ! length (m_sets P)) = 0
    \<and> (\<forall>x < n. cls P' x = (if cls P x = k \<and> marked P x = b then length (m_sets P) else cls P x))"
proof -
  note c = part_coreD [OF core]
  let ?j = "length (m_sets P)" and ?ps = "m_elementPositionInPartitionedNodes P" and ?es = "m_partitionedElements P"
  define d where "d = m_sets P ! k"
  define b where "b \<longleftrightarrow> sd_markedCount d * 2 \<le> sd_size d"
  have lt: "sd_markedCount d < sd_size d" "0 < sd_markedCount d" "sd_start d + sd_size d \<le> n"
    using c(12,13) [OF k] some pos by (simp_all add: d_def sd_end_def)
  define new where "new = (if b then \<lparr>sd_start = sd_start d, sd_size = sd_markedCount d, sd_markedCount = 0\<rparr>
    else \<lparr>sd_start = sd_start d + sd_markedCount d, sd_size = sd_size d - sd_markedCount d, sd_markedCount = 0\<rparr>)"
  define old where "old = \<lparr>sd_start = (if b then sd_start d + sd_markedCount d else sd_start d),
    sd_size = sd_size d - sd_size new, sd_markedCount = 0\<rparr>"
  have newEnd: "sd_end new \<le> n" using lt by (simp add: new_def sd_end_def)
  have "\<forall>i. sd_start new \<le> i \<longrightarrow> i < sd_end new \<longrightarrow> i < length ?es \<and> ?es ! i < length (m_elementToSetMap P)"
    using c(1,3,6) newEnd by simp
  from foldM_vec_set [OF this, of ?j]
  obtain m where m: "foldM (\<lambda>i m. do { e \<leftarrow> vec_at ?es i; vec_set m e ?j }) [sd_start new..<sd_end new] (m_elementToSetMap P) = Some m"
    "length m = n" "\<forall>x < n. m ! x = (if \<exists>i. sd_start new \<le> i \<and> i < sd_end new \<and> ?es ! i = x then ?j else cls P x)"
    unfolding c(3) cls_def by blast
  define P' where "P' = P\<lparr>m_sets := (m_sets P)[k := old] @ [new], m_elementToSetMap := m\<rparr>"
  have run: "refineSet k P = Some (P', Some ?j)"
    using k some m(1) unfolding refineSet_def
    by (simp add: vec_simps d_def [symmetric] b_def [symmetric] new_def [symmetric] old_def [symmetric] Let_def P'_def)
  have sets: "m_sets P' ! i = (if i = k then old else if i = ?j then new else m_sets P ! i)" if "i \<le> ?j" for i
    using that k by (auto simp: P'_def nth_append nth_list_update)
  have fields: "m_partitionedElements P' = ?es" "m_elementPositionInPartitionedNodes P' = ?ps"
    "m_elementToSetMap P' = m" "length (m_sets P') = Suc ?j" by (simp_all add: P'_def)
  have inside: "(\<exists>i. sd_start new \<le> i \<and> i < sd_end new \<and> ?es ! i = x) \<longleftrightarrow> sd_start new \<le> ?ps ! x \<and> ?ps ! x < sd_end new"
    if "x < n" for x
    using newEnd c(5,7) that by (metis order_less_le_trans)
  have newc: "cls P x = k \<and> marked P x = b" if "x < n" "sd_start new \<le> ?ps ! x" "?ps ! x < sd_end new" for x
  proof -
    have "sd_start d \<le> ?ps ! x" "?ps ! x < sd_end d" using that lt by (auto simp: new_def sd_end_def split: if_splits)
    then have "cls P x = k" using c(14) [OF k, of "?ps ! x"] c(5) [OF that(1)] by (simp add: d_def)
    then show ?thesis using position_marked [OF core that(1)] that(2,3) by (auto simp: new_def d_def [symmetric] sd_end_def split: if_splits)
  qed
  have newc': "sd_start new \<le> ?ps ! x \<and> ?ps ! x < sd_end new" if "x < n" "cls P x = k" "marked P x = b" for x
    using c(9,10) [OF that(1)] that position_marked [OF core that(1,2)]
    by (cases b) (auto simp: new_def d_def [symmetric] sd_end_def)
  have cls': "cls P' x = (if cls P x = k \<and> marked P x = b then ?j else cls P x)" if "x < n" for x
    using m(3) inside [OF that] newc [OF that] newc' [OF that] that by (auto simp: cls_def [of P'] fields)
  have oldc: "sd_start old \<le> ?ps ! x \<and> ?ps ! x < sd_end old" if "x < n" "cls P x = k" "marked P x \<noteq> b" for x
    using c(9,10) [OF that(1)] that position_marked [OF core that(1,2)] lt
    by (cases b) (auto simp: old_def new_def d_def [symmetric] sd_end_def)
  have windows: "cls P' (?es ! i) = l" if "l \<le> ?j" "sd_start (m_sets P' ! l) \<le> i" "i < sd_end (m_sets P' ! l)" for i l
  proof -
    have sub: "sd_start old \<ge> sd_start d" "sd_end old \<le> sd_end d" "sd_start new \<ge> sd_start d" "sd_end new \<le> sd_end d"
      using lt by (auto simp: old_def new_def sd_end_def)
    have i: "i < n" using that sub c(12) [of l] lt(3) by (auto simp: sets sd_end_def split: if_splits)
    have pi: "?ps ! (?es ! i) = i" using c(7) [OF i] .
    consider "l = k" | "l = ?j" "l \<noteq> k" | "l < ?j" "l \<noteq> k"
      by (cases "l = k"; cases "l = ?j") (use \<open>l \<le> ?j\<close> in simp_all)
    then show ?thesis
    proof cases
      case 1
      then have w: "sd_start old \<le> i" "i < sd_end old" using that by (simp_all add: sets)
      then have ck: "cls P (?es ! i) = k" using c(14) [OF k, of i] sub by (simp add: d_def)
      have "marked P (?es ! i) \<noteq> b"
        using position_marked [OF core c(6) [OF i] ck] w lt unfolding pi by (cases b) (auto simp: old_def new_def d_def [symmetric] sd_end_def)
      then show ?thesis using cls' [OF c(6) [OF i]] ck 1 by simp
    next
      case 2
      then have "sd_start new \<le> ?ps ! (?es ! i)" "?ps ! (?es ! i) < sd_end new" using that pi by (simp_all add: sets)
      then show ?thesis using newc [OF c(6) [OF i]] cls' [OF c(6) [OF i]] 2 by simp
    next
      case 3
      then show ?thesis using that c(14) [OF 3(1), of i] cls' [OF c(6) [OF i]] by (simp add: sets)
    qed
  qed
  have "part_core n P'"
    unfolding part_core_def fields
  proof (intro conjI allI impI)
    fix x assume x: "x < n"
    show "cls P' x < Suc ?j" using cls' [OF x] c(8) [OF x] by auto
    have "sd_start (m_sets P' ! cls P' x) \<le> ?ps ! x \<and> ?ps ! x < sd_end (m_sets P' ! cls P' x)"
      using cls' [OF x] c(8,9,10) [OF x] newc' [OF x] oldc [OF x] k by (auto simp: sets)
    then show "sd_start (m_sets P' ! cls P' x) \<le> ?ps ! x" "?ps ! x < sd_end (m_sets P' ! cls P' x)" by auto
  next
    fix l assume l: "l < Suc ?j"
    then have l': "l \<le> ?j" "l \<noteq> ?j \<Longrightarrow> l < ?j" by simp_all
    show "0 < sd_size (m_sets P' ! l)" "sd_end (m_sets P' ! l) \<le> n" "sd_markedCount (m_sets P' ! l) \<le> sd_size (m_sets P' ! l)"
      using l' c(11,12,13) [of l] lt by (auto simp: sets old_def new_def sd_end_def)
    show "cls P' (?es ! i) = l" if "sd_start (m_sets P' ! l) \<le> i" "i < sd_end (m_sets P' ! l)" for i
      using windows [OF l'(1) that] .
  qed (use c(1-7) m(2) in auto)
  moreover have "marked P' x \<longleftrightarrow> marked P x \<and> cls P x \<noteq> k" if x: "x < n" for x
  proof (cases "cls P x = k")
    case True
    then have "m_sets P' ! cls P' x = (if marked P x = b then new else old)" using cls' [OF x] k by (simp add: sets)
    then show ?thesis using True newc' [OF x True] oldc [OF x True]
      by (auto simp: marked_def [of P'] fields indexAfterMarkedElements_def new_def old_def split: if_splits)
  next
    case False
    then show ?thesis using cls' [OF x] c(8) [OF x] by (simp add: marked_def fields sets)
  qed
  moreover have "sd_markedCount old = 0" "sd_markedCount new = 0" by (simp_all add: old_def new_def)
  ultimately show ?thesis using run cls' k sets fields by (intro exI [of _ P'] exI [of _ b]) (simp add: P'_def nth_append)
qed

text \<open>One partition refines another: sets are split, and only new indices appear.\<close>

definition refines :: "nat \<Rightarrow> Partition \<Rightarrow> Partition \<Rightarrow> bool" where
  "refines n P Q \<longleftrightarrow> length (m_sets P) \<le> length (m_sets Q)
     \<and> (\<forall>x < n. cls Q x = cls P x \<or> length (m_sets P) \<le> cls Q x)
     \<and> (\<forall>x < n. \<forall>y < n. cls Q x = cls Q y \<longrightarrow> cls P x = cls P y)"

lemma refinesD:
  assumes "refines n P Q"
  shows "length (m_sets P) \<le> length (m_sets Q)" "\<And>x. x < n \<Longrightarrow> cls Q x = cls P x \<or> length (m_sets P) \<le> cls Q x"
    "\<And>x y. x < n \<Longrightarrow> y < n \<Longrightarrow> cls Q x = cls Q y \<Longrightarrow> cls P x = cls P y"
  using assms unfolding refines_def by blast+

lemma refines_refl [simp]: "refines n P P"
  by (simp add: refines_def)

lemma refines_same: "m_elementToSetMap Q = m_elementToSetMap P \<Longrightarrow> length (m_sets Q) = length (m_sets P) \<Longrightarrow> refines n P Q"
  by (simp add: refines_def cls_def)

lemma refines_trans:
  assumes "refines n P Q" "refines n Q R"
  shows "refines n P R"
  unfolding refines_def
proof (intro conjI allI impI)
  show "length (m_sets P) \<le> length (m_sets R)" using assms by (meson order_trans refinesD(1))
  fix x assume "x < n"
  then show "cls R x = cls P x \<or> length (m_sets P) \<le> cls R x"
    using refinesD(1,2) [OF assms(1)] refinesD(2) [OF assms(2)] by (metis order_trans)
  show "cls P x = cls P y" if "y < n" "cls R x = cls R y" for y
    using refinesD(3) [OF assms(1)] refinesD(3) [OF assms(2)] that \<open>x < n\<close> by blast
qed

lemma refines_split:
  assumes "\<forall>x < n. cls Q x = (if cls P x = k \<and> marked P x = b then length (m_sets P) else cls P x)"
    and "length (m_sets Q) = Suc (length (m_sets P))" "part_core n P"
  shows "refines n P Q"
proof -
  have l: "cls P x < length (m_sets P)" if "x < n" for x using part_coreD(8) [OF assms(3) that] .
  have "cls P x = cls P y" if "x < n" "y < n" "cls Q x = cls Q y" for x y
  proof -
    have "cls Q x = (if cls P x = k \<and> marked P x = b then length (m_sets P) else cls P x)"
      "cls Q y = (if cls P y = k \<and> marked P y = b then length (m_sets P) else cls P y)"
      using assms(1) that(1,2) by blast+
    then show ?thesis using l [OF that(1)] l [OF that(2)] that(3) by (simp split: if_splits)
  qed
  then show ?thesis using assms(1,2) unfolding refines_def by auto
qed

lemma refine_loop:
  assumes step: "\<And>Q Q' s. part_core n Q \<Longrightarrow> part_core n Q' \<Longrightarrow> refines n Q Q' \<Longrightarrow> length (m_sets Q') = Suc (length (m_sets Q))
      \<Longrightarrow> I Q s \<Longrightarrow> \<exists>s'. f (length (m_sets Q)) Q' s = Some s' \<and> I Q' s'"
    and frame: "\<And>Q Q' s. I Q s \<Longrightarrow> m_elementToSetMap Q' = m_elementToSetMap Q \<Longrightarrow> length (m_sets Q') = length (m_sets Q) \<Longrightarrow> I Q' s"
    and "part_core n Q" "I Q s" "distinct ks" "set ks = {k. k < length (m_sets Q) \<and> 0 < sd_markedCount (m_sets Q ! k)}"
  shows "\<exists>Q' s'. foldM (refineStep f) ks (Q, s) = Some (Q', s') \<and> part_core n Q' \<and> I Q' s' \<and> refines n Q Q'
    \<and> (\<forall>k < length (m_sets Q'). sd_markedCount (m_sets Q' ! k) = 0)
    \<and> (\<forall>x < n. \<forall>y < n. cls Q' x = cls Q' y \<longleftrightarrow> cls Q x = cls Q y \<and> marked Q x = marked Q y)"
  using assms(3-)
proof (induction ks arbitrary: Q s)
  case Nil
  then have "\<not> marked Q x" if "x < n" for x
    using marked_count [OF Nil.prems(1) that] part_coreD(8) [OF Nil.prems(1) that] by auto
  then show ?case using Nil by auto
next
  case (Cons k ks)
  have k: "k < length (m_sets Q)" "0 < sd_markedCount (m_sets Q ! k)" using Cons.prems(4) by auto
  have "\<exists>Q1 new s1. refineSet k Q = Some (Q1, new) \<and> (case new of None \<Rightarrow> Some s | Some j \<Rightarrow> f j Q1 s) = Some s1
    \<and> part_core n Q1 \<and> I Q1 s1 \<and> refines n Q Q1 \<and> (\<forall>x < n. marked Q1 x \<longleftrightarrow> marked Q x \<and> cls Q x \<noteq> k)
    \<and> set ks = {k. k < length (m_sets Q1) \<and> 0 < sd_markedCount (m_sets Q1 ! k)}
    \<and> (\<forall>x < n. \<forall>y < n. cls Q1 x = cls Q1 y \<longleftrightarrow> cls Q x = cls Q y \<and> (cls Q x = k \<longrightarrow> marked Q x = marked Q y))"
  proof (cases "sd_markedCount (m_sets Q ! k) = sd_size (m_sets Q ! k)")
    case True
    obtain Q1 where Q1: "refineSet k Q = Some (Q1, None)" "part_core n Q1"
      "\<forall>x < n. marked Q1 x \<longleftrightarrow> marked Q x \<and> cls Q x \<noteq> k"
      "\<forall>j < length (m_sets Q). j \<noteq> k \<longrightarrow> m_sets Q1 ! j = m_sets Q ! j" "sd_markedCount (m_sets Q1 ! k) = 0"
      "m_elementToSetMap Q1 = m_elementToSetMap Q" "length (m_sets Q1) = length (m_sets Q)"
      "\<forall>x < n. cls Q x = k \<longrightarrow> marked Q x"
      using refineSet_whole [OF Cons.prems(1) k(1) True] by blast
    have "set ks = {k. k < length (m_sets Q1) \<and> 0 < sd_markedCount (m_sets Q1 ! k)}"
    proof -
      have "set ks = {i. i < length (m_sets Q) \<and> 0 < sd_markedCount (m_sets Q ! i)} - {k}" using Cons.prems(3,4) by auto
      then show ?thesis using Q1(4,5,7) k(1) by auto
    qed
    moreover have "I Q1 s" using frame [OF Cons.prems(2) Q1(6,7)] .
    moreover have "refines n Q Q1" by (rule refines_same [OF Q1(6,7)])
    moreover have "cls Q1 = cls Q" using Q1(6) by (simp add: fun_eq_iff cls_def)
    ultimately show ?thesis using Q1(1,2,3,8) by auto
  next
    case False
    let ?j = "length (m_sets Q)"
    obtain Q1 b where Q1: "refineSet k Q = Some (Q1, Some ?j)" "part_core n Q1"
      "\<forall>x < n. marked Q1 x \<longleftrightarrow> marked Q x \<and> cls Q x \<noteq> k"
      "\<forall>j < length (m_sets Q). j \<noteq> k \<longrightarrow> m_sets Q1 ! j = m_sets Q ! j" "sd_markedCount (m_sets Q1 ! k) = 0"
      "length (m_sets Q1) = Suc ?j" "sd_markedCount (m_sets Q1 ! ?j) = 0"
      "\<forall>x < n. cls Q1 x = (if cls Q x = k \<and> marked Q x = b then ?j else cls Q x)"
      using refineSet_split [OF Cons.prems(1) k(1) False k(2)] by blast
    have ref: "refines n Q Q1" by (rule refines_split [OF Q1(8,6) Cons.prems(1)])
    obtain s1 where s1: "f ?j Q1 s = Some s1" "I Q1 s1" using step [OF Cons.prems(1) Q1(2) ref Q1(6) Cons.prems(2)] by blast
    have "set ks = {k. k < length (m_sets Q1) \<and> 0 < sd_markedCount (m_sets Q1 ! k)}"
    proof -
      have "set ks = {i. i < ?j \<and> 0 < sd_markedCount (m_sets Q ! i)} - {k}" using Cons.prems(3,4) by auto
      then show ?thesis using Q1(4,5,6,7) k(1) by (auto simp: less_Suc_eq)
    qed
    moreover have "cls Q1 x = cls Q1 y \<longleftrightarrow> cls Q x = cls Q y \<and> (cls Q x = k \<longrightarrow> marked Q x = marked Q y)"
      if "x < n" "y < n" for x y
      using Q1(8) that part_coreD(8) [OF Cons.prems(1) that(1)] part_coreD(8) [OF Cons.prems(1) that(2)]
      by auto
    ultimately show ?thesis using Q1(1,2,3) s1 ref by auto
  qed
  then obtain Q1 new s1 where Q1: "refineSet k Q = Some (Q1, new)" "(case new of None \<Rightarrow> Some s | Some j \<Rightarrow> f j Q1 s) = Some s1"
    "part_core n Q1" "I Q1 s1" "refines n Q Q1" "\<forall>x < n. marked Q1 x \<longleftrightarrow> marked Q x \<and> cls Q x \<noteq> k"
    "set ks = {k. k < length (m_sets Q1) \<and> 0 < sd_markedCount (m_sets Q1 ! k)}"
    "\<forall>x < n. \<forall>y < n. cls Q1 x = cls Q1 y \<longleftrightarrow> cls Q x = cls Q y \<and> (cls Q x = k \<longrightarrow> marked Q x = marked Q y)" by blast
  have "distinct ks" using Cons.prems(3) by simp
  from Cons.IH [OF Q1(3,4) this Q1(7)] obtain Q' s' where Q': "foldM (refineStep f) ks (Q1, s1) = Some (Q', s')" "part_core n Q'" "I Q' s'" "refines n Q1 Q'"
    "\<forall>k < length (m_sets Q'). sd_markedCount (m_sets Q' ! k) = 0"
    "\<forall>x < n. \<forall>y < n. cls Q' x = cls Q' y \<longleftrightarrow> cls Q1 x = cls Q1 y \<and> marked Q1 x = marked Q1 y" by blast
  have "cls Q' x = cls Q' y \<longleftrightarrow> cls Q x = cls Q y \<and> marked Q x = marked Q y" if "x < n" "y < n" for x y
    using Q1(6,8) Q'(6) that by metis
  moreover have "foldM (refineStep f) (k # ks) (Q, s) = Some (Q', s')"
    using Q1(1,2) Q'(1) by (cases new) (simp_all add: refineStep_def)
  ultimately show ?case using Q'(2,3,5) refines_trans [OF Q1(5) Q'(4)] by blast
qed

lemma refineGeneration_rule:
  assumes step: "\<And>Q Q' s. part_core n Q \<Longrightarrow> part_core n Q' \<Longrightarrow> refines n Q Q' \<Longrightarrow> length (m_sets Q') = Suc (length (m_sets Q))
      \<Longrightarrow> I Q s \<Longrightarrow> \<exists>s'. f (length (m_sets Q)) Q' s = Some s' \<and> I Q' s'"
    and frame: "\<And>Q Q' s. I Q s \<Longrightarrow> m_elementToSetMap Q' = m_elementToSetMap Q \<Longrightarrow> length (m_sets Q') = length (m_sets Q) \<Longrightarrow> I Q' s"
    and inv: "part_inv n P" and I: "I P s"
  shows "\<exists>P' s'. refineGeneration f P s = Some (P', s') \<and> part_inv n P' \<and> unmarked P' \<and> I P' s' \<and> refines n P P'
    \<and> (\<forall>x < n. \<forall>y < n. cls P' x = cls P' y \<longleftrightarrow> cls P x = cls P y \<and> marked P x = marked P y)"
proof -
  from inv have p: "part_core n P" "distinct (m_setsMarkedInCurrentGeneration P)"
    "set (m_setsMarkedInCurrentGeneration P) = {k. k < length (m_sets P) \<and> 0 < sd_markedCount (m_sets P ! k)}"
    by (simp_all add: part_inv_def)
  obtain Q s' where Q: "foldM (refineStep f) (m_setsMarkedInCurrentGeneration P) (P, s) = Some (Q, s')" "part_core n Q" "I Q s'" "refines n P Q"
    "\<forall>k < length (m_sets Q). sd_markedCount (m_sets Q ! k) = 0"
    "\<forall>x < n. \<forall>y < n. cls Q x = cls Q y \<longleftrightarrow> cls P x = cls P y \<and> marked P x = marked P y"
  proof -
    have "\<exists>Q s'. foldM (refineStep f) (m_setsMarkedInCurrentGeneration P) (P, s) = Some (Q, s') \<and> part_core n Q \<and> I Q s'
      \<and> refines n P Q \<and> (\<forall>k < length (m_sets Q). sd_markedCount (m_sets Q ! k) = 0)
      \<and> (\<forall>x < n. \<forall>y < n. cls Q x = cls Q y \<longleftrightarrow> cls P x = cls P y \<and> marked P x = marked P y)"
      by (rule refine_loop [where I = I]) (rule step frame p I; assumption)+
    then show thesis using that by blast
  qed
  let ?P' = "Q\<lparr>m_setsMarkedInCurrentGeneration := []\<rparr>"
  have same: "cls ?P' = cls Q" by (simp add: fun_eq_iff cls_def)
  have "part_core n ?P'" using Q(2) unfolding part_core_def same by simp
  then have "part_inv n ?P'" using Q(5) by (simp add: part_inv_def)
  moreover have "m_sets ?P' = m_sets Q" by simp
  then have "refines n P ?P'" using Q(4) unfolding refines_def same by metis
  moreover have "refineGeneration f P s = Some (?P', s')" unfolding refineGeneration_def Q(1) by simp
  moreover have "I ?P' s'" by (rule frame [OF Q(3)]) simp_all
  moreover have "unmarked ?P'" by (simp add: unmarked_def)
  moreover have "\<forall>x < n. \<forall>y < n. cls ?P' x = cls ?P' y \<longleftrightarrow> cls P x = cls P y \<and> marked P x = marked P y"
    unfolding same by (rule Q(6))
  ultimately show ?thesis by blast
qed

text \<open>Iterating over a set visits its elements once each.\<close>

definition elements :: "Partition \<Rightarrow> nat \<Rightarrow> nat list" where
  "elements P k = map (nth (m_partitionedElements P)) [sd_start (m_sets P ! k)..<sd_end (m_sets P ! k)]"

lemma elements_ok:
  assumes "part_core n P" "k < length (m_sets P)"
  shows "set (elements P k) = {x. x < n \<and> cls P x = k}" "distinct (elements P k)" "elements P k \<noteq> []"
proof -
  note c = part_coreD [OF assms(1)]
  have i: "i < n" if "i < sd_end (m_sets P ! k)" for i using c(12) [OF assms(2)] that by linarith
  show "set (elements P k) = {x. x < n \<and> cls P x = k}"
  proof (intro equalityI subsetI)
    fix x assume "x \<in> set (elements P k)"
    then show "x \<in> {x. x < n \<and> cls P x = k}" using c(6) i c(14) [OF assms(2)] by (auto simp: elements_def)
  next
    fix x assume "x \<in> {x. x < n \<and> cls P x = k}"
    then have x: "x < n" "cls P x = k" by auto
    show "x \<in> set (elements P k)" using c(5,9,10) [OF x(1)] x(2) unfolding elements_def by force
  qed
  have "inj_on (nth (m_partitionedElements P)) {..<n}" 
    by (rule inj_on_inverseI [where g = "nth (m_elementPositionInPartitionedNodes P)"]) (simp add: c(7))
  then show "distinct (elements P k)" using i by (auto simp: elements_def distinct_map intro: inj_on_subset)
  show "elements P k \<noteq> []" using c(11) [OF assms(2)] by (simp add: elements_def sd_end_def)
qed

lemma foldM_map: "foldM f (map g xs) = foldM (\<lambda>x. f (g x)) xs"
proof (induction xs)
  case Nil
  show ?case by (rule ext) simp
next
  case (Cons a xs)
  show ?case by (rule ext) (simp add: Cons.IH)
qed

lemma iterateSet_eq:
  assumes "part_core n P" "k < length (m_sets P)"
  shows "iterateSet k f P s = foldM f (elements P k) s"
proof -
  have "foldM (\<lambda>i s. do { e \<leftarrow> vec_at (m_partitionedElements P) i; f e s }) [sd_start (m_sets P ! k)..<sd_end (m_sets P ! k)] s
    = foldM (\<lambda>i. f (m_partitionedElements P ! i)) [sd_start (m_sets P ! k)..<sd_end (m_sets P ! k)] s"
    using part_coreD(12) [OF assms] part_coreD(1) [OF assms(1)] by (intro foldM_cong) (auto simp: vec_simps)
  then show ?thesis using assms(2) by (simp add: iterateSet_def elements_def foldM_map vec_simps)
qed

lemma firstElementInSet_ok:
  assumes "part_core n P" "x < n"
  shows "\<exists>y. firstElementInSet (cls P x) P = Some y \<and> y < n \<and> cls P y = cls P x"
proof -
  note c = part_coreD [OF assms(1)]
  have k: "cls P x < length (m_sets P)" using c(8) [OF assms(2)] .
  let ?s = "sd_start (m_sets P ! cls P x)"
  have s: "?s < sd_end (m_sets P ! cls P x)" "?s < n" using c(11,12) [OF k] by (simp_all add: sd_end_def)
  then show ?thesis using k c(1,6) c(14) [OF k, of ?s] by (auto simp: firstElementInSet_def vec_simps)
qed

end
