(* ===== verification/DFAMinimizer.thy ===== *)
theory DFAMinimizer
  imports DFA PartitionRefinement "HOL-Library.AList"
begin

text \<open>
  \<^verbatim>\<open>Source/WebCore/contentextensions/DFAMinimizer.cpp\<close>: the simplification of transitions into fallback
  transitions, the partition of nodes and transitions (\<^verbatim>\<open>FullGraphPartition\<close>) and
  \<^verbatim>\<open>DFAMinimizer::minimize\<close>. The hash map of final states is keyed by the actions of a node and
  kept in insertion order.
\<close>

section \<open>Simplifying transitions\<close>

text \<open>The target that most transitions on characters other than the terminator have, the first to reach its count.\<close>

fun bestTarget :: "(nat \<times> nat) list \<Rightarrow> (nat \<times> nat) list \<Rightarrow> nat \<times> nat \<Rightarrow> nat \<times> nat" where
  "bestTarget [] histogram best = best"
| "bestTarget ((c, target) # ts) histogram best =
     (if c = 0 then bestTarget ts histogram best
      else (let score = (case map_of histogram target of None \<Rightarrow> 1 | Some n \<Rightarrow> n + 1) in
        bestTarget ts (AList.update target score histogram) (if score > snd best then (target, score) else best)))"

text \<open>\<^verbatim>\<open>newFallbackDestination\<close> before the old fallback is looked at; \<^verbatim>\<open>max_u32\<close> stands for none.\<close>

definition newFallback :: "DFANode \<Rightarrow> DFA \<Rightarrow> nat option" where
  "newFallback node dfa =
     (if hasFallbackTransition node then Some max_u32
      else do {
        hasZero \<leftarrow> (if m_transitionsLength node = 126 \<or> m_transitionsLength node = 127
                   then containsTransition node 0 dfa else Some False);
        (if (m_transitionsLength node = 126 \<and> \<not> hasZero) \<or> (m_transitionsLength node = 127 \<and> hasZero)
         then do {
           ts \<leftarrow> DFANode_transitions node dfa;
           let best = bestTarget ts [] (max_u32, 0);
           (if snd best = 0 then None else Some (fst best))
         } else Some max_u32)
      })"

definition simplifyNode :: "nat \<Rightarrow> DFA \<Rightarrow> DFA option" where
  "simplifyNode i dfa = do {
     node \<leftarrow> vec_at (nodes dfa) i;
     added \<leftarrow> newFallback node dfa;
     oldFallback \<leftarrow> (if hasFallbackTransition node then fallbackTransitionDestination node dfa else Some max_u32);
     let newFallbackDestination = (if added = max_u32 then oldFallback else added);
     let willHaveFallback = (newFallbackDestination \<noteq> max_u32);
     let node' = setHasFallbackTransitionWithoutChangingDFA willHaveFallback node;
     (if willHaveFallback then do {
        ts \<leftarrow> DFANode_transitions node dfa;
        let available = length ts + (if hasFallbackTransition node then 1 else 0);
        let ts' = filter (\<lambda>t. snd t \<noteq> newFallbackDestination) ts;
        (if length ts' + 1 \<le> available then do {
           let first = m_transitionsStart node;
           tr \<leftarrow> foldM (\<lambda>k tr. vec_set tr (first + k) (ts' ! k)) [0..<length ts'] (dfa_transitions dfa);
           tr \<leftarrow> foldM (\<lambda>k tr. vec_set tr (first + k) (max_u8, max_u32)) [length ts'..<available] tr;
           tr \<leftarrow> vec_set tr (first + length ts') (max_u8, newFallbackDestination);
           Some (dfa\<lparr>dfa_transitions := tr,
             nodes := (nodes dfa)[i := node_resetTransitions first (length ts') node']\<rparr>)
         } else None)
      } else Some (dfa\<lparr>nodes := (nodes dfa)[i := node']\<rparr>))
   }"

definition simplifyTransitions :: "DFA \<Rightarrow> DFA option" where
  "simplifyTransitions dfa = foldM simplifyNode [0..<length (nodes dfa)] dfa"

section \<open>The partition of the graph\<close>

record FlatTransition =
  t_source :: nat
  t_target :: nat
  t_character :: nat

record FullGraphPartition =
  m_flattenedTransitionsStartOffsetPerNode :: "nat list"
  m_flattenedTransitionsSizePerNode :: "nat list"
  m_flattenedFallbackTransitionsStartOffsetPerNode :: "nat list"
  m_flattenedFallbackTransitionsSizePerNode :: "nat list"
  m_flattenedTransitions :: "FlatTransition list"
  m_flattenedFallbackTransitions :: "nat list"
  m_nodePartition :: Partition
  m_transitionPartition :: Partition
  m_fallbackTransitionPartition :: Partition
  m_nextTransitionSetToProcess :: nat

definition increment :: "nat \<Rightarrow> nat list \<Rightarrow> nat list option" where
  "increment i counters = do { n \<leftarrow> vec_at counters i; vec_set counters i (n + 1) }"

text \<open>The number of incoming transitions and of incoming fallback transitions per node.\<close>

definition countIncoming :: "DFA \<Rightarrow> (nat list \<times> nat list) option" where
  "countIncoming dfa = foldM (\<lambda>node (counts, fallbackCounts). do {
       ts \<leftarrow> DFANode_transitions node dfa;
       counts \<leftarrow> foldM (\<lambda>t. increment (snd t)) ts counts;
       fallbackCounts \<leftarrow> (if hasFallbackTransition node then do {
            target \<leftarrow> fallbackTransitionDestination node dfa;
            increment target fallbackCounts
          } else Some fallbackCounts);
       Some (counts, fallbackCounts)
     }) (nodes dfa) (replicate (length (nodes dfa)) 0, replicate (length (nodes dfa)) 0)"

text \<open>The counts become the offsets of the groups; the accumulator ends as their total.\<close>

fun accumulate :: "nat \<Rightarrow> nat list \<Rightarrow> nat list \<times> nat" where
  "accumulate acc [] = ([], acc)"
| "accumulate acc (n # ns) = (let (offsets, acc') = accumulate (acc + n) ns in (acc # offsets, acc'))"

definition fillEntry :: "nat list \<Rightarrow> nat \<Rightarrow> 'a \<Rightarrow> 'a list \<times> nat list \<Rightarrow> ('a list \<times> nat list) option" where
  "fillEntry starts target v st = do {
     start \<leftarrow> vec_at starts target;
     offset \<leftarrow> vec_at (snd st) target;
     table \<leftarrow> vec_set (fst st) (start + offset) v;
     sizes \<leftarrow> vec_set (snd st) target (offset + 1);
     Some (table, sizes)
   }"

definition fillTables :: "DFA \<Rightarrow> nat list \<Rightarrow> nat \<Rightarrow> nat list \<Rightarrow> nat
    \<Rightarrow> ((FlatTransition list \<times> nat list) \<times> (nat list \<times> nat list)) option" where
  "fillTables dfa starts count fallbackStarts fallbackCount = foldM (\<lambda>i (table, fallbackTable). do {
       node \<leftarrow> vec_at (nodes dfa) i;
       ts \<leftarrow> DFANode_transitions node dfa;
       table \<leftarrow> foldM (\<lambda>t. fillEntry starts (snd t) \<lparr>t_source = i, t_target = snd t, t_character = fst t\<rparr>) ts table;
       fallbackTable \<leftarrow> (if hasFallbackTransition node then do {
            target \<leftarrow> fallbackTransitionDestination node dfa;
            fillEntry fallbackStarts target i fallbackTable
          } else Some fallbackTable);
       Some (table, fallbackTable)
     }) [0..<length (nodes dfa)]
     ((replicate count \<lparr>t_source = 0, t_target = 0, t_character = 0\<rparr>, replicate (length (nodes dfa)) 0),
      (replicate fallbackCount 0, replicate (length (nodes dfa)) 0))"

definition markCharacter :: "FlatTransition list \<Rightarrow> nat \<Rightarrow> Partition \<Rightarrow> Partition option" where
  "markCharacter trs c P = foldM (\<lambda>i P.
     if t_character (trs ! i) = c then markElementInCurrentGeneration i P else Some P) [0..<length trs] P"

definition refineOnly :: "Partition \<Rightarrow> Partition option" where
  "refineOnly P = map_option fst (refineGeneration (\<lambda>_ _. Some) P ())"

definition initialTransitionPartition :: "FlatTransition list \<Rightarrow> Partition option" where
  "initialTransitionPartition trs = foldM (\<lambda>c P. Option.bind (markCharacter trs c P) refineOnly)
     [0..<128] (initialize (length trs) new_Partition)"

definition new_FullGraphPartition :: "DFA \<Rightarrow> FullGraphPartition option" where
  "new_FullGraphPartition dfa = do {
     (counts, fallbackCounts) \<leftarrow> countIncoming dfa;
     let (starts, count) = accumulate 0 counts;
     let (fallbackStarts, fallbackCount) = accumulate 0 fallbackCounts;
     ((trs, sizes), (fallbacks, fallbackSizes)) \<leftarrow> fillTables dfa starts count fallbackStarts fallbackCount;
     P \<leftarrow> initialTransitionPartition trs;
     Some \<lparr>m_flattenedTransitionsStartOffsetPerNode = starts, m_flattenedTransitionsSizePerNode = sizes,
       m_flattenedFallbackTransitionsStartOffsetPerNode = fallbackStarts,
       m_flattenedFallbackTransitionsSizePerNode = fallbackSizes,
       m_flattenedTransitions = trs, m_flattenedFallbackTransitions = fallbacks,
       m_nodePartition = initialize (length (nodes dfa)) new_Partition, m_transitionPartition = P,
       m_fallbackTransitionPartition = initialize (length fallbacks) new_Partition,
       m_nextTransitionSetToProcess = 0\<rparr>
   }"

definition markNode :: "nat \<Rightarrow> FullGraphPartition \<Rightarrow> FullGraphPartition option" where
  "markNode nodeIndex G = do {
     P \<leftarrow> markElementInCurrentGeneration nodeIndex (m_nodePartition G);
     Some (G\<lparr>m_nodePartition := P\<rparr>)
   }"

text \<open>The transitions that enter a node are marked; \<open>starts\<close> and \<open>sizes\<close> delimit them.\<close>

definition markIncoming :: "nat list \<Rightarrow> nat list \<Rightarrow> nat \<Rightarrow> Partition \<Rightarrow> Partition option" where
  "markIncoming starts sizes nodeIndex P = do {
     start \<leftarrow> vec_at starts nodeIndex;
     size \<leftarrow> vec_at sizes nodeIndex;
     foldM (\<lambda>i. markElementInCurrentGeneration (start + i)) [0..<size] P
   }"

text \<open>The function that \<^verbatim>\<open>refinePartitions\<close> calls on every new set of nodes, on the two transition partitions.\<close>

definition splitIncoming :: "FullGraphPartition \<Rightarrow> nat \<Rightarrow> Partition \<Rightarrow> Partition \<times> Partition \<Rightarrow> (Partition \<times> Partition) option" where
  "splitIncoming G smallestSetIndex nodePartition st = do {
     (T, F) \<leftarrow> iterateSet smallestSetIndex (\<lambda>nodeIndex (T, F). do {
         T \<leftarrow> markIncoming (m_flattenedTransitionsStartOffsetPerNode G) (m_flattenedTransitionsSizePerNode G) nodeIndex T;
         F \<leftarrow> markIncoming (m_flattenedFallbackTransitionsStartOffsetPerNode G)
                (m_flattenedFallbackTransitionsSizePerNode G) nodeIndex F;
         Some (T, F)
       }) nodePartition st;
     T \<leftarrow> refineOnly T;
     F \<leftarrow> refineOnly F;
     Some (T, F)
   }"

definition refinePartitions :: "FullGraphPartition \<Rightarrow> FullGraphPartition option" where
  "refinePartitions G = do {
     (N, (T, F)) \<leftarrow> refineGeneration (splitIncoming G) (m_nodePartition G)
        (m_transitionPartition G, m_fallbackTransitionPartition G);
     Some (G\<lparr>m_nodePartition := N, m_transitionPartition := T, m_fallbackTransitionPartition := F\<rparr>)
   }"

text \<open>
  The two loops run over the sets of a partition that the loop itself refines. They end because a partition has
  at most as many sets as elements; a loop that did not would be \<open>None\<close>.
\<close>

partial_function (option) splitByUniqueTransitions :: "FullGraphPartition \<Rightarrow> FullGraphPartition option" where
  "splitByUniqueTransitions G =
     (if m_nextTransitionSetToProcess G < partition_size (m_transitionPartition G) then do {
        N \<leftarrow> iterateSet (m_nextTransitionSetToProcess G) (\<lambda>transitionIndex N. do {
            t \<leftarrow> vec_at (m_flattenedTransitions G) transitionIndex;
            markElementInCurrentGeneration (t_source t) N
          }) (m_transitionPartition G) (m_nodePartition G);
        G' \<leftarrow> refinePartitions (G\<lparr>m_nodePartition := N\<rparr>);
        splitByUniqueTransitions (G'\<lparr>m_nextTransitionSetToProcess := m_nextTransitionSetToProcess G' + 1\<rparr>)
      } else Some G)"

partial_function (option) splitByFallbackLoop :: "nat \<Rightarrow> FullGraphPartition \<Rightarrow> FullGraphPartition option" where
  "splitByFallbackLoop k G =
     (if k < partition_size (m_fallbackTransitionPartition G) then do {
        N \<leftarrow> iterateSet k (\<lambda>transitionIndex N. do {
            source \<leftarrow> vec_at (m_flattenedFallbackTransitions G) transitionIndex;
            markElementInCurrentGeneration source N
          }) (m_fallbackTransitionPartition G) (m_nodePartition G);
        G' \<leftarrow> refinePartitions (G\<lparr>m_nodePartition := N\<rparr>);
        G'' \<leftarrow> splitByUniqueTransitions G';
        splitByFallbackLoop (k + 1) G''
      } else Some G)"

declare splitByUniqueTransitions.simps [code] splitByFallbackLoop.simps [code]

definition splitByFallbackTransitions :: "FullGraphPartition \<Rightarrow> FullGraphPartition option" where
  "splitByFallbackTransitions G =
     (if m_nextTransitionSetToProcess G \<noteq> 0 \<or> partition_size (m_transitionPartition G) = 0
      then splitByFallbackLoop 0 G else None)"

definition nodeReplacement :: "FullGraphPartition \<Rightarrow> nat \<Rightarrow> nat option" where
  "nodeReplacement G nodeIndex = do {
     k \<leftarrow> setIndex nodeIndex (m_nodePartition G);
     firstElementInSet k (m_nodePartition G)
   }"

section \<open>Minimization\<close>

text \<open>
  The nodes that have actions, grouped by them. \<^verbatim>\<open>ActionKey\<close> compares the actions of two nodes in order; its member
  \<^verbatim>\<open>state\<close>, which the constructor does not initialize, is taken to be the same in all keys.
\<close>

definition finalStates :: "DFA \<Rightarrow> (u64 list \<times> nat list) list option" where
  "finalStates dfa = foldM (\<lambda>i slots. do {
       node \<leftarrow> vec_at (nodes dfa) i;
       (if hasActions node then do {
          actions \<leftarrow> DFANode_actions node dfa;
          Some (AList.update actions ((case map_of slots actions of None \<Rightarrow> [] | Some is \<Rightarrow> is) @ [i]) slots)
        } else Some slots)
     }) [0..<length (nodes dfa)] []"

definition splitByActions :: "(u64 list \<times> nat list) list \<Rightarrow> FullGraphPartition \<Rightarrow> FullGraphPartition option" where
  "splitByActions slots G = foldM (\<lambda>slot G. Option.bind (foldM markNode (snd slot) G) refinePartitions) slots G"

definition killReplaced :: "FullGraphPartition \<Rightarrow> DFA \<Rightarrow> (DFA \<times> nat list) option" where
  "killReplaced G dfa = foldM (\<lambda>i (dfa, relocation). do {
       replacement \<leftarrow> nodeReplacement G i;
       (if i \<noteq> replacement then do {
          relocation \<leftarrow> vec_set relocation i replacement;
          node \<leftarrow> vec_at (nodes dfa) i;
          (node, dfa) \<leftarrow> kill node dfa;
          Some (dfa\<lparr>nodes := (nodes dfa)[i := node]\<rparr>, relocation)
        } else Some (dfa, relocation))
     }) [0..<length (nodes dfa)] (dfa, [0..<length (nodes dfa)])"

definition relocateNode :: "nat list \<Rightarrow> DFANode \<Rightarrow> DFA \<Rightarrow> DFA option" where
  "relocateNode relocation node dfa = do {
     ts \<leftarrow> DFANode_transitions node dfa;
     tr \<leftarrow> foldM (\<lambda>k tr. do {
         t \<leftarrow> vec_at tr (m_transitionsStart node + k);
         target \<leftarrow> vec_at relocation (snd (ts ! k));
         vec_set tr (m_transitionsStart node + k) (fst t, target)
       }) [0..<m_transitionsLength node] (dfa_transitions dfa);
     (if hasFallbackTransition node then do {
        old \<leftarrow> fallbackTransitionDestination node (dfa\<lparr>dfa_transitions := tr\<rparr>);
        target \<leftarrow> vec_at relocation old;
        changeFallbackTransition node (dfa\<lparr>dfa_transitions := tr\<rparr>) target
      } else Some (dfa\<lparr>dfa_transitions := tr\<rparr>))
   }"

definition minimize :: "DFA \<Rightarrow> DFA option" where
  "minimize dfa = do {
     dfa \<leftarrow> simplifyTransitions dfa;
     G \<leftarrow> new_FullGraphPartition dfa;
     slots \<leftarrow> finalStates dfa;
     G \<leftarrow> splitByActions slots G;
     G \<leftarrow> splitByUniqueTransitions G;
     G \<leftarrow> splitByFallbackTransitions G;
     (dfa, relocation) \<leftarrow> killReplaced G dfa;
     dfa \<leftarrow> foldM (relocateNode relocation) (nodes dfa) dfa;
     dfa \<leftarrow> simplifyTransitions dfa;
     newRoot \<leftarrow> vec_at relocation (root dfa);
     Some (dfa\<lparr>root := newRoot\<rparr>)
   }"

end
