(* ===== verification/ContentExtensionCompiler.thy ===== *)
theory ContentExtensionCompiler
  imports URLFilterParser ContentExtensionRule NFAToDFA DFAMinimizer DFABytecodeCompiler
begin

text \<open>
  \<^verbatim>\<open>ContentExtensionError.h\<close>, \<^verbatim>\<open>ContentExtensionError.cpp\<close> and \<^verbatim>\<open>compileRuleList\<close> of \<^verbatim>\<open>ContentExtensionCompiler.cpp\<close> (all in
  \<^verbatim>\<open>Source/WebCore/contentextensions\<close>): the rules are serialized, their patterns added to the filters, and every NFA
  of the filters converted, minimized and compiled. An error is \<open>Inl\<close>; a crash or a failed assertion is \<open>None\<close>.
\<close>

section \<open>Errors\<close>

datatype ContentExtensionError = JSONInvalid
  | JSONTopLevelStructureNotAnObject | JSONTopLevelStructureNotAnArray | JSONInvalidObjectInTopLevelArray
  | JSONInvalidRule | JSONContainsNoRules
  | JSONInvalidTrigger | JSONInvalidURLFilterInTrigger | JSONInvalidTriggerFlagsArray
  | JSONInvalidObjectInTriggerFlagsArray | JSONInvalidStringInTriggerFlagsArray
  | JSONInvalidAction | JSONInvalidActionType | JSONInvalidCSSDisplayNoneActionType | JSONInvalidRegex
  | RegexMatchesEverythingAfterIgnorePreviousRules

text \<open>\<^verbatim>\<open>std::error_code\<close>: the value of the enumeration, which starts at 1.\<close>

fun make_error_code :: "ContentExtensionError \<Rightarrow> nat" where
  "make_error_code JSONInvalid = 1"
| "make_error_code JSONTopLevelStructureNotAnObject = 2"
| "make_error_code JSONTopLevelStructureNotAnArray = 3"
| "make_error_code JSONInvalidObjectInTopLevelArray = 4"
| "make_error_code JSONInvalidRule = 5"
| "make_error_code JSONContainsNoRules = 6"
| "make_error_code JSONInvalidTrigger = 7"
| "make_error_code JSONInvalidURLFilterInTrigger = 8"
| "make_error_code JSONInvalidTriggerFlagsArray = 9"
| "make_error_code JSONInvalidObjectInTriggerFlagsArray = 10"
| "make_error_code JSONInvalidStringInTriggerFlagsArray = 11"
| "make_error_code JSONInvalidAction = 12"
| "make_error_code JSONInvalidActionType = 13"
| "make_error_code JSONInvalidCSSDisplayNoneActionType = 14"
| "make_error_code JSONInvalidRegex = 15"
| "make_error_code RegexMatchesEverythingAfterIgnorePreviousRules = 16"

definition error_message :: "nat \<Rightarrow> string" where
  "error_message errorCode =
     (if errorCode = 1 then ''Failed to parse the JSON String.''
      else if errorCode = 2 then ''Invalid input, the top level structure is not an object.''
      else if errorCode = 3 then ''Invalid input, the top level structure is not an array.''
      else if errorCode = 4 then ''Invalid object in the top level array.''
      else if errorCode = 5 then ''Invalid rule.''
      else if errorCode = 6 then ''Empty extension.''
      else if errorCode = 7 then ''Invalid trigger object.''
      else if errorCode = 8 then ''Invalid url-filter object.''
      else if errorCode = 9 then ''Invalid trigger flags array.''
      else if errorCode = 10 then ''Invalid object in the trigger flags array.''
      else if errorCode = 11 then ''Invalid string in the trigger flags array.''
      else if errorCode = 12 then ''Invalid action object.''
      else if errorCode = 13 then ''Invalid action type.''
      else if errorCode = 14 then ''Invalid css-display-none action type. Requires a selector.''
      else if errorCode = 15 then ''Invalid or unsupported regular expression.''
      else if errorCode = 16 then ''Regular expressions that match everything are only allowed before the first ignore-previous-rules.''
      else '''')"

section \<open>Adding the patterns\<close>

text \<open>The filters, \<^verbatim>\<open>universalActionLocations\<close> and \<^verbatim>\<open>ignorePreviousRulesSeen\<close>.\<close>

record CompilerState =
  combinedURLFilters :: CombinedURLFilters
  universalActionLocations :: "u64 list"
  ignorePreviousRulesSeen :: bool

definition new_CompilerState :: CompilerState where
  "new_CompilerState = \<lparr>combinedURLFilters = new_CombinedURLFilters, universalActionLocations = [], ignorePreviousRulesSeen = False\<rparr>"

text \<open>The flags of the trigger above the location of the action, which is an \<^verbatim>\<open>unsigned\<close>.\<close>

definition actionLocationAndFlags :: "u16 \<Rightarrow> nat \<Rightarrow> u64" where
  "actionLocationAndFlags flags actionLocation = push_bit 32 (ucast flags) OR ucast (of_nat actionLocation :: u32)"

definition addRulePattern :: "yarr \<Rightarrow> Rule \<Rightarrow> nat \<Rightarrow> CompilerState \<Rightarrow> (ContentExtensionError + CompilerState) option" where
  "addRulePattern Y rule actionLocation st =
     (let trigger = m_trigger rule; actionId = actionLocationAndFlags (trigger_flags trigger) actionLocation in
      if str_length (urlFilter trigger) = 0 then None
      else do {
        (status, filters) \<leftarrow> URLFilterParser_addPattern Y (str_chars (urlFilter trigger)) (urlFilterIsCaseSensitive trigger)
           actionId (combinedURLFilters st);
        let st = st\<lparr>combinedURLFilters := filters\<rparr>;
        (if status = MatchesEverything \<and> ignorePreviousRulesSeen st
         then Some (Inl RegexMatchesEverythingAfterIgnorePreviousRules)
         else
           let st = (if status = MatchesEverything
                     then st\<lparr>universalActionLocations := hs_add actionId (universalActionLocations st)\<rparr> else st) in
           if status \<noteq> Ok \<and> status \<noteq> MatchesEverything then Some (Inl JSONInvalidRegex)
           else Some (Inr (if m_type (m_action rule) = IgnorePreviousRules then st\<lparr>ignorePreviousRulesSeen := True\<rparr> else st)))
      })"

fun addRulePatterns :: "yarr \<Rightarrow> (Rule \<times> nat) list \<Rightarrow> CompilerState \<Rightarrow> (ContentExtensionError + CompilerState) option" where
  "addRulePatterns Y [] st = Some (Inr st)"
| "addRulePatterns Y ((rule, actionLocation) # rules) st =
     (case addRulePattern Y rule actionLocation st of
        None \<Rightarrow> None
      | Some (Inl e) \<Rightarrow> Some (Inl e)
      | Some (Inr st) \<Rightarrow> addRulePatterns Y rules st)"

section \<open>Compiling the NFAs\<close>

text \<open>All universal actions are put on the root of the first DFA.\<close>

definition addUniversalActions :: "u64 list \<Rightarrow> DFA \<Rightarrow> DFA option" where
  "addUniversalActions universal dfa =
     (let actionsStart = length (dfa_actions dfa); actions = dfa_actions dfa @ universal;
          actionsLength = length actions - actionsStart in
      if actionsLength < 65535 then do {
        node \<leftarrow> vec_at (nodes dfa) (root dfa);
        Some (dfa\<lparr>dfa_actions := actions, nodes := (nodes dfa)[root dfa := node_setActions actionsStart actionsLength node]\<rparr>)
      } else None)"

definition compileNFA :: "u64 list \<Rightarrow> nat \<Rightarrow> NFA \<Rightarrow> u8 list \<Rightarrow> u8 list option" where
  "compileNFA universal i nfa bytecode = do {
     dfa \<leftarrow> convert nfa;
     dfa \<leftarrow> minimize dfa;
     node \<leftarrow> vec_at (nodes dfa) (root dfa);
     (if hasActions node then None
      else do {
        dfa \<leftarrow> (if i = 0 then addUniversalActions universal dfa else Some dfa);
        compile_dfa dfa bytecode
      })
   }"

definition compileNFAs :: "u64 list \<Rightarrow> NFA list \<Rightarrow> u8 list option" where
  "compileNFAs universal nfas = foldM (\<lambda>(i, nfa). compileNFA universal i nfa) (List.enumerate 0 nfas) []"

section \<open>The whole compilation\<close>

text \<open>What the \<^verbatim>\<open>ContentExtensionCompilationClient\<close> has been given.\<close>

record CompilationClient =
  writtenActions :: "u8 list list"
  writtenBytecode :: "u8 list list"

definition writeActions :: "u8 list \<Rightarrow> CompilationClient \<Rightarrow> CompilationClient" where
  "writeActions actions client = client\<lparr>writtenActions := writtenActions client @ [actions]\<rparr>"

definition writeBytecode :: "u8 list \<Rightarrow> CompilationClient \<Rightarrow> CompilationClient" where
  "writeBytecode bytecode client = client\<lparr>writtenBytecode := writtenBytecode client @ [bytecode]\<rparr>"

text \<open>The result of \<^verbatim>\<open>parseRuleList\<close> is the argument; the value is the client and the error, if there is one.\<close>

definition compileRuleList ::
  "yarr \<Rightarrow> ContentExtensionError + Rule list \<Rightarrow> CompilationClient \<Rightarrow> (CompilationClient \<times> ContentExtensionError option) option" where
  "compileRuleList Y parsed client = (case parsed of
     Inl parserError \<Rightarrow> Some (client, Some parserError)
   | Inr parsedRuleList \<Rightarrow> do {
       (actions, actionLocations) \<leftarrow> serializeActions parsedRuleList;
       let client = writeActions actions client;
       r \<leftarrow> addRulePatterns Y (zip parsedRuleList actionLocations) new_CompilerState;
       (case r of
          Inl error \<Rightarrow> Some (client, Some error)
        | Inr st \<Rightarrow> do {
            nfas \<leftarrow> createNFAs (combinedURLFilters st);
            let nfas = (if nfas = [] \<and> universalActionLocations st \<noteq> [] then [new_NFA] else nfas);
            bytecode \<leftarrow> compileNFAs (universalActionLocations st) nfas;
            Some (writeBytecode bytecode client, None)
          })
     })"

end
