(* ===== verification/ContentExtensionParser.thy ===== *)
theory ContentExtensionParser
  imports ContentExtensionCompiler ResourceLoadInfo
begin

text \<open>
  \<^verbatim>\<open>Source/WebCore/contentextensions/ContentExtensionParser.cpp\<close>: the rules are read from a JSON text with JavaScriptCore, whose
  values and functions are a parameter. An error is \<open>Inl\<close>.
\<close>

text \<open>
  The JavaScript engine: \<open>JSONParse\<close> is \<open>None\<close> for an exception or an empty value, and so are \<open>getIndex\<close>, \<open>get\<close> and \<open>toObject\<close>.
  Values that were parsed from JSON have no getters, so reading a property does not change anything.
\<close>

record 'v JavaScript =
  JSONParse :: "ustring \<Rightarrow> 'v option"
  isObject :: "'v \<Rightarrow> bool"
  isString :: "'v \<Rightarrow> bool"
  isBoolean :: "'v \<Rightarrow> bool"
  toBoolean :: "'v \<Rightarrow> bool"
  toWTFString :: "'v \<Rightarrow> WString"
  toObject :: "'v \<Rightarrow> 'v option"
  isJSArray :: "'v \<Rightarrow> bool"
  array_length :: "'v \<Rightarrow> nat"
  getIndex :: "'v \<Rightarrow> nat \<Rightarrow> 'v option"
  get_property :: "'v \<Rightarrow> string \<Rightarrow> 'v option"

section \<open>Triggers\<close>

fun typeFlagsLoop :: "'v JavaScript \<Rightarrow> (ustring \<Rightarrow> u16) \<Rightarrow> 'v option list \<Rightarrow> u16 \<Rightarrow> ContentExtensionError + u16" where
  "typeFlagsLoop J stringToType [] flags = Inr flags"
| "typeFlagsLoop J stringToType (None # values) flags = Inl JSONInvalidObjectInTriggerFlagsArray"
| "typeFlagsLoop J stringToType (Some value # values) flags =
     (let type = stringToType (str_chars (toWTFString J value)) in
      if type = 0 then Inl JSONInvalidStringInTriggerFlagsArray
      else typeFlagsLoop J stringToType values (flags OR type))"

definition getTypeFlags :: "'v JavaScript \<Rightarrow> 'v \<Rightarrow> (ustring \<Rightarrow> u16) \<Rightarrow> u16 \<Rightarrow> ContentExtensionError + u16" where
  "getTypeFlags J typeValue stringToType flags =
     (if \<not> isObject J typeValue then Inr flags
      else case toObject J typeValue of
        None \<Rightarrow> Inl JSONInvalidTriggerFlagsArray
      | Some object \<Rightarrow>
          if \<not> isJSArray J object then Inl JSONInvalidTriggerFlagsArray
          else typeFlagsLoop J stringToType (map (getIndex J object) [0..<array_length J object]) flags)"

definition optionalTypeFlags ::
  "'v JavaScript \<Rightarrow> 'v \<Rightarrow> string \<Rightarrow> (ustring \<Rightarrow> u16) \<Rightarrow> Trigger \<Rightarrow> ContentExtensionError + Trigger" where
  "optionalTypeFlags J triggerObject key stringToType trigger =
     (case get_property J triggerObject key of
        None \<Rightarrow> Inr trigger
      | Some typeValue \<Rightarrow>
          (case getTypeFlags J typeValue stringToType (trigger_flags trigger) of
             Inl e \<Rightarrow> Inl e
           | Inr flags \<Rightarrow> Inr (trigger\<lparr>trigger_flags := flags\<rparr>)))"

definition loadTrigger :: "'v JavaScript \<Rightarrow> 'v \<Rightarrow> ContentExtensionError + Trigger" where
  "loadTrigger J ruleObject =
     (case get_property J ruleObject ''trigger'' of
        None \<Rightarrow> Inl JSONInvalidTrigger
      | Some triggerObject \<Rightarrow>
          if \<not> isObject J triggerObject then Inl JSONInvalidTrigger
          else (case get_property J triggerObject ''url-filter'' of
              None \<Rightarrow> Inl JSONInvalidURLFilterInTrigger
            | Some urlFilterObject \<Rightarrow>
                if \<not> isString J urlFilterObject \<or> str_length (toWTFString J urlFilterObject) = 0
                then Inl JSONInvalidURLFilterInTrigger
                else
                  let trigger = new_Trigger\<lparr>urlFilter := toWTFString J urlFilterObject\<rparr>;
                      trigger = (case get_property J triggerObject ''url-filter-is-case-sensitive'' of
                          None \<Rightarrow> trigger
                        | Some v \<Rightarrow> if isBoolean J v then trigger\<lparr>urlFilterIsCaseSensitive := toBoolean J v\<rparr> else trigger)
                  in (case optionalTypeFlags J triggerObject ''resource-type'' readResourceType trigger of
                        Inl e \<Rightarrow> Inl e
                      | Inr trigger \<Rightarrow> optionalTypeFlags J triggerObject ''load-type'' readLoadType trigger)))"

section \<open>Actions\<close>

text \<open>The constructors of the actions assert nothing that fails here.\<close>

definition simpleAction :: "ActionType \<Rightarrow> Action" where
  "simpleAction type = new_Action\<lparr>m_type := type\<rparr>"

definition loadAction :: "'v JavaScript \<Rightarrow> 'v \<Rightarrow> ContentExtensionError + Action" where
  "loadAction J ruleObject =
     (case get_property J ruleObject ''action'' of
        None \<Rightarrow> Inl JSONInvalidAction
      | Some actionObject \<Rightarrow>
          if \<not> isObject J actionObject then Inl JSONInvalidAction
          else (case get_property J actionObject ''type'' of
              None \<Rightarrow> Inl JSONInvalidActionType
            | Some typeObject \<Rightarrow>
                if \<not> isString J typeObject then Inl JSONInvalidActionType
                else
                  let actionType = str_chars (toWTFString J typeObject) in
                  if actionType = lit ''block'' then Inr (simpleAction BlockLoad)
                  else if actionType = lit ''ignore-previous-rules'' then Inr (simpleAction IgnorePreviousRules)
                  else if actionType = lit ''block-cookies'' then Inr (simpleAction BlockCookies)
                  else if actionType = lit ''css-display-none'' then
                    (case get_property J actionObject ''selector'' of
                       None \<Rightarrow> Inl JSONInvalidCSSDisplayNoneActionType
                     | Some selector \<Rightarrow>
                         if \<not> isString J selector then Inl JSONInvalidCSSDisplayNoneActionType
                         else Inr (new_Action\<lparr>m_type := CSSDisplayNoneSelector, m_stringArgument := Some (toWTFString J selector)\<rparr>))
                  else Inl JSONInvalidActionType))"

section \<open>Rules\<close>

definition loadRule :: "'v JavaScript \<Rightarrow> 'v \<Rightarrow> Rule list \<Rightarrow> ContentExtensionError + Rule list" where
  "loadRule J ruleObject ruleList =
     (case loadTrigger J ruleObject of
        Inl e \<Rightarrow> Inl e
      | Inr trigger \<Rightarrow>
          (case loadAction J ruleObject of
             Inl e \<Rightarrow> Inl e
           | Inr action \<Rightarrow> Inr (ruleList @ [\<lparr>m_trigger = trigger, m_action = action\<rparr>])))"

fun loadRules :: "'v JavaScript \<Rightarrow> 'v option list \<Rightarrow> Rule list \<Rightarrow> ContentExtensionError + Rule list" where
  "loadRules J [] ruleList = Inr ruleList"
| "loadRules J (None # values) ruleList = Inl JSONInvalidObjectInTopLevelArray"
| "loadRules J (Some value # values) ruleList =
     (case toObject J value of
        None \<Rightarrow> Inl JSONInvalidRule
      | Some ruleObject \<Rightarrow>
          (case loadRule J ruleObject ruleList of
             Inl e \<Rightarrow> Inl e
           | Inr ruleList \<Rightarrow> loadRules J values ruleList))"

definition loadEncodedRules :: "'v JavaScript \<Rightarrow> ustring \<Rightarrow> ContentExtensionError + Rule list" where
  "loadEncodedRules J rules =
     (case JSONParse J rules of
        None \<Rightarrow> Inl JSONInvalid
      | Some decodedRules \<Rightarrow>
          if \<not> isObject J decodedRules then Inl JSONTopLevelStructureNotAnObject
          else (case toObject J decodedRules of
              None \<Rightarrow> Inl JSONTopLevelStructureNotAnObject
            | Some topLevelObject \<Rightarrow>
                if \<not> isJSArray J topLevelObject then Inl JSONTopLevelStructureNotAnArray
                else loadRules J (map (getIndex J topLevelObject) [0..<array_length J topLevelObject]) []))"

definition parseRuleList :: "'v JavaScript \<Rightarrow> ustring \<Rightarrow> ContentExtensionError + Rule list" where
  "parseRuleList J rules =
     (case loadEncodedRules J rules of
        Inl e \<Rightarrow> Inl e
      | Inr [] \<Rightarrow> Inl JSONContainsNoRules
      | Inr ruleList \<Rightarrow> Inr ruleList)"

section \<open>What the parser returns\<close>

text \<open>The bits of the types and load types that have names.\<close>

definition named_flags :: u16 where
  "named_flags = 0xEFF"

definition flags_named :: "u16 \<Rightarrow> bool" where
  "flags_named flags \<longleftrightarrow> flags OR named_flags = named_flags"

definition parsed_rule :: "Rule \<Rightarrow> bool" where
  "parsed_rule r \<longleftrightarrow> str_length (urlFilter (m_trigger r)) \<noteq> 0 \<and> flags_named (trigger_flags (m_trigger r)) \<and> serializable r"

lemma flags_named_or: "flags_named a \<Longrightarrow> flags_named b \<Longrightarrow> flags_named (a OR b)"
  unfolding flags_named_def by (metis or.assoc)

lemma names_named: "flags_named (readResourceType name)" "flags_named (readLoadType name)"
  by (simp_all add: flags_named_def named_flags_def readResourceType_def readLoadType_def)

lemma typeFlagsLoop_named:
  "typeFlagsLoop J f values flags = Inr flags' \<Longrightarrow> \<forall>name. flags_named (f name) \<Longrightarrow> flags_named flags \<Longrightarrow> flags_named flags'"
proof (induction J f "values" flags rule: typeFlagsLoop.induct)
  case (3 J f v vs flags)
  have "flags_named (flags OR f (str_chars (toWTFString J v)))" using 3(3,4) flags_named_or by blast
  moreover have "typeFlagsLoop J f vs (flags OR f (str_chars (toWTFString J v))) = Inr flags'" "f (str_chars (toWTFString J v)) \<noteq> 0"
    using 3(2) by (simp_all add: Let_def split: if_splits)
  ultimately show ?case using 3(1) [OF refl _ _ 3(3)] by blast
qed simp_all

lemma optionalTypeFlags_ok:
  assumes "optionalTypeFlags J t key f trigger = Inr trigger'" "\<And>name. flags_named (f name)" "flags_named (trigger_flags trigger)"
  shows "flags_named (trigger_flags trigger') \<and> urlFilter trigger' = urlFilter trigger"
  using assms(1,3) typeFlagsLoop_named [where f = f] assms(2)
  by (auto simp: optionalTypeFlags_def getTypeFlags_def split: option.splits sum.splits if_splits)

lemma loadTrigger_ok:
  assumes "loadTrigger J r = Inr trigger"
  shows "str_length (urlFilter trigger) \<noteq> 0 \<and> flags_named (trigger_flags trigger)"
proof -
  obtain t u trigger0 trigger1 where t: "str_length (toWTFString J u) \<noteq> 0" "urlFilter trigger0 = toWTFString J u" "trigger_flags trigger0 = 0"
    "optionalTypeFlags J t ''resource-type'' readResourceType trigger0 = Inr trigger1"
    "optionalTypeFlags J t ''load-type'' readLoadType trigger1 = Inr trigger"
  proof -
    from assms obtain t u where tu: "get_property J r ''trigger'' = Some t" "get_property J t ''url-filter'' = Some u"
      "isObject J t" "isString J u" "str_length (toWTFString J u) \<noteq> 0"
      by (auto simp: loadTrigger_def split: option.splits if_splits)
    define trigger0 where "trigger0 = (case get_property J t ''url-filter-is-case-sensitive'' of
        None \<Rightarrow> new_Trigger\<lparr>urlFilter := toWTFString J u\<rparr>
      | Some v \<Rightarrow> if isBoolean J v then new_Trigger\<lparr>urlFilter := toWTFString J u, urlFilterIsCaseSensitive := toBoolean J v\<rparr>
          else new_Trigger\<lparr>urlFilter := toWTFString J u\<rparr>)"
    have "urlFilter trigger0 = toWTFString J u" "trigger_flags trigger0 = 0"
      by (simp_all add: trigger0_def new_Trigger_def split: option.split)
    moreover have "(case optionalTypeFlags J t ''resource-type'' readResourceType trigger0 of
        Inl e \<Rightarrow> Inl e | Inr trigger \<Rightarrow> optionalTypeFlags J t ''load-type'' readLoadType trigger) = Inr trigger"
      using assms tu by (simp add: loadTrigger_def trigger0_def Let_def)
    ultimately show ?thesis using that tu(5) by (auto split: sum.splits)
  qed
  have "flags_named (trigger_flags trigger0)" using t(3) by (simp add: flags_named_def)
  then have "flags_named (trigger_flags trigger1) \<and> urlFilter trigger1 = urlFilter trigger0"
    using optionalTypeFlags_ok [OF t(4) names_named(1)] by blast
  then show ?thesis using optionalTypeFlags_ok [OF t(5) names_named(2)] t(1,2) by simp
qed

lemma loadAction_ok: "loadAction J r = Inr action \<Longrightarrow> serializable \<lparr>m_trigger = trigger, m_action = action\<rparr>"
  by (auto simp: loadAction_def Let_def serializable_def simpleAction_def split: option.splits if_splits)

lemma loadRules_ok:
  "loadRules J values rules = Inr rules' \<Longrightarrow> list_all parsed_rule rules \<Longrightarrow> list_all parsed_rule rules'"
proof (induction J "values" rules rule: loadRules.induct)
  case (3 J v vs rules)
  from 3(2) obtain r rules1 where r: "toObject J v = Some r" "loadRule J r rules = Inr rules1" "loadRules J vs rules1 = Inr rules'"
    by (auto split: option.splits sum.splits)
  then obtain t a where t: "loadTrigger J r = Inr t" "loadAction J r = Inr a" "rules1 = rules @ [\<lparr>m_trigger = t, m_action = a\<rparr>]"
    by (auto simp: loadRule_def split: sum.splits)
  have "parsed_rule \<lparr>m_trigger = t, m_action = a\<rparr>" using loadTrigger_ok [OF t(1)] loadAction_ok [OF t(2)] by (simp add: parsed_rule_def)
  then have "list_all parsed_rule rules1" using 3(3) t(3) by simp
  then show ?case using 3(1) [OF r(1,2) r(3)] by blast
qed simp_all

lemma parseRuleList_returns:
  assumes "parseRuleList J json = Inr rules"
  shows "rules \<noteq> [] \<and> list_all parsed_rule rules"
  using assms loadRules_ok [of J _ "[]"]
  by (auto simp: parseRuleList_def loadEncodedRules_def split: sum.splits list.splits option.splits if_splits)

text \<open>C30.
  Whatever the JavaScript engine makes of the text, a rule list that \<^verbatim>\<open>parseRuleList\<close> returns without an error is not
  empty, and every rule has a pattern, only flags that have names, and an action that can be serialized (a selector exactly
  where one is needed).
\<close>

theorem parseRuleList_ok:
  assumes "parseRuleList J json = Inr rules"
  shows "rules \<noteq> [] \<and> list_all parsed_rule rules"
  using assms by (rule parseRuleList_returns)

text \<open>A small engine, whose values are booleans, objects, arrays and strings, and that has parsed one rule.\<close>

datatype ExampleValue = ExampleBool bool | ExampleObject "(string \<times> ExampleValue) list" | ExampleArray "ExampleValue list" | ExampleString "u8 list"

definition example_engine :: "ExampleValue \<Rightarrow> ExampleValue JavaScript" where
  "example_engine parsed = \<lparr>JSONParse = (\<lambda>json. Some parsed),
     isObject = (\<lambda>v. case v of ExampleObject es \<Rightarrow> True | ExampleArray vs \<Rightarrow> True | _ \<Rightarrow> False), isString = (\<lambda>v. case v of ExampleString s \<Rightarrow> True | _ \<Rightarrow> False),
     isBoolean = (\<lambda>v. case v of ExampleBool b \<Rightarrow> True | _ \<Rightarrow> False), toBoolean = (\<lambda>v. case v of ExampleBool b \<Rightarrow> b | _ \<Rightarrow> True), toWTFString = (\<lambda>v. case v of ExampleString s \<Rightarrow> String8 s | _ \<Rightarrow> String8 []),
     toObject = Some, isJSArray = (\<lambda>v. case v of ExampleArray vs \<Rightarrow> True | _ \<Rightarrow> False),
     array_length = (\<lambda>v. case v of ExampleArray vs \<Rightarrow> length vs | _ \<Rightarrow> 0),
     getIndex = (\<lambda>v i. case v of ExampleArray vs \<Rightarrow> (if i < length vs then Some (vs ! i) else None) | _ \<Rightarrow> None),
     get_property = (\<lambda>v key. case v of ExampleObject es \<Rightarrow> map_of es key | _ \<Rightarrow> None)\<rparr>"

definition example_json :: ExampleValue where
  "example_json = ExampleArray [ExampleObject [
     (''trigger'', ExampleObject [(''url-filter'', ExampleString [94, 97]), (''load-type'', ExampleArray [ExampleString (map of_char ''third-party'')])]),
     (''action'', ExampleObject [(''type'', ExampleString (map of_char ''block''))])]]"

theorem parseRuleList_ok_witness:
  "\<exists>rule. parseRuleList (example_engine example_json) [] = Inr [rule] \<and> parsed_rule rule \<and> trigger_flags (m_trigger rule) = 0x800"
proof -
  have "str_chars (String8 (map of_char ''third-party'')) = lit ''third-party''" "str_chars (String8 (map of_char ''block'')) = lit ''block''"
    by code_simp+
  moreover have "readLoadType (lit ''third-party'') = 0x800" by code_simp
  ultimately have "parseRuleList (example_engine example_json) [] = Inr [\<lparr>m_trigger = \<lparr>urlFilter = String8 [94, 97],
      urlFilterIsCaseSensitive = False, trigger_flags = 0x800\<rparr>, m_action = new_Action\<lparr>m_type := BlockLoad\<rparr>\<rparr>]"
    by (simp add: parseRuleList_def loadEncodedRules_def example_engine_def example_json_def loadRule_def loadTrigger_def loadAction_def
        optionalTypeFlags_def getTypeFlags_def Let_def new_Trigger_def simpleAction_def)
  then show ?thesis using parseRuleList_ok [of "example_engine example_json" "[]"] by simp
qed

end
