(* ===== verification/SubsetConstruction.thy ===== *)
theory SubsetConstruction
  imports NFAToDFA
begin

text \<open>
  Correctness of \<^verbatim>\<open>NFAToDFA::convert\<close>: the DFA that it returns is well formed, and after reading
  any word it is in a node whose actions are exactly the rule identifiers of the NFA nodes that the
  word reaches.
\<close>

section \<open>Epsilon closures\<close>

definition eps_rel :: "NFANode list \<Rightarrow> (nat \<times> nat) set" where
  "eps_rel graph = {(p, q). p < length graph \<and> q \<in> set (epsilonSlot 256 (graph ! p))}"

lemma closureLoop_correct:
  assumes "un \<noteq> []" "set un \<subseteq> set C" "set C = insert n (set out)" "set C \<subseteq> (eps_rel graph)\<^sup>* `` {n}"
    and "\<And>q r. q \<in> set C - set un \<Longrightarrow> (q, r) \<in> eps_rel graph \<Longrightarrow> r \<in> set C"
    and "\<And>q. q \<in> (eps_rel graph)\<^sup>* `` {n} \<Longrightarrow> q < length graph"
  shows "\<exists>out'. closureLoop 256 graph C un out = Some out' \<and> insert n (set out') = (eps_rel graph)\<^sup>* `` {n}
    \<and> set out \<subseteq> set out'"
  using assms
proof (induction "256 :: nat" graph C un out rule: closureLoop.induct)
  case (1 graph C un out)
  let ?u = "last un" and ?R = "eps_rel graph"
  let ?slot = "epsilonSlot 256 (graph ! ?u)"
  have u: "?u \<in> set C" "?u < length graph" using "1.prems"(1,2,4,6) last_in_set [of un] by blast+
  obtain new where new: "fold closureAdd ?slot (C, butlast un, out) = (C @ new, butlast un @ new, out @ new)"
    "set new = set ?slot - set C" using closureAdd_fold [of ?slot C "butlast un" out] by auto
  have loop: "closureLoop 256 graph C un out = (if butlast un @ new = [] then Some (out @ new)
      else closureLoop 256 graph (C @ new) (butlast un @ new) (out @ new))"
    using "1.prems"(1) u(2) new(1) by (subst closureLoop.simps) (simp add: vec_simps)
  have slot: "r \<in> set ?slot \<longleftrightarrow> (?u, r) \<in> ?R" for r using u(2) by (simp add: eps_rel_def)
  have sub: "set (C @ new) \<subseteq> ?R\<^sup>* `` {n}"
    using "1.prems"(4) u(1) slot new(2) by (auto intro: rtrancl_into_rtrancl)
  have un: "set un = insert ?u (set (butlast un))"
    using "1.prems"(1) by (metis append_butlast_last_id list.simps(15) rotate1.simps(2) set_rotate1)
  have closed: "r \<in> set (C @ new)" if q: "q \<in> set (C @ new) - set (butlast un @ new)" and "(q, r) \<in> ?R" for q r
  proof (cases "q = ?u")
    case True
    then show ?thesis using that(2) slot new(2) by auto
  next
    case False
    then have "q \<in> set C - set un" using q un by auto
    then show ?thesis using "1.prems"(5) that(2) by auto
  qed
  show ?case
  proof (cases "butlast un @ new = []")
    case True
    have "?R\<^sup>* `` {n} \<subseteq> set (C @ new)"
    proof
      fix x assume "x \<in> ?R\<^sup>* `` {n}"
      then have "(n, x) \<in> ?R\<^sup>*" by simp
      then show "x \<in> set (C @ new)"
      proof induction
        case base
        then show ?case using "1.prems"(3) by simp
      next
        case (step y z)
        then show ?case using closed [of y z] True by auto
      qed
    qed
    then have "set (C @ new) = ?R\<^sup>* `` {n}" using sub by blast
    moreover have "set (C @ new) = insert n (set (out @ new))" using "1.prems"(3) by auto
    ultimately show ?thesis using True by (simp add: loop)
  next
    case False
    have "\<exists>out'. closureLoop 256 graph (C @ new) (butlast un @ new) (out @ new) = Some out'
        \<and> insert n (set out') = ?R\<^sup>* `` {n} \<and> set (out @ new) \<subseteq> set out'"
    proof (rule "1.hyps")
      show "vec_at graph ?u = Some (graph ! ?u)" using u(2) by (simp add: vec_simps)
      show "(C @ new, butlast un @ new, out @ new) = fold closureAdd ?slot (C, butlast un, out)"
        using new(1) by simp
      show "set (butlast un @ new) \<subseteq> set (C @ new)" using "1.prems"(2) by (auto dest: in_set_butlastD)
      show "set (C @ new) = insert n (set (out @ new))" using "1.prems"(3) by auto
    qed (use "1.prems"(1,6) False sub closed in auto)
    then show ?thesis using False by (auto simp: loop)
  qed
qed

lemma epsilonSlot_map_of: "map_of (transitions node) eps = Some S \<Longrightarrow> epsilonSlot eps node = S"
  by (simp add: epsilonSlot_def)

lemma eps_rel_bound:
  assumes "\<And>node. node \<in> set graph \<Longrightarrow> node_wf (length graph) node" "(p, q) \<in> (eps_rel graph)\<^sup>*" "p < length graph"
  shows "q < length graph"
  using assms(2)
proof induction
  case base
  then show ?case by (rule assms(3))
next
  case (step y z)
  then have "y < length graph" "z \<in> set (epsilonSlot 256 (graph ! y))" by (auto simp: eps_rel_def)
  then show ?case using assms(1) [of "graph ! y"]
    by (auto simp: epsilonSlot_def node_wf_def split: option.splits dest!: map_of_SomeD)
qed

lemma epsilonClosureExcludingSelf_correct:
  assumes wf: "\<And>node. node \<in> set graph \<Longrightarrow> node_wf (length graph) node" and n: "n < length graph"
  shows "\<exists>out. epsilonClosureExcludingSelf graph n 256 = Some out \<and> insert n (set out) = (eps_rel graph)\<^sup>* `` {n}
    \<and> (out = [] \<longleftrightarrow> map_of (transitions (graph ! n)) 256 = None)"
proof (cases "map_of (transitions (graph ! n)) 256")
  case None
  then have "\<And>q. (n, q) \<notin> eps_rel graph" by (simp add: eps_rel_def epsilonSlot_def)
  then have "(eps_rel graph)\<^sup>* `` {n} = {n}" by (auto elim: converse_rtranclE)
  then show ?thesis using None n by (simp add: epsilonClosureExcludingSelf_def vec_simps)
next
  case (Some S)
  then have S: "S \<noteq> []" using wf [of "graph ! n"] n by (auto simp: node_wf_def dest!: map_of_SomeD)
  have rel: "(n, r) \<in> eps_rel graph \<longleftrightarrow> r \<in> set S" for r
    using Some n by (simp add: eps_rel_def epsilonSlot_def)
  have "\<exists>out'. closureLoop 256 graph (hs_addAll S [n]) S S = Some out'
      \<and> insert n (set out') = (eps_rel graph)\<^sup>* `` {n} \<and> set S \<subseteq> set out'"
    using S rel eps_rel_bound [OF wf _ n] by (intro closureLoop_correct) (auto simp: hs_simps)
  then show ?thesis using Some n S by (auto simp: epsilonClosureExcludingSelf_def vec_simps)
qed

lemma mapM_Some:
  assumes "\<And>x. x \<in> set xs \<Longrightarrow> \<exists>y. f x = Some y \<and> P x y"
  shows "\<exists>ys. mapM f xs = Some ys \<and> length ys = length xs \<and> (\<forall>i < length xs. P (xs ! i) (ys ! i))"
  using assms
proof (induction xs)
  case Nil
  then show ?case by simp
next
  case (Cons x xs)
  from Cons.prems obtain y where y: "f x = Some y" "P x y" by (meson list.set_intros(1))
  from Cons.IH Cons.prems obtain ys where "mapM f xs = Some ys" "length ys = length xs"
    "\<forall>i < length xs. P (xs ! i) (ys ! i)" by (meson list.set_intros(2))
  with y show ?case by (auto simp: nth_Cons split: nat.splits)
qed

text \<open>What \<^verbatim>\<open>resolveEpsilonClosures\<close> leaves behind: a graph without epsilon slots, and the closures.\<close>

definition resolved :: "NFANode list \<Rightarrow> NFANode list \<Rightarrow> nat list list \<Rightarrow> bool" where
  "resolved graph0 graph closures \<longleftrightarrow> length graph = length graph0 \<and> length closures = length graph0
     \<and> (\<forall>p < length graph0. insert p (set (closures ! p)) = (eps_rel graph0)\<^sup>* `` {p}
          \<and> finalRuleIds (graph ! p) = finalRuleIds (graph0 ! p)
          \<and> transitionsOnAnyCharacter (graph ! p) = transitionsOnAnyCharacter (graph0 ! p)
          \<and> transitions (graph ! p) = hm_remove 256 (transitions (graph0 ! p)))"

lemma hm_remove_absent: "map_of m k = None \<Longrightarrow> hm_remove k m = m"
  by (auto simp: hm_remove_def map_of_eq_None_iff filter_id_conv image_iff)

lemma resolveEpsilonClosures_correct:
  assumes wf: "\<And>node. node \<in> set graph0 \<Longrightarrow> node_wf (length graph0) node"
  shows "\<exists>graph closures. resolveEpsilonClosures graph0 epsilonTransitionCharacter = Some (graph, closures)
    \<and> resolved graph0 graph closures"
proof -
  have "\<exists>closures. mapM (\<lambda>n. epsilonClosureExcludingSelf graph0 n 256) [0..<length graph0] = Some closures
     \<and> length closures = length [0..<length graph0]
     \<and> (\<forall>i < length [0..<length graph0]. insert ([0..<length graph0] ! i) (set (closures ! i))
          = (eps_rel graph0)\<^sup>* `` {[0..<length graph0] ! i}
          \<and> (closures ! i = [] \<longleftrightarrow> map_of (transitions (graph0 ! ([0..<length graph0] ! i))) 256 = None))"
    using epsilonClosureExcludingSelf_correct [OF wf] by (intro mapM_Some) auto
  then obtain closures where c: "mapM (\<lambda>n. epsilonClosureExcludingSelf graph0 n 256) [0..<length graph0] = Some closures"
    "length closures = length graph0"
    "\<And>i. i < length graph0 \<Longrightarrow> insert i (set (closures ! i)) = (eps_rel graph0)\<^sup>* `` {i}"
    "\<And>i. i < length graph0 \<Longrightarrow> closures ! i = [] \<longleftrightarrow> map_of (transitions (graph0 ! i)) 256 = None"
    by auto
  then show ?thesis
    by (auto simp: resolveEpsilonClosures_def epsilonTransitionCharacter_def resolved_def hm_remove_absent)
qed

section \<open>The transitions of a set of nodes\<close>

definition slot_targets :: "NFANode list \<Rightarrow> nat \<Rightarrow> nat \<Rightarrow> nat set" where
  "slot_targets graph c p = (case map_of (transitions (graph ! p)) c of None \<Rightarrow> {} | Some S \<Rightarrow> set S)"

definition any_targets :: "NFANode list \<Rightarrow> nat \<Rightarrow> nat set" where
  "any_targets graph p = set (transitionsOnAnyCharacter (graph ! p))"

definition cl :: "nat list list \<Rightarrow> nat set \<Rightarrow> nat set" where
  "cl closures S = S \<union> (\<Union>q \<in> S. set (closures ! q))"

definition next_set :: "NFANode list \<Rightarrow> nat list list \<Rightarrow> nat set \<Rightarrow> nat \<Rightarrow> nat set" where
  "next_set graph closures B c =
     cl closures (\<Union>p \<in> B. slot_targets graph c p \<union> (if c \<noteq> 0 then any_targets graph p else {}))"

text \<open>What the main loop relies on in the graph and the closures.\<close>

definition graph_ok :: "NFANode list \<Rightarrow> nat list list \<Rightarrow> bool" where
  "graph_ok graph closures \<longleftrightarrow> length closures = length graph
     \<and> (\<forall>p < length graph. node_wf (length graph) (graph ! p) \<and> set (closures ! p) \<subseteq> {..<length graph}
          \<and> (\<forall>q \<in> set (closures ! p). set (closures ! q) \<subseteq> insert p (set (closures ! p)))
          \<and> (\<forall>(c, S) \<in> set (transitions (graph ! p)). c < 128))"

lemma graph_okD:
  assumes "graph_ok graph closures" "p < length graph"
  shows "length closures = length graph" "node_wf (length graph) (graph ! p)" "set (closures ! p) \<subseteq> {..<length graph}"
    "q \<in> set (closures ! p) \<Longrightarrow> set (closures ! q) \<subseteq> insert p (set (closures ! p))"
    "(c, S) \<in> set (transitions (graph ! p)) \<Longrightarrow> c < 128"
  using assms by (auto simp: graph_ok_def)

lemma cl_Un: "cl closures (A \<union> B) = cl closures A \<union> cl closures B"
  by (auto simp: cl_def)

lemma cl_UN: "cl closures (\<Union>x \<in> A. B x) = (\<Union>x \<in> A. cl closures (B x))"
  by (auto simp: cl_def)

lemma cl_empty [simp]: "cl closures {} = {}" "cl closures A = {} \<longleftrightarrow> A = {}"
  by (auto simp: cl_def)

lemma cl_bound: "graph_ok graph closures \<Longrightarrow> A \<subseteq> {..<length graph} \<Longrightarrow> cl closures A \<subseteq> {..<length graph}"
  using graph_okD(3) by (fastforce simp: cl_def)

lemma cl_closed: "graph_ok graph closures \<Longrightarrow> A \<subseteq> {..<length graph} \<Longrightarrow> cl closures (cl closures A) = cl closures A"
  using graph_okD(4) by (fastforce simp: cl_def)

lemma slot_targets_bound:
  "graph_ok graph closures \<Longrightarrow> p < length graph \<Longrightarrow> x \<in> slot_targets graph c p \<Longrightarrow> x < length graph"
  "graph_ok graph closures \<Longrightarrow> p < length graph \<Longrightarrow> x \<in> any_targets graph p \<Longrightarrow> x < length graph"
  using graph_okD(2) [of graph closures p]
  by (auto simp: slot_targets_def any_targets_def node_wf_def split: option.splits dest!: map_of_SomeD)

lemma next_set_bound:
  "graph_ok graph closures \<Longrightarrow> B \<subseteq> {..<length graph} \<Longrightarrow> next_set graph closures B c \<subseteq> {..<length graph}"
  unfolding next_set_def
  by (rule cl_bound) (auto split: if_splits intro: slot_targets_bound)

lemma addWithClosure_cl:
  assumes "graph_ok graph closures" "t < length graph"
  shows "\<exists>s'. addWithClosure closures t s = Some s' \<and> set s' = cl closures {t} \<union> set s \<and> (distinct s \<longrightarrow> distinct s')"
  using assms addWithClosure_eq [of t closures s] addWithClosure_Some [of closures t s]
  by (auto simp: graph_ok_def cl_def)

lemma foldM_addWithClosure:
  assumes "graph_ok graph closures" "set ts \<subseteq> {..<length graph}"
  shows "\<exists>s'. foldM (addWithClosure closures) ts s = Some s' \<and> set s' = cl closures (set ts) \<union> set s
    \<and> (distinct s \<longrightarrow> distinct s')"
  using assms(2)
proof (induction ts arbitrary: s)
  case Nil
  then show ?case by simp
next
  case (Cons t ts)
  obtain s1 where s1: "addWithClosure closures t s = Some s1" "set s1 = cl closures {t} \<union> set s"
    "distinct s \<longrightarrow> distinct s1" using addWithClosure_cl [OF assms(1), of t s] Cons.prems by auto
  obtain s2 where "foldM (addWithClosure closures) ts s1 = Some s2" "set s2 = cl closures (set ts) \<union> set s1"
    "distinct s1 \<longrightarrow> distinct s2" using Cons.IH [of s1] Cons.prems by auto
  with s1 show ?case using cl_Un [of closures "{t}" "set ts"] by auto
qed

lemma foldM_fallback:
  assumes g: "graph_ok graph closures" and "set ts \<subseteq> {..<length graph}" "distinct s" "cl closures (set s) = set s"
    "set s \<subseteq> {..<length graph}"
  shows "\<exists>s'. foldM (\<lambda>t s. if t \<in> set s then Some s else addWithClosure closures t s) ts s = Some s'
    \<and> set s' = cl closures (set ts) \<union> set s \<and> distinct s'"
  using assms(2-)
proof (induction ts arbitrary: s)
  case Nil
  then show ?case by simp
next
  case (Cons t ts)
  obtain s1 where s1: "(if t \<in> set s then Some s else addWithClosure closures t s) = Some s1"
    "set s1 = cl closures {t} \<union> set s" "distinct s1"
  proof (cases "t \<in> set s")
    case True
    then have "cl closures {t} \<subseteq> set s" using Cons.prems(3) by (auto simp: cl_def)
    then show thesis using True Cons.prems(2) by (intro that [of s]) auto
  next
    case False
    then show thesis using addWithClosure_cl [OF g, of t s] Cons.prems(1,2) that by auto
  qed
  have "cl closures (set s1) = set s1"
    using s1(2) cl_closed [OF g, of "{t}"] Cons.prems by (simp add: cl_Un)
  moreover have "set s1 \<subseteq> {..<length graph}" using s1(2) cl_bound [OF g, of "{t}"] Cons.prems by auto
  ultimately obtain s2 where "foldM (\<lambda>t s. if t \<in> set s then Some s else addWithClosure closures t s) ts s1 = Some s2"
    "set s2 = cl closures (set ts) \<union> set s1" "distinct s2" using Cons.IH [of s1] Cons.prems(1) s1(3) by auto
  then show ?case using s1 cl_Un [of closures "{t}" "set ts"] by auto
qed

lemma foldM_collect:
  assumes "set buffer \<subseteq> {..<length graph}"
  shows "\<exists>all. foldM (\<lambda>nodeId acc. do { node \<leftarrow> vec_at graph nodeId; Some (acc @ transitionsOnAnyCharacter node) }) buffer acc0 = Some all
    \<and> set all = (\<Union>p \<in> set buffer. any_targets graph p) \<union> set acc0"
  using assms
proof (induction buffer arbitrary: acc0)
  case Nil
  then show ?case by simp
next
  case (Cons p buffer)
  have "foldM (\<lambda>nodeId acc. do { node \<leftarrow> vec_at graph nodeId; Some (acc @ transitionsOnAnyCharacter node) }) (p # buffer) acc0
    = foldM (\<lambda>nodeId acc. do { node \<leftarrow> vec_at graph nodeId; Some (acc @ transitionsOnAnyCharacter node) }) buffer
        (acc0 @ transitionsOnAnyCharacter (graph ! p))" using Cons.prems by (simp add: vec_simps)
  then show ?case
    using Cons.IH [of "acc0 @ transitionsOnAnyCharacter (graph ! p)"] Cons.prems by (auto simp: any_targets_def)
qed

lemma fallbackSet_correct:
  assumes g: "graph_ok graph closures" and b: "set buffer \<subseteq> {..<length graph}"
  shows "\<exists>fb. fallbackSet graph closures buffer = Some fb \<and> distinct fb
    \<and> set fb = cl closures (\<Union>p \<in> set buffer. any_targets graph p)"
proof -
  obtain all where all: "foldM (\<lambda>nodeId acc. do { node \<leftarrow> vec_at graph nodeId; Some (acc @ transitionsOnAnyCharacter node) }) buffer [] = Some all"
    "set all = (\<Union>p \<in> set buffer. any_targets graph p)" using foldM_collect [OF b, of "[]"] by auto
  have "set all \<subseteq> {..<length graph}" using all(2) b by (auto intro: slot_targets_bound(2) [OF g])
  from foldM_fallback [OF g this, of "[]"] all show ?thesis by (auto simp: fallbackSet_def)
qed

definition slot_part :: "nat list list \<Rightarrow> nat set \<Rightarrow> nat \<Rightarrow> nat \<times> nat list \<Rightarrow> nat set" where
  "slot_part closures F c = (\<lambda>(k, S). if k = c then cl closures (set S) \<union> (if c \<noteq> 0 then F else {}) else {})"

lemma populateSlot_correct:
  assumes g: "graph_ok graph closures" and k: "k < 128" "set S \<subseteq> {..<length graph}"
    and sets: "length sets = 128" "\<forall>s \<in> set sets. distinct s"
  shows "\<exists>sets'. populateSlot closures fb (k, S) sets = Some sets' \<and> length sets' = 128 \<and> (\<forall>s \<in> set sets'. distinct s)
    \<and> (\<forall>c < 128. set (sets' ! c) = set (sets ! c) \<union> slot_part closures (set fb) c (k, S))"
proof -
  obtain s where s: "foldM (addWithClosure closures) S (sets ! k) = Some s"
    "set s = cl closures (set S) \<union> set (sets ! k)" "distinct (sets ! k) \<longrightarrow> distinct s"
    using foldM_addWithClosure [OF g k(2), of "sets ! k"] by blast
  let ?s = "if k \<noteq> 0 then hs_addAll fb s else s"
  have d: "distinct ?s" using s(3) sets k(1) by (auto intro: distinct_hs_addAll)
  have "populateSlot closures fb (k, S) sets = Some (sets[k := ?s])"
    using k(1) sets(1) s(1) by (simp add: populateSlot_def vec_simps)
  moreover have "\<forall>t \<in> set (sets[k := ?s]). distinct t"
    using d sets(2) set_update_subset_insert [of sets k ?s] by blast
  moreover have "set (sets[k := ?s] ! c) = set (sets ! c) \<union> slot_part closures (set fb) c (k, S)" if "c < 128" for c
    using that sets(1) s(2) by (auto simp: nth_list_update slot_part_def hs_simps)
  ultimately show ?thesis using sets(1) by simp
qed

lemma foldM_populateSlot:
  assumes g: "graph_ok graph closures" and "\<forall>(k, S) \<in> set ts. k < 128 \<and> set S \<subseteq> {..<length graph}"
    and "length sets = 128" "\<forall>s \<in> set sets. distinct s"
  shows "\<exists>sets'. foldM (populateSlot closures fb) ts sets = Some sets' \<and> length sets' = 128 \<and> (\<forall>s \<in> set sets'. distinct s)
    \<and> (\<forall>c < 128. set (sets' ! c) = set (sets ! c) \<union> (\<Union>kS \<in> set ts. slot_part closures (set fb) c kS))"
  using assms(2-)
proof (induction ts arbitrary: sets)
  case Nil
  then show ?case by simp
next
  case (Cons kS ts)
  obtain k S where kS: "kS = (k, S)" by fastforce
  have kb: "k < 128" "set S \<subseteq> {..<length graph}" using Cons.prems(1) kS by auto
  obtain s1 where s1: "populateSlot closures fb kS sets = Some s1" "length s1 = 128" "\<forall>s \<in> set s1. distinct s"
    "\<forall>c < 128. set (s1 ! c) = set (sets ! c) \<union> slot_part closures (set fb) c kS"
    using populateSlot_correct [OF g kb Cons.prems(2,3), of fb] kS by auto
  obtain s2 where "foldM (populateSlot closures fb) ts s1 = Some s2" "length s2 = 128" "\<forall>s \<in> set s2. distinct s"
    "\<forall>c < 128. set (s2 ! c) = set (s1 ! c) \<union> (\<Union>kS \<in> set ts. slot_part closures (set fb) c kS)"
    using Cons.IH [of s1] Cons.prems(1) s1(2,3) by auto
  then show ?case using s1 by auto
qed

lemma slot_part_node:
  assumes "graph_ok graph closures" "p < length graph"
  shows "(\<Union>kS \<in> set (transitions (graph ! p)). slot_part closures F c kS)
    = cl closures (slot_targets graph c p) \<union> (if c \<noteq> 0 \<and> slot_targets graph c p \<noteq> {} then F else {})"
proof (cases "map_of (transitions (graph ! p)) c")
  case None
  then have "c \<notin> fst ` set (transitions (graph ! p))" by (simp add: map_of_eq_None_iff)
  then have "(\<Union>kS \<in> set (transitions (graph ! p)). slot_part closures F c kS) = {}"
    by (force simp: slot_part_def split: if_splits)
  then show ?thesis using None by (simp add: slot_targets_def)
next
  case (Some S)
  have wf: "distinct (map fst (transitions (graph ! p)))" "S \<noteq> []"
    using graph_okD(2) [OF assms] map_of_SomeD [OF Some] by (auto simp: node_wf_def)
  have "S' = S" if "(c, S') \<in> set (transitions (graph ! p))" for S'
    using that Some wf(1) by (auto dest: map_of_is_SomeI)
  then have "slot_part closures F c kS = {} \<or> kS = (c, S)" if "kS \<in> set (transitions (graph ! p))" for kS
    using that by (cases kS) (auto simp: slot_part_def)
  then have "(\<Union>kS \<in> set (transitions (graph ! p)). slot_part closures F c kS) = slot_part closures F c (c, S)"
    using map_of_SomeD [OF Some] by blast
  then show ?thesis using Some wf(2) by (simp add: slot_targets_def slot_part_def)
qed

lemma foldM_populate:
  assumes g: "graph_ok graph closures" and "set buffer \<subseteq> {..<length graph}"
    and "length sets = 128" "\<forall>s \<in> set sets. distinct s"
  shows "\<exists>sets'. foldM (\<lambda>nodeId sets. do { node \<leftarrow> vec_at graph nodeId;
       foldM (populateSlot closures fb) (transitions node) sets }) buffer sets = Some sets'
    \<and> length sets' = 128 \<and> (\<forall>s \<in> set sets'. distinct s)
    \<and> (\<forall>c < 128. set (sets' ! c) = set (sets ! c) \<union> (\<Union>p \<in> set buffer. cl closures (slot_targets graph c p)
          \<union> (if c \<noteq> 0 \<and> slot_targets graph c p \<noteq> {} then set fb else {})))"
  using assms(2-)
proof (induction buffer arbitrary: sets)
  case Nil
  then show ?case by simp
next
  case (Cons p buffer)
  then have p: "p < length graph" by simp
  have "\<forall>(k, S) \<in> set (transitions (graph ! p)). k < 128 \<and> set S \<subseteq> {..<length graph}"
    using graph_okD(2,5) [OF g p] by (auto simp: node_wf_def)
  from foldM_populateSlot [OF g this Cons.prems(2,3), of fb] obtain s1 where
    s1: "foldM (populateSlot closures fb) (transitions (graph ! p)) sets = Some s1" "length s1 = 128"
    "\<forall>s \<in> set s1. distinct s"
    "\<forall>c < 128. set (s1 ! c) = set (sets ! c) \<union> cl closures (slot_targets graph c p)
       \<union> (if c \<noteq> 0 \<and> slot_targets graph c p \<noteq> {} then set fb else {})"
    by (auto simp: slot_part_node [OF g p] Un_assoc)
  obtain s2 where s2: "foldM (\<lambda>nodeId sets. do { node \<leftarrow> vec_at graph nodeId;
       foldM (populateSlot closures fb) (transitions node) sets }) buffer s1 = Some s2"
    "length s2 = 128" "\<forall>s \<in> set s2. distinct s"
    "\<forall>c < 128. set (s2 ! c) = set (s1 ! c) \<union> (\<Union>p \<in> set buffer. cl closures (slot_targets graph c p)
          \<union> (if c \<noteq> 0 \<and> slot_targets graph c p \<noteq> {} then set fb else {}))"
    using Cons.IH [OF _ s1(2,3)] Cons.prems(1) by auto
  have "set (s2 ! c) = set (sets ! c) \<union> (\<Union>p \<in> set (p # buffer). cl closures (slot_targets graph c p)
          \<union> (if c \<noteq> 0 \<and> slot_targets graph c p \<noteq> {} then set fb else {}))" if "c < 128" for c
    using s1(4) s2(4) that by (simp add: Un_assoc)
  then show ?case using s1(1) s2(1-3) p by (simp add: vec_simps)
qed

text \<open>The table of 128 sets and the fallback set describe the successor set of every character.\<close>

definition covers :: "NFANode list \<Rightarrow> nat list list \<Rightarrow> nat set \<Rightarrow> nat list list \<Rightarrow> nat set \<Rightarrow> bool" where
  "covers graph closures B sets F \<longleftrightarrow>
     (\<forall>c. c < 128 \<and> sets ! c \<noteq> [] \<longrightarrow> set (sets ! c) = next_set graph closures B c)
     \<and> (\<forall>c. c \<noteq> 0 \<and> \<not> (c < 128 \<and> sets ! c \<noteq> []) \<longrightarrow> F = next_set graph closures B c)
     \<and> (sets ! 0 = [] \<longrightarrow> next_set graph closures B 0 = {})
     \<and> (\<forall>c < 128. sets ! c \<noteq> [] \<longrightarrow> (\<exists>p \<in> B. slot_targets graph c p \<noteq> {}))"

lemma coversD:
  assumes "covers graph closures B sets F"
  shows "c < 128 \<Longrightarrow> sets ! c \<noteq> [] \<Longrightarrow> set (sets ! c) = next_set graph closures B c"
    "c \<noteq> 0 \<Longrightarrow> \<not> (c < 128 \<and> sets ! c \<noteq> []) \<Longrightarrow> F = next_set graph closures B c"
    "sets ! 0 = [] \<Longrightarrow> next_set graph closures B 0 = {}"
    "c < 128 \<Longrightarrow> sets ! c \<noteq> [] \<Longrightarrow> \<exists>p \<in> B. slot_targets graph c p \<noteq> {}"
  using assms unfolding covers_def by blast+

lemma populateTransitions_correct:
  assumes g: "graph_ok graph closures" and b: "set buffer \<subseteq> {..<length graph}"
  shows "\<exists>sets fb. populateTransitions buffer graph closures = Some (sets, fb) \<and> length sets = 128
    \<and> distinct fb \<and> (\<forall>s \<in> set sets. distinct s) \<and> covers graph closures (set buffer) sets (set fb)"
proof -
  obtain fb where fb: "fallbackSet graph closures buffer = Some fb" "distinct fb"
    "set fb = cl closures (\<Union>p \<in> set buffer. any_targets graph p)"
    using fallbackSet_correct [OF g b] by blast
  obtain sets where sets: "foldM (\<lambda>nodeId sets. do { node \<leftarrow> vec_at graph nodeId;
       foldM (populateSlot closures fb) (transitions node) sets }) buffer (replicate 128 []) = Some sets"
    "length sets = 128" "\<forall>s \<in> set sets. distinct s"
    "\<forall>c < 128. set (sets ! c) = (\<Union>p \<in> set buffer. cl closures (slot_targets graph c p)
          \<union> (if c \<noteq> 0 \<and> slot_targets graph c p \<noteq> {} then set fb else {}))"
    using foldM_populate [OF g b, of "replicate 128 []" fb] by auto
  have nxt: "next_set graph closures (set buffer) c = (\<Union>p \<in> set buffer. cl closures (slot_targets graph c p))
      \<union> (if c \<noteq> 0 then set fb else {})" for c
    by (auto simp: next_set_def cl_UN cl_Un fb(3))
  have empty: "sets ! c = [] \<longleftrightarrow> (\<forall>p \<in> set buffer. slot_targets graph c p = {})" if "c < 128" for c
    using sets(4) that by (auto simp flip: set_empty split: if_splits)
  have high: "slot_targets graph c p = {}" if "\<not> c < 128" "p \<in> set buffer" for c p
    using that b graph_okD(5) [OF g, of p c]
    by (auto simp: slot_targets_def split: option.splits dest!: map_of_SomeD)
  have "set (sets ! c) = next_set graph closures (set buffer) c" if c: "c < 128" "sets ! c \<noteq> []" for c
  proof -
    obtain p where "p \<in> set buffer" "slot_targets graph c p \<noteq> {}" using empty [OF c(1)] c(2) by blast
    then show ?thesis using sets(4) c(1) by (auto simp: nxt split: if_splits)
  qed
  moreover have "set fb = next_set graph closures (set buffer) c" if c: "c \<noteq> 0" "\<not> (c < 128 \<and> sets ! c \<noteq> [])" for c
  proof -
    have "\<forall>p \<in> set buffer. slot_targets graph c p = {}" using empty [of c] high [of c] c(2) by blast
    then show ?thesis using c(1) by (simp add: nxt)
  qed
  moreover have "next_set graph closures (set buffer) 0 = {}" if "sets ! 0 = []"
    using empty [of 0] that by (simp add: nxt)
  moreover have "populateTransitions buffer graph closures = Some (sets, fb)"
    using fb(1) sets(1) by (simp add: populateTransitions_def)
  moreover have "\<forall>c < 128. sets ! c \<noteq> [] \<longrightarrow> (\<exists>p \<in> set buffer. slot_targets graph c p \<noteq> {})" using empty by blast
  ultimately show ?thesis using fb(2) sets(2,3) unfolding covers_def by blast
qed

section \<open>The invariant of the main loop\<close>

definition dfa_ext :: "DFA \<Rightarrow> DFA \<Rightarrow> bool" where
  "dfa_ext d d' \<longleftrightarrow> (\<exists>A T N. dfa_actions d' = dfa_actions d @ A \<and> dfa_transitions d' = dfa_transitions d @ T
     \<and> nodes d' = nodes d @ N \<and> root d' = root d)"

lemma dfa_ext_refl [simp]: "dfa_ext d d"
  by (simp add: dfa_ext_def)

lemma dfa_ext_trans: "dfa_ext a b \<Longrightarrow> dfa_ext b c \<Longrightarrow> dfa_ext a c"
  by (auto simp: dfa_ext_def)

lemma dfa_ext_windows:
  assumes "dfa_ext d d'" "node_in_range d node"
  shows "node_in_range d' node" "node_transitions d' node = node_transitions d node"
    "node_fallback d' node = node_fallback d node"
proof -
  obtain A T N where d': "dfa_actions d' = dfa_actions d @ A" "dfa_transitions d' = dfa_transitions d @ T"
    "nodes d' = nodes d @ N" using assms(1) by (auto simp: dfa_ext_def)
  show "node_in_range d' node" using assms(2) d' by (auto simp: node_in_range_def)
  show "node_transitions d' node = node_transitions d node"
    using assms(2) d' by (auto simp: node_transitions_def node_in_range_def window_append split: if_splits)
  show "node_fallback d' node = node_fallback d node"
    using assms(2) d' by (auto simp: node_fallback_def node_in_range_def nth_append split: if_splits)
qed

definition act_ok :: "NFANode list \<Rightarrow> DFA \<Rightarrow> DFANode \<Rightarrow> nat set \<Rightarrow> bool" where
  "act_ok graph d node B \<longleftrightarrow> m_actionsStart node + m_actionsLength node \<le> length (dfa_actions d)
     \<and> set (node_actions d node) = (\<Union>p \<in> B. set (finalRuleIds (graph ! p)))"

definition step_ok :: "nat set list \<Rightarrow> nat option \<Rightarrow> nat set \<Rightarrow> bool" where
  "step_ok T r B \<longleftrightarrow> (case r of None \<Rightarrow> B = {} | Some t \<Rightarrow> t < length T \<and> T ! t = B)"

lemma step_ok_append: "step_ok T r B \<Longrightarrow> step_ok (T @ T') r B"
  by (auto simp: step_ok_def nth_append split: option.splits)

definition edge_ok :: "NFANode list \<Rightarrow> nat list list \<Rightarrow> nat set list \<Rightarrow> DFA \<Rightarrow> DFANode \<Rightarrow> nat set \<Rightarrow> bool" where
  "edge_ok graph closures T d node B \<longleftrightarrow> node_in_range d node
     \<and> distinct (map fst (node_transitions d node))
     \<and> (\<forall>(c, t) \<in> set (node_transitions d node). c < 128 \<and> t < length T)
     \<and> (\<forall>t. node_fallback d node = Some t \<longrightarrow> t < length T)
     \<and> (\<forall>c. step_ok T (node_step d node c) (next_set graph closures B c))"

lemma act_ok_ext: "dfa_ext d d' \<Longrightarrow> act_ok graph d node B \<Longrightarrow> act_ok graph d' node B"
  by (auto simp: act_ok_def dfa_ext_def node_actions_def window_append)

lemma edge_ok_ext:
  assumes "dfa_ext d d'" "edge_ok graph closures T d node B"
  shows "edge_ok graph closures (T @ T') d' node B"
proof -
  have r: "node_in_range d node" using assms(2) by (simp add: edge_ok_def)
  note w = dfa_ext_windows [OF assms(1) r]
  have "node_step d' node c = node_step d node c" for c by (simp add: node_step_def w split: option.split)
  then have "step_ok (T @ T') (node_step d' node c) (next_set graph closures B c)" for c
    using assms(2) by (simp add: edge_ok_def step_ok_append)
  moreover have "\<forall>(c, t) \<in> set (node_transitions d' node). c < 128 \<and> t < length (T @ T')"
    "\<forall>t. node_fallback d' node = Some t \<longrightarrow> t < length (T @ T')"
    using assms(2) by (auto simp: w edge_ok_def)
  ultimately show ?thesis using assms(2) w(1) unfolding edge_ok_def w(2) by blast
qed

type_synonym state_inv = "nat set \<Rightarrow> convert_state \<Rightarrow> bool"

definition tsets :: "node_set list \<Rightarrow> nat set list" where
  "tsets table = map (\<lambda>entry. set (fst entry)) table"

definition table_ok :: "NFANode list \<Rightarrow> node_set list \<Rightarrow> bool" where
  "table_ok graph table \<longleftrightarrow> map snd table = [0..<length table]
     \<and> (\<forall>(buffer, i) \<in> set table. distinct buffer \<and> set buffer \<subseteq> {..<length graph})"

text \<open>
  \<open>extra\<close> is the node being processed: like the unprocessed ones it has no flag yet, and only
  the nodes outside of both have their transitions.
\<close>

definition node_inv :: "NFANode list \<Rightarrow> nat list list \<Rightarrow> nat set \<Rightarrow> nat set list \<Rightarrow> DFA \<Rightarrow> nat \<Rightarrow> bool" where
  "node_inv graph closures pending T d k \<longleftrightarrow> act_ok graph d (nodes d ! k) (T ! k) \<and> \<not> isKilled (nodes d ! k)
     \<and> (if k \<in> pending then m_flags (nodes d ! k) = 0 else edge_ok graph closures T d (nodes d ! k) (T ! k))"

definition conv_inv :: "NFANode list \<Rightarrow> nat list list \<Rightarrow> state_inv" where
  "conv_inv graph closures extra = (\<lambda>(d, table, un).
     table_ok graph table \<and> length (nodes d) = length table \<and> root d = 0
     \<and> set un \<subseteq> set table \<and> distinct (map snd un) \<and> extra \<subseteq> {..<length table} \<and> extra \<inter> snd ` set un = {}
     \<and> (\<forall>k < length table. node_inv graph closures (snd ` set un \<union> extra) (tsets table) d k))"

lemma tsets_simps [simp]: "length (tsets table) = length table" "tsets (table @ new) = tsets table @ tsets new"
  by (simp_all add: tsets_def)

lemma tsets_nth: "i < length table \<Longrightarrow> tsets table ! i = set (fst (table ! i))"
  by (simp add: tsets_def)

lemma table_ok_nth:
  assumes "table_ok graph table" "i < length table"
  shows "snd (table ! i) = i" "distinct (fst (table ! i))" "set (fst (table ! i)) \<subseteq> {..<length graph}"
proof -
  have "map snd table ! i = [0..<length table] ! i" using assms by (simp only: table_ok_def)
  then show "snd (table ! i) = i" using assms(2) by simp
  show "distinct (fst (table ! i))" "set (fst (table ! i)) \<subseteq> {..<length graph}"
    using assms nth_mem [OF assms(2)] by (auto simp: table_ok_def split_def)
qed

lemma table_ok_mem: "table_ok graph table \<Longrightarrow> entry \<in> set table \<Longrightarrow> snd entry < length table \<and> table ! snd entry = entry"
  using table_ok_nth(1) [of graph table] by (auto simp: in_set_conv_nth)

lemma findNodeSet_Some:
  assumes "findNodeSet s table = Some entry" "table_ok graph table" "distinct s"
  shows "entry \<in> set table" "set (fst entry) = set s"
proof -
  obtain i where i: "i < length table" "uniqueNodeIdSet_eq (fst (table ! i)) s" "entry = table ! i"
    using assms(1) by (auto simp: findNodeSet_def find_Some_iff split_def)
  then show "entry \<in> set table" "set (fst entry) = set s"
    using table_ok_nth(2) [OF assms(2) i(1)] uniqueNodeIdSet_eq_iff [OF _ assms(3)] by auto
qed

lemma foldM_actions:
  assumes "set s \<subseteq> {..<length graph}" "distinct acts0"
  shows "\<exists>acts. foldM (\<lambda>nfaNodeId acts. do { nfaNode \<leftarrow> vec_at graph nfaNodeId;
       Some (hs_addAll (finalRuleIds nfaNode) acts) }) s acts0 = Some acts
     \<and> set acts = (\<Union>p \<in> set s. set (finalRuleIds (graph ! p))) \<union> set acts0 \<and> distinct acts"
  using assms
proof (induction s arbitrary: acts0)
  case Nil
  then show ?case by simp
next
  case (Cons p s)
  from Cons.IH [of "hs_addAll (finalRuleIds (graph ! p)) acts0"] Cons.prems show ?case
    by (auto simp: vec_simps hs_simps)
qed

lemma translate_correct:
  assumes "translate graph s d = Some (d', entry)" "set s \<subseteq> {..<length graph}"
  shows "entry = (s, length (nodes d))" "dfa_ext d d'" "dfa_transitions d' = dfa_transitions d"
    "\<exists>node. nodes d' = nodes d @ [node] \<and> act_ok graph d' node (set s) \<and> m_flags node = 0"
proof -
  obtain acts where a: "foldM (\<lambda>nfaNodeId acts. do { nfaNode \<leftarrow> vec_at graph nfaNodeId;
       Some (hs_addAll (finalRuleIds nfaNode) acts) }) s [] = Some acts"
     "set acts = (\<Union>p \<in> set s. set (finalRuleIds (graph ! p)))" using foldM_actions [OF assms(2), of "[]"] by auto
  let ?node = "node_setActions (length (dfa_actions d)) (length acts) new_DFANode"
  have d': "d' = d\<lparr>dfa_actions := dfa_actions d @ acts, nodes := nodes d @ [?node]\<rparr>"
    "entry = (s, length (nodes d))" "length acts \<le> 65535"
    using assms(1) a(1) by (auto simp: translate_def Let_def split: if_splits)
  show "entry = (s, length (nodes d))" "dfa_ext d d'" "dfa_transitions d' = dfa_transitions d"
    using d' by (auto simp: dfa_ext_def)
  have "act_ok graph d' ?node (set s)"
    using a(2) d'(3) window_end [of "dfa_actions d" acts] by (simp add: act_ok_def d'(1) node_setActions_def node_actions_def)
  then show "\<exists>node. nodes d' = nodes d @ [node] \<and> act_ok graph d' node (set s) \<and> m_flags node = 0"
    using d'(1) by (auto simp: node_setActions_def new_DFANode_def)
qed

lemma isKilled_flags0 [simp]: "m_flags node = 0 \<Longrightarrow> \<not> isKilled node" "m_flags node = 0 \<Longrightarrow> \<not> hasFallbackTransition node"
  by (simp_all add: isKilled_def hasFallbackTransition_def)

lemma conv_inv_new_entry:
  assumes inv: "conv_inv graph closures extra (d, table, un)" and ext: "dfa_ext d d'"
    and entry: "entry = (s, length table)" "distinct s" "set s \<subseteq> {..<length graph}"
    and node: "nodes d' = nodes d @ [node]" "act_ok graph d' node (set s)" "m_flags node = 0"
  shows "conv_inv graph closures extra (d', table @ [entry], un @ [entry])"
proof -
  have I: "table_ok graph table" "length (nodes d) = length table" "root d = 0" "set un \<subseteq> set table"
    "distinct (map snd un)" "extra \<subseteq> {..<length table}" "extra \<inter> snd ` set un = {}"
    using inv by (auto simp: conv_inv_def)
  have unb: "i < length table" if "i \<in> snd ` set un" for i using that I(4) table_ok_mem [OF I(1)] by auto
  have 1: "table_ok graph (table @ [entry])" using I(1) entry by (auto simp: table_ok_def)
  have new: "length table \<notin> snd ` set un" "length table \<notin> extra" using unb I(6) by blast+
  have "node_inv graph closures (snd ` set (un @ [entry]) \<union> extra) (tsets (table @ [entry])) d' k"
    if "k < length (table @ [entry])" for k
  proof (cases "k < length table")
    case True
    have eq: "nodes d' ! k = nodes d ! k" "tsets (table @ [entry]) ! k = tsets table ! k"
      using True node(1) I(2) by (simp_all add: nth_append)
    have "node_inv graph closures (snd ` set un \<union> extra) (tsets table) d k"
      using inv True by (simp add: conv_inv_def)
    moreover have "k \<in> snd ` set (un @ [entry]) \<union> extra \<longleftrightarrow> k \<in> snd ` set un \<union> extra"
      using True entry(1) by auto
    ultimately show ?thesis
      unfolding node_inv_def eq using act_ok_ext [OF ext] edge_ok_ext [OF ext] by (simp split: if_splits)
  next
    case False
    then have "k = length table" using that by simp
    then show ?thesis using node I(2) entry(1) by (simp add: nth_append tsets_def node_inv_def)
  qed
  moreover have "length (nodes d') = length (table @ [entry])" "root d' = 0"
    using node(1) I(2,3) ext by (auto simp: dfa_ext_def)
  moreover have "distinct (map snd (un @ [entry]))" "extra \<subseteq> {..<length (table @ [entry])}"
    "extra \<inter> snd ` set (un @ [entry]) = {}" "set (un @ [entry]) \<subseteq> set (table @ [entry])"
    using I new entry(1) by auto
  ultimately show ?thesis using 1 unfolding conv_inv_def split by blast
qed

lemma getOrCreateDFANode_correct:
  assumes inv: "conv_inv graph closures extra (d, table, un)" and s: "distinct s" "set s \<subseteq> {..<length graph}"
    and "getOrCreateDFANode s graph (d, table, un) = Some ((d', table', un'), i)"
  shows "conv_inv graph closures extra (d', table', un')" "dfa_ext d d'" "dfa_transitions d' = dfa_transitions d"
    "\<exists>new. table' = table @ new" "i < length table'" "tsets table' ! i = set s"
proof -
  have I: "table_ok graph table" "length (nodes d) = length table" using inv by (auto simp: conv_inv_def)
  have "conv_inv graph closures extra (d', table', un') \<and> dfa_ext d d' \<and> dfa_transitions d' = dfa_transitions d
    \<and> (\<exists>new. table' = table @ new) \<and> i < length table' \<and> tsets table' ! i = set s"
  proof (cases "findNodeSet s table")
    case None
    with assms(4) obtain entry where t: "translate graph s d = Some (d', entry)"
      "table' = table @ [entry]" "un' = un @ [entry]" "i = snd entry"
      by (auto simp: getOrCreateDFANode_def split: Option.bind_splits)
    obtain node where node: "nodes d' = nodes d @ [node]" "act_ok graph d' node (set s)" "m_flags node = 0"
      using translate_correct(4) [OF t(1) s(2)] by blast
    note tc = translate_correct(1-3) [OF t(1) s(2)]
    have "conv_inv graph closures extra (d', table', un')"
      unfolding t(2,3) using tc(1) I(2) by (intro conv_inv_new_entry [OF inv tc(2) _ s node]) simp
    then show ?thesis using tc t I(2) by (auto simp: nth_append tsets_def)
  next
    case (Some entry)
    then have eq: "d' = d" "table' = table" "un' = un" "i = snd entry"
      using assms(4) by (simp_all add: getOrCreateDFANode_def split_def)
    note f = findNodeSet_Some [OF Some I(1) s(1)]
    show ?thesis using inv table_ok_mem [OF I(1) f(1)] f(2) by (simp add: eq tsets_nth)
  qed
  then show "conv_inv graph closures extra (d', table', un')" "dfa_ext d d'" "dfa_transitions d' = dfa_transitions d"
    "\<exists>new. table' = table @ new" "i < length table'" "tsets table' ! i = set s" by blast+
qed

lemma foldM_upt_preserves:
  assumes "foldM f [0..<n] s = Some t" "I 0 s" and "\<And>k u u'. k < n \<Longrightarrow> I k u \<Longrightarrow> f k u = Some u' \<Longrightarrow> I (Suc k) u'"
  shows "I n t"
  using assms
proof (induction n arbitrary: t)
  case 0
  then show ?case by simp
next
  case (Suc n)
  from Suc.prems(1) obtain u where u: "foldM f [0..<n] s = Some u" "f n u = Some t"
    by (auto simp: foldM_append split: Option.bind_splits)
  with Suc show ?case by (meson less_Suc_eq)
qed

lemma conv_inv_transitions:
  assumes "conv_inv graph closures extra (d, table, un)"
  shows "conv_inv graph closures extra (d\<lparr>dfa_transitions := dfa_transitions d @ X\<rparr>, table, un)"
proof -
  let ?d = "d\<lparr>dfa_transitions := dfa_transitions d @ X\<rparr>"
  have ext: "dfa_ext d ?d" by (simp add: dfa_ext_def)
  have "node_inv graph closures P (tsets table) d k \<Longrightarrow> node_inv graph closures P (tsets table) ?d k" for P k
    using act_ok_ext [OF ext] edge_ok_ext [OF ext, of _ _ _ _ _ "[]"] by (auto simp: node_inv_def)
  then show ?thesis using assms by (simp add: conv_inv_def)
qed

lemma edge_ok_nodes [simp]:
  "edge_ok graph closures T (d\<lparr>nodes := N\<rparr>) node B \<longleftrightarrow> edge_ok graph closures T d node B"
  "act_ok graph (d\<lparr>nodes := N\<rparr>) node B \<longleftrightarrow> act_ok graph d node B"
  by (simp_all add: edge_ok_def act_ok_def node_in_range_def node_transitions_def node_fallback_def node_step_def
      node_actions_def cong: option.case_cong)

lemma conv_inv_update:
  assumes inv: "conv_inv graph closures {i} (d, table, un)"
    and node: "m_actionsStart node = m_actionsStart (nodes d ! i)" "m_actionsLength node = m_actionsLength (nodes d ! i)"
    "\<not> isKilled node"
    and X: "X = {i} \<and> m_flags node = 0 \<or> X = {} \<and> edge_ok graph closures (tsets table) d node (tsets table ! i)"
  shows "conv_inv graph closures X (d\<lparr>nodes := (nodes d)[i := node]\<rparr>, table, un)"
proof -
  let ?d = "d\<lparr>nodes := (nodes d)[i := node]\<rparr>"
  have I: "i < length table" "length (nodes d) = length table" "i \<notin> snd ` set un"
    using inv by (auto simp: conv_inv_def)
  have "node_inv graph closures (snd ` set un \<union> X) (tsets table) ?d k" if k: "k < length table" for k
  proof -
    have "node_inv graph closures (snd ` set un \<union> {i}) (tsets table) d k"
      using inv k by (simp add: conv_inv_def)
    moreover have "act_ok graph d (nodes d ! i) B \<longleftrightarrow> act_ok graph d node B" for B
      using node(1,2) by (simp add: act_ok_def node_actions_def)
    ultimately show ?thesis
      using I X node(3) k by (cases "k = i") (auto simp: node_inv_def)
  qed
  then show ?thesis using inv X by (auto simp: conv_inv_def)
qed

section \<open>One iteration of the main loop\<close>

definition keys_inv ::
  "NFANode list \<Rightarrow> nat list list \<Rightarrow> nat list list \<Rightarrow> nat \<Rightarrow> convert_state \<Rightarrow> nat \<Rightarrow> convert_state \<Rightarrow> bool" where
  "keys_inv graph closures sets i st0 k st \<longleftrightarrow> conv_inv graph closures {i} st \<and> dfa_ext (fst st0) (fst st)
     \<and> (\<exists>new. fst (snd st) = fst (snd st0) @ new)
     \<and> (\<exists>L. dfa_transitions (fst st) = dfa_transitions (fst st0) @ L \<and> map fst L = filter (\<lambda>c. sets ! c \<noteq> []) [0..<k]
          \<and> (\<forall>(c, t) \<in> set L. t < length (fst (snd st)) \<and> tsets (fst (snd st)) ! t = set (sets ! c)))"

lemma addKeyTransition_inv:
  assumes K: "keys_inv graph closures sets i st0 k st" and step: "addKeyTransition graph sets k st = Some st'"
    and sets: "distinct (sets ! k)" "set (sets ! k) \<subseteq> {..<length graph}"
  shows "keys_inv graph closures sets i st0 (Suc k) st'"
proof (cases "sets ! k = []")
  case True
  then show ?thesis using K step by (auto simp: addKeyTransition_def keys_inv_def)
next
  case False
  obtain d table un where st: "st = (d, table, un)" by (cases st)
  obtain d1 table1 un1 t where g: "getOrCreateDFANode (sets ! k) graph (d, table, un) = Some ((d1, table1, un1), t)"
    and st': "st' = (d1\<lparr>dfa_transitions := dfa_transitions d1 @ [(k, t)]\<rparr>, table1, un1)"
    using False step by (auto simp: addKeyTransition_def st split: Option.bind_splits)
  have inv: "conv_inv graph closures {i} (d, table, un)" using K by (simp add: keys_inv_def st)
  note G = getOrCreateDFANode_correct [OF inv sets g]
  obtain L new0 new1 where L: "dfa_transitions d = dfa_transitions (fst st0) @ L"
    "map fst L = filter (\<lambda>c. sets ! c \<noteq> []) [0..<k]"
    "\<forall>(c, t) \<in> set L. t < length table \<and> tsets table ! t = set (sets ! c)"
    and new: "table = fst (snd st0) @ new0" "table1 = table @ new1" and ext0: "dfa_ext (fst st0) d"
    using K G(4) by (auto simp: keys_inv_def st)
  have "dfa_ext (fst st0) (d1\<lparr>dfa_transitions := dfa_transitions d1 @ [(k, t)]\<rparr>)"
    using dfa_ext_trans [OF ext0 G(2)] by (auto simp: dfa_ext_def)
  moreover have "\<forall>(c, u) \<in> set (L @ [(k, t)]). u < length table1 \<and> tsets table1 ! u = set (sets ! c)"
    using L(3) G(5,6) by (auto simp: new(2) nth_append split: if_splits)
  moreover have "map fst (L @ [(k, t)]) = filter (\<lambda>c. sets ! c \<noteq> []) [0..<Suc k]" using L(2) False by simp
  ultimately show ?thesis
    using conv_inv_transitions [OF G(1), of "[(k, t)]"] G(3) L(1) new
    unfolding keys_inv_def st' fst_conv snd_conv by (intro conjI exI [of _ "new0 @ new1"] exI [of _ "L @ [(k, t)]"]) auto
qed

text \<open>What the windows of the processed node hold, after its fallback transition was added or not.\<close>

lemma edge_ok_finish:
  assumes L: "map fst L = filter (\<lambda>c. sets ! c \<noteq> []) [0..<128]"
      "\<forall>(c, t) \<in> set L. t < length T \<and> T ! t = set (sets ! c)"
    and node: "node_in_range d node" "node_transitions d node = L"
    and fb: "node_fallback d node = None \<and> F = {} \<or> (\<exists>t < length T. node_fallback d node = Some t \<and> T ! t = F)"
    and cov: "covers graph closures B sets F"
  shows "edge_ok graph closures T d node B"
proof -
  have keys: "fst ` set L = {c. c < 128 \<and> sets ! c \<noteq> []}"
  proof -
    have "fst ` set L = set (map fst L)" by simp
    then show ?thesis unfolding L(1) by auto
  qed
  have "step_ok T (node_step d node c) (next_set graph closures B c)" for c
  proof (cases "map_of L c")
    case None
    then have c: "\<not> (c < 128 \<and> sets ! c \<noteq> [])" using keys by (auto simp: map_of_eq_None_iff)
    show ?thesis
    proof (cases "c = 0")
      case True
      then show ?thesis using None c coversD(3) [OF cov] by (simp add: node_step_def node(2) step_ok_def)
    next
      case False
      have "node_step d node c = node_fallback d node" using False None by (simp add: node_step_def node(2))
      moreover have "step_ok T (node_fallback d node) F" using fb by (auto simp: step_ok_def)
      ultimately show ?thesis using coversD(2) [OF cov False c] by simp
    qed
  next
    case (Some t)
    then have m: "(c, t) \<in> set L" by (rule map_of_SomeD)
    then have "c < 128" "sets ! c \<noteq> []" using keys by force+
    then show ?thesis using L(2) m Some coversD(1) [OF cov, of c] by (auto simp: node_step_def node(2) step_ok_def)
  qed
  moreover have "distinct (map fst L)" unfolding L(1) by simp
  moreover have "\<forall>(c, t) \<in> set L. c < 128 \<and> t < length T" using L(2) keys by force
  ultimately show ?thesis using fb node by (auto simp: edge_ok_def)
qed

lemma conv_inv_pop:
  assumes "conv_inv graph closures {} (d, table, un)" "un \<noteq> []"
  shows "conv_inv graph closures {snd (last un)} (d, table, butlast un)" "last un \<in> set table"
proof -
  obtain un0 e where un: "un = un0 @ [e]" using assms(2) by (metis append_butlast_last_id)
  have e: "e \<in> set table" "table_ok graph table" using assms(1) by (auto simp: conv_inv_def un)
  have "snd ` set un = snd ` set un0 \<union> {snd e}" by (auto simp: un)
  then show "conv_inv graph closures {snd (last un)} (d, table, butlast un)" "last un \<in> set table"
    using assms(1) e table_ok_mem [OF e(2,1)] by (auto simp: conv_inv_def un)
qed

lemma keys_fold_inv:
  assumes inv: "conv_inv graph closures {i} st" and f: "foldM (addKeyTransition graph sets) [0..<128] st = Some st'"
    and sets: "length sets = 128" "\<forall>s \<in> set sets. distinct s \<and> set s \<subseteq> {..<length graph}"
  shows "keys_inv graph closures sets i st 128 st'"
proof (rule foldM_upt_preserves [OF f])
  show "keys_inv graph closures sets i st 0 st" using inv by (simp add: keys_inv_def)
  fix k u u' assume "k < 128" "keys_inv graph closures sets i st k u" "addKeyTransition graph sets k u = Some u'"
  moreover have "sets ! k \<in> set sets" using \<open>k < 128\<close> sets(1) by simp
  ultimately show "keys_inv graph closures sets i st (Suc k) u'"
    using sets(2) by (intro addKeyTransition_inv [of graph closures sets i st k u]) auto
qed

lemma node_windows:
  assumes d: "dfa_transitions d = pre @ L @ post"
    and len: "m_transitionsStart node = length pre" "m_transitionsLength node = length L"
  shows "node_transitions d node = L" "hasFallbackTransition node \<Longrightarrow> post = [(c, t)] \<Longrightarrow> node_fallback d node = Some t"
    "m_actionsStart node + m_actionsLength node \<le> length (dfa_actions d) \<Longrightarrow>
      (hasFallbackTransition node \<Longrightarrow> post \<noteq> []) \<Longrightarrow> node_in_range d node"
proof -
  show "node_transitions d node = L" unfolding node_transitions_def window_def d len by simp
  show "node_fallback d node = Some t" if "hasFallbackTransition node" "post = [(c, t)]"
    unfolding node_fallback_def d len using that by (simp add: nth_append)
  show "node_in_range d node" if "m_actionsStart node + m_actionsLength node \<le> length (dfa_actions d)"
    "hasFallbackTransition node \<Longrightarrow> post \<noteq> []"
    unfolding node_in_range_def d len using that by (cases post) auto
qed

definition finishNodeSet :: "NFANode list \<Rightarrow> nat list \<Rightarrow> nat \<Rightarrow> convert_state \<Rightarrow> convert_state option" where
  "finishNodeSet graph fallback i st =
     (if fallback = [] then Some st
      else do {
        ((dfa, table, unprocessedNodes), targetNodeId) \<leftarrow> getOrCreateDFANode fallback graph st;
        node \<leftarrow> vec_at (nodes dfa) i;
        (node, dfa) \<leftarrow> addFallbackTransition node dfa targetNodeId;
        Some (dfa\<lparr>nodes := (nodes dfa)[i := node]\<rparr>, table, unprocessedNodes)
      })"

lemma processNodeSet_eq:
  assumes "populateTransitions buffer graph closures = Some (sets, fb)"
    and "foldM (addKeyTransition graph sets) [0..<128] (d, table, un) = Some (d1, table1, un1)"
    and "dfa_transitions d1 = dfa_transitions d @ L" "i < length (nodes d1)"
  shows "processNodeSet graph closures (buffer, i) (d, table, un) = (if length L \<le> 127 then
    finishNodeSet graph fb i (d1\<lparr>nodes := (nodes d1)[i := node_setTransitions (length (dfa_transitions d)) (length L) (nodes d1 ! i)]\<rparr>,
      table1, un1) else None)"
  using assms by (simp add: processNodeSet_def finishNodeSet_def Let_def vec_simps)

text \<open>The node after \<^verbatim>\<open>setTransitions\<close>, and after \<^verbatim>\<open>addFallbackTransition\<close>.\<close>

definition ready :: "NFANode list \<Rightarrow> nat list list \<Rightarrow> nat list list \<Rightarrow> nat \<Rightarrow> (nat \<times> nat) list \<Rightarrow> (nat \<times> nat) list \<Rightarrow> convert_state \<Rightarrow> bool" where
  "ready graph closures sets i pre L = (\<lambda>(d, table, un). conv_inv graph closures {i} (d, table, un)
     \<and> dfa_transitions d = pre @ L \<and> map fst L = filter (\<lambda>c. sets ! c \<noteq> []) [0..<128]
     \<and> (\<forall>(c, t) \<in> set L. t < length table \<and> tsets table ! t = set (sets ! c)) \<and> i < length table
     \<and> m_transitionsStart (nodes d ! i) = length pre \<and> m_transitionsLength (nodes d ! i) = length L)"

lemma readyD:
  assumes "ready graph closures sets i pre L (d, table, un)"
  shows "conv_inv graph closures {i} (d, table, un)" "dfa_transitions d = pre @ L"
    "map fst L = filter (\<lambda>c. sets ! c \<noteq> []) [0..<128]"
    "\<forall>(c, t) \<in> set L. t < length table \<and> tsets table ! t = set (sets ! c)" "i < length table"
    "m_transitionsStart (nodes d ! i) = length pre" "m_transitionsLength (nodes d ! i) = length L"
    "i < length (nodes d)" "m_flags (nodes d ! i) = 0"
    "m_actionsStart (nodes d ! i) + m_actionsLength (nodes d ! i) \<le> length (dfa_actions d)"
  using assms by (auto simp: ready_def conv_inv_def node_inv_def act_ok_def)

lemma ready_done:
  assumes R: "ready graph closures sets i pre L (d, table, un)" and cov: "covers graph closures (tsets table ! i) sets {}"
  shows "conv_inv graph closures {} (d, table, un)"
proof -
  note r = readyD [OF R]
  have "node_transitions d (nodes d ! i) = L" "node_in_range d (nodes d ! i)"
    using node_windows [of d pre L "[]" "nodes d ! i"] r(2,6,7,9,10) by auto
  moreover have "node_fallback d (nodes d ! i) = None" using r(9) by (simp add: node_fallback_def)
  ultimately have "edge_ok graph closures (tsets table) d (nodes d ! i) (tsets table ! i)"
    using cov r(4) by (intro edge_ok_finish [OF r(3), where F = "{}"]) auto
  then show ?thesis using conv_inv_update [OF r(1), of "nodes d ! i" "{}"] r(9) by simp
qed

lemma ready_fallback:
  assumes R: "ready graph closures sets i pre L (d, table, un)"
    and cov: "covers graph closures (tsets table ! i) sets (set fb)" and fb: "distinct fb" "set fb \<subseteq> {..<length graph}"
    and step: "finishNodeSet graph fb i (d, table, un) = Some st'" "fb \<noteq> []"
  shows "conv_inv graph closures {} st' \<and> (\<exists>new. fst (snd st') = table @ new)"
proof -
  note r = readyD [OF R]
  let ?node = "(nodes d ! i)\<lparr>m_flags := m_flags (nodes d ! i) OR HasFallbackTransition\<rparr>"
  from step obtain d3 table3 un3 t where
    gc: "getOrCreateDFANode fb graph (d, table, un) = Some ((d3, table3, un3), t)"
    by (auto simp: finishNodeSet_def split: Option.bind_splits)
  note G = getOrCreateDFANode_correct [OF r(1) fb gc]
  obtain new3 where new3: "table3 = table @ new3" using G(4) by blast
  have n3: "nodes d3 ! i = nodes d ! i" "i < length (nodes d3)" using G(2) r(8) by (auto simp: dfa_ext_def nth_append)
  let ?d4 = "d3\<lparr>dfa_transitions := dfa_transitions d3 @ [(max_u8, t)]\<rparr>"
  have st': "st' = (?d4\<lparr>nodes := (nodes ?d4)[i := ?node]\<rparr>, table3, un3)"
    using step gc n3 G(3) r(2,6,7) by (simp add: finishNodeSet_def vec_simps addFallbackTransition_def)
  have hf: "hasFallbackTransition ?node" "\<not> isKilled ?node"
    by (simp_all add: hasFallbackTransition_def isKilled_def r(9) HasFallbackTransition_def IsKilled_def)
  have acts: "m_actionsStart ?node + m_actionsLength ?node \<le> length (dfa_actions ?d4)"
    using r(10) G(2) by (auto simp: dfa_ext_def)
  have "node_transitions ?d4 ?node = L" "node_fallback ?d4 ?node = Some t" "node_in_range ?d4 ?node"
    using node_windows [of ?d4 pre L "[(max_u8, t)]" ?node] G(3) r(2,6,7) hf(1) acts by auto
  moreover have "\<forall>(c, t) \<in> set L. t < length (tsets table3) \<and> tsets table3 ! t = set (sets ! c)"
    using r(4) by (auto simp: new3 nth_append)
  moreover have ti: "tsets table3 ! i = tsets table ! i" using r(5) by (simp add: new3 nth_append)
  ultimately have "edge_ok graph closures (tsets table3) ?d4 ?node (tsets table3 ! i)"
    using cov G(5,6) by (intro edge_ok_finish [OF r(3), where F = "set fb"]) auto
  then have "conv_inv graph closures {} (?d4\<lparr>nodes := (nodes ?d4)[i := ?node]\<rparr>, table3, un3)"
    using n3 hf(2) by (intro conv_inv_update [OF conv_inv_transitions [OF G(1)]]) auto
  then show ?thesis using new3 by (simp add: st')
qed

lemma finishNodeSet_correct:
  assumes "ready graph closures sets i pre L (d, table, un)" "covers graph closures (tsets table ! i) sets (set fb)"
    and "distinct fb" "set fb \<subseteq> {..<length graph}" "finishNodeSet graph fb i (d, table, un) = Some st'"
  shows "conv_inv graph closures {} st' \<and> (\<exists>new. fst (snd st') = table @ new)"
proof (cases "fb = []")
  case True
  then show ?thesis using ready_done [OF assms(1)] assms(2,5) by (auto simp: finishNodeSet_def)
next
  case False
  then show ?thesis using ready_fallback [OF assms] by simp
qed

text \<open>The sets of a processed node, bounded by the size of the graph.\<close>

lemma populateTransitions_bounded:
  assumes g: "graph_ok graph closures" and b: "set buffer \<subseteq> {..<length graph}"
  shows "\<exists>sets fb. populateTransitions buffer graph closures = Some (sets, fb) \<and> length sets = 128
    \<and> distinct fb \<and> set fb \<subseteq> {..<length graph} \<and> (\<forall>s \<in> set sets. distinct s \<and> set s \<subseteq> {..<length graph})
    \<and> covers graph closures (set buffer) sets (set fb)"
proof -
  obtain sets fb where s: "populateTransitions buffer graph closures = Some (sets, fb)" "length sets = 128"
    "distinct fb" "\<forall>s \<in> set sets. distinct s" and cov: "covers graph closures (set buffer) sets (set fb)"
    using populateTransitions_correct [OF g b] by blast
  have "set (sets ! c) \<subseteq> {..<length graph}" if "c < 128" for c
    using coversD(1) [OF cov that] next_set_bound [OF g b, of c] by (cases "sets ! c = []") auto
  moreover have "set fb \<subseteq> {..<length graph}"
    using coversD(2) [OF cov, of 200] next_set_bound [OF g b, of 200] by simp
  ultimately have "\<forall>s \<in> set sets. distinct s \<and> set s \<subseteq> {..<length graph}" "set fb \<subseteq> {..<length graph}"
    using s(2,4) by (metis in_set_conv_nth, simp)
  with s cov show ?thesis by blast
qed

lemma ready_setTransitions:
  assumes K: "keys_inv graph closures sets i (d, table, un) 128 (d1, table1, un1)" and L: "dfa_transitions d1 = dfa_transitions d @ L"
    and len: "length L \<le> 127" and i: "i < length table1"
  shows "ready graph closures sets i (dfa_transitions d) L
    (d1\<lparr>nodes := (nodes d1)[i := node_setTransitions (length (dfa_transitions d)) (length L) (nodes d1 ! i)]\<rparr>, table1, un1)"
proof -
  let ?node = "node_setTransitions (length (dfa_transitions d)) (length L) (nodes d1 ! i)"
  have inv: "conv_inv graph closures {i} (d1, table1, un1)" "map fst L = filter (\<lambda>c. sets ! c \<noteq> []) [0..<128]"
    "\<forall>(c, t) \<in> set L. t < length table1 \<and> tsets table1 ! t = set (sets ! c)"
    using K L by (auto simp: keys_inv_def)
  have n: "i < length (nodes d1)" "m_flags (nodes d1 ! i) = 0"
    using inv(1) i by (auto simp: conv_inv_def node_inv_def)
  have "m_flags ?node = 0" using n(2) by (simp add: node_setTransitions_def)
  then have "conv_inv graph closures {i} (d1\<lparr>nodes := (nodes d1)[i := ?node]\<rparr>, table1, un1)"
    by (intro conv_inv_update [OF inv(1)]) (simp_all add: node_setTransitions_def)
  then show ?thesis
    using inv(2,3) L len i n(1) by (simp add: ready_def node_setTransitions_def)
qed

lemma processNodeSet_correct:
  assumes g: "graph_ok graph closures" and inv: "conv_inv graph closures {i} (d, table, un)"
    and e: "(buffer, i) \<in> set table"
    and p: "processNodeSet graph closures (buffer, i) (d, table, un) = Some st'"
  shows "conv_inv graph closures {} st' \<and> (\<exists>new. fst (snd st') = table @ new)"
proof -
  have tab: "table_ok graph table" using inv by (simp add: conv_inv_def)
  have i: "i < length table" "table ! i = (buffer, i)" using table_ok_mem [OF tab e] by auto
  have b: "set buffer \<subseteq> {..<length graph}" using tab e by (auto simp: table_ok_def)
  obtain sets fb where s: "populateTransitions buffer graph closures = Some (sets, fb)" "length sets = 128"
    "distinct fb" "set fb \<subseteq> {..<length graph}" "\<forall>s \<in> set sets. distinct s \<and> set s \<subseteq> {..<length graph}"
    and cov: "covers graph closures (set buffer) sets (set fb)"
    using populateTransitions_bounded [OF g b] by blast
  obtain d1 table1 un1 where f: "foldM (addKeyTransition graph sets) [0..<128] (d, table, un) = Some (d1, table1, un1)"
    using p s(1) by (auto simp: processNodeSet_def Let_def split: Option.bind_splits)
  note K = keys_fold_inv [OF inv f s(2,5)]
  then obtain L new where L: "dfa_transitions d1 = dfa_transitions d @ L" "table1 = table @ new" "i < length (nodes d1)"
    using i(1) by (auto simp: keys_inv_def conv_inv_def)
  have t: "i < length table1" "tsets table1 ! i = set buffer" using i by (simp_all add: L(2) nth_append tsets_nth)
  let ?st = "(d1\<lparr>nodes := (nodes d1)[i := node_setTransitions (length (dfa_transitions d)) (length L) (nodes d1 ! i)]\<rparr>, table1, un1)"
  have "length L \<le> 127" "finishNodeSet graph fb i ?st = Some st'"
    using p unfolding processNodeSet_eq [OF s(1) f L(1,3)] by (simp_all split: if_splits)
  then show ?thesis
    using finishNodeSet_correct [OF ready_setTransitions [OF K L(1) _ t(1)] _ s(3,4)] cov t(2) L(2) by auto
qed

section \<open>The conversion\<close>

lemma convertLoop_correct:
  assumes "graph_ok graph closures" "conv_inv graph closures {} st" "convertLoop graph closures st = Some d'"
  shows "\<exists>table. conv_inv graph closures {} (d', fst (snd st) @ table, [])"
  using assms
proof (induction graph closures st rule: convertLoop.induct)
  case (1 graph closures st)
  obtain d table un where st: "st = (d, table, un)" by (cases st)
  from "1.prems"(3) obtain st' where un: "un \<noteq> []" and
    p: "processNodeSet graph closures (last un) (d, table, butlast un) = Some st'"
    and r: "(if snd (snd st') = [] then Some (fst st') else convertLoop graph closures st') = Some d'"
    by (subst (asm) convertLoop.simps) (auto simp: st split: if_splits option.splits)
  obtain b i where e: "last un = (b, i)" by fastforce
  have "conv_inv graph closures {i} (d, table, butlast un)" "(b, i) \<in> set table"
    using conv_inv_pop [of graph closures d table un] "1.prems"(2) un by (simp_all add: st e)
  then have inv': "conv_inv graph closures {} st'" "\<exists>new. fst (snd st') = table @ new"
    using processNodeSet_correct [OF "1.prems"(1)] p by (auto simp: e)
  show ?case
  proof (cases "snd (snd st') = []")
    case True
    then show ?thesis using inv' r by (cases st') (auto simp: st)
  next
    case False
    then have "\<exists>table. conv_inv graph closures {} (d', fst (snd st') @ table, [])"
      using "1.IH" [OF st [symmetric] refl un p False "1.prems"(1) inv'(1)] r
      by (metis (no_types, lifting) st)
    then show ?thesis using inv'(2) by (auto simp: st)
  qed
qed

lemma resolved_graph_ok:
  assumes wf: "\<And>node. node \<in> set graph0 \<Longrightarrow> node_wf (length graph0) node" and r: "resolved graph0 graph closures"
  shows "graph_ok graph closures"
proof -
  have len: "length graph = length graph0" "length closures = length graph0" using r by (auto simp: resolved_def)
  have star: "insert p (set (closures ! p)) = (eps_rel graph0)\<^sup>* `` {p}" if "p < length graph0" for p
    using r that by (simp add: resolved_def)
  have bound: "q < length graph0" if "p < length graph0" "q \<in> set (closures ! p)" for p q
    using eps_rel_bound [of graph0 p q] wf star [OF that(1)] that by blast
  have "node_wf (length graph) (graph ! p)" "\<forall>(c, S) \<in> set (transitions (graph ! p)). c < 128" if p: "p < length graph" for p
  proof -
    have n: "node_wf (length graph0) (graph0 ! p)" using wf p len(1) by simp
    have t: "transitions (graph ! p) = hm_remove 256 (transitions (graph0 ! p))"
      "transitionsOnAnyCharacter (graph ! p) = transitionsOnAnyCharacter (graph0 ! p)"
      using r p by (auto simp: resolved_def)
    show "node_wf (length graph) (graph ! p)"
      using n distinct_hm_remove [of "transitions (graph0 ! p)" 256] by (auto simp: node_wf_def t len(1) hm_remove_def)
    show "\<forall>(c, S) \<in> set (transitions (graph ! p)). c < 128"
      using n by (auto simp: node_wf_def t(1) hm_remove_def)
  qed
  moreover have "set (closures ! q) \<subseteq> insert p (set (closures ! p))" if "p < length graph" "q \<in> set (closures ! p)" for p q
  proof
    fix x assume x: "x \<in> set (closures ! q)"
    have q: "q < length graph0" "(p, q) \<in> (eps_rel graph0)\<^sup>*" using bound star [of p] that len(1) by auto
    have "(q, x) \<in> (eps_rel graph0)\<^sup>*" using star [OF q(1)] x by blast
    then have "x \<in> (eps_rel graph0)\<^sup>* `` {p}" using q(2) by (metis Image_singleton_iff rtrancl_trans)
    then show "x \<in> insert p (set (closures ! p))" using star [of p] that(1) len(1) by simp
  qed
  ultimately show ?thesis using len bound by (auto simp: graph_ok_def)
qed

section \<open>Words\<close>

definition reach :: "NFA \<Rightarrow> nat list \<Rightarrow> nat set" where
  "reach nfa w = {q. w \<in> node_lang nfa q}"

lemma eps_star_path:
  assumes "(p, q) \<in> (eps_rel (m_nodes nfa))\<^sup>*" "path (edges nfa) r w p"
  shows "path (edges nfa) r w q"
  using assms
proof induction
  case base
  then show ?case .
next
  case (step y z)
  show ?case
  proof (cases "y = z")
    case True
    with step show ?thesis by simp
  next
    case False
    with step.hyps(2) have "(y, None, z) \<in> edges nfa"
      by (cases "map_of (transitions (m_nodes nfa ! y)) 256") (auto simp: edges_def node_edge_def eps_rel_def epsilonSlot_def)
    then show ?thesis using step path_eps by blast
  qed
qed

lemma edge_eps: "(p, None, q) \<in> edges nfa \<Longrightarrow> (p, q) \<in> eps_rel (m_nodes nfa)"
  by (auto simp: edges_def node_edge_def eps_rel_def epsilonSlot_def)

text \<open>A path is a path to the node before the last character, that character, and epsilon steps.\<close>

lemma path_snoc:
  assumes "path E r v q" "v = w @ [c]" "E = edges nfa"
  shows "\<exists>p t. path E r w p \<and> (p, Some c, t) \<in> E \<and> (t, q) \<in> (eps_rel (m_nodes nfa))\<^sup>*"
  using assms
proof (induction arbitrary: w)
  case path_refl
  then show ?case by simp
next
  case (path_step v q a s)
  show ?case
  proof (cases a)
    case None
    then obtain p t where "path E r w p" "(p, Some c, t) \<in> E" "(t, q) \<in> (eps_rel (m_nodes nfa))\<^sup>*"
      using path_step by auto
    then show ?thesis using None path_step edge_eps by (metis rtrancl.rtrancl_into_rtrancl)
  next
    case (Some b)
    then show ?thesis using path_step by auto
  qed
qed

lemma path_Nil:
  assumes "path E r v q" "v = []" "E = edges nfa"
  shows "(r, q) \<in> (eps_rel (m_nodes nfa))\<^sup>*"
  using assms
proof induction
  case path_refl
  then show ?case by simp
next
  case (path_step v q a s)
  then show ?case by (cases a) (auto intro: rtrancl_into_rtrancl edge_eps)
qed

lemma cl_star:
  assumes "resolved graph0 graph closures" "A \<subseteq> {..<length graph0}"
  shows "cl closures A = (eps_rel graph0)\<^sup>* `` A"
proof -
  have "insert p (set (closures ! p)) = (eps_rel graph0)\<^sup>* `` {p}" if "p \<in> A" for p
    using assms that by (auto simp: resolved_def)
  then have "(\<Union>p \<in> A. insert p (set (closures ! p))) = (\<Union>p \<in> A. (eps_rel graph0)\<^sup>* `` {p})" by simp
  then show ?thesis by (auto simp: cl_def)
qed

lemma edge_targets:
  assumes r: "resolved (m_nodes nfa) graph closures" and p: "p < length (m_nodes nfa)" and wf: "nfa_wf nfa"
  shows "(p, Some c, t) \<in> edges nfa \<longleftrightarrow> t \<in> slot_targets graph c p \<union> (if c \<noteq> 0 then any_targets graph p else {})"
proof -
  have t: "transitions (graph ! p) = hm_remove 256 (transitions (m_nodes nfa ! p))"
    "transitionsOnAnyCharacter (graph ! p) = transitionsOnAnyCharacter (m_nodes nfa ! p)"
    using r p by (auto simp: resolved_def)
  have "node_wf (length (m_nodes nfa)) (m_nodes nfa ! p)" using wf p by (simp add: nfa_wf_def)
  then have "k < 128 \<or> k = 256" if "map_of (transitions (m_nodes nfa ! p)) k = Some S" for k S
    using map_of_SomeD [OF that] by (auto simp: node_wf_def)
  then have "(c < 128 \<and> (\<exists>S. map_of (transitions (m_nodes nfa ! p)) c = Some S \<and> t \<in> set S)) \<longleftrightarrow> t \<in> slot_targets graph c p"
    by (cases "map_of (transitions (m_nodes nfa ! p)) c") (auto simp: slot_targets_def t map_of_hm_remove)
  then show ?thesis using p by (auto simp: edges_def node_edge_def any_targets_def t)
qed

lemma reach_bound: "nfa_wf nfa \<Longrightarrow> reach nfa w \<subseteq> {..<length (m_nodes nfa)}"
proof -
  assume wf: "nfa_wf nfa"
  have "q < length (m_nodes nfa)" if "path (edges nfa) (m_root nfa) w q" for q
    using that
  proof cases
    case path_refl
    then show ?thesis using wf by (simp add: nfa_wf_def)
  next
    case (path_step w q a)
    then show ?thesis using edges_wf [OF wf] by blast
  qed
  then show ?thesis by (auto simp: reach_def node_lang_def)
qed

lemma reach_Nil:
  assumes "nfa_wf nfa" "resolved (m_nodes nfa) graph closures"
  shows "reach nfa [] = cl closures {m_root nfa}"
proof -
  have "{m_root nfa} \<subseteq> {..<length (m_nodes nfa)}" using assms(1) by (simp add: nfa_wf_def)
  note c = cl_star [OF assms(2) this]
  have "path (edges nfa) (m_root nfa) [] q \<longleftrightarrow> (m_root nfa, q) \<in> (eps_rel (m_nodes nfa))\<^sup>*" for q
    using path_Nil [of "edges nfa" "m_root nfa" "[]" q nfa] eps_star_path [OF _ path_refl] by blast
  then show ?thesis by (auto simp: reach_def node_lang_def c)
qed

lemma reach_snoc:
  assumes wf: "nfa_wf nfa" and r: "resolved (m_nodes nfa) graph closures"
  shows "reach nfa (w @ [c]) = next_set graph closures (reach nfa w) c"
proof -
  let ?E = "edges nfa" and ?R = "eps_rel (m_nodes nfa)"
  let ?T = "\<Union>p \<in> reach nfa w. slot_targets graph c p \<union> (if c \<noteq> 0 then any_targets graph p else {})"
  have pb: "p < length (m_nodes nfa)" if "p \<in> reach nfa w" for p using reach_bound [OF wf] that by blast
  have T: "t \<in> ?T \<longleftrightarrow> (\<exists>p. path ?E (m_root nfa) w p \<and> (p, Some c, t) \<in> ?E)" for t
    using edge_targets [OF r pb wf] by (auto simp: reach_def node_lang_def)
  then have "?T \<subseteq> {..<length (m_nodes nfa)}" using edges_wf [OF wf] by blast
  note star = cl_star [OF r this]
  have "path ?E (m_root nfa) (w @ [c]) q \<longleftrightarrow> q \<in> ?R\<^sup>* `` ?T" for q
  proof
    assume "path ?E (m_root nfa) (w @ [c]) q"
    then obtain p t where "path ?E (m_root nfa) w p" "(p, Some c, t) \<in> ?E" "(t, q) \<in> ?R\<^sup>*"
      using path_snoc [OF _ refl refl] by blast
    then show "q \<in> ?R\<^sup>* `` ?T" using T by blast
  next
    assume "q \<in> ?R\<^sup>* `` ?T"
    then obtain t where "t \<in> ?T" "(t, q) \<in> ?R\<^sup>*" by blast
    then show "path ?E (m_root nfa) (w @ [c]) q" using T eps_star_path path_chr by meson
  qed
  then have "reach nfa (w @ [c]) = ?R\<^sup>* `` ?T"
    unfolding reach_def [of nfa "w @ [c]"] node_lang_def by blast
  then show ?thesis unfolding next_set_def star .
qed

lemma conv_inv_run:
  assumes inv: "conv_inv graph closures {} (d, table, [])" and r: "resolved (m_nodes nfa) graph closures"
    and wf: "nfa_wf nfa" and 0: "tsets table ! 0 = reach nfa []" "table \<noteq> []"
  shows "step_ok (tsets table) (dfa_run d (root d) w) (reach nfa w)"
proof (induction w rule: rev_induct)
  case Nil
  then show ?case using inv 0 by (simp add: step_ok_def conv_inv_def)
next
  case (snoc c w)
  have len: "length (nodes d) = length table" using inv by (simp add: conv_inv_def)
  show ?case
  proof (cases "dfa_run d (root d) w")
    case None
    then have "reach nfa w = {}" using snoc by (simp add: step_ok_def)
    then show ?thesis using None by (simp add: dfa_run_append step_ok_def reach_snoc [OF wf r] next_set_def)
  next
    case (Some q)
    then have q: "q < length table" "tsets table ! q = reach nfa w" using snoc by (simp_all add: step_ok_def)
    then have "edge_ok graph closures (tsets table) d (nodes d ! q) (reach nfa w)"
      using inv by (auto simp: conv_inv_def node_inv_def)
    then have "step_ok (tsets table) (dfa_step d q c) (reach nfa (w @ [c]))"
      using q(1) len by (simp add: edge_ok_def dfa_step_def reach_snoc [OF wf r])
    then show ?thesis using Some by (cases "dfa_step d q c") (simp_all add: dfa_run_append)
  qed
qed

lemma conv_inv_wf:
  assumes "conv_inv graph closures {} (d, table, [])" "table \<noteq> []"
  shows "dfa_wf d"
proof -
  have len: "length (nodes d) = length table" "root d = 0" using assms(1) by (auto simp: conv_inv_def)
  have n: "\<not> isKilled (nodes d ! k)" "edge_ok graph closures (tsets table) d (nodes d ! k) (tsets table ! k)"
    if "k < length (nodes d)" for k using assms(1) that by (auto simp: conv_inv_def node_inv_def)
  have "dfa_node_wf d (nodes d ! k)" if "k < length (nodes d)" for k
    using n(2) [OF that] n(1) len by (auto simp: edge_ok_def dfa_node_wf_def)
  then show ?thesis using n(1) [of 0] len assms(2) by (auto simp: dfa_wf_def in_set_conv_nth)
qed

text \<open>The state in which the main loop starts, and the result of the conversion.\<close>

lemma convert_init:
  assumes wf: "nfa_wf nfa"
  obtains graph closures s where
    "resolveEpsilonClosures (m_nodes nfa) epsilonTransitionCharacter = Some (graph, closures)"
    "resolved (m_nodes nfa) graph closures" "graph_ok graph closures"
    "extendSetWithClosure closures (m_root nfa) [m_root nfa] = Some s" "set s \<subseteq> {..<length graph}"
    "\<And>d entry. translate graph s new_DFA = Some (d, entry) \<Longrightarrow>
       conv_inv graph closures {} (d, [entry], [entry]) \<and> set (fst entry) = reach nfa []"
proof -
  have nwf: "\<And>node. node \<in> set (m_nodes nfa) \<Longrightarrow> node_wf (length (m_nodes nfa)) node" and root: "m_root nfa < length (m_nodes nfa)"
    using wf by (auto simp: nfa_wf_def)
  obtain graph closures where rc: "resolveEpsilonClosures (m_nodes nfa) epsilonTransitionCharacter = Some (graph, closures)"
    and r: "resolved (m_nodes nfa) graph closures" using resolveEpsilonClosures_correct [OF nwf] by blast
  have g: "graph_ok graph closures" by (rule resolved_graph_ok [OF nwf r])
  have len: "length graph = length (m_nodes nfa)" "length closures = length graph" using r by (auto simp: resolved_def)
  obtain s where s: "extendSetWithClosure closures (m_root nfa) [m_root nfa] = Some s" "distinct s"
    "set s = cl closures {m_root nfa}"
    using root len by (auto simp: extendSetWithClosure_def vec_simps cl_def hs_simps)
  have sb: "set s \<subseteq> {..<length graph}" using cl_bound [OF g, of "{m_root nfa}"] s(3) root len by auto
  have "conv_inv graph closures {} (d, [entry], [entry]) \<and> set (fst entry) = reach nfa []"
    if t: "translate graph s new_DFA = Some (d, entry)" for d entry
  proof -
    note T = translate_correct [OF t sb]
    obtain node where node: "nodes d = nodes new_DFA @ [node]" "act_ok graph d node (set s)" "m_flags node = 0"
      using T(4) by blast
    have "conv_inv graph closures {} (new_DFA, [], [])" by (simp add: conv_inv_def table_ok_def new_DFA_def)
    then have "conv_inv graph closures {} (d, [] @ [entry], [] @ [entry])"
      using T(1) s(2) sb by (intro conv_inv_new_entry [OF _ T(2) _ _ _ node]) (auto simp: new_DFA_def)
    then show ?thesis using T(1) s(3) reach_Nil [OF wf r] by simp
  qed
  then show thesis using that rc r g s(1) sb by blast
qed

lemma convert_correct:
  assumes wf: "nfa_wf nfa" and c: "convert nfa = Some d"
  obtains graph closures table where "resolved (m_nodes nfa) graph closures" "conv_inv graph closures {} (d, table, [])"
    "tsets table ! 0 = reach nfa []" "table \<noteq> []"
proof -
  obtain graph closures s where i:
    "resolveEpsilonClosures (m_nodes nfa) epsilonTransitionCharacter = Some (graph, closures)"
    "resolved (m_nodes nfa) graph closures" "graph_ok graph closures"
    "extendSetWithClosure closures (m_root nfa) [m_root nfa] = Some s"
    "\<And>d entry. translate graph s new_DFA = Some (d, entry) \<Longrightarrow>
       conv_inv graph closures {} (d, [entry], [entry]) \<and> set (fst entry) = reach nfa []"
    using convert_init [OF wf] by metis
  from c obtain d0 entry where t: "translate graph s new_DFA = Some (d0, entry)"
    and l: "convertLoop graph closures (d0, [entry], [entry]) = Some d"
    by (auto simp: convert_def i(1,4) split: Option.bind_splits)
  obtain table where "conv_inv graph closures {} (d, [entry] @ table, [])"
    using convertLoop_correct [OF i(3) _ l] i(5) [OF t] by auto
  moreover have "tsets ([entry] @ table) ! 0 = reach nfa []" using i(5) [OF t] by (simp add: tsets_def)
  ultimately show thesis using i(2) that by blast
qed

lemma convert_wf: "nfa_wf nfa \<Longrightarrow> convert nfa = Some d \<Longrightarrow> dfa_wf d"
  by (metis convert_correct conv_inv_wf)

lemma convert_run:
  assumes "nfa_wf nfa" "convert nfa = Some d"
  shows "case dfa_run d (root d) w of
      None \<Rightarrow> \<forall>q. w \<notin> node_lang nfa q
    | Some k \<Rightarrow> k < length (nodes d) \<and> state_actions d k = (\<Union>q \<in> {q. w \<in> node_lang nfa q}. set (finals nfa q))"
proof -
  obtain graph closures table where c: "resolved (m_nodes nfa) graph closures" "conv_inv graph closures {} (d, table, [])"
    "tsets table ! 0 = reach nfa []" "table \<noteq> []" using convert_correct [OF assms] by blast
  note s = conv_inv_run [OF c(2,1) assms(1) c(3,4), of w]
  show ?thesis
  proof (cases "dfa_run d (root d) w")
    case None
    then show ?thesis using s by (auto simp: step_ok_def reach_def)
  next
    case (Some k)
    then have k: "k < length table" "tsets table ! k = reach nfa w" using s by (simp_all add: step_ok_def)
    then have "k < length (nodes d)" "act_ok graph d (nodes d ! k) (reach nfa w)"
      using c(2) by (auto simp: conv_inv_def node_inv_def)
    moreover have "set (finalRuleIds (graph ! q)) = set (finals nfa q)" if "q \<in> reach nfa w" for q
      using that reach_bound [OF assms(1)] c(1) by (force simp: resolved_def finals_def)
    ultimately show ?thesis using Some by (simp add: act_ok_def state_actions_def) (simp add: reach_def)
  qed
qed

section \<open>The conversion returns\<close>

text \<open>
  The release assertions bound the number of actions of a node and the number of its transitions
  other than the fallback one. They hold when there are at most 65535 rules and some character has
  no transition of its own anywhere in the NFA.
\<close>

definition fits :: "NFANode list \<Rightarrow> bool" where
  "fits graph \<longleftrightarrow> card (\<Union>node \<in> set graph. set (finalRuleIds node)) \<le> 65535
     \<and> (\<exists>c < 128. \<forall>node \<in> set graph. c \<notin> fst ` set (transitions node))"

lemma translate_total:
  assumes "fits graph" "set s \<subseteq> {..<length graph}"
  shows "\<exists>r. translate graph s d = Some r"
proof -
  obtain acts where a: "foldM (\<lambda>nfaNodeId acts. do { nfaNode \<leftarrow> vec_at graph nfaNodeId;
       Some (hs_addAll (finalRuleIds nfaNode) acts) }) s [] = Some acts"
     "set acts = (\<Union>p \<in> set s. set (finalRuleIds (graph ! p)))" "distinct acts"
    using foldM_actions [OF assms(2), of "[]"] by auto
  have "set acts \<subseteq> (\<Union>node \<in> set graph. set (finalRuleIds node))" using a(2) assms(2) by fastforce
  then have "card (set acts) \<le> card (\<Union>node \<in> set graph. set (finalRuleIds node))" by (intro card_mono) auto
  then have "length acts \<le> 65535" using assms(1) distinct_card [OF a(3)] by (simp add: fits_def)
  then show ?thesis using a(1) by (simp add: translate_def Let_def)
qed

lemma getOrCreateDFANode_total:
  assumes "fits graph" "set s \<subseteq> {..<length graph}"
  shows "\<exists>r. getOrCreateDFANode s graph st = Some r"
proof -
  obtain d table un where st: "st = (d, table, un)" by (cases st)
  obtain d' e where "translate graph s d = Some (d', e)" using translate_total [OF assms, of d] by fastforce
  then show ?thesis by (cases "findNodeSet s table") (auto simp: getOrCreateDFANode_def st)
qed

lemma addKeyTransition_total:
  assumes "fits graph" "set (sets ! k) \<subseteq> {..<length graph}"
  shows "\<exists>st'. addKeyTransition graph sets k st = Some st'"
proof -
  obtain d table un t where "getOrCreateDFANode (sets ! k) graph st = Some ((d, table, un), t)"
    using getOrCreateDFANode_total [OF assms, of st] by auto
  then show ?thesis by (cases st) (simp add: addKeyTransition_def)
qed

lemma foldM_total: "(\<And>x u. x \<in> set xs \<Longrightarrow> \<exists>u'. f x u = Some u') \<Longrightarrow> \<exists>t. foldM f xs s = Some t"
proof (induction xs arbitrary: s)
  case (Cons x xs)
  then obtain u where "f x s = Some u" by (meson list.set_intros(1))
  then show ?case using Cons by simp
qed simp

lemma finishNodeSet_total:
  assumes R: "ready graph closures sets i pre L (d, table, un)" and fb: "distinct fb" "set fb \<subseteq> {..<length graph}"
    and "fits graph"
  shows "\<exists>st'. finishNodeSet graph fb i (d, table, un) = Some st'"
proof -
  note r = readyD [OF R]
  obtain d3 table3 un3 t where gc: "getOrCreateDFANode fb graph (d, table, un) = Some ((d3, table3, un3), t)"
    using getOrCreateDFANode_total [OF assms(4) fb(2), of "(d, table, un)"] by auto
  note G = getOrCreateDFANode_correct [OF r(1) fb gc]
  have "nodes d3 ! i = nodes d ! i" "i < length (nodes d3)" using G(2) r(8) by (auto simp: dfa_ext_def nth_append)
  then show ?thesis
    using gc G(3) r(2,6,7) by (simp add: finishNodeSet_def vec_simps addFallbackTransition_def)
qed

lemma missing_key_bound:
  assumes "map fst L = filter (\<lambda>c. sets ! c \<noteq> []) [0..<128]" "c0 < 128" "sets ! c0 = []"
  shows "length L \<le> 127"
proof -
  have "length L = card {c. c < 128 \<and> sets ! c \<noteq> []}"
    using distinct_card [of "filter (\<lambda>c. sets ! c \<noteq> []) [0..<128]"] assms(1) length_map [of fst L]
    by (simp add: conj_commute)
  also have "\<dots> \<le> card ({..<128} - {c0})" using assms(3) by (intro card_mono) auto
  also have "\<dots> = 127" using assms(2) by simp
  finally show ?thesis .
qed

lemma processNodeSet_total:
  assumes g: "graph_ok graph closures" and f: "fits graph" and inv: "conv_inv graph closures {i} (d, table, un)"
    and e: "(buffer, i) \<in> set table"
  shows "\<exists>st'. processNodeSet graph closures (buffer, i) (d, table, un) = Some st'"
proof -
  have tab: "table_ok graph table" using inv by (simp add: conv_inv_def)
  have i: "i < length table" using table_ok_mem [OF tab e] by auto
  have b: "set buffer \<subseteq> {..<length graph}" using tab e by (auto simp: table_ok_def)
  obtain sets fb where s: "populateTransitions buffer graph closures = Some (sets, fb)" "length sets = 128"
    "distinct fb" "set fb \<subseteq> {..<length graph}" "\<forall>s \<in> set sets. distinct s \<and> set s \<subseteq> {..<length graph}"
    and cov: "covers graph closures (set buffer) sets (set fb)"
    using populateTransitions_bounded [OF g b] by blast
  have "\<exists>st'. foldM (addKeyTransition graph sets) [0..<128] (d, table, un) = Some st'"
    using s(2,5) by (intro foldM_total addKeyTransition_total [OF f]) auto
  then obtain d1 table1 un1 where k: "foldM (addKeyTransition graph sets) [0..<128] (d, table, un) = Some (d1, table1, un1)"
    by auto
  note K = keys_fold_inv [OF inv k s(2,5)]
  then obtain L new where L: "dfa_transitions d1 = dfa_transitions d @ L" "table1 = table @ new" "i < length (nodes d1)"
    "map fst L = filter (\<lambda>c. sets ! c \<noteq> []) [0..<128]"
    using i(1) by (auto simp: keys_inv_def conv_inv_def)
  obtain c0 where c0: "c0 < 128" "\<forall>node \<in> set graph. c0 \<notin> fst ` set (transitions node)" using f by (auto simp: fits_def)
  have "map_of (transitions (graph ! p)) c0 = None" if "p \<in> set buffer" for p
    using that b c0(2) nth_mem [of p graph] unfolding map_of_eq_None_iff by blast
  then have "sets ! c0 = []" using coversD(4) [OF cov c0(1)] by (auto simp: slot_targets_def)
  then have len: "length L \<le> 127" by (rule missing_key_bound [OF L(4) c0(1)])
  have "i < length table1" using i L(2) by simp
  from finishNodeSet_total [OF ready_setTransitions [OF K L(1) len this] s(3,4) f] show ?thesis
    unfolding processNodeSet_eq [OF s(1) k L(1,3)] using len by simp
qed

lemma convertLoop_total:
  assumes "graph_ok graph closures" "fits graph" "conv_inv graph closures {} st" "snd (snd st) \<noteq> []"
  shows "\<exists>d'. convertLoop graph closures st = Some d'"
  using assms
proof (induction graph closures st rule: convertLoop.induct)
  case (1 graph closures st)
  obtain d table un where st: "st = (d, table, un)" by (cases st)
  have un: "un \<noteq> []" using "1.prems"(4) by (simp add: st)
  obtain b i where e: "last un = (b, i)" by fastforce
  have inv: "conv_inv graph closures {i} (d, table, butlast un)" "(b, i) \<in> set table"
    using conv_inv_pop [of graph closures d table un] "1.prems"(3) un by (simp_all add: st e)
  obtain st' where p: "processNodeSet graph closures (last un) (d, table, butlast un) = Some st'"
    using processNodeSet_total [OF "1.prems"(1,2) inv] by (auto simp: e)
  have inv': "conv_inv graph closures {} st'"
    using processNodeSet_correct [OF "1.prems"(1) inv] p by (auto simp: e)
  show ?case
  proof (cases "snd (snd st') = []")
    case True
    then show ?thesis using un p by (subst convertLoop.simps) (simp add: st)
  next
    case False
    then have "\<exists>d'. convertLoop graph closures st' = Some d'"
      using "1.IH" [OF st [symmetric] refl un p False "1.prems"(1,2) inv'] by blast
    then show ?thesis using un p False by (subst convertLoop.simps) (simp add: st)
  qed
qed

lemma fits_resolved: "resolved graph0 graph closures \<Longrightarrow> fits graph0 \<Longrightarrow> fits graph"
proof -
  assume r: "resolved graph0 graph closures" and f: "fits graph0"
  have len: "length graph = length graph0" using r by (simp add: resolved_def)
  have n: "finalRuleIds (graph ! p) = finalRuleIds (graph0 ! p)"
    "fst ` set (transitions (graph ! p)) \<subseteq> fst ` set (transitions (graph0 ! p))" if "p < length graph0" for p
    using r that by (auto simp: resolved_def hm_remove_def)
  have "map finalRuleIds graph = map finalRuleIds graph0" using n(1) len by (intro nth_equalityI) auto
  then have "finalRuleIds ` set graph = finalRuleIds ` set graph0" by (metis list.set_map)
  then have "\<Union>(set ` finalRuleIds ` set graph) = \<Union>(set ` finalRuleIds ` set graph0)" by simp
  then have "(\<Union>node \<in> set graph. set (finalRuleIds node)) = (\<Union>node \<in> set graph0. set (finalRuleIds node))"
    by (simp only: image_image)
  moreover have "c \<notin> fst ` set (transitions node)"
    if c: "\<forall>node \<in> set graph0. c \<notin> fst ` set (transitions node)" and mem: "node \<in> set graph" for c node
  proof -
    obtain p where "p < length graph0" "node = graph ! p" using mem len by (auto simp: in_set_conv_nth)
    then show ?thesis using n(2) [of p] c nth_mem [of p graph0] by blast
  qed
  ultimately show "fits graph" using f unfolding fits_def by metis
qed

lemma convert_total:
  assumes wf: "nfa_wf nfa" and f: "fits (m_nodes nfa)"
  shows "\<exists>d. convert nfa = Some d"
proof -
  obtain graph closures s where i:
    "resolveEpsilonClosures (m_nodes nfa) epsilonTransitionCharacter = Some (graph, closures)"
    "resolved (m_nodes nfa) graph closures" "graph_ok graph closures"
    "extendSetWithClosure closures (m_root nfa) [m_root nfa] = Some s" "set s \<subseteq> {..<length graph}"
    "\<And>d entry. translate graph s new_DFA = Some (d, entry) \<Longrightarrow>
       conv_inv graph closures {} (d, [entry], [entry]) \<and> set (fst entry) = reach nfa []"
    using convert_init [OF wf] by metis
  have f': "fits graph" by (rule fits_resolved [OF i(2) f])
  obtain d0 entry where t: "translate graph s new_DFA = Some (d0, entry)"
    using translate_total [OF f' i(5), of new_DFA] by fastforce
  have "\<exists>d. convertLoop graph closures (d0, [entry], [entry]) = Some d"
    using convertLoop_total [OF i(3) f', of "(d0, [entry], [entry])"] i(6) [OF t] by simp
  then show ?thesis by (simp add: convert_def i(1,4) t)
qed

section \<open>Correctness of the conversion\<close>

text \<open>C5.
  When \<^verbatim>\<open>NFAToDFA::convert\<close> returns on a well-formed NFA, the DFA is well formed, and after
  every word it is in a node whose actions are exactly the rule identifiers of the NFA nodes that the
  word reaches, or has stopped and then the word reaches no NFA node.
\<close>

theorem convert_equivalent:
  assumes "nfa_wf nfa" "convert nfa = Some dfa"
  shows "dfa_wf dfa \<and> (\<forall>w. case dfa_run dfa (root dfa) w of
      None \<Rightarrow> \<forall>q. w \<notin> node_lang nfa q
    | Some k \<Rightarrow> k < length (nodes dfa) \<and> state_actions dfa k = (\<Union>q \<in> {q. w \<in> node_lang nfa q}. set (finals nfa q)))"
  using convert_wf [OF assms] convert_run [OF assms] by blast

theorem convert_equivalent_witness:
  "\<exists>dfa. convert new_NFA = Some dfa \<and> dfa_wf dfa"
proof -
  have "fits (m_nodes new_NFA)" by (auto simp: fits_def new_NFA_def createNode_def new_NFANode_def intro: exI [of _ 0])
  then obtain dfa where "convert new_NFA = Some dfa" using convert_total [OF new_NFA_wf(1)] by blast
  then show ?thesis using convert_equivalent [OF new_NFA_wf(1)] by blast
qed

text \<open>C7.
  The conversion returns, and trips no release assertion, on every well-formed NFA with at most 65535
  rules in which some character has no transition of its own.
\<close>

theorem convert_terminates:
  assumes "nfa_wf nfa" "fits (m_nodes nfa)"
  shows "\<exists>dfa. convert nfa = Some dfa"
  using convert_total [OF assms] .

theorem convert_terminates_witness: "\<exists>dfa. convert new_NFA = Some dfa"
proof -
  have "fits (m_nodes new_NFA)" by (auto simp: fits_def new_NFA_def createNode_def new_NFANode_def intro: exI [of _ 0])
  then show ?thesis by (rule convert_terminates [OF new_NFA_wf(1)])
qed

end
