(* ===== verification/TransitionSimplification.thy ===== *)
theory TransitionSimplification
  imports DFAMinimizer
begin

text \<open>
  The function \<^verbatim>\<open>simplifyTransitions\<close> of \<^verbatim>\<open>Source/WebCore/contentextensions/DFAMinimizer.cpp\<close>: it rewrites the window of
  every node in place. The nodes keep their actions and fallbacks and lose the transitions to the fallback.
\<close>

section \<open>Windows that are rewritten in place\<close>

definition transition_slots :: "DFANode \<Rightarrow> nat set" where
  "transition_slots node = {m_transitionsStart node..<m_transitionsStart node + m_transitionsLength node
     + (if hasFallbackTransition node then 1 else 0)}"

definition action_slots :: "DFANode \<Rightarrow> nat set" where
  "action_slots node = {m_actionsStart node..<m_actionsStart node + m_actionsLength node}"

text \<open>The windows of different nodes do not overlap.\<close>

definition dfa_layout :: "DFA \<Rightarrow> bool" where
  "dfa_layout dfa \<longleftrightarrow> (\<forall>i < length (nodes dfa). \<forall>j < length (nodes dfa). i \<noteq> j \<longrightarrow>
     transition_slots (nodes dfa ! i) \<inter> transition_slots (nodes dfa ! j) = {} \<and> action_slots (nodes dfa ! i) \<inter> action_slots (nodes dfa ! j) = {})"

definition same_outside :: "nat set \<Rightarrow> 'a list \<Rightarrow> 'a list \<Rightarrow> bool" where
  "same_outside S xs ys \<longleftrightarrow> length ys = length xs \<and> (\<forall>j < length xs. j \<notin> S \<longrightarrow> ys ! j = xs ! j)"

lemma same_outside_refl: "same_outside S xs xs"
  by (simp add: same_outside_def)

lemma same_outside_trans: "same_outside S xs ys \<Longrightarrow> same_outside S ys zs \<Longrightarrow> same_outside S xs zs"
  by (simp add: same_outside_def)

lemma same_outside_set: "j \<in> S \<Longrightarrow> same_outside S xs (xs[j := v])"
  unfolding same_outside_def by (metis length_list_update nth_list_update_neq)

lemma window_outside:
  assumes "same_outside S xs ys" "{s..<s + l} \<inter> S = {}" "s + l \<le> length xs"
  shows "window ys s l = window xs s l"
proof (rule nth_equalityI)
  show "length (window ys s l) = length (window xs s l)" using assms by (simp add: same_outside_def)
  fix k assume "k < length (window ys s l)"
  then have k: "k < l" using assms by (simp add: same_outside_def)
  then have "s + k \<in> {s..<s + l}" by simp
  then have "s + k \<notin> S" using assms(2) by blast
  then show "window ys s l ! k = window xs s l ! k" using assms k by (simp add: same_outside_def window_nth)
qed

text \<open>What is written outside the slots of a node does not change it.\<close>

lemma node_outside:
  assumes "same_outside S (dfa_transitions dfa) (dfa_transitions dfa')" "transition_slots node \<inter> S = {}" "node_in_range dfa node"
  shows "node_transitions dfa' node = node_transitions dfa node" "node_fallback dfa' node = node_fallback dfa node"
proof -
  have "{m_transitionsStart node..<m_transitionsStart node + m_transitionsLength node} \<subseteq> transition_slots node" by (auto simp: transition_slots_def)
  then show "node_transitions dfa' node = node_transitions dfa node"
    unfolding node_transitions_def using assms by (intro window_outside [OF assms(1)]) (auto simp: node_in_range_def)
  show "node_fallback dfa' node = node_fallback dfa node"
  proof (cases "hasFallbackTransition node")
    case True
    let ?e = "m_transitionsStart node + m_transitionsLength node"
    have "?e \<in> transition_slots node" using True by (simp add: transition_slots_def)
    then have "?e \<notin> S" using assms(2) by blast
    moreover have "?e < length (dfa_transitions dfa)" using assms(3) True by (simp add: node_in_range_def)
    ultimately show ?thesis using assms(1) by (simp add: node_fallback_def same_outside_def)
  qed (simp add: node_fallback_def)
qed

lemma actions_outside:
  assumes "same_outside S (dfa_actions dfa) (dfa_actions dfa')" "action_slots node \<inter> S = {}" "node_in_range dfa node"
  shows "node_actions dfa' node = node_actions dfa node"
  unfolding node_actions_def using assms by (intro window_outside [OF assms(1)]) (auto simp: node_in_range_def action_slots_def)

text \<open>A loop that writes a range.\<close>

lemma write_range:
  "first + b \<le> length tr \<or> b \<le> a \<Longrightarrow> \<exists>tr'. foldM (\<lambda>k tr. vec_set tr (first + k) (v k)) [a..<b] tr = Some tr' \<and> length tr' = length tr
     \<and> (\<forall>j < length tr. tr' ! j = (if first + a \<le> j \<and> j < first + b then v (j - first) else tr ! j))"
proof (induction b)
  case 0
  have "\<not> (first + a \<le> j \<and> j < first + 0)" for j by linarith
  then show ?case by (simp only: if_False) simp
next
  case (Suc b)
  show ?case
  proof (cases "Suc b \<le> a")
    case True
    then show ?thesis by auto
  next
    case False
    then have b: "first + b < length tr" "a \<le> b" using Suc.prems by auto
    then obtain tr' where tr': "foldM (\<lambda>k tr. vec_set tr (first + k) (v k)) [a..<b] tr = Some tr'" "length tr' = length tr"
      "\<forall>j < length tr. tr' ! j = (if first + a \<le> j \<and> j < first + b then v (j - first) else tr ! j)"
      using Suc.IH by auto
    have "foldM (\<lambda>k tr. vec_set tr (first + k) (v k)) [a..<Suc b] tr = Some (tr'[first + b := v b])"
      using tr'(1,2) b by (simp add: foldM_append vec_simps)
    moreover have "tr'[first + b := v b] ! j = (if first + a \<le> j \<and> j < first + Suc b then v (j - first) else tr ! j)"
      if "j < length tr" for j
    proof (cases "j = first + b")
      case True
      then show ?thesis using tr'(2) b by simp
    next
      case False
      then have "j < first + Suc b \<longleftrightarrow> j < first + b" by linarith
      then show ?thesis using tr'(3) that False by simp
    qed
    ultimately show ?thesis using tr'(2) by simp
  qed
qed

section \<open>One node\<close>

definition simplified :: "nat option \<Rightarrow> (nat \<times> nat) list \<Rightarrow> (nat \<times> nat) list" where
  "simplified fallback ts = (case fallback of None \<Rightarrow> ts | Some d \<Rightarrow> filter (\<lambda>t. snd t \<noteq> d) ts)"

text \<open>
  The nodes that get a new fallback: those without one that have transitions on all characters but one besides the
  terminator.
\<close>

definition one_missing :: "DFA \<Rightarrow> DFANode \<Rightarrow> bool" where
  "one_missing dfa node \<longleftrightarrow> \<not> hasFallbackTransition node
     \<and> (m_transitionsLength node = 126 \<and> 0 \<notin> fst ` set (node_transitions dfa node)
      \<or> m_transitionsLength node = 127 \<and> 0 \<in> fst ` set (node_transitions dfa node))"

lemma containsTransitionFrom_eq:
  "start + len \<le> length ts \<Longrightarrow> containsTransitionFrom ts c start len = Some (c \<in> fst ` set (window ts start len))"
proof (induction len arbitrary: start)
  case 0
  show ?case by (simp add: window_def)
next
  case (Suc len)
  have w: "window ts start (Suc len) = ts ! start # window ts (Suc start) len"
    using Suc.prems by (simp add: window_def flip: Cons_nth_drop_Suc)
  show ?case using Suc by (auto simp: w vec_simps)
qed

lemma containsTransition_eq:
  "node_in_range dfa node \<Longrightarrow> containsTransition node c dfa = Some (c \<in> fst ` set (node_transitions dfa node))"
  by (simp add: containsTransition_def node_transitions_def containsTransitionFrom_eq node_in_range_def split: if_splits)

lemma newFallback_none:
  "node_in_range dfa node \<Longrightarrow> \<not> one_missing dfa node \<Longrightarrow> newFallback node dfa = Some max_u32"
  by (auto simp: newFallback_def one_missing_def containsTransition_eq)

text \<open>The effect of an operation on one node: its window is rewritten, the rest of the automaton is kept.\<close>

definition rewritten :: "nat \<Rightarrow> DFA \<Rightarrow> DFA \<Rightarrow> bool" where
  "rewritten i dfa dfa' \<longleftrightarrow> root dfa' = root dfa \<and> dfa_actions dfa' = dfa_actions dfa
     \<and> length (nodes dfa') = length (nodes dfa) \<and> (\<forall>j < length (nodes dfa). j \<noteq> i \<longrightarrow> nodes dfa' ! j = nodes dfa ! j)
     \<and> same_outside (transition_slots (nodes dfa ! i)) (dfa_transitions dfa) (dfa_transitions dfa')
     \<and> transition_slots (nodes dfa' ! i) \<subseteq> transition_slots (nodes dfa ! i)
     \<and> (node_in_range dfa (nodes dfa ! i) \<longrightarrow> node_in_range dfa' (nodes dfa' ! i))
     \<and> m_actionsStart (nodes dfa' ! i) = m_actionsStart (nodes dfa ! i)
     \<and> m_actionsLength (nodes dfa' ! i) = m_actionsLength (nodes dfa ! i)
     \<and> isKilled (nodes dfa' ! i) = isKilled (nodes dfa ! i)
     \<and> hasFallbackTransition (nodes dfa' ! i) = hasFallbackTransition (nodes dfa ! i)"

lemma flag_nodes [simp]:
  "isKilled (node\<lparr>m_flags := m_flags node OR HasFallbackTransition\<rparr>) = isKilled node"
  "isKilled (node\<lparr>m_flags := m_flags node AND NOT HasFallbackTransition\<rparr>) = isKilled node"
  by (simp_all add: isKilled_def)

text \<open>A node that has or gets the fallback \<open>t\<close>: the transitions to \<open>t\<close> leave its window.\<close>

lemma simplifyNode_fallback:
  assumes i: "i < length (nodes dfa)" and r: "node_in_range dfa (nodes dfa ! i)" and l: "m_transitionsLength (nodes dfa ! i) < 256"
    and added: "newFallback (nodes dfa ! i) dfa = Some added"
    and t: "t = (if added = max_u32 then (case node_fallback dfa (nodes dfa ! i) of None \<Rightarrow> max_u32 | Some d \<Rightarrow> d) else added)" "t \<noteq> max_u32"
    and room: "length (filter (\<lambda>x. snd x \<noteq> t) (node_transitions dfa (nodes dfa ! i))) + 1
      \<le> m_transitionsLength (nodes dfa ! i) + (if hasFallbackTransition (nodes dfa ! i) then 1 else 0)"
  shows "\<exists>dfa'. simplifyNode i dfa = Some dfa' \<and> root dfa' = root dfa \<and> dfa_actions dfa' = dfa_actions dfa
    \<and> (\<exists>node'. nodes dfa' = (nodes dfa)[i := node'] \<and> m_actionsStart node' = m_actionsStart (nodes dfa ! i)
         \<and> m_actionsLength node' = m_actionsLength (nodes dfa ! i) \<and> isKilled node' = isKilled (nodes dfa ! i)
         \<and> hasFallbackTransition node' \<and> transition_slots node' \<subseteq> transition_slots (nodes dfa ! i) \<and> node_in_range dfa' node'
         \<and> node_transitions dfa' node' = filter (\<lambda>x. snd x \<noteq> t) (node_transitions dfa (nodes dfa ! i))
         \<and> node_fallback dfa' node' = Some t)
    \<and> same_outside (transition_slots (nodes dfa ! i)) (dfa_transitions dfa) (dfa_transitions dfa')"
proof -
  let ?node = "nodes dfa ! i" and ?tr = "dfa_transitions dfa"
  let ?s = "m_transitionsStart ?node" and ?len = "m_transitionsLength ?node"
  let ?own = "node_transitions dfa ?node"
  let ?avail = "?len + (if hasFallbackTransition ?node then 1 else 0)"
  let ?own' = "filter (\<lambda>x. snd x \<noteq> t) ?own"
  let ?l' = "length ?own'"
  have len: "length ?own = ?len" "?s + ?avail \<le> length ?tr"
    using r by (simp_all add: node_transitions_def node_in_range_def split: if_splits)
  have l': "?l' \<le> ?len" using len(1) length_filter_le [of _ ?own] by simp
  obtain tr1 where tr1: "foldM (\<lambda>k tr. vec_set tr (?s + k) (?own' ! k)) [0..<?l'] ?tr = Some tr1" "length tr1 = length ?tr"
    "\<forall>j < length ?tr. tr1 ! j = (if ?s + 0 \<le> j \<and> j < ?s + ?l' then ?own' ! (j - ?s) else ?tr ! j)"
    using write_range [of ?s ?l' ?tr 0 "\<lambda>k. ?own' ! k"] room len(2) by fastforce
  have "?s + ?avail \<le> length tr1 \<or> ?avail \<le> ?l'" using len(2) tr1(2) by simp
  from write_range [OF this, of "\<lambda>k. (max_u8, max_u32)"] obtain tr2 where
    tr2: "foldM (\<lambda>k tr. vec_set tr (?s + k) (max_u8, max_u32)) [?l'..<?avail] tr1 = Some tr2" "length tr2 = length tr1"
    "\<forall>j < length tr1. tr2 ! j = (if ?s + ?l' \<le> j \<and> j < ?s + ?avail then (max_u8, max_u32) else tr1 ! j)" by blast
  let ?tr' = "tr2[?s + ?l' := (max_u8, t)]"
  let ?node' = "?node\<lparr>m_flags := m_flags ?node OR HasFallbackTransition, m_transitionsStart := ?s, m_transitionsLength := ?l'\<rparr>"
  let ?dfa' = "dfa\<lparr>dfa_transitions := ?tr', nodes := (nodes dfa)[i := ?node']\<rparr>"
  have sl: "?s + ?l' < length tr2" using room len(2) tr1(2) tr2(2) by linarith
  have ml: "?l' mod 256 = ?l'" using l' l by simp
  have old: "(if hasFallbackTransition ?node then fallbackTransitionDestination ?node dfa else Some max_u32)
      = Some (case node_fallback dfa ?node of None \<Rightarrow> max_u32 | Some d \<Rightarrow> d)"
    by (cases "hasFallbackTransition ?node") (simp_all add: fallbackTransitionDestination_eq [OF r] node_fallback_def)
  have "simplifyNode i dfa = Some ?dfa'"
    unfolding simplifyNode_def vec_at_Some [OF i] Option.bind_lunit added old DFANode_transitions_eq [OF r] Let_def t(1) [symmetric] len(1)
    using t(2) room
    by (simp add: vec_simps setHasFallbackTransitionWithoutChangingDFA_def node_resetTransitions_def
        tr1(1) tr2(1) vec_set_Some [OF sl] ml del: upt_Suc)
  moreover have f': "hasFallbackTransition ?node'" by (simp add: hasFallbackTransition_def HasFallbackTransition_def)
  moreover have "same_outside (transition_slots ?node) ?tr ?tr'"
    unfolding same_outside_def using tr1(2,3) tr2(2,3) room by (auto simp: transition_slots_def nth_list_update)
  moreover have "isKilled ?node' = isKilled ?node" by (simp add: isKilled_def)
  moreover have "transition_slots ?node' \<subseteq> transition_slots ?node" using room f' by (auto simp: transition_slots_def)
  moreover have "node_in_range ?dfa' ?node'" using r f' sl by (simp add: node_in_range_def)
  moreover have "node_transitions ?dfa' ?node' = ?own'"
  proof (rule nth_equalityI)
    show "length (node_transitions ?dfa' ?node') = length ?own'" using sl by (simp add: node_transitions_def)
    fix k assume "k < length (node_transitions ?dfa' ?node')"
    then have k: "k < ?l'" using sl by (simp add: node_transitions_def)
    then have "node_transitions ?dfa' ?node' ! k = ?tr' ! (?s + k)" using sl by (simp add: node_transitions_def window_nth)
    also have "\<dots> = ?own' ! k" using k sl tr1(2,3) tr2(2,3) by simp
    finally show "node_transitions ?dfa' ?node' ! k = ?own' ! k" .
  qed
  moreover have "node_fallback ?dfa' ?node' = Some t" using f' sl by (simp add: node_fallback_def)
  ultimately show ?thesis by (intro exI [of _ ?dfa'] conjI exI [of _ ?node']) simp_all
qed

lemma simplifyNode_ok:
  assumes i: "i < length (nodes dfa)" and r: "node_in_range dfa (nodes dfa ! i)"
    and om: "\<not> one_missing dfa (nodes dfa ! i)" and l: "m_transitionsLength (nodes dfa ! i) < 256"
    and d: "\<And>d. node_fallback dfa (nodes dfa ! i) = Some d \<Longrightarrow> d \<noteq> max_u32"
  shows "\<exists>dfa'. simplifyNode i dfa = Some dfa' \<and> rewritten i dfa dfa'
    \<and> node_transitions dfa' (nodes dfa' ! i)
       = simplified (node_fallback dfa (nodes dfa ! i)) (node_transitions dfa (nodes dfa ! i))
    \<and> node_fallback dfa' (nodes dfa' ! i) = node_fallback dfa (nodes dfa ! i)"
proof -
  let ?node = "nodes dfa ! i"
  note nf = newFallback_none [OF r om]
  show ?thesis
  proof (cases "hasFallbackTransition ?node")
    case False
    let ?node' = "?node\<lparr>m_flags := m_flags ?node AND NOT HasFallbackTransition\<rparr>"
    let ?dfa' = "dfa\<lparr>nodes := (nodes dfa)[i := ?node']\<rparr>"
    have "simplifyNode i dfa = Some ?dfa'"
      using i False nf
      by (simp add: simplifyNode_def vec_simps setHasFallbackTransitionWithoutChangingDFA_def)
    moreover have f': "\<not> hasFallbackTransition ?node'" by (simp add: hasFallbackTransition_def)
    moreover have "rewritten i dfa ?dfa'"
      using i False f' by (simp add: rewritten_def same_outside_refl transition_slots_def node_in_range_def)
    ultimately show ?thesis using i False
      by (intro exI [of _ ?dfa']) (simp add: node_transitions_def node_fallback_def simplified_def)
  next
    case True
    obtain t where t: "node_fallback dfa ?node = Some t" using True by (simp add: node_fallback_def)
    have "length (filter (\<lambda>x. snd x \<noteq> t) (node_transitions dfa ?node)) + 1
      \<le> m_transitionsLength ?node + (if hasFallbackTransition ?node then 1 else 0)"
      using True r length_filter_le [of _ "node_transitions dfa ?node"] by (simp add: node_transitions_def node_in_range_def)
    from simplifyNode_fallback [OF i r l nf _ d [OF t] this] obtain dfa' node' where dfa':
      "simplifyNode i dfa = Some dfa'" "root dfa' = root dfa" "dfa_actions dfa' = dfa_actions dfa"
      "nodes dfa' = (nodes dfa)[i := node']" "m_actionsStart node' = m_actionsStart ?node"
      "m_actionsLength node' = m_actionsLength ?node" "isKilled node' = isKilled ?node"
      "hasFallbackTransition node'" "transition_slots node' \<subseteq> transition_slots ?node" "node_in_range dfa' node'"
      "node_transitions dfa' node' = filter (\<lambda>x. snd x \<noteq> t) (node_transitions dfa ?node)" "node_fallback dfa' node' = Some t"
      "same_outside (transition_slots ?node) (dfa_transitions dfa) (dfa_transitions dfa')" using t by auto
    have "rewritten i dfa dfa'" unfolding rewritten_def using i True dfa' by simp
    then show ?thesis using i t dfa' by (intro exI [of _ dfa']) (simp add: simplified_def)
  qed
qed

text \<open>A node that one character is missing from gets a fallback, if all its transitions lead to one node.\<close>

lemma bestTarget_single:
  "\<forall>(c, u) \<in> set ts. c \<noteq> 0 \<longrightarrow> u = t \<Longrightarrow> bestTarget ts [(t, n)] (t, n) = (t, n + length (filter (\<lambda>x. fst x \<noteq> 0) ts))"
  by (induction ts arbitrary: n) auto

lemma bestTarget_start:
  "\<forall>(c, u) \<in> set ts. c \<noteq> 0 \<longrightarrow> u = t \<Longrightarrow> \<exists>x \<in> set ts. fst x \<noteq> 0 \<Longrightarrow>
    fst (bestTarget ts [] (max_u32, 0)) = t \<and> snd (bestTarget ts [] (max_u32, 0)) \<noteq> 0"
proof (induction ts)
  case (Cons x ts)
  show ?case
  proof (cases "fst x = 0")
    case True
    then show ?thesis using Cons by (cases x) auto
  next
    case False
    then have "x = (fst x, t)" using Cons.prems(1) by (cases x) auto
    then show ?thesis using bestTarget_single [of ts t 1] False Cons.prems(1) by (cases x) (auto simp: Let_def)
  qed
qed simp

lemma missing_character:
  fixes ts :: "(nat \<times> 'a) list"
  assumes "distinct (map fst ts)" "\<forall>(c, t) \<in> set ts. c < 128" "length ts = 126 \<and> 0 \<notin> fst ` set ts \<or> length ts = 127 \<and> 0 \<in> fst ` set ts"
  shows "\<exists>c. 0 < c \<and> c < 128 \<and> map_of ts c = None"
proof (rule ccontr)
  assume "\<not> ?thesis"
  then have "c \<in> fst ` set ts" if "0 < c" "c < 128" for c using that by (auto simp: map_of_eq_None_iff)
  then have all: "{1..<128} \<subseteq> fst ` set ts" by auto
  have card: "card (fst ` set ts) = length ts" using distinct_card [OF assms(1)] by simp
  show False
  proof (cases "0 \<in> fst ` set ts")
    case True
    then have "insert 0 {1..<128} \<subseteq> fst ` set ts" using all by (simp only: insert_subset simp_thms)
    then have "card (insert 0 {1..<128::nat}) \<le> card (fst ` set ts)" by (rule card_mono [rotated]) simp
    then show False using card assms(3) True by simp
  next
    case False
    from card_mono [OF _ all] show False using card assms(3) False by simp
  qed
qed

lemma newFallback_one_missing:
  assumes wf: "dfa_node_wf dfa node" and om: "one_missing dfa node"
    and t: "\<forall>(c, u) \<in> set (node_transitions dfa node). c \<noteq> 0 \<longrightarrow> u = t"
  shows "newFallback node dfa = Some t" "\<exists>x \<in> set (node_transitions dfa node). snd x = t" "node_fallback dfa node = None"
    "length (filter (\<lambda>x. snd x \<noteq> t) (node_transitions dfa node)) < length (node_transitions dfa node)"
proof -
  let ?ts = "node_transitions dfa node"
  have r: "node_in_range dfa node" and d: "distinct (map fst ?ts)" using wf by (simp_all add: dfa_node_wf_def)
  have o: "\<not> hasFallbackTransition node" "length ?ts = m_transitionsLength node"
    "m_transitionsLength node = 126 \<and> 0 \<notin> fst ` set ?ts \<or> m_transitionsLength node = 127 \<and> 0 \<in> fst ` set ?ts"
    using om r by (simp_all add: one_missing_def node_transitions_def node_in_range_def)
  have ex: "\<exists>x \<in> set ?ts. fst x \<noteq> 0"
  proof (rule ccontr)
    assume "\<not> ?thesis"
    then have "set (map fst ?ts) \<subseteq> {0}" by auto
    then have "card (set (map fst ?ts)) \<le> card {0::nat}" by (intro card_mono) simp_all
    then show False using distinct_card [OF d] o(2,3) by simp
  qed
  note b = bestTarget_start [OF t ex]
  show "newFallback node dfa = Some t"
    using o b by (auto simp: newFallback_def containsTransition_eq [OF r] DFANode_transitions_eq [OF r] Let_def)
  from ex obtain y where y: "y \<in> set ?ts" "fst y \<noteq> 0" by blast
  then have "snd y = t" using t by (cases y) auto
  then show x: "\<exists>x \<in> set ?ts. snd x = t" using y(1) by blast
  show "node_fallback dfa node = None" using o(1) by (simp add: node_fallback_def)
  from x obtain x where "x \<in> set ?ts" "\<not> snd x \<noteq> t" by blast
  then show "length (filter (\<lambda>x. snd x \<noteq> t) ?ts) < length ?ts" by (rule length_filter_less)
qed

text \<open>C28.
  A node without a fallback whose transitions on all characters but one lead to the same node is given a fallback to
  that node, so that after \<^verbatim>\<open>simplifyTransitions\<close> it also accepts the character it has no transition on: the lengths
  126 and 127 that the function tests are one too small for all characters besides the terminator.
\<close>

theorem simplifyNode_accepts_missing_character:
  assumes "i < length (nodes dfa)" "length (nodes dfa) \<le> max_u32" "dfa_node_wf dfa (nodes dfa ! i)" "one_missing dfa (nodes dfa ! i)"
    and "\<forall>(c, u) \<in> set (node_transitions dfa (nodes dfa ! i)). c \<noteq> 0 \<longrightarrow> u = t"
  shows "\<exists>dfa' c. simplifyNode i dfa = Some dfa' \<and> 0 < c \<and> c < 128
    \<and> dfa_step dfa i c = None \<and> dfa_step dfa' i c = Some t"
proof -
  let ?node = "nodes dfa ! i"
  note n = newFallback_one_missing [OF assms(3,4,5)]
  have d: "distinct (map fst (node_transitions dfa ?node))" "\<forall>(c, t) \<in> set (node_transitions dfa ?node). c < 128"
    and r: "node_in_range dfa ?node" using assms(3) by (auto simp: dfa_node_wf_def)
  have tl: "t \<noteq> max_u32" using n(2) assms(2,3) by (auto simp: dfa_node_wf_def)
  have len: "length (node_transitions dfa ?node) = m_transitionsLength ?node" using r by (simp add: node_transitions_def node_in_range_def)
  have om: "length (node_transitions dfa ?node) = 126 \<and> 0 \<notin> fst ` set (node_transitions dfa ?node)
    \<or> length (node_transitions dfa ?node) = 127 \<and> 0 \<in> fst ` set (node_transitions dfa ?node)"
    using assms(4) len by (simp add: one_missing_def)
  from missing_character [OF d om] obtain c where c: "0 < c" "c < 128" "map_of (node_transitions dfa ?node) c = None" by blast
  have "length (filter (\<lambda>x. snd x \<noteq> t) (node_transitions dfa ?node)) + 1 \<le> m_transitionsLength ?node + (if hasFallbackTransition ?node then 1 else 0)"
    using n(4) len by simp
  from simplifyNode_fallback [OF assms(1) r _ n(1) _ tl this] om len tl obtain dfa' node' where dfa': "simplifyNode i dfa = Some dfa'"
    "nodes dfa' = (nodes dfa)[i := node']" "node_fallback dfa' node' = Some t"
    "node_transitions dfa' node' = filter (\<lambda>x. snd x \<noteq> t) (node_transitions dfa ?node)" by auto
  have "map_of (node_transitions dfa' node') c = None" using c(3) unfolding dfa'(4) by (auto simp: map_of_eq_None_iff)
  then show ?thesis using dfa'(1,2,3) c n(3) assms(1) by (intro exI [of _ dfa'] exI [of _ c]) (simp add: dfa_step_def node_step_def)
qed

text \<open>The automaton of the pattern \<^verbatim>\<open>^[^/]\<close>, which then also matches the character \<^verbatim>\<open>/\<close>.\<close>

definition not_slash_dfa :: DFA where
  "not_slash_dfa = \<lparr>dfa_actions = [5], dfa_transitions = map (\<lambda>c. (c, 1)) ([1..<47] @ [48..<128]),
     nodes = [\<lparr>m_actionsStart = 0, m_transitionsStart = 0, m_actionsLength = 0, m_transitionsLength = 126, m_flags = 0\<rparr>,
       \<lparr>m_actionsStart = 0, m_transitionsStart = 126, m_actionsLength = 1, m_transitionsLength = 0, m_flags = 0\<rparr>], root = 0\<rparr>"

theorem simplifyNode_accepts_missing_character_witness:
  "\<exists>dfa' c. simplifyNode 0 not_slash_dfa = Some dfa' \<and> 0 < c \<and> c < 128
    \<and> dfa_step not_slash_dfa 0 c = None \<and> dfa_step dfa' 0 c = Some 1"
proof (rule simplifyNode_accepts_missing_character)
  let ?ts = "map (\<lambda>c. (c, 1)) ([1..<47] @ [48..<128]) :: (nat \<times> nat) list"
  let ?node = "nodes not_slash_dfa ! 0"
  have ts: "node_transitions not_slash_dfa ?node = ?ts" by (simp add: not_slash_dfa_def node_transitions_def window_def del: upt_conv_Cons_Cons)
  have f: "\<not> hasFallbackTransition ?node" by (simp add: not_slash_dfa_def hasFallbackTransition_def)
  have k: "\<not> isKilled (nodes not_slash_dfa ! 1)" by (simp add: not_slash_dfa_def isKilled_def)
  have z: "0 \<notin> fst ` set ?ts" by auto
  have d: "distinct (map fst ?ts)" by (simp add: comp_def)
  show "0 < length (nodes not_slash_dfa)" "length (nodes not_slash_dfa) \<le> max_u32" by (simp_all add: not_slash_dfa_def max_u32_def)
  have r: "node_in_range not_slash_dfa ?node" by (simp add: not_slash_dfa_def node_in_range_def hasFallbackTransition_def)
  show "dfa_node_wf not_slash_dfa ?node" unfolding dfa_node_wf_def ts
    using r d f k by (auto simp: node_fallback_def) (simp_all add: not_slash_dfa_def)
  show "one_missing not_slash_dfa ?node" unfolding one_missing_def ts using f z by (simp add: not_slash_dfa_def)
  show "\<forall>(c, u) \<in> set (node_transitions not_slash_dfa ?node). c \<noteq> 0 \<longrightarrow> u = 1" unfolding ts by auto
qed

lemma newFallback_has: "hasFallbackTransition node \<Longrightarrow> newFallback node dfa = Some max_u32"
  by (simp add: newFallback_def)

text \<open>C29.
  A transition on the terminator to the node that is also the fallback is removed with the others, although the
  fallback is not taken on the terminator: at the end of the URL the node has no step any more.
\<close>

theorem simplifyNode_drops_terminator:
  assumes "i < length (nodes dfa)" "length (nodes dfa) \<le> max_u32" "dfa_node_wf dfa (nodes dfa ! i)"
    and "m_transitionsLength (nodes dfa ! i) < 256"
    and "node_fallback dfa (nodes dfa ! i) = Some d" "(0, d) \<in> set (node_transitions dfa (nodes dfa ! i))"
  shows "\<exists>dfa'. simplifyNode i dfa = Some dfa' \<and> dfa_step dfa i 0 = Some d \<and> dfa_step dfa' i 0 = None"
proof -
  let ?node = "nodes dfa ! i"
  have r: "node_in_range dfa ?node" and dist: "distinct (map fst (node_transitions dfa ?node))"
    and dl: "d \<noteq> max_u32" using assms(2,3,5) by (auto simp: dfa_node_wf_def)
  have hf: "hasFallbackTransition ?node" using assms(5) by (auto simp: node_fallback_def split: if_splits)
  have "length (filter (\<lambda>x. snd x \<noteq> d) (node_transitions dfa ?node)) + 1 \<le> m_transitionsLength ?node + (if hasFallbackTransition ?node then 1 else 0)"
    using hf r length_filter_le [of _ "node_transitions dfa ?node"] by (simp add: node_transitions_def node_in_range_def)
  from simplifyNode_fallback [OF assms(1) r assms(4) newFallback_has [OF hf] _ dl this] assms(5) obtain dfa' node' where dfa':
    "simplifyNode i dfa = Some dfa'" "nodes dfa' = (nodes dfa)[i := node']"
    "node_transitions dfa' node' = filter (\<lambda>x. snd x \<noteq> d) (node_transitions dfa ?node)" by auto
  have "map_of (node_transitions dfa ?node) 0 = Some d" using dist assms(6) by simp
  moreover have "map_of (node_transitions dfa' node') 0 = None"
    using dist assms(6) unfolding dfa'(3) by (auto simp: map_of_eq_None_iff dest: eq_key_imp_eq_value)
  ultimately show ?thesis using dfa'(1,2) assms(1) by (intro exI [of _ dfa']) (simp add: dfa_step_def node_step_def)
qed

definition terminator_dfa :: DFA where
  "terminator_dfa = \<lparr>dfa_actions = [5], dfa_transitions = [(0, 1), (255, 1)],
     nodes = [\<lparr>m_actionsStart = 0, m_transitionsStart = 0, m_actionsLength = 0, m_transitionsLength = 1, m_flags = 1\<rparr>,
       \<lparr>m_actionsStart = 0, m_transitionsStart = 2, m_actionsLength = 1, m_transitionsLength = 0, m_flags = 0\<rparr>], root = 0\<rparr>"

theorem simplifyNode_drops_terminator_witness:
  "\<exists>dfa'. simplifyNode 0 terminator_dfa = Some dfa' \<and> dfa_step terminator_dfa 0 0 = Some 1 \<and> dfa_step dfa' 0 0 = None"
  by (rule simplifyNode_drops_terminator)
    (simp_all add: terminator_dfa_def max_u32_def dfa_node_wf_def node_in_range_def node_transitions_def node_fallback_def window_def
      hasFallbackTransition_def HasFallbackTransition_def isKilled_def)

section \<open>The loops over the nodes\<close>

definition blocks_ok :: "DFA \<Rightarrow> bool" where
  "blocks_ok dfa \<longleftrightarrow> dfa_layout dfa \<and> (\<forall>i < length (nodes dfa). node_in_range dfa (nodes dfa ! i))"

lemma rewritten_blocks:
  assumes rw: "rewritten i dfa dfa'" and b: "blocks_ok dfa" and i: "i < length (nodes dfa)"
  shows "blocks_ok dfa'"
    "\<And>j. j < length (nodes dfa) \<Longrightarrow> j \<noteq> i \<Longrightarrow> nodes dfa' ! j = nodes dfa ! j
       \<and> node_transitions dfa' (nodes dfa ! j) = node_transitions dfa (nodes dfa ! j)
       \<and> node_fallback dfa' (nodes dfa ! j) = node_fallback dfa (nodes dfa ! j)"
    "\<And>j. j < length (nodes dfa) \<Longrightarrow> node_actions dfa' (nodes dfa' ! j) = node_actions dfa (nodes dfa ! j)
       \<and> isKilled (nodes dfa' ! j) = isKilled (nodes dfa ! j)
       \<and> hasFallbackTransition (nodes dfa' ! j) = hasFallbackTransition (nodes dfa ! j)"
proof -
  note w = rw [unfolded rewritten_def]
  have other: "nodes dfa' ! j = nodes dfa ! j" if "j < length (nodes dfa)" "j \<noteq> i" for j using w that by blast
  have sub: "transition_slots (nodes dfa' ! j) \<subseteq> transition_slots (nodes dfa ! j)" "action_slots (nodes dfa' ! j) = action_slots (nodes dfa ! j)"
    if "j < length (nodes dfa)" for j
    using w other [OF that] by (cases "j = i"; simp add: action_slots_def)+
  have "dfa_layout dfa'" unfolding dfa_layout_def
  proof (intro allI impI)
    fix j k assume jk: "j < length (nodes dfa')" "k < length (nodes dfa')" "j \<noteq> k"
    then have l: "j < length (nodes dfa)" "k < length (nodes dfa)" using w by simp_all
    then have "transition_slots (nodes dfa ! j) \<inter> transition_slots (nodes dfa ! k) = {} \<and> action_slots (nodes dfa ! j) \<inter> action_slots (nodes dfa ! k) = {}"
      using b jk(3) unfolding blocks_ok_def dfa_layout_def by blast
    then show "transition_slots (nodes dfa' ! j) \<inter> transition_slots (nodes dfa' ! k) = {} \<and> action_slots (nodes dfa' ! j) \<inter> action_slots (nodes dfa' ! k) = {}"
      using sub [OF l(1)] sub [OF l(2)] by blast
  qed
  moreover have len: "length (dfa_transitions dfa') = length (dfa_transitions dfa)" using w by (simp add: same_outside_def)
  have "node_in_range dfa' (nodes dfa' ! j)" if "j < length (nodes dfa)" for j
  proof (cases "j = i")
    case True
    then show ?thesis using w b i by (simp add: blocks_ok_def)
  next
    case False
    then show ?thesis using other [OF that] b that len w by (simp add: blocks_ok_def node_in_range_def)
  qed
  ultimately show "blocks_ok dfa'" using w by (simp add: blocks_ok_def)
  show "nodes dfa' ! j = nodes dfa ! j
       \<and> node_transitions dfa' (nodes dfa ! j) = node_transitions dfa (nodes dfa ! j)
       \<and> node_fallback dfa' (nodes dfa ! j) = node_fallback dfa (nodes dfa ! j)" if j: "j < length (nodes dfa)" "j \<noteq> i" for j
  proof -
    have "transition_slots (nodes dfa ! j) \<inter> transition_slots (nodes dfa ! i) = {}" using b i j unfolding blocks_ok_def dfa_layout_def by blast
    moreover have "node_in_range dfa (nodes dfa ! j)" using b j by (simp add: blocks_ok_def)
    ultimately show ?thesis using node_outside w other [OF j] by blast
  qed
  show "node_actions dfa' (nodes dfa' ! j) = node_actions dfa (nodes dfa ! j) \<and> isKilled (nodes dfa' ! j) = isKilled (nodes dfa ! j)
       \<and> hasFallbackTransition (nodes dfa' ! j) = hasFallbackTransition (nodes dfa ! j)"
    if j: "j < length (nodes dfa)" for j
    using w other [OF j] by (cases "j = i"; simp add: node_actions_def)
qed

text \<open>A loop that rewrites every node: \<open>own\<close> and \<open>fb\<close> are the transitions and fallbacks that its body writes.\<close>

lemma rewrite_loop:
  assumes b: "blocks_ok dfa"
    and step: "\<And>k d. k < length (nodes dfa) \<Longrightarrow> blocks_ok d \<Longrightarrow> length (nodes d) = length (nodes dfa) \<Longrightarrow> nodes d ! k = nodes dfa ! k
      \<Longrightarrow> node_transitions d (nodes dfa ! k) = node_transitions dfa (nodes dfa ! k)
      \<Longrightarrow> node_fallback d (nodes dfa ! k) = node_fallback dfa (nodes dfa ! k)
      \<Longrightarrow> \<exists>d'. f k d = Some d' \<and> rewritten k d d' \<and> node_transitions d' (nodes d' ! k) = own k \<and> node_fallback d' (nodes d' ! k) = fb k"
  shows "\<exists>d. foldM f [0..<length (nodes dfa)] dfa = Some d \<and> blocks_ok d \<and> root d = root dfa \<and> length (nodes d) = length (nodes dfa)
    \<and> (\<forall>j < length (nodes dfa). node_actions d (nodes d ! j) = node_actions dfa (nodes dfa ! j)
         \<and> isKilled (nodes d ! j) = isKilled (nodes dfa ! j) \<and> hasFallbackTransition (nodes d ! j) = hasFallbackTransition (nodes dfa ! j)
         \<and> node_transitions d (nodes d ! j) = own j \<and> node_fallback d (nodes d ! j) = fb j)"
proof -
  let ?n = "length (nodes dfa)"
  define I where "I = (\<lambda>k d. blocks_ok d \<and> root d = root dfa \<and> length (nodes d) = ?n
    \<and> (\<forall>j < ?n. node_actions d (nodes d ! j) = node_actions dfa (nodes dfa ! j)
         \<and> isKilled (nodes d ! j) = isKilled (nodes dfa ! j) \<and> hasFallbackTransition (nodes d ! j) = hasFallbackTransition (nodes dfa ! j))
    \<and> (\<forall>j < ?n. j < k \<longrightarrow> node_transitions d (nodes d ! j) = own j \<and> node_fallback d (nodes d ! j) = fb j)
    \<and> (\<forall>j < ?n. k \<le> j \<longrightarrow> nodes d ! j = nodes dfa ! j \<and> node_transitions d (nodes dfa ! j) = node_transitions dfa (nodes dfa ! j)
         \<and> node_fallback d (nodes dfa ! j) = node_fallback dfa (nodes dfa ! j)))"
  have "\<exists>d. foldM f [0..<?n] dfa = Some d \<and> I (length [0..<?n]) d"
  proof (rule foldM_invariant)
    show "I 0 dfa" using b by (simp add: I_def)
    fix k d assume "k < length [0..<?n]" and I: "I k d"
    then have k: "k < ?n" by simp
    note Id = I [unfolded I_def]
    from step [OF k, of d] obtain d' where d': "f k d = Some d'" "rewritten k d d'" "node_transitions d' (nodes d' ! k) = own k"
      "node_fallback d' (nodes d' ! k) = fb k" using Id k by force
    have n: "length (nodes d) = ?n" using Id by blast
    have bd: "blocks_ok d" using Id by blast
    note rb = rewritten_blocks [OF d'(2) bd, unfolded n, OF k]
    have r': "root d' = root dfa" "length (nodes d') = ?n" using d'(2) Id by (simp_all add: rewritten_def)
    have "I (Suc k) d'" unfolding I_def
    proof (intro conjI allI impI)
      show "blocks_ok d'" "root d' = root dfa" "length (nodes d') = ?n" using rb(1) r' by blast+
      fix j assume j: "j < ?n"
      show "node_actions d' (nodes d' ! j) = node_actions dfa (nodes dfa ! j)" "isKilled (nodes d' ! j) = isKilled (nodes dfa ! j)"
        "hasFallbackTransition (nodes d' ! j) = hasFallbackTransition (nodes dfa ! j)"
        using rb(3) [OF j] Id j by simp_all
      { assume "j < Suc k"
        then consider "j = k" | "j < k" "j \<noteq> k" by linarith
        then show "node_transitions d' (nodes d' ! j) = own j" "node_fallback d' (nodes d' ! j) = fb j"
          by (cases; use d'(3,4) rb(2) [OF j] Id j in simp)+ }
      { assume "Suc k \<le> j"
        then have "j \<noteq> k" "k \<le> j" by linarith+
        then show "nodes d' ! j = nodes dfa ! j" "node_transitions d' (nodes dfa ! j) = node_transitions dfa (nodes dfa ! j)"
          "node_fallback d' (nodes dfa ! j) = node_fallback dfa (nodes dfa ! j)"
          using rb(2) [OF j] Id j by simp_all }
    qed
    then show "\<exists>d'. f ([0..<?n] ! k) d = Some d' \<and> I (Suc k) d'" using d'(1) k by auto
  qed
  then show ?thesis unfolding I_def by auto
qed

lemma simplifyTransitions_ok:
  assumes b: "blocks_ok dfa"
    and node: "\<And>i. i < length (nodes dfa) \<Longrightarrow> \<not> one_missing dfa (nodes dfa ! i) \<and> m_transitionsLength (nodes dfa ! i) < 256
      \<and> node_fallback dfa (nodes dfa ! i) \<noteq> Some max_u32"
  shows "\<exists>d. simplifyTransitions dfa = Some d \<and> blocks_ok d \<and> root d = root dfa \<and> length (nodes d) = length (nodes dfa)
    \<and> (\<forall>j < length (nodes dfa). node_actions d (nodes d ! j) = node_actions dfa (nodes dfa ! j)
         \<and> isKilled (nodes d ! j) = isKilled (nodes dfa ! j) \<and> hasFallbackTransition (nodes d ! j) = hasFallbackTransition (nodes dfa ! j)
         \<and> node_transitions d (nodes d ! j) = simplified (node_fallback dfa (nodes dfa ! j)) (node_transitions dfa (nodes dfa ! j))
         \<and> node_fallback d (nodes d ! j) = node_fallback dfa (nodes dfa ! j))"
  unfolding simplifyTransitions_def
proof (rule rewrite_loop [OF b])
  fix k d assume k: "k < length (nodes dfa)" and d: "blocks_ok d" "length (nodes d) = length (nodes dfa)"
    and eq: "nodes d ! k = nodes dfa ! k" "node_transitions d (nodes dfa ! k) = node_transitions dfa (nodes dfa ! k)"
      "node_fallback d (nodes dfa ! k) = node_fallback dfa (nodes dfa ! k)"
  have "node_in_range d (nodes d ! k)" using d k by (simp add: blocks_ok_def)
  moreover have "\<not> one_missing d (nodes d ! k)" using node [OF k] eq by (simp add: one_missing_def)
  moreover have "m_transitionsLength (nodes d ! k) < 256" using node [OF k] eq by simp
  moreover have "t \<noteq> max_u32" if "node_fallback d (nodes d ! k) = Some t" for t using node [OF k] eq that by auto
  ultimately show "\<exists>d'. simplifyNode k d = Some d' \<and> rewritten k d d'
      \<and> node_transitions d' (nodes d' ! k) = simplified (node_fallback dfa (nodes dfa ! k)) (node_transitions dfa (nodes dfa ! k))
      \<and> node_fallback d' (nodes d' ! k) = node_fallback dfa (nodes dfa ! k)"
    using simplifyNode_ok [of k d] k d(2) eq by simp
qed

end
