(* ===== verification/GraphPartition.thy ===== *)
theory GraphPartition
  imports DFAMinimizer "HOL-Library.Multiset"
begin

text \<open>
  What the partition refinement of \<^verbatim>\<open>DFAMinimizer.cpp\<close> achieves: it returns, no assertion fails, and nodes of
  one set have the same actions and equal transitions up to the partition.
\<close>

section \<open>Stability\<close>

text \<open>
  The transitions are the numbers below \<open>n\<close>, partitioned by \<open>P\<close>, with a source and a label. A partition \<open>c\<close>
  of the nodes is stable for some transitions when a set of nodes has none or all of their sources.
\<close>

definition stable :: "nat \<Rightarrow> (nat \<Rightarrow> nat) \<Rightarrow> nat set \<Rightarrow> (nat \<Rightarrow> nat) \<Rightarrow> bool" where
  "stable m c S src \<longleftrightarrow> (\<forall>p < m. \<forall>q < m. c p = c q \<longrightarrow> (p \<in> src ` S \<longleftrightarrow> q \<in> src ` S))"

definition cover :: "nat \<Rightarrow> Partition \<Rightarrow> nat set \<Rightarrow> nat set" where
  "cover n P K = {x. x < n \<and> cls P x \<in> K}"

text \<open>
  The sets below \<open>next'\<close> have been processed: each is stable together with some sets that have not.
\<close>

definition pend :: "nat \<Rightarrow> (nat \<Rightarrow> nat) \<Rightarrow> nat \<Rightarrow> Partition \<Rightarrow> (nat \<Rightarrow> nat) \<Rightarrow> (nat \<Rightarrow> nat) \<Rightarrow> nat \<Rightarrow> bool" where
  "pend m c n P src lab next' \<longleftrightarrow> next' \<le> length (m_sets P) \<and>
     (\<forall>k < next'. \<exists>D. D \<subseteq> {next'..<length (m_sets P)} \<and> stable m c (cover n P (insert k D)) src
        \<and> (\<forall>x \<in> cover n P (insert k D). \<forall>y \<in> cover n P (insert k D). lab x = lab y))"

definition finer :: "nat \<Rightarrow> (nat \<Rightarrow> nat) \<Rightarrow> (nat \<Rightarrow> nat) \<Rightarrow> bool" where
  "finer m c c' \<longleftrightarrow> (\<forall>p < m. \<forall>q < m. c' p = c' q \<longrightarrow> c p = c q)"

lemma stable_finer: "finer m c c' \<Longrightarrow> stable m c S src \<Longrightarrow> stable m c' S src"
  unfolding finer_def stable_def by blast

lemma refines_finer: "refines n P Q \<Longrightarrow> finer n (cls P) (cls Q)"
  unfolding refines_def finer_def by blast

lemma pend_finer: "finer m c c' \<Longrightarrow> pend m c n P src lab k \<Longrightarrow> pend m c' n P src lab k"
  unfolding pend_def by (meson stable_finer)

lemma pend_0: "pend m c n P src lab 0"
  by (simp add: pend_def)

lemma pend_refines:
  assumes ref: "refines n P Q" and core: "part_core n Q" and pd: "pend m c n P src lab next'"
  shows "pend m c n Q src lab next'"
  unfolding pend_def
proof (intro conjI allI impI)
  have len: "length (m_sets P) \<le> length (m_sets Q)" "next' \<le> length (m_sets P)"
    using refinesD(1) [OF ref] pd by (simp_all add: pend_def)
  then show "next' \<le> length (m_sets Q)" by linarith
  fix k assume k: "k < next'"
  then obtain D where D: "D \<subseteq> {next'..<length (m_sets P)}" "stable m c (cover n P (insert k D)) src"
    "\<forall>x \<in> cover n P (insert k D). \<forall>y \<in> cover n P (insert k D). lab x = lab y"
    using pd unfolding pend_def by blast
  let ?D = "cls Q ` cover n P (insert k D) - {k}"
  have new: "cls Q x = cls P x \<or> length (m_sets P) \<le> cls Q x" if "x < n" for x using refinesD(2) [OF ref that] .
  have sub: "?D \<subseteq> {next'..<length (m_sets Q)}"
  proof
    fix j assume "j \<in> ?D"
    then obtain x where x: "x < n" "cls P x \<in> insert k D" "j = cls Q x" "j \<noteq> k" by (auto simp: cover_def)
    have "j < length (m_sets Q)" using part_coreD(8) [OF core x(1)] x(3) by simp
    moreover have "next' \<le> j"
    proof (cases "cls Q x = cls P x")
      case True
      then have "j \<in> D" using x(2-4) by simp
      then show ?thesis using D(1) by auto
    next
      case False
      then show ?thesis using new [OF x(1)] x(3) len(2) by linarith
    qed
    ultimately show "j \<in> {next'..<length (m_sets Q)}" by simp
  qed
  have eq: "cover n Q (insert k ?D) = cover n P (insert k D)"
  proof (intro equalityI subsetI)
    fix x assume "x \<in> cover n Q (insert k ?D)"
    then have x: "x < n" "cls Q x = k \<or> cls Q x \<in> cls Q ` cover n P (insert k D)" by (auto simp: cover_def)
    from x(2) show "x \<in> cover n P (insert k D)"
    proof
      assume "cls Q x = k"
      then have "cls P x = k" using new [OF x(1)] k len(2) by linarith
      then show ?thesis using x(1) by (simp add: cover_def)
    next
      assume "cls Q x \<in> cls Q ` cover n P (insert k D)"
      then obtain y where y: "cls Q x = cls Q y" "y < n" "cls P y \<in> insert k D" unfolding cover_def by blast
      then have "cls P x = cls P y" using refinesD(3) [OF ref x(1) y(2,1)] by simp
      then show ?thesis using x(1) y(3) by (simp add: cover_def)
    qed
  next
    fix x assume "x \<in> cover n P (insert k D)"
    then show "x \<in> cover n Q (insert k ?D)" unfolding cover_def by blast
  qed
  show "\<exists>D. D \<subseteq> {next'..<length (m_sets Q)} \<and> stable m c (cover n Q (insert k D)) src
      \<and> (\<forall>x \<in> cover n Q (insert k D). \<forall>y \<in> cover n Q (insert k D). lab x = lab y)"
    by (rule exI [of _ ?D], unfold eq, intro conjI, rule sub, rule D(2), rule D(3))
qed

lemma pend_process:
  assumes inj: "\<And>x y. x < n \<Longrightarrow> y < n \<Longrightarrow> src x = src y \<Longrightarrow> lab x = lab y \<Longrightarrow> x = y"
    and lt: "next' < length (m_sets P)" and pd: "pend m c n P src lab next'"
    and st: "stable m c (cover n P {next'}) src" and lab: "\<forall>x \<in> cover n P {next'}. \<forall>y \<in> cover n P {next'}. lab x = lab y"
  shows "pend m c n P src lab (Suc next')"
  unfolding pend_def
proof (intro conjI allI impI)
  show "Suc next' \<le> length (m_sets P)" using lt by simp
  fix k assume k: "k < Suc next'"
  show "\<exists>D. D \<subseteq> {Suc next'..<length (m_sets P)} \<and> stable m c (cover n P (insert k D)) src
      \<and> (\<forall>x \<in> cover n P (insert k D). \<forall>y \<in> cover n P (insert k D). lab x = lab y)"
  proof (cases "k = next'")
    case True
    show ?thesis unfolding True by (rule exI [of _ "{}"]) (use st lab in blast)
  next
    case False
    with k have "k < next'" by simp
    then obtain D where D: "D \<subseteq> {next'..<length (m_sets P)}" "stable m c (cover n P (insert k D)) src"
      "\<forall>x \<in> cover n P (insert k D). \<forall>y \<in> cover n P (insert k D). lab x = lab y"
      using pd unfolding pend_def by blast
    let ?D = "D - {next'}"
    have sub: "?D \<subseteq> {Suc next'..<length (m_sets P)}"
    proof
      fix j assume "j \<in> ?D"
      then have "j \<in> {next'..<length (m_sets P)}" "j \<noteq> next'" using D(1) by auto
      then show "j \<in> {Suc next'..<length (m_sets P)}" by simp
    qed
    have less: "cover n P (insert k ?D) \<subseteq> cover n P (insert k D)" by (auto simp: cover_def)
    have st': "stable m c (cover n P (insert k ?D)) src"
    proof (cases "next' \<in> D")
      case False
      then show ?thesis using D(2) by simp
    next
      case True
      then have whole: "cover n P (insert k D) = cover n P (insert k ?D) \<union> cover n P {next'}" by (auto simp: cover_def)
      have apart: "src x \<noteq> src y" if "x \<in> cover n P (insert k ?D)" "y \<in> cover n P {next'}" for x y
      proof
        assume s: "src x = src y"
        have "lab x = lab y" using D(3) that whole by blast
        then have "x = y" using inj s that by (simp add: cover_def)
        then show False using that False by (auto simp: cover_def)
      qed
      have "src ` cover n P (insert k ?D) \<inter> src ` cover n P {next'} = {}" using apart by (intro equals0I) blast
      moreover have "src ` cover n P (insert k D) = src ` cover n P (insert k ?D) \<union> src ` cover n P {next'}"
        by (simp only: whole image_Un)
      ultimately have diff: "p \<in> src ` cover n P (insert k ?D) \<longleftrightarrow> p \<in> src ` cover n P (insert k D) \<and> p \<notin> src ` cover n P {next'}" for p
        by blast
      show ?thesis
        unfolding stable_def
      proof (intro allI impI)
        fix p q assume pq: "p < m" "q < m" "c p = c q"
        have a: "p \<in> src ` cover n P (insert k D) \<longleftrightarrow> q \<in> src ` cover n P (insert k D)"
          using D(2) [unfolded stable_def, rule_format, OF pq] .
        have b: "p \<in> src ` cover n P {next'} \<longleftrightarrow> q \<in> src ` cover n P {next'}"
          using st [unfolded stable_def, rule_format, OF pq] .
        show "p \<in> src ` cover n P (insert k ?D) \<longleftrightarrow> q \<in> src ` cover n P (insert k ?D)"
          by (simp only: diff a b)
      qed
    qed
    have lab': "\<forall>x \<in> cover n P (insert k ?D). \<forall>y \<in> cover n P (insert k ?D). lab x = lab y"
      using less D(3) by blast
    show ?thesis by (rule exI [of _ ?D], intro conjI, rule sub, rule st', rule lab')
  qed
qed

lemma pend_all:
  assumes "pend m c n P src lab (length (m_sets P))" "k < length (m_sets P)"
  shows "stable m c (cover n P {k}) src"
proof -
  from assms obtain D where "D \<subseteq> {length (m_sets P)..<length (m_sets P)}" "stable m c (cover n P (insert k D)) src"
    unfolding pend_def by blast
  then show ?thesis by simp
qed

section \<open>The invariant of the graph\<close>

text \<open>
  The tables of \<^verbatim>\<open>FullGraphPartition\<close> group the transitions \<open>trs\<close> and the fallback transitions \<open>fbs\<close> (the sources) with targets
  \<open>ftgt\<close> by their targets.
\<close>

definition grouped :: "nat \<Rightarrow> nat \<Rightarrow> (nat \<Rightarrow> nat) \<Rightarrow> nat list \<Rightarrow> nat list \<Rightarrow> bool" where
  "grouped m n tgt starts sizes \<longleftrightarrow> length starts = m \<and> length sizes = m
     \<and> (\<forall>i < n. tgt i < m)
     \<and> (\<forall>v < m. starts ! v + sizes ! v \<le> n
          \<and> (\<forall>i < n. tgt i = v \<longleftrightarrow> starts ! v \<le> i \<and> i < starts ! v + sizes ! v))"

definition tables_ok :: "nat \<Rightarrow> FlatTransition list \<Rightarrow> nat list \<Rightarrow> (nat \<Rightarrow> nat) \<Rightarrow> FullGraphPartition \<Rightarrow> bool" where
  "tables_ok m trs fbs ftgt G \<longleftrightarrow>
     m_flattenedTransitions G = trs \<and> m_flattenedFallbackTransitions G = fbs
     \<and> grouped m (length trs) (\<lambda>i. t_target (trs ! i))
         (m_flattenedTransitionsStartOffsetPerNode G) (m_flattenedTransitionsSizePerNode G)
     \<and> grouped m (length fbs) ftgt
         (m_flattenedFallbackTransitionsStartOffsetPerNode G) (m_flattenedFallbackTransitionsSizePerNode G)
     \<and> (\<forall>i < length trs. t_source (trs ! i) < m)
     \<and> (\<forall>i < length trs. \<forall>j < length trs. t_source (trs ! i) = t_source (trs ! j)
          \<longrightarrow> t_character (trs ! i) = t_character (trs ! j) \<longrightarrow> i = j)
     \<and> (\<forall>i < length fbs. fbs ! i < m) \<and> distinct fbs"

lemma tables_ok_simps [simp]:
  "tables_ok m trs fbs ftgt (G\<lparr>m_nodePartition := N\<rparr>) = tables_ok m trs fbs ftgt G"
  "tables_ok m trs fbs ftgt (G\<lparr>m_transitionPartition := N\<rparr>) = tables_ok m trs fbs ftgt G"
  "tables_ok m trs fbs ftgt (G\<lparr>m_fallbackTransitionPartition := N\<rparr>) = tables_ok m trs fbs ftgt G"
  "tables_ok m trs fbs ftgt (G\<lparr>m_nextTransitionSetToProcess := k\<rparr>) = tables_ok m trs fbs ftgt G"
  by (simp_all add: tables_ok_def)

text \<open>The targets of the transitions of one set are in one set of nodes.\<close>

definition compat :: "nat \<Rightarrow> (nat \<Rightarrow> nat) \<Rightarrow> Partition \<Rightarrow> (nat \<Rightarrow> nat) \<Rightarrow> bool" where
  "compat n tgt P c \<longleftrightarrow> (\<forall>x < n. \<forall>y < n. cls P x = cls P y \<longrightarrow> c (tgt x) = c (tgt y))"

definition settled :: "nat \<Rightarrow> (nat \<Rightarrow> nat) \<Rightarrow> (nat \<Rightarrow> nat) \<Rightarrow> Partition \<Rightarrow> bool" where
  "settled n tgt c P \<longleftrightarrow> part_inv n P \<and> unmarked P \<and> compat n tgt P c"

definition graph_inv :: "nat \<Rightarrow> FlatTransition list \<Rightarrow> nat list \<Rightarrow> (nat \<Rightarrow> nat) \<Rightarrow> FullGraphPartition \<Rightarrow> bool" where
  "graph_inv m trs fbs ftgt G \<longleftrightarrow> tables_ok m trs fbs ftgt G \<and> part_inv m (m_nodePartition G)
     \<and> settled (length trs) (\<lambda>i. t_target (trs ! i)) (cls (m_nodePartition G)) (m_transitionPartition G)
     \<and> (\<forall>x < length trs. \<forall>y < length trs. cls (m_transitionPartition G) x = cls (m_transitionPartition G) y
          \<longrightarrow> t_character (trs ! x) = t_character (trs ! y))
     \<and> settled (length fbs) ftgt (cls (m_nodePartition G)) (m_fallbackTransitionPartition G)"

section \<open>Splitting the incoming transitions of a set\<close>

lemma refineOnly_ok:
  assumes "part_inv n P"
  shows "\<exists>P'. refineOnly P = Some P' \<and> part_inv n P' \<and> unmarked P' \<and> refines n P P'
    \<and> (\<forall>x < n. \<forall>y < n. cls P' x = cls P' y \<longleftrightarrow> cls P x = cls P y \<and> marked P x = marked P y)"
proof -
  have "\<exists>P' s'. refineGeneration (\<lambda>_ _. Some) P () = Some (P', s') \<and> part_inv n P' \<and> unmarked P' \<and> True \<and> refines n P P'
    \<and> (\<forall>x < n. \<forall>y < n. cls P' x = cls P' y \<longleftrightarrow> cls P x = cls P y \<and> marked P x = marked P y)"
    by (rule refineGeneration_rule [where I = "\<lambda>_ _. True"]) (use assms in simp_all)
  then show ?thesis unfolding refineOnly_def by fastforce
qed

lemma markIncoming_ok:
  assumes g: "grouped m n tgt starts sizes" and v: "v < m" and inv: "part_inv n P"
    and new: "\<forall>i < n. tgt i = v \<longrightarrow> \<not> marked P i"
  shows "\<exists>P'. markIncoming starts sizes v P = Some P' \<and> part_inv n P' \<and> m_elementToSetMap P' = m_elementToSetMap P
    \<and> length (m_sets P') = length (m_sets P) \<and> (\<forall>i < n. marked P' i \<longleftrightarrow> marked P i \<or> tgt i = v)"
proof -
  let ?xs = "map (\<lambda>i. starts ! v + i) [0..<sizes ! v]"
  have g': "length starts = m" "length sizes = m" "starts ! v + sizes ! v \<le> n"
    "\<And>i. i < n \<Longrightarrow> tgt i = v \<longleftrightarrow> starts ! v \<le> i \<and> i < starts ! v + sizes ! v"
    using g v unfolding grouped_def by blast+
  have xs: "set ?xs = {starts ! v..<starts ! v + sizes ! v}" by (auto simp: image_iff)
  have sub: "set ?xs \<subseteq> {..<n}" using g'(3) by (simp only: xs) auto
  have d: "distinct ?xs" by (simp add: distinct_map)
  have nm: "\<forall>x \<in> set ?xs. \<not> marked P x" using new g'(3,4) unfolding xs by simp
  from mark_all [OF inv d sub nm] obtain P' where P': "foldM markElementInCurrentGeneration ?xs P = Some P'"
    "part_inv n P'" "m_elementToSetMap P' = m_elementToSetMap P" "length (m_sets P') = length (m_sets P)"
    "\<forall>y < n. marked P' y \<longleftrightarrow> marked P y \<or> y \<in> set ?xs" by blast
  have "markIncoming starts sizes v P = Some P'"
    using P'(1) v g'(1,2) by (simp add: markIncoming_def vec_simps foldM_map)
  moreover have "marked P' i \<longleftrightarrow> marked P i \<or> tgt i = v" if "i < n" for i
    using P'(5) that g'(4) [OF that] unfolding xs by simp
  ultimately show ?thesis using P'(2-4) by blast
qed

lemma markIncoming_all:
  assumes g: "grouped m n tgt starts sizes" and inv: "part_inv n P" and vs: "distinct vs" "set vs \<subseteq> {..<m}"
    and new: "\<forall>i < n. tgt i \<in> set vs \<longrightarrow> \<not> marked P i"
  shows "\<exists>P'. foldM (markIncoming starts sizes) vs P = Some P' \<and> part_inv n P' \<and> m_elementToSetMap P' = m_elementToSetMap P
    \<and> length (m_sets P') = length (m_sets P) \<and> (\<forall>i < n. marked P' i \<longleftrightarrow> marked P i \<or> tgt i \<in> set vs)"
  using inv vs new
proof (induction vs arbitrary: P)
  case Nil
  then show ?case by simp
next
  case (Cons v vs)
  from Cons.prems have v: "v < m" "\<forall>i < n. tgt i = v \<longrightarrow> \<not> marked P i" by simp_all
  from markIncoming_ok [OF g v(1) Cons.prems(1) v(2)] obtain Q where Q: "markIncoming starts sizes v P = Some Q" "part_inv n Q"
    "m_elementToSetMap Q = m_elementToSetMap P" "length (m_sets Q) = length (m_sets P)"
    "\<forall>i < n. marked Q i \<longleftrightarrow> marked P i \<or> tgt i = v" by blast
  have "distinct vs" "set vs \<subseteq> {..<m}" "\<forall>i < n. tgt i \<in> set vs \<longrightarrow> \<not> marked Q i" using Cons.prems Q(5) by auto
  from Cons.IH [OF Q(2) this] obtain R where R: "foldM (markIncoming starts sizes) vs Q = Some R" "part_inv n R"
    "m_elementToSetMap R = m_elementToSetMap Q" "length (m_sets R) = length (m_sets Q)"
    "\<forall>i < n. marked R i \<longleftrightarrow> marked Q i \<or> tgt i \<in> set vs" by blast
  show ?case using Q(1,3,4,5) R by (intro exI [of _ R]) auto
qed

text \<open>One transition partition, after the incoming transitions of a new set of nodes were split off.\<close>

lemma split_settled:
  assumes g: "grouped m n tgt starts sizes" and st: "settled n tgt (cls Q) P"
    and Q: "part_core m Q" "part_core m Q'" "refines m Q Q'" "length (m_sets Q') = Suc (length (m_sets Q))"
  shows "\<exists>P1 P'. foldM (markIncoming starts sizes) (elements Q' (length (m_sets Q))) P = Some P1 \<and> refineOnly P1 = Some P'
    \<and> settled n tgt (cls Q') P' \<and> refines n P P'"
proof -
  let ?j = "length (m_sets Q)"
  have P: "part_inv n P" "unmarked P" "compat n tgt P (cls Q)" using st by (simp_all add: settled_def)
  have j: "?j < length (m_sets Q')" using Q(4) by simp
  note e = elements_ok [OF Q(2) j]
  have sub: "set (elements Q' ?j) \<subseteq> {..<m}" unfolding e(1) by auto
  have nm: "\<forall>i < n. tgt i \<in> set (elements Q' ?j) \<longrightarrow> \<not> marked P i" using unmarked_iff [OF P(1,2)] by blast
  from markIncoming_all [OF g P(1) e(2) sub nm] obtain P1 where P1: "foldM (markIncoming starts sizes) (elements Q' ?j) P = Some P1"
    "part_inv n P1" "m_elementToSetMap P1 = m_elementToSetMap P" "length (m_sets P1) = length (m_sets P)"
    "\<forall>i < n. marked P1 i \<longleftrightarrow> marked P i \<or> tgt i \<in> set (elements Q' ?j)" by blast
  from refineOnly_ok [OF P1(2)] obtain P' where P': "refineOnly P1 = Some P'" "part_inv n P'" "unmarked P'" "refines n P1 P'"
    "\<forall>x < n. \<forall>y < n. cls P' x = cls P' y \<longleftrightarrow> cls P1 x = cls P1 y \<and> marked P1 x = marked P1 y" by blast
  have c1: "cls P1 = cls P" using P1(3) by (simp add: fun_eq_iff cls_def)
  have tm: "tgt i < m" if "i < n" for i using g that by (simp add: grouped_def)
  have "cls Q' (tgt x) = cls Q' (tgt y)" if xy: "x < n" "y < n" "cls P' x = cls P' y" for x y
  proof -
    have both: "cls P x = cls P y" "marked P1 x = marked P1 y" using P'(5) xy c1 by simp_all
    have q: "cls Q (tgt x) = cls Q (tgt y)" using P(3) [unfolded compat_def, rule_format, OF xy(1,2) both(1)] .
    have mem: "cls Q' (tgt x) = ?j \<longleftrightarrow> cls Q' (tgt y) = ?j"
      using both(2) P1(5) xy(1,2) unmarked_iff [OF P(1,2)] tm unfolding e(1) by simp
    show ?thesis
    proof (cases "cls Q' (tgt x) = ?j")
      case True
      then show ?thesis using mem by simp
    next
      case False
      have "cls Q' v = cls Q v" if "v < m" "cls Q' v \<noteq> ?j" for v
        using refinesD(2) [OF Q(3) that(1)] part_coreD(8) [OF Q(2) that(1)] that(2) Q(4) by linarith
      then show ?thesis using False mem q tm xy by simp
    qed
  qed
  then have "compat n tgt P' (cls Q')" unfolding compat_def by blast
  moreover have "refines n P P'" using refines_trans [OF refines_same [OF P1(3,4)] P'(4)] .
  ultimately show ?thesis using P1(1) P'(1-3) unfolding settled_def by blast
qed

section \<open>Refining\<close>

lemma splitIncoming_eq:
  assumes "part_core m N" "k < length (m_sets N)"
  shows "splitIncoming G k N (T, F) = do {
      T1 \<leftarrow> foldM (markIncoming (m_flattenedTransitionsStartOffsetPerNode G) (m_flattenedTransitionsSizePerNode G)) (elements N k) T;
      F1 \<leftarrow> foldM (markIncoming (m_flattenedFallbackTransitionsStartOffsetPerNode G)
              (m_flattenedFallbackTransitionsSizePerNode G)) (elements N k) F;
      T2 \<leftarrow> refineOnly T1;
      F2 \<leftarrow> refineOnly F1;
      Some (T2, F2)
    }"
proof -
  have both: "foldM (\<lambda>v (a, b). do { a \<leftarrow> f v a; b \<leftarrow> g v b; Some (a, b) }) vs (a, b)
    = do { a \<leftarrow> foldM f vs a; b \<leftarrow> foldM g vs b; Some (a, b) }" for f :: "nat \<Rightarrow> Partition \<Rightarrow> Partition option" and g vs a b
    by (induction vs arbitrary: a b) (auto split: Option.bind_splits)
  show ?thesis unfolding splitIncoming_def iterateSet_eq [OF assms] both by (auto split: Option.bind_splits)
qed

definition graph_step :: "nat \<Rightarrow> nat \<Rightarrow> nat \<Rightarrow> FullGraphPartition \<Rightarrow> FullGraphPartition \<Rightarrow> bool" where
  "graph_step m nT nF G G' \<longleftrightarrow> unmarked (m_nodePartition G')
     \<and> refines m (m_nodePartition G) (m_nodePartition G')
     \<and> refines nT (m_transitionPartition G) (m_transitionPartition G')
     \<and> refines nF (m_fallbackTransitionPartition G) (m_fallbackTransitionPartition G')"

lemma refinePartitions_ok:
  assumes inv: "graph_inv m trs fbs ftgt G"
  shows "\<exists>G'. refinePartitions G = Some G' \<and> graph_inv m trs fbs ftgt G' \<and> graph_step m (length trs) (length fbs) G G'
    \<and> m_nextTransitionSetToProcess G' = m_nextTransitionSetToProcess G
    \<and> (\<forall>p < m. \<forall>q < m. cls (m_nodePartition G') p = cls (m_nodePartition G') q
         \<longleftrightarrow> cls (m_nodePartition G) p = cls (m_nodePartition G) q \<and> marked (m_nodePartition G) p = marked (m_nodePartition G) q)"
proof -
  let ?nT = "length trs" and ?nF = "length fbs" and ?tgt = "\<lambda>i. t_target (trs ! i)"
  let ?T = "m_transitionPartition G" and ?F = "m_fallbackTransitionPartition G" and ?N = "m_nodePartition G"
  define I where "I = (\<lambda>Q (T, F). settled ?nT ?tgt (cls Q) T \<and> refines ?nT ?T T \<and> settled ?nF ftgt (cls Q) F \<and> refines ?nF ?F F)"
  have t: "grouped m ?nT ?tgt (m_flattenedTransitionsStartOffsetPerNode G) (m_flattenedTransitionsSizePerNode G)"
    "grouped m ?nF ftgt (m_flattenedFallbackTransitionsStartOffsetPerNode G) (m_flattenedFallbackTransitionsSizePerNode G)"
    "part_inv m ?N" "settled ?nT ?tgt (cls ?N) ?T" "settled ?nF ftgt (cls ?N) ?F"
    using inv unfolding graph_inv_def tables_ok_def by blast+
  have "\<exists>N s. refineGeneration (splitIncoming G) ?N (?T, ?F) = Some (N, s) \<and> part_inv m N \<and> unmarked N \<and> I N s
    \<and> refines m ?N N \<and> (\<forall>p < m. \<forall>q < m. cls N p = cls N q \<longleftrightarrow> cls ?N p = cls ?N q \<and> marked ?N p = marked ?N q)"
  proof (rule refineGeneration_rule)
    fix Q Q' s
    assume Q: "part_core m Q" "part_core m Q'" "refines m Q Q'" "length (m_sets Q') = Suc (length (m_sets Q))" and "I Q s"
    then obtain T F where s: "s = (T, F)" "settled ?nT ?tgt (cls Q) T" "refines ?nT ?T T" "settled ?nF ftgt (cls Q) F" "refines ?nF ?F F"
      by (cases s) (simp add: I_def)
    from split_settled [OF t(1) s(2) Q] obtain T1 T' where T: "foldM (markIncoming (m_flattenedTransitionsStartOffsetPerNode G)
      (m_flattenedTransitionsSizePerNode G)) (elements Q' (length (m_sets Q))) T = Some T1" "refineOnly T1 = Some T'"
      "settled ?nT ?tgt (cls Q') T'" "refines ?nT T T'" by blast
    from split_settled [OF t(2) s(4) Q] obtain F1 F' where F: "foldM (markIncoming (m_flattenedFallbackTransitionsStartOffsetPerNode G)
      (m_flattenedFallbackTransitionsSizePerNode G)) (elements Q' (length (m_sets Q))) F = Some F1" "refineOnly F1 = Some F'"
      "settled ?nF ftgt (cls Q') F'" "refines ?nF F F'" by blast
    have "length (m_sets Q) < length (m_sets Q')" using Q(4) by simp
    then have "splitIncoming G (length (m_sets Q)) Q' s = Some (T', F')"
      unfolding s(1) by (simp add: splitIncoming_eq [OF Q(2)] T(1,2) F(1,2))
    moreover have "I Q' (T', F')" unfolding I_def using T(3) F(3) refines_trans [OF s(3) T(4)] refines_trans [OF s(5) F(4)] by simp
    ultimately show "\<exists>s'. splitIncoming G (length (m_sets Q)) Q' s = Some s' \<and> I Q' s'" by blast
  next
    fix Q Q' :: Partition and s
    assume "I Q s" and same: "m_elementToSetMap Q' = m_elementToSetMap Q"
    moreover have "cls Q' = cls Q" using same by (simp add: fun_eq_iff cls_def)
    ultimately show "I Q' s" by (simp add: I_def)
  next
    show "I ?N (?T, ?F)" using t(4,5) by (simp add: I_def)
  qed (rule t(3))
  then obtain N T F where N: "refineGeneration (splitIncoming G) ?N (?T, ?F) = Some (N, (T, F))" "part_inv m N" "unmarked N" "I N (T, F)"
    "refines m ?N N" "\<forall>p < m. \<forall>q < m. cls N p = cls N q \<longleftrightarrow> cls ?N p = cls ?N q \<and> marked ?N p = marked ?N q" by auto
  let ?G' = "G\<lparr>m_nodePartition := N, m_transitionPartition := T, m_fallbackTransitionPartition := F\<rparr>"
  have i: "settled ?nT ?tgt (cls N) T" "refines ?nT ?T T" "settled ?nF ftgt (cls N) F" "refines ?nF ?F F"
    using N(4) by (simp_all add: I_def)
  have lab: "\<forall>x < ?nT. \<forall>y < ?nT. cls T x = cls T y \<longrightarrow> t_character (trs ! x) = t_character (trs ! y)"
    using inv refinesD(3) [OF i(2)] unfolding graph_inv_def by blast
  have "tables_ok m trs fbs ftgt ?G'" using inv unfolding graph_inv_def by (simp only: tables_ok_simps)
  moreover have f: "m_nodePartition ?G' = N" "m_transitionPartition ?G' = T" "m_fallbackTransitionPartition ?G' = F"
    by simp_all
  ultimately have "graph_inv m trs fbs ftgt ?G'" unfolding graph_inv_def f using N(2) i(1,3) lab by blast
  moreover have "graph_step m ?nT ?nF G ?G'" using N(3,5) i(2,4) by (simp add: graph_step_def)
  moreover have "refinePartitions G = Some ?G'" by (simp add: refinePartitions_def N(1))
  ultimately show ?thesis using N(6) by (intro exI [of _ ?G']) simp
qed

section \<open>The loops over the sets of transitions\<close>

lemma sets_bound:
  assumes "part_core n P"
  shows "length (m_sets P) \<le> n"
proof -
  have "{..<length (m_sets P)} \<subseteq> cls P ` {..<n}"
  proof
    fix k assume "k \<in> {..<length (m_sets P)}"
    then have k: "k < length (m_sets P)" by simp
    have "hd (elements P k) \<in> set (elements P k)" using elements_ok(3) [OF assms k] by simp
    then have "hd (elements P k) < n" "cls P (hd (elements P k)) = k" unfolding elements_ok(1) [OF assms k] by auto
    then show "k \<in> cls P ` {..<n}" by (intro image_eqI [where x = "hd (elements P k)"]) simp_all
  qed
  then have "card {..<length (m_sets P)} \<le> card (cls P ` {..<n})" by (intro card_mono) auto
  also have "\<dots> \<le> card {..<n}" by (intro card_image_le) simp
  finally show ?thesis by simp
qed

lemma elements_cover: "part_core n P \<Longrightarrow> k < length (m_sets P) \<Longrightarrow> set (elements P k) = cover n P {k}"
  by (simp add: elements_ok(1) cover_def)

lemma graph_step_trans:
  assumes "graph_step m nT nF G G'" "graph_step m nT nF G' G''"
  shows "graph_step m nT nF G G''"
  using assms unfolding graph_step_def by (meson refines_trans)

text \<open>Marking the sources of a set of transitions and refining makes the nodes stable for the set.\<close>

lemma mark_sources:
  assumes inv: "graph_inv m trs fbs ftgt G" and un: "unmarked (m_nodePartition G)" and core: "part_core n P" "k < length (m_sets P)"
    and src: "inj_on src (cover n P {k})" "src ` cover n P {k} \<subseteq> {..<m}"
  shows "\<exists>N G'. foldM (\<lambda>i. markElementInCurrentGeneration (src i)) (elements P k) (m_nodePartition G) = Some N
    \<and> refinePartitions (G\<lparr>m_nodePartition := N\<rparr>) = Some G' \<and> graph_inv m trs fbs ftgt G'
    \<and> graph_step m (length trs) (length fbs) G G' \<and> m_nextTransitionSetToProcess G' = m_nextTransitionSetToProcess G
    \<and> stable m (cls (m_nodePartition G')) (cover n P {k}) src"
proof -
  let ?N = "m_nodePartition G" and ?xs = "map src (elements P k)"
  have pN: "part_inv m ?N" using inv by (simp add: graph_inv_def)
  note e = elements_ok [OF core] and c = elements_cover [OF core]
  have d: "distinct ?xs" using e(2) src(1) c by (simp add: distinct_map)
  have sub: "set ?xs \<subseteq> {..<m}" using src(2) c by simp
  have nm: "\<forall>x \<in> set ?xs. \<not> marked ?N x" using unmarked_iff [OF pN un] sub by blast
  from mark_all [OF pN d sub nm] obtain N where N: "foldM markElementInCurrentGeneration ?xs ?N = Some N" "part_inv m N"
    "m_elementToSetMap N = m_elementToSetMap ?N" "length (m_sets N) = length (m_sets ?N)"
    "\<forall>y < m. marked N y \<longleftrightarrow> marked ?N y \<or> y \<in> set ?xs" by blast
  have same: "cls N = cls ?N" using N(3) by (simp add: fun_eq_iff cls_def)
  have f: "m_nodePartition (G\<lparr>m_nodePartition := N\<rparr>) = N" "m_transitionPartition (G\<lparr>m_nodePartition := N\<rparr>) = m_transitionPartition G"
    "m_fallbackTransitionPartition (G\<lparr>m_nodePartition := N\<rparr>) = m_fallbackTransitionPartition G"
    "m_nextTransitionSetToProcess (G\<lparr>m_nodePartition := N\<rparr>) = m_nextTransitionSetToProcess G" by simp_all
  have "graph_inv m trs fbs ftgt (G\<lparr>m_nodePartition := N\<rparr>)"
    using inv N(2) unfolding graph_inv_def f same tables_ok_simps by blast
  from refinePartitions_ok [OF this, unfolded f] obtain G' where G': "refinePartitions (G\<lparr>m_nodePartition := N\<rparr>) = Some G'"
    "graph_inv m trs fbs ftgt G'" "graph_step m (length trs) (length fbs) (G\<lparr>m_nodePartition := N\<rparr>) G'"
    "m_nextTransitionSetToProcess G' = m_nextTransitionSetToProcess G"
    "\<forall>p < m. \<forall>q < m. cls (m_nodePartition G') p = cls (m_nodePartition G') q \<longleftrightarrow> cls N p = cls N q \<and> marked N p = marked N q"
    by blast
  have "stable m (cls (m_nodePartition G')) (cover n P {k}) src"
    unfolding stable_def
  proof (intro allI impI)
    fix p q assume pq: "p < m" "q < m" "cls (m_nodePartition G') p = cls (m_nodePartition G') q"
    have "marked N p = marked N q" using G'(5) pq by blast
    then show "p \<in> src ` cover n P {k} \<longleftrightarrow> q \<in> src ` cover n P {k}"
      using N(5) [rule_format, OF pq(1)] N(5) [rule_format, OF pq(2)] unmarked_iff [OF pN un pq(1)] unmarked_iff [OF pN un pq(2)]
      unfolding set_map c by blast
  qed
  moreover have "graph_step m (length trs) (length fbs) G G'"
    using G'(3) refines_trans [OF refines_same [OF N(3,4)]] unfolding graph_step_def f by blast
  ultimately show ?thesis using N(1) G'(1,2,4) unfolding foldM_map by blast
qed

text \<open>What holds of the transitions, and of the fallback transitions, when the sets below an index were processed.\<close>

definition done_transitions :: "nat \<Rightarrow> FlatTransition list \<Rightarrow> nat \<Rightarrow> FullGraphPartition \<Rightarrow> bool" where
  "done_transitions m trs k G \<longleftrightarrow> pend m (cls (m_nodePartition G)) (length trs) (m_transitionPartition G)
     (\<lambda>i. t_source (trs ! i)) (\<lambda>i. t_character (trs ! i)) k"

definition done_fallbacks :: "nat \<Rightarrow> nat list \<Rightarrow> nat \<Rightarrow> FullGraphPartition \<Rightarrow> bool" where
  "done_fallbacks m fbs k G \<longleftrightarrow> pend m (cls (m_nodePartition G)) (length fbs) (m_fallbackTransitionPartition G)
     (nth fbs) (\<lambda>_. 0) k"

lemma graph_invD:
  assumes "graph_inv m trs fbs ftgt G"
  shows "tables_ok m trs fbs ftgt G" "part_core m (m_nodePartition G)"
    "part_core (length trs) (m_transitionPartition G)" "part_core (length fbs) (m_fallbackTransitionPartition G)"
    "\<And>x y. x < length trs \<Longrightarrow> y < length trs \<Longrightarrow> cls (m_transitionPartition G) x = cls (m_transitionPartition G) y
       \<Longrightarrow> t_character (trs ! x) = t_character (trs ! y)"
    "compat (length trs) (\<lambda>i. t_target (trs ! i)) (m_transitionPartition G) (cls (m_nodePartition G))"
    "compat (length fbs) ftgt (m_fallbackTransitionPartition G) (cls (m_nodePartition G))"
  using assms unfolding graph_inv_def settled_def part_inv_def by blast+

lemma tables_okD:
  assumes "tables_ok m trs fbs ftgt G"
  shows "m_flattenedTransitions G = trs" "m_flattenedFallbackTransitions G = fbs"
    "\<And>i. i < length trs \<Longrightarrow> t_source (trs ! i) < m"
    "\<And>i j. i < length trs \<Longrightarrow> j < length trs \<Longrightarrow> t_source (trs ! i) = t_source (trs ! j)
       \<Longrightarrow> t_character (trs ! i) = t_character (trs ! j) \<Longrightarrow> i = j"
    "\<And>i. i < length fbs \<Longrightarrow> fbs ! i < m" "distinct fbs"
  using assms unfolding tables_ok_def by blast+

lemma graph_step_pend:
  assumes "graph_step m (length trs) (length fbs) G G'" "graph_inv m trs fbs ftgt G'"
  shows "done_transitions m trs k G \<Longrightarrow> done_transitions m trs k G'" "done_fallbacks m fbs k G \<Longrightarrow> done_fallbacks m fbs k G'"
proof -
  have r: "refines m (m_nodePartition G) (m_nodePartition G')" "refines (length trs) (m_transitionPartition G) (m_transitionPartition G')"
    "refines (length fbs) (m_fallbackTransitionPartition G) (m_fallbackTransitionPartition G')"
    using assms(1) by (simp_all add: graph_step_def)
  note f = refines_finer [OF r(1)] and i = graph_invD [OF assms(2)]
  show "done_transitions m trs k G \<Longrightarrow> done_transitions m trs k G'"
    unfolding done_transitions_def by (rule pend_finer [OF f pend_refines [OF r(2) i(3)]])
  show "done_fallbacks m fbs k G \<Longrightarrow> done_fallbacks m fbs k G'"
    unfolding done_fallbacks_def by (rule pend_finer [OF f pend_refines [OF r(3) i(4)]])
qed

lemma splitByUniqueTransitions_ok:
  assumes "graph_inv m trs fbs ftgt G" "unmarked (m_nodePartition G)" "done_transitions m trs (m_nextTransitionSetToProcess G) G"
  shows "\<exists>G'. splitByUniqueTransitions G = Some G' \<and> graph_inv m trs fbs ftgt G' \<and> unmarked (m_nodePartition G')
    \<and> graph_step m (length trs) (length fbs) G G' \<and> done_transitions m trs (m_nextTransitionSetToProcess G') G'
    \<and> m_nextTransitionSetToProcess G' = length (m_sets (m_transitionPartition G'))"
  using assms
proof (induction "length trs - m_nextTransitionSetToProcess G" arbitrary: G rule: less_induct)
  case less
  let ?k = "m_nextTransitionSetToProcess G" and ?T = "m_transitionPartition G" and ?N = "m_nodePartition G"
  let ?src = "\<lambda>i. t_source (trs ! i)"
  note i = graph_invD [OF less.prems(1)]
  note t = tables_okD [OF i(1)]
  show ?case
  proof (cases "?k < length (m_sets ?T)")
    case False
    have "?k \<le> length (m_sets ?T)" using less.prems(3) by (simp add: done_transitions_def pend_def)
    moreover have "graph_step m (length trs) (length fbs) G G" using less.prems(2) by (simp add: graph_step_def)
    ultimately show ?thesis using False less.prems by (subst splitByUniqueTransitions.simps) (simp add: partition_size_def)
  next
    case True
    have lab: "t_character (trs ! x) = t_character (trs ! y)"
      if "x \<in> cover (length trs) ?T {?k}" "y \<in> cover (length trs) ?T {?k}" for x y
      using that i(5) [of x y] unfolding cover_def by simp
    have inj: "inj_on ?src (cover (length trs) ?T {?k})"
    proof (rule inj_onI)
      fix x y assume xy: "x \<in> cover (length trs) ?T {?k}" "y \<in> cover (length trs) ?T {?k}" "?src x = ?src y"
      then show "x = y" using t(4) [OF _ _ xy(3) lab [OF xy(1,2)]] unfolding cover_def by simp
    qed
    have sub: "?src ` cover (length trs) ?T {?k} \<subseteq> {..<m}" using t(3) by (auto simp: cover_def)
    from mark_sources [OF less.prems(1,2) i(3) True inj sub] obtain N G1 where N:
      "foldM (\<lambda>i. markElementInCurrentGeneration (?src i)) (elements ?T ?k) ?N = Some N"
      "refinePartitions (G\<lparr>m_nodePartition := N\<rparr>) = Some G1" "graph_inv m trs fbs ftgt G1"
      "graph_step m (length trs) (length fbs) G G1" "m_nextTransitionSetToProcess G1 = ?k"
      "stable m (cls (m_nodePartition G1)) (cover (length trs) ?T {?k}) ?src" by blast
    let ?G2 = "G1\<lparr>m_nextTransitionSetToProcess := ?k + 1\<rparr>"
    have f: "m_nodePartition ?G2 = m_nodePartition G1" "m_transitionPartition ?G2 = m_transitionPartition G1"
      "m_fallbackTransitionPartition ?G2 = m_fallbackTransitionPartition G1" "m_nextTransitionSetToProcess ?G2 = Suc ?k" by simp_all
    have inv2: "graph_inv m trs fbs ftgt ?G2" using N(3) unfolding graph_inv_def f tables_ok_simps .
    have r: "refines (length trs) ?T (m_transitionPartition G1)" "finer m (cls ?N) (cls (m_nodePartition G1))"
      using N(4) refines_finer by (auto simp: graph_step_def)
    have "pend m (cls (m_nodePartition G1)) (length trs) ?T ?src (\<lambda>i. t_character (trs ! i)) (Suc ?k)"
      by (rule pend_process [OF t(4) True pend_finer [OF r(2) less.prems(3) [unfolded done_transitions_def]] N(6)])
        (use lab in blast)+
    then have pd: "done_transitions m trs (Suc ?k) ?G2"
      unfolding done_transitions_def f by (rule pend_refines [OF r(1) graph_invD(3) [OF N(3)]])
    have un: "unmarked (m_nodePartition ?G2)" using N(4) unfolding f graph_step_def by blast
    have "?k < length trs" using True sets_bound [OF i(3)] by linarith
    then have "length trs - m_nextTransitionSetToProcess ?G2 < length trs - ?k" unfolding f by linarith
    from less.hyps [OF this inv2 un pd [folded f(4)]] obtain G' where G': "splitByUniqueTransitions ?G2 = Some G'"
      "graph_inv m trs fbs ftgt G'" "unmarked (m_nodePartition G')" "graph_step m (length trs) (length fbs) ?G2 G'"
      "done_transitions m trs (m_nextTransitionSetToProcess G') G'"
      "m_nextTransitionSetToProcess G' = length (m_sets (m_transitionPartition G'))" by blast
    have st: "graph_step m (length trs) (length fbs) G G'"
      using graph_step_trans [OF N(4)] G'(4) unfolding graph_step_def f by blast
    have "foldM (\<lambda>i N. do { tr \<leftarrow> vec_at trs i; markElementInCurrentGeneration (t_source tr) N }) (elements ?T ?k) ?N = Some N"
    proof -
      have "foldM (\<lambda>i N. do { tr \<leftarrow> vec_at trs i; markElementInCurrentGeneration (t_source tr) N }) (elements ?T ?k) ?N
        = foldM (\<lambda>i. markElementInCurrentGeneration (?src i)) (elements ?T ?k) ?N"
        using elements_ok(1) [OF i(3) True] by (intro foldM_cong) (auto simp: vec_simps)
      then show ?thesis using N(1) by simp
    qed
    then have "splitByUniqueTransitions G = Some G'"
      using True N(2,5) G'(1) by (subst splitByUniqueTransitions.simps) (simp add: partition_size_def iterateSet_eq [OF i(3)] t(1))
    then show ?thesis using G' st by blast
  qed
qed

end
