(* ===== verification/MinimizerPartition.thy ===== *)
theory MinimizerPartition
  imports GraphPartition
begin

text \<open>
  The last steps of the partition of \<^verbatim>\<open>DFAMinimizer.cpp\<close> and its construction: the split by fallback transitions
  and by actions, and the tables of incoming transitions, filled like a counting sort.
\<close>

section \<open>The split by fallback transitions\<close>

lemma splitByFallbackLoop_ok:
  assumes "graph_inv m trs fbs ftgt G" "unmarked (m_nodePartition G)"
    "done_transitions m trs (m_nextTransitionSetToProcess G) G"
    "m_nextTransitionSetToProcess G = length (m_sets (m_transitionPartition G))" "done_fallbacks m fbs k G"
  shows "\<exists>G'. splitByFallbackLoop k G = Some G' \<and> graph_inv m trs fbs ftgt G'
    \<and> graph_step m (length trs) (length fbs) G G'
    \<and> done_transitions m trs (length (m_sets (m_transitionPartition G'))) G'
    \<and> done_fallbacks m fbs (length (m_sets (m_fallbackTransitionPartition G'))) G'"
  using assms
proof (induction "length fbs - k" arbitrary: k G rule: less_induct)
  case less
  let ?F = "m_fallbackTransitionPartition G" and ?N = "m_nodePartition G"
  note i = graph_invD [OF less.prems(1)]
  note t = tables_okD [OF i(1)]
  show ?case
  proof (cases "k < length (m_sets ?F)")
    case False
    have "k \<le> length (m_sets ?F)" using less.prems(5) by (simp add: done_fallbacks_def pend_def)
    then have k: "k = length (m_sets ?F)" using False by simp
    have "graph_step m (length trs) (length fbs) G G" using less.prems(2) by (simp add: graph_step_def)
    moreover have "splitByFallbackLoop k G = Some G"
      using False by (subst splitByFallbackLoop.simps) (simp add: partition_size_def)
    ultimately show ?thesis using less.prems(1,3,5) unfolding less.prems(4) k by blast
  next
    case True
    have inj: "inj_on (nth fbs) (cover (length fbs) ?F {k})"
      using t(6) by (auto simp: inj_on_def cover_def nth_eq_iff_index_eq)
    have sub: "nth fbs ` cover (length fbs) ?F {k} \<subseteq> {..<m}" using t(5) by (auto simp: cover_def)
    from mark_sources [OF less.prems(1,2) i(4) True inj sub] obtain N G1 where N:
      "foldM (\<lambda>i. markElementInCurrentGeneration (fbs ! i)) (elements ?F k) ?N = Some N"
      "refinePartitions (G\<lparr>m_nodePartition := N\<rparr>) = Some G1" "graph_inv m trs fbs ftgt G1"
      "graph_step m (length trs) (length fbs) G G1" "m_nextTransitionSetToProcess G1 = m_nextTransitionSetToProcess G"
      "stable m (cls (m_nodePartition G1)) (cover (length fbs) ?F {k}) (nth fbs)" by blast
    have r: "refines (length fbs) ?F (m_fallbackTransitionPartition G1)" "finer m (cls ?N) (cls (m_nodePartition G1))"
      using N(4) refines_finer by (auto simp: graph_step_def)
    have src_inj: "x = y" if "x < length fbs" "y < length fbs" "fbs ! x = fbs ! y" for x y
      using that t(6) by (simp add: nth_eq_iff_index_eq)
    have "pend m (cls (m_nodePartition G1)) (length fbs) ?F (nth fbs) (\<lambda>_. 0) (Suc k)"
      by (rule pend_process [OF src_inj True pend_finer [OF r(2) less.prems(5) [unfolded done_fallbacks_def]] N(6)]) simp_all
    then have pf: "done_fallbacks m fbs (Suc k) G1"
      unfolding done_fallbacks_def by (rule pend_refines [OF r(1) graph_invD(4) [OF N(3)]])
    have un1: "unmarked (m_nodePartition G1)" using N(4) by (simp add: graph_step_def)
    have dt: "done_transitions m trs (m_nextTransitionSetToProcess G1) G1"
      unfolding N(5) by (rule graph_step_pend(1) [OF N(4,3) less.prems(3)])
    from splitByUniqueTransitions_ok [OF N(3) un1 dt] obtain G2 where G2: "splitByUniqueTransitions G1 = Some G2"
      "graph_inv m trs fbs ftgt G2" "unmarked (m_nodePartition G2)" "graph_step m (length trs) (length fbs) G1 G2"
      "done_transitions m trs (m_nextTransitionSetToProcess G2) G2"
      "m_nextTransitionSetToProcess G2 = length (m_sets (m_transitionPartition G2))" by blast
    have "k < length fbs" using True sets_bound [OF i(4)] by linarith
    then have "length fbs - Suc k < length fbs - k" by linarith
    from less.hyps [OF this G2(2,3,5,6) graph_step_pend(2) [OF G2(4,2) pf]] obtain G' where G':
      "splitByFallbackLoop (Suc k) G2 = Some G'" "graph_inv m trs fbs ftgt G'" "graph_step m (length trs) (length fbs) G2 G'"
      "done_transitions m trs (length (m_sets (m_transitionPartition G'))) G'"
      "done_fallbacks m fbs (length (m_sets (m_fallbackTransitionPartition G'))) G'" by blast
    have st: "graph_step m (length trs) (length fbs) G G'"
      by (rule graph_step_trans [OF graph_step_trans [OF N(4) G2(4)] G'(3)])
    have "foldM (\<lambda>i N. do { source \<leftarrow> vec_at fbs i; markElementInCurrentGeneration source N }) (elements ?F k) ?N = Some N"
    proof -
      have "foldM (\<lambda>i N. do { source \<leftarrow> vec_at fbs i; markElementInCurrentGeneration source N }) (elements ?F k) ?N
        = foldM (\<lambda>i. markElementInCurrentGeneration (fbs ! i)) (elements ?F k) ?N"
        using elements_ok(1) [OF i(4) True] by (intro foldM_cong) (auto simp: vec_simps)
      then show ?thesis using N(1) by simp
    qed
    then have "splitByFallbackLoop k G = Some G'"
      using True N(2) G2(1) G'(1) by (subst splitByFallbackLoop.simps) (simp add: partition_size_def iterateSet_eq [OF i(4)] t(2))
    then show ?thesis using G' st by blast
  qed
qed

section \<open>The split by actions\<close>

lemma markNode_eq:
  "foldM markNode xs G = map_option (\<lambda>N. G\<lparr>m_nodePartition := N\<rparr>) (foldM markElementInCurrentGeneration xs (m_nodePartition G))"
proof (induction xs arbitrary: G)
  case Nil
  show ?case by simp
next
  case (Cons x xs)
  show ?case
    by (cases "markElementInCurrentGeneration x (m_nodePartition G)") (simp_all add: markNode_def [of x G] Cons.IH)
qed

lemma splitByActions_ok:
  assumes "graph_inv m trs fbs ftgt G" "unmarked (m_nodePartition G)"
    "\<forall>slot \<in> set slots. distinct (snd slot) \<and> set (snd slot) \<subseteq> {..<m}"
  shows "\<exists>G'. splitByActions slots G = Some G' \<and> graph_inv m trs fbs ftgt G' \<and> unmarked (m_nodePartition G')
    \<and> graph_step m (length trs) (length fbs) G G' \<and> m_nextTransitionSetToProcess G' = m_nextTransitionSetToProcess G
    \<and> (\<forall>slot \<in> set slots. \<forall>p < m. \<forall>q < m. cls (m_nodePartition G') p = cls (m_nodePartition G') q
        \<longrightarrow> (p \<in> set (snd slot) \<longleftrightarrow> q \<in> set (snd slot)))"
  using assms
proof (induction slots arbitrary: G)
  case Nil
  then show ?case by (simp add: splitByActions_def graph_step_def)
next
  case (Cons slot slots)
  let ?N = "m_nodePartition G" and ?xs = "snd slot"
  have pN: "part_inv m ?N" using Cons.prems(1) by (simp add: graph_inv_def)
  have xs: "distinct ?xs" "set ?xs \<subseteq> {..<m}" using Cons.prems(3) by simp_all
  have nm: "\<forall>x \<in> set ?xs. \<not> marked ?N x" using unmarked_iff [OF pN Cons.prems(2)] xs(2) by blast
  from mark_all [OF pN xs nm] obtain N where N: "foldM markElementInCurrentGeneration ?xs ?N = Some N" "part_inv m N"
    "m_elementToSetMap N = m_elementToSetMap ?N" "length (m_sets N) = length (m_sets ?N)"
    "\<forall>y < m. marked N y \<longleftrightarrow> marked ?N y \<or> y \<in> set ?xs" by blast
  have same: "cls N = cls ?N" using N(3) by (simp add: fun_eq_iff cls_def)
  have f: "m_nodePartition (G\<lparr>m_nodePartition := N\<rparr>) = N" "m_transitionPartition (G\<lparr>m_nodePartition := N\<rparr>) = m_transitionPartition G"
    "m_fallbackTransitionPartition (G\<lparr>m_nodePartition := N\<rparr>) = m_fallbackTransitionPartition G"
    "m_nextTransitionSetToProcess (G\<lparr>m_nodePartition := N\<rparr>) = m_nextTransitionSetToProcess G" by simp_all
  have "graph_inv m trs fbs ftgt (G\<lparr>m_nodePartition := N\<rparr>)"
    using Cons.prems(1) N(2) unfolding graph_inv_def f same tables_ok_simps by blast
  from refinePartitions_ok [OF this, unfolded f] obtain G1 where G1: "refinePartitions (G\<lparr>m_nodePartition := N\<rparr>) = Some G1"
    "graph_inv m trs fbs ftgt G1" "graph_step m (length trs) (length fbs) (G\<lparr>m_nodePartition := N\<rparr>) G1"
    "m_nextTransitionSetToProcess G1 = m_nextTransitionSetToProcess G"
    "\<forall>p < m. \<forall>q < m. cls (m_nodePartition G1) p = cls (m_nodePartition G1) q \<longleftrightarrow> cls N p = cls N q \<and> marked N p = marked N q"
    by blast
  have st: "graph_step m (length trs) (length fbs) G G1"
    using G1(3) refines_trans [OF refines_same [OF N(3,4)]] unfolding graph_step_def f by blast
  have un: "unmarked (m_nodePartition G1)" using st by (simp add: graph_step_def)
  have rest: "\<forall>slot \<in> set slots. distinct (snd slot) \<and> set (snd slot) \<subseteq> {..<m}" using Cons.prems(3) by simp
  from Cons.IH [OF G1(2) un rest] obtain G' where G': "splitByActions slots G1 = Some G'" "graph_inv m trs fbs ftgt G'"
    "unmarked (m_nodePartition G')" "graph_step m (length trs) (length fbs) G1 G'"
    "m_nextTransitionSetToProcess G' = m_nextTransitionSetToProcess G1"
    "\<forall>slot \<in> set slots. \<forall>p < m. \<forall>q < m. cls (m_nodePartition G') p = cls (m_nodePartition G') q
        \<longrightarrow> (p \<in> set (snd slot) \<longleftrightarrow> q \<in> set (snd slot))" by blast
  have here: "p \<in> set ?xs \<longleftrightarrow> q \<in> set ?xs" if pq: "p < m" "q < m" "cls (m_nodePartition G') p = cls (m_nodePartition G') q" for p q
  proof -
    have "cls (m_nodePartition G1) p = cls (m_nodePartition G1) q"
      using G'(4) refinesD(3) [OF _ pq] unfolding graph_step_def by blast
    then have "marked N p = marked N q" using G1(5) pq by blast
    then show ?thesis
      using N(5) [rule_format, OF pq(1)] N(5) [rule_format, OF pq(2)] unmarked_iff [OF pN Cons.prems(2) pq(1)]
        unmarked_iff [OF pN Cons.prems(2) pq(2)] by blast
  qed
  have "splitByActions (slot # slots) G = Some G'"
    using G'(1) unfolding splitByActions_def by (simp add: markNode_eq N(1) G1(1))
  moreover have "\<forall>s \<in> set (slot # slots). \<forall>p < m. \<forall>q < m. cls (m_nodePartition G') p = cls (m_nodePartition G') q
      \<longrightarrow> (p \<in> set (snd s) \<longleftrightarrow> q \<in> set (snd s))"
  proof
    fix s assume "s \<in> set (slot # slots)"
    then show "\<forall>p < m. \<forall>q < m. cls (m_nodePartition G') p = cls (m_nodePartition G') q
      \<longrightarrow> (p \<in> set (snd s) \<longleftrightarrow> q \<in> set (snd s))"
    proof (cases "s = slot")
      case True
      then show ?thesis using here by blast
    next
      case False
      then have "s \<in> set slots" using \<open>s \<in> set (slot # slots)\<close> by simp
      then show ?thesis using G'(6) by blast
    qed
  qed
  ultimately show ?case using G'(2,3) G'(5) [unfolded G1(4)] graph_step_trans [OF st G'(4)] by blast
qed

section \<open>The partition at the end\<close>

text \<open>Nodes of one set have transitions on the same characters, to nodes of one set.\<close>

lemma partition_stable:
  assumes inv: "graph_inv m trs fbs ftgt G"
    and fin: "done_transitions m trs (length (m_sets (m_transitionPartition G))) G"
      "done_fallbacks m fbs (length (m_sets (m_fallbackTransitionPartition G))) G"
    and pq: "p < m" "q < m" "cls (m_nodePartition G) p = cls (m_nodePartition G) q"
  shows "\<And>i. i < length trs \<Longrightarrow> t_source (trs ! i) = p \<Longrightarrow> \<exists>j < length trs. t_source (trs ! j) = q
      \<and> t_character (trs ! j) = t_character (trs ! i)
      \<and> cls (m_nodePartition G) (t_target (trs ! j)) = cls (m_nodePartition G) (t_target (trs ! i))"
    and "\<And>i. i < length fbs \<Longrightarrow> fbs ! i = p \<Longrightarrow> \<exists>j < length fbs. fbs ! j = q
      \<and> cls (m_nodePartition G) (ftgt j) = cls (m_nodePartition G) (ftgt i)"
proof -
  note i = graph_invD [OF inv]
  let ?T = "m_transitionPartition G" and ?F = "m_fallbackTransitionPartition G"
  fix x assume x: "x < length trs" "t_source (trs ! x) = p"
  have k: "cls ?T x < length (m_sets ?T)" using part_coreD(8) [OF i(3) x(1)] .
  have "p \<in> (\<lambda>i. t_source (trs ! i)) ` cover (length trs) ?T {cls ?T x}" using x by (auto simp: cover_def)
  then have "q \<in> (\<lambda>i. t_source (trs ! i)) ` cover (length trs) ?T {cls ?T x}"
    using pend_all [OF fin(1) [unfolded done_transitions_def] k] pq unfolding stable_def by blast
  then obtain y where y: "y < length trs" "cls ?T y = cls ?T x" "t_source (trs ! y) = q" unfolding cover_def by blast
  then show "\<exists>j < length trs. t_source (trs ! j) = q \<and> t_character (trs ! j) = t_character (trs ! x)
      \<and> cls (m_nodePartition G) (t_target (trs ! j)) = cls (m_nodePartition G) (t_target (trs ! x))"
    using i(5) [OF y(1) x(1) y(2)] i(6) [unfolded compat_def, rule_format, OF y(1) x(1) y(2)] by blast
next
  note i = graph_invD [OF inv]
  let ?F = "m_fallbackTransitionPartition G"
  fix x assume x: "x < length fbs" "fbs ! x = p"
  have k: "cls ?F x < length (m_sets ?F)" using part_coreD(8) [OF i(4) x(1)] .
  have "p \<in> nth fbs ` cover (length fbs) ?F {cls ?F x}" using x by (auto simp: cover_def)
  then have "q \<in> nth fbs ` cover (length fbs) ?F {cls ?F x}"
    using pend_all [OF fin(2) [unfolded done_fallbacks_def] k] pq unfolding stable_def by blast
  then obtain y where y: "y < length fbs" "cls ?F y = cls ?F x" "fbs ! y = q" unfolding cover_def by blast
  then show "\<exists>j < length fbs. fbs ! j = q \<and> cls (m_nodePartition G) (ftgt j) = cls (m_nodePartition G) (ftgt x)"
    using i(7) [unfolded compat_def, rule_format, OF y(1) x(1) y(2)] by blast
qed

end
