(* ===== verification/GraphTables.thy ===== *)
theory GraphTables
  imports MinimizerPartition
begin

text \<open>
  The constructor of \<^verbatim>\<open>FullGraphPartition\<close>: counting the incoming transitions, turning the counts into offsets and filling
  the tables is a counting sort by target; then the transitions are partitioned by character.
\<close>

section \<open>Grouping by target\<close>

definition group :: "nat \<Rightarrow> ('a \<Rightarrow> nat) \<Rightarrow> 'a list \<Rightarrow> 'a list" where
  "group m tgt L = concat (map (\<lambda>v. filter (\<lambda>x. tgt x = v) L) [0..<m])"

definition offset :: "('a \<Rightarrow> nat) \<Rightarrow> 'a list \<Rightarrow> nat \<Rightarrow> nat" where
  "offset tgt L v = length (group v tgt L)"

definition count_of :: "('a \<Rightarrow> nat) \<Rightarrow> 'a list \<Rightarrow> nat \<Rightarrow> nat" where
  "count_of tgt L v = length (filter (\<lambda>x. tgt x = v) L)"

lemma group_Suc: "group (Suc m) tgt L = group m tgt L @ filter (\<lambda>x. tgt x = m) L"
  by (simp add: group_def)

lemma offset_Suc: "offset tgt L (Suc v) = offset tgt L v + count_of tgt L v"
  by (simp add: offset_def count_of_def group_Suc)

lemma offset_mono: "v < v' \<Longrightarrow> offset tgt L v + count_of tgt L v \<le> offset tgt L v'"
proof (induction v')
  case 0
  then show ?case by simp
next
  case (Suc v')
  then show ?case by (cases "v = v'") (auto simp: offset_Suc)
qed

lemma mset_group: "mset (group m tgt L) = filter_mset (\<lambda>x. tgt x < m) (mset L)"
  by (induction m) (auto simp: group_Suc group_def multiset_eq_iff less_Suc_eq)

lemma mset_group_all: "\<forall>x \<in> set L. tgt x < m \<Longrightarrow> mset (group m tgt L) = mset L"
  unfolding mset_group by (rule filter_mset_eq_conv [THEN iffD2]) simp

lemma length_group: "\<forall>x \<in> set L. tgt x < m \<Longrightarrow> length (group m tgt L) = length L"
  using mset_group_all mset_eq_length by blast

lemma nth_group:
  "v < m \<Longrightarrow> r < count_of tgt L v \<Longrightarrow> offset tgt L v + r < length (group m tgt L)
    \<and> group m tgt L ! (offset tgt L v + r) = filter (\<lambda>x. tgt x = v) L ! r"
proof (induction m)
  case 0
  then show ?case by simp
next
  case (Suc m)
  show ?case
  proof (cases "v = m")
    case True
    then show ?thesis using Suc.prems by (simp add: group_Suc nth_append offset_def count_of_def)
  next
    case False
    then have "offset tgt L v + r < length (group m tgt L)" "group m tgt L ! (offset tgt L v + r) = filter (\<lambda>x. tgt x = v) L ! r"
      using Suc by simp_all
    then show ?thesis by (simp add: group_Suc nth_append)
  qed
qed

lemma group_index:
  "i < length (group m tgt L) \<Longrightarrow> \<exists>v < m. \<exists>r < count_of tgt L v. i = offset tgt L v + r"
proof (induction m)
  case 0
  then show ?case by (simp add: group_def)
next
  case (Suc m)
  show ?case
  proof (cases "i < length (group m tgt L)")
    case True
    then show ?thesis using Suc.IH less_Suc_eq by blast
  next
    case False
    then have "i - offset tgt L m < count_of tgt L m" "i = offset tgt L m + (i - offset tgt L m)"
      using Suc.prems by (simp_all add: group_Suc offset_def count_of_def)
    then show ?thesis by blast
  qed
qed

lemma group_window:
  assumes "i < length (group m tgt L)" "v < m"
  shows "tgt (group m tgt L ! i) = v \<longleftrightarrow> offset tgt L v \<le> i \<and> i < offset tgt L v + count_of tgt L v"
proof -
  obtain u r where u: "u < m" "r < count_of tgt L u" "i = offset tgt L u + r" using group_index [OF assms(1)] by blast
  have "filter (\<lambda>x. tgt x = u) L ! r \<in> set (filter (\<lambda>x. tgt x = u) L)" using u(2) by (intro nth_mem) (simp add: count_of_def)
  then have t: "tgt (group m tgt L ! i) = u" using nth_group [OF u(1,2)] u(3) by simp
  show ?thesis
  proof (cases "u = v")
    case True
    then show ?thesis using t u by simp
  next
    case False
    then have "u < v \<or> v < u" by linarith
    then have "\<not> (offset tgt L v \<le> i \<and> i < offset tgt L v + count_of tgt L v)"
      using u(2,3) offset_mono [of u v tgt L] offset_mono [of v u tgt L] by linarith
    then show ?thesis using t False by simp
  qed
qed

lemma grouped_group:
  assumes "\<forall>x \<in> set L. tgt x < m"
  shows "grouped m (length L) (\<lambda>i. tgt (group m tgt L ! i)) (map (offset tgt L) [0..<m]) (map (count_of tgt L) [0..<m])"
proof -
  have len: "length (group m tgt L) = length L" by (rule length_group [OF assms])
  have s: "set (group m tgt L) = set L" using mset_group_all [OF assms] mset_eq_setD by blast
  have b: "tgt (group m tgt L ! i) < m" if "i < length L" for i
    using assms s nth_mem [of i "group m tgt L"] that len by auto
  have e: "offset tgt L v + count_of tgt L v \<le> length L" if "v < m" for v
    using offset_mono [OF that, of tgt L] len by (simp add: offset_def)
  show ?thesis unfolding grouped_def using b e group_window [of _ m tgt L] len by simp
qed

section \<open>The loops of the constructor\<close>

lemma countIncoming_loop:
  assumes "\<forall>x \<in> set L. tgt x < length cs"
  shows "foldM (\<lambda>x. increment (tgt x)) L cs = Some (map (\<lambda>v. cs ! v + count_of tgt L v) [0..<length cs])"
  using assms
proof (induction L arbitrary: cs)
  case Nil
  show ?case by (simp add: count_of_def map_nth)
next
  case (Cons x L)
  let ?cs = "cs[tgt x := cs ! tgt x + 1]"
  have "foldM (\<lambda>x. increment (tgt x)) (x # L) cs = foldM (\<lambda>x. increment (tgt x)) L ?cs"
    using Cons.prems by (simp add: increment_def vec_simps)
  also have "\<dots> = Some (map (\<lambda>v. ?cs ! v + count_of tgt L v) [0..<length ?cs])" using Cons by (intro Cons.IH) simp
  also have "map (\<lambda>v. ?cs ! v + count_of tgt L v) [0..<length ?cs] = map (\<lambda>v. cs ! v + count_of tgt (x # L) v) [0..<length cs]"
    using Cons.prems by (auto simp: count_of_def nth_list_update)
  finally show ?case .
qed

lemma accumulate_eq:
  "accumulate acc ns = (map (\<lambda>v. acc + sum_list (take v ns)) [0..<length ns], acc + sum_list ns)"
proof (induction ns arbitrary: acc)
  case Nil
  show ?case by simp
next
  case (Cons n ns)
  have "map (\<lambda>v. acc + sum_list (take v (n # ns))) [0..<Suc (length ns)]
    = acc # map (\<lambda>v. acc + n + sum_list (take v ns)) [0..<length ns]"
    by (simp only: upt_conv_Cons zero_less_Suc list.map map_Suc_upt [symmetric] map_map comp_def take_0 take_Suc_Cons) simp
  then show ?case by (simp add: Cons.IH add.assoc)
qed

lemma offset_sum: "v \<le> m \<Longrightarrow> sum_list (take v (map (count_of tgt L) [0..<m])) = offset tgt L v"
proof (induction v)
  case 0
  show ?case by (simp add: offset_def group_def)
next
  case (Suc v)
  then show ?case by (simp add: take_Suc_conv_app_nth offset_Suc)
qed

lemma accumulate_counts:
  "accumulate 0 (map (count_of tgt L) [0..<m]) = (map (offset tgt L) [0..<m], offset tgt L m)"
  using offset_sum [of m m tgt L] by (simp add: accumulate_eq offset_sum)

lemma count_take: "k < length L \<Longrightarrow> count_of tgt (take (Suc k) L) v = count_of tgt (take k L) v + (if tgt (L ! k) = v then 1 else 0)"
  by (simp add: count_of_def take_Suc_conv_app_nth)

lemma count_take_le: "count_of tgt (take k L) v \<le> count_of tgt L v"
proof -
  have "count_of tgt L v = count_of tgt (take k L) v + count_of tgt (drop k L) v"
    unfolding count_of_def by (metis append_take_drop_id filter_append length_append)
  then show ?thesis by linarith
qed

lemma filter_take_nth:
  "r < count_of tgt (take k L) v \<Longrightarrow> filter (\<lambda>x. tgt x = v) (take k L) ! r = filter (\<lambda>x. tgt x = v) L ! r"
  unfolding count_of_def by (metis append_take_drop_id filter_append nth_append)

lemma fill_loop:
  assumes tgt: "\<forall>x \<in> set L. tgt x < m" and len: "length table = length L"
  shows "foldM (\<lambda>x. fillEntry (map (offset tgt L) [0..<m]) (tgt x) (g x)) L (table, replicate m 0)
    = Some (map g (group m tgt L), map (count_of tgt L) [0..<m])"
proof -
  define I where "I = (\<lambda>k (tab, sizes). length tab = length L \<and> sizes = map (count_of tgt (take k L)) [0..<m]
    \<and> (\<forall>v < m. \<forall>r < count_of tgt (take k L) v. tab ! (offset tgt L v + r) = g (filter (\<lambda>x. tgt x = v) L ! r)))"
  have "\<exists>st. foldM (\<lambda>x. fillEntry (map (offset tgt L) [0..<m]) (tgt x) (g x)) L (table, replicate m 0) = Some st \<and> I (length L) st"
  proof (rule foldM_invariant)
    have "replicate m 0 = map (count_of tgt []) [0..<m]" by (rule nth_equalityI) (simp_all add: count_of_def)
    then show "I 0 (table, replicate m 0)" using len by (simp add: I_def count_of_def)
    fix k st assume k: "k < length L" and "I k st"
    then obtain tab where st: "st = (tab, map (count_of tgt (take k L)) [0..<m])" "length tab = length L"
      "\<forall>v < m. \<forall>r < count_of tgt (take k L) v. tab ! (offset tgt L v + r) = g (filter (\<lambda>x. tgt x = v) L ! r)"
      by (cases st) (simp add: I_def)
    let ?v = "tgt (L ! k)" and ?c = "\<lambda>v. count_of tgt (take k L) v"
    have v: "?v < m" using tgt k by simp
    have c: "?c ?v < count_of tgt L ?v" using count_take [OF k, of tgt ?v] count_take_le [of tgt "Suc k" L ?v] by simp
    have lt: "offset tgt L ?v + ?c ?v < length L" using nth_group [OF v c] length_group [OF tgt] by simp
    let ?tab = "tab[offset tgt L ?v + ?c ?v := g (L ! k)]"
    have "fillEntry (map (offset tgt L) [0..<m]) ?v (g (L ! k)) st = Some (?tab, map (count_of tgt (take (Suc k) L)) [0..<m])"
    proof -
      have "(map ?c [0..<m])[?v := ?c ?v + 1] = map (count_of tgt (take (Suc k) L)) [0..<m]"
        using v by (intro nth_equalityI) (auto simp: nth_list_update count_take [OF k])
      then show ?thesis using v lt st(2) by (simp add: fillEntry_def st(1) vec_simps)
    qed
    moreover have "?tab ! (offset tgt L u + r) = g (filter (\<lambda>x. tgt x = u) L ! r)"
      if u: "u < m" "r < count_of tgt (take (Suc k) L) u" for u r
    proof (cases "u = ?v \<and> r = ?c ?v")
      case True
      have "filter (\<lambda>x. tgt x = ?v) L ! ?c ?v = L ! k"
      proof -
        have "filter (\<lambda>x. tgt x = ?v) L = filter (\<lambda>x. tgt x = ?v) (take k L) @ L ! k # filter (\<lambda>x. tgt x = ?v) (drop (Suc k) L)"
          using k by (subst id_take_nth_drop [OF k]) simp
        then show ?thesis by (simp add: count_of_def nth_append)
      qed
      then show ?thesis using True lt st(2) by simp
    next
      case False
      have r: "r < ?c u" using u(2) False by (auto simp: count_take [OF k] split: if_splits)
      have "r < count_of tgt L u" using r count_take_le [of tgt k L u] by linarith
      have ne: "offset tgt L u + r \<noteq> offset tgt L ?v + ?c ?v"
      proof (cases "u = ?v")
        case True
        then show ?thesis using r by simp
      next
        case False
        then have "u < ?v \<or> ?v < u" by linarith
        then show ?thesis using offset_mono [of u ?v tgt L] offset_mono [of ?v u tgt L] c \<open>r < count_of tgt L u\<close> by linarith
      qed
      show ?thesis using st(3) u(1) r ne by simp
    qed
    ultimately show "\<exists>st'. fillEntry (map (offset tgt L) [0..<m]) ?v (g (L ! k)) st = Some st' \<and> I (Suc k) st'"
      using st(2) by (simp add: I_def)
  qed
  then obtain tab where tab: "foldM (\<lambda>x. fillEntry (map (offset tgt L) [0..<m]) (tgt x) (g x)) L (table, replicate m 0)
      = Some (tab, map (count_of tgt L) [0..<m])" "length tab = length L"
    "\<forall>v < m. \<forall>r < count_of tgt L v. tab ! (offset tgt L v + r) = g (filter (\<lambda>x. tgt x = v) L ! r)"
    unfolding I_def by auto
  have "tab = map g (group m tgt L)"
  proof (rule nth_equalityI)
    show "length tab = length (map g (group m tgt L))" using tab(2) length_group [OF tgt] by simp
    fix i assume "i < length tab"
    then have i: "i < length (group m tgt L)" using tab(2) length_group [OF tgt] by simp
    obtain v r where "v < m" "r < count_of tgt L v" "i = offset tgt L v + r" using group_index [OF i] by blast
    then show "tab ! i = map g (group m tgt L) ! i" using tab(3) nth_group [of v m r tgt L] i by simp
  qed
  then show ?thesis using tab(1) by simp
qed

text \<open>Two loops that are run together, each over its own part of the state.\<close>

lemma foldM_pair:
  "foldM (\<lambda>i (a, b). do { a \<leftarrow> foldM f (xs i) a; b \<leftarrow> foldM g (ys i) b; Some (a, b) }) is (a, b)
    = do { a \<leftarrow> foldM f (concat (map xs is)) a; b \<leftarrow> foldM g (concat (map ys is)) b; Some (a, b) }"
proof (induction "is" arbitrary: a b)
  case Nil
  show ?case by simp
next
  case (Cons i "is")
  show ?case
    by (cases "foldM f (xs i) a"; cases "foldM g (ys i) b") (auto simp: Cons.IH foldM_append split: Option.bind_splits)
qed

section \<open>The initial partition of the transitions\<close>

lemma foldM_if: "foldM (\<lambda>x s. if P x then f x s else Some s) xs = foldM f (filter P xs)"
proof (induction xs)
  case Nil
  show ?case by (rule ext) simp
next
  case (Cons x xs)
  show ?case by (rule ext) (simp add: Cons.IH)
qed

lemma initialTransitionPartition_ok:
  assumes "\<forall>i < length trs. t_character (trs ! i) < 128"
  shows "\<exists>P. initialTransitionPartition trs = Some P \<and> part_inv (length trs) P \<and> unmarked P
    \<and> (\<forall>x < length trs. \<forall>y < length trs. cls P x = cls P y \<longrightarrow> t_character (trs ! x) = t_character (trs ! y))"
proof -
  let ?n = "length trs" and ?ch = "\<lambda>i. t_character (trs ! i)"
  define I where "I = (\<lambda>k P. part_inv ?n P \<and> unmarked P \<and>
    (\<forall>x < ?n. \<forall>y < ?n. cls P x = cls P y \<longrightarrow> ?ch x < k \<longrightarrow> ?ch x = ?ch y))"
  have "\<exists>P. foldM (\<lambda>c P. Option.bind (markCharacter trs c P) refineOnly) [0..<128] (initialize ?n new_Partition) = Some P
    \<and> I (length [0..<128]) P"
  proof (rule foldM_invariant)
    show "I 0 (initialize ?n new_Partition)" using initialize_inv(1,2) by (simp add: I_def)
    fix k P assume k: "k < length [0..<128]" and "I k P"
    then have P: "part_inv ?n P" "unmarked P" "\<forall>x < ?n. \<forall>y < ?n. cls P x = cls P y \<longrightarrow> ?ch x < k \<longrightarrow> ?ch x = ?ch y"
      unfolding I_def by blast+
    let ?xs = "filter (\<lambda>i. ?ch i = k) [0..<?n]"
    have nm: "\<forall>x \<in> set ?xs. \<not> marked P x" using unmarked_iff [OF P(1,2)] by simp
    have sub: "distinct ?xs" "set ?xs \<subseteq> {..<?n}" by auto
    from mark_all [OF P(1) sub nm] obtain Q where Q: "foldM markElementInCurrentGeneration ?xs P = Some Q" "part_inv ?n Q"
      "m_elementToSetMap Q = m_elementToSetMap P" "length (m_sets Q) = length (m_sets P)"
      "\<forall>y < ?n. marked Q y \<longleftrightarrow> marked P y \<or> y \<in> set ?xs" by blast
    from refineOnly_ok [OF Q(2)] obtain R where R: "refineOnly Q = Some R" "part_inv ?n R" "unmarked R" "refines ?n Q R"
      "\<forall>x < ?n. \<forall>y < ?n. cls R x = cls R y \<longleftrightarrow> cls Q x = cls Q y \<and> marked Q x = marked Q y" by blast
    have same: "cls Q = cls P" using Q(3) by (simp add: fun_eq_iff cls_def)
    have "?ch x = ?ch y" if xy: "x < ?n" "y < ?n" "cls R x = cls R y" "?ch x < Suc k" for x y
    proof -
      have c: "cls P x = cls P y" "marked Q x = marked Q y" using R(5) xy(1-3) same by simp_all
      have mk: "marked Q z \<longleftrightarrow> ?ch z = k" if "z < ?n" for z
        using Q(5) [rule_format, OF that] unmarked_iff [OF P(1,2) that] that by simp
      show ?thesis
      proof (cases "?ch x = k")
        case True
        then show ?thesis using c(2) mk [OF xy(1)] mk [OF xy(2)] by simp
      next
        case False
        then show ?thesis using P(3) [rule_format, OF xy(1,2) c(1)] xy(4) by simp
      qed
    qed
    then have "I (Suc k) R" unfolding I_def using R(2,3) by blast
    then show "\<exists>Q. Option.bind (markCharacter trs ([0..<128] ! k) P) refineOnly = Some Q \<and> I (Suc k) Q"
      using k Q(1) R(1) by (simp add: markCharacter_def foldM_if)
  qed
  then obtain P where "initialTransitionPartition trs = Some P" "I 128 P"
    unfolding initialTransitionPartition_def by auto
  then show ?thesis using assms unfolding I_def by blast
qed

section \<open>The constructor\<close>

definition own_list :: "DFA \<Rightarrow> FlatTransition list" where
  "own_list dfa = concat (map (\<lambda>i. map (\<lambda>t. \<lparr>t_source = i, t_target = snd t, t_character = fst t\<rparr>)
     (node_transitions dfa (nodes dfa ! i))) [0..<length (nodes dfa)])"

definition node_fallbacks :: "DFA \<Rightarrow> DFANode \<Rightarrow> nat list" where
  "node_fallbacks dfa node = (case node_fallback dfa node of None \<Rightarrow> [] | Some t \<Rightarrow> [t])"

definition fallback_list :: "DFA \<Rightarrow> (nat \<times> nat) list" where
  "fallback_list dfa = concat (map (\<lambda>i. map (Pair i) (node_fallbacks dfa (nodes dfa ! i))) [0..<length (nodes dfa)])"

definition nodes_wf :: "DFA \<Rightarrow> bool" where
  "nodes_wf dfa \<longleftrightarrow> (\<forall>node \<in> set (nodes dfa). dfa_node_wf dfa node)"

lemma nodes_wfD:
  assumes "nodes_wf dfa" "i < length (nodes dfa)"
  shows "node_in_range dfa (nodes dfa ! i)" "distinct (map fst (node_transitions dfa (nodes dfa ! i)))"
    "\<And>c t. (c, t) \<in> set (node_transitions dfa (nodes dfa ! i)) \<Longrightarrow> c < 128 \<and> t < length (nodes dfa)"
    "\<And>t. node_fallback dfa (nodes dfa ! i) = Some t \<Longrightarrow> t < length (nodes dfa)"
  using assms unfolding nodes_wf_def dfa_node_wf_def by (auto dest!: nth_mem)

lemma mem_own_list:
  "x \<in> set (own_list dfa) \<longleftrightarrow> t_source x < length (nodes dfa)
     \<and> (t_character x, t_target x) \<in> set (node_transitions dfa (nodes dfa ! t_source x))"
  by (cases x) (force simp: own_list_def)

lemma mem_fallback_list:
  "(p, t) \<in> set (fallback_list dfa) \<longleftrightarrow> p < length (nodes dfa) \<and> node_fallback dfa (nodes dfa ! p) = Some t"
proof
  show "(p, t) \<in> set (fallback_list dfa) \<Longrightarrow> p < length (nodes dfa) \<and> node_fallback dfa (nodes dfa ! p) = Some t"
    by (auto simp: fallback_list_def node_fallbacks_def split: option.splits)
  show "p < length (nodes dfa) \<and> node_fallback dfa (nodes dfa ! p) = Some t \<Longrightarrow> (p, t) \<in> set (fallback_list dfa)"
    unfolding fallback_list_def set_concat set_map by (intro UN_I [where a = "map (Pair p) [t]"] image_eqI [where x = p])
      (simp_all add: node_fallbacks_def)
qed

lemma distinct_tagged:
  assumes "\<forall>i < m. distinct (map f (xs i))"
  shows "distinct (concat (map (\<lambda>i. map (\<lambda>x. (i, f x)) (xs i)) [0..<m]))"
  using assms
proof (induction m)
  case 0
  show ?case by simp
next
  case (Suc m)
  have "distinct (map f (xs m))" using Suc.prems by blast
  then have "distinct (map (\<lambda>x. (m, f x)) (xs m))" by (simp add: distinct_map inj_on_def)
  then show ?case using Suc by auto
qed

lemma own_list_distinct:
  assumes "nodes_wf dfa"
  shows "distinct (map (\<lambda>x. (t_source x, t_character x)) (own_list dfa))"
proof -
  have "map (\<lambda>x. (t_source x, t_character x)) (own_list dfa)
    = concat (map (\<lambda>i. map (\<lambda>x. (i, fst x)) (node_transitions dfa (nodes dfa ! i))) [0..<length (nodes dfa)])"
    by (simp add: own_list_def map_concat comp_def)
  then show ?thesis using distinct_tagged [of "length (nodes dfa)" fst "\<lambda>i. node_transitions dfa (nodes dfa ! i)"]
      nodes_wfD(2) [OF assms] by simp
qed

lemma fallback_list_distinct: "distinct (map fst (fallback_list dfa))"
proof -
  have "map fst (fallback_list dfa)
    = concat (map (\<lambda>i. if node_fallback dfa (nodes dfa ! i) = None then [] else [i]) [0..<length (nodes dfa)])"
    unfolding fallback_list_def map_concat map_map comp_def
    by (intro arg_cong [where f = concat] map_cong refl) (auto simp: node_fallbacks_def split: option.splits)
  moreover have "concat (map (\<lambda>i. if P i then [] else [i]) xs) = filter (\<lambda>i. \<not> P i) xs" for P and xs :: "nat list"
    by (induction xs) auto
  ultimately show ?thesis by simp
qed

text \<open>The tables that the constructor fills.\<close>

definition graph_transitions :: "DFA \<Rightarrow> FlatTransition list" where
  "graph_transitions dfa = group (length (nodes dfa)) t_target (own_list dfa)"

definition graph_fallbacks :: "DFA \<Rightarrow> (nat \<times> nat) list" where
  "graph_fallbacks dfa = group (length (nodes dfa)) snd (fallback_list dfa)"

lemma graph_lists:
  assumes "nodes_wf dfa"
  shows "\<forall>x \<in> set (own_list dfa). t_target x < length (nodes dfa)" "\<forall>x \<in> set (fallback_list dfa). snd x < length (nodes dfa)"
    "set (graph_transitions dfa) = set (own_list dfa)" "set (graph_fallbacks dfa) = set (fallback_list dfa)"
    "length (graph_transitions dfa) = length (own_list dfa)" "length (graph_fallbacks dfa) = length (fallback_list dfa)"
    "distinct (map (\<lambda>x. (t_source x, t_character x)) (graph_transitions dfa))" "distinct (map fst (graph_fallbacks dfa))"
proof -
  show a: "\<forall>x \<in> set (own_list dfa). t_target x < length (nodes dfa)"
    using nodes_wfD(3) [OF assms] by (auto simp: mem_own_list)
  show b: "\<forall>x \<in> set (fallback_list dfa). snd x < length (nodes dfa)"
    using nodes_wfD(4) [OF assms] mem_fallback_list [of "fst x" "snd x" for x] by fastforce
  show "set (graph_transitions dfa) = set (own_list dfa)" "set (graph_fallbacks dfa) = set (fallback_list dfa)"
    unfolding graph_transitions_def graph_fallbacks_def using mset_group_all [OF a] mset_group_all [OF b] mset_eq_setD by blast+
  show "length (graph_transitions dfa) = length (own_list dfa)" "length (graph_fallbacks dfa) = length (fallback_list dfa)"
    unfolding graph_transitions_def graph_fallbacks_def using length_group [OF a] length_group [OF b] .
  show "distinct (map (\<lambda>x. (t_source x, t_character x)) (graph_transitions dfa))"
    using own_list_distinct [OF assms] mset_group_all [OF a] unfolding graph_transitions_def
    by (metis mset_eq_imp_distinct_iff mset_map)
  show "distinct (map fst (graph_fallbacks dfa))"
    using fallback_list_distinct [of dfa] mset_group_all [OF b] unfolding graph_fallbacks_def
    by (metis mset_eq_imp_distinct_iff mset_map)
qed

lemma countIncoming_ok:
  assumes wf: "nodes_wf dfa"
  shows "countIncoming dfa = Some (map (count_of t_target (own_list dfa)) [0..<length (nodes dfa)],
    map (count_of snd (fallback_list dfa)) [0..<length (nodes dfa)])"
proof -
  let ?m = "length (nodes dfa)" and ?tr = "node_transitions dfa" and ?fb = "node_fallbacks dfa"
  let ?z = "replicate ?m (0::nat)"
  note l = graph_lists [OF wf]
  have "countIncoming dfa = foldM (\<lambda>node (a, b). do {
      a \<leftarrow> foldM (\<lambda>t. increment (snd t)) (?tr node) a; b \<leftarrow> foldM increment (?fb node) b; Some (a, b) }) (nodes dfa) (?z, ?z)"
    unfolding countIncoming_def
  proof (intro foldM_cong refl)
    fix node s assume "node \<in> set (nodes dfa)"
    then have r: "node_in_range dfa node" using wf by (simp add: nodes_wf_def dfa_node_wf_def)
    show "(case s of (counts, fallbackCounts) \<Rightarrow> do {
       ts \<leftarrow> DFANode_transitions node dfa;
       counts \<leftarrow> foldM (\<lambda>t. increment (snd t)) ts counts;
       fallbackCounts \<leftarrow> (if hasFallbackTransition node then do {
            target \<leftarrow> fallbackTransitionDestination node dfa;
            increment target fallbackCounts
          } else Some fallbackCounts);
       Some (counts, fallbackCounts)
     }) = (case s of (a, b) \<Rightarrow> do { a \<leftarrow> foldM (\<lambda>t. increment (snd t)) (?tr node) a; b \<leftarrow> foldM increment (?fb node) b; Some (a, b) })"
      by (cases s; cases "hasFallbackTransition node")
        (simp_all add: DFANode_transitions_eq [OF r] fallbackTransitionDestination_eq [OF r] node_fallbacks_def node_fallback_def)
  qed
  also have "\<dots> = do { a \<leftarrow> foldM (\<lambda>t. increment (snd t)) (concat (map ?tr (nodes dfa))) ?z;
      b \<leftarrow> foldM increment (concat (map ?fb (nodes dfa))) ?z; Some (a, b) }" by (rule foldM_pair)
  also have "foldM (\<lambda>t. increment (snd t)) (concat (map ?tr (nodes dfa))) ?z = foldM (\<lambda>x. increment (t_target x)) (own_list dfa) ?z"
  proof -
    have "map snd (concat (map ?tr (nodes dfa))) = map t_target (own_list dfa)"
      by (subst map_nth [of "nodes dfa", symmetric]) (simp add: own_list_def map_concat comp_def)
    then show ?thesis by (metis foldM_map)
  qed
  also have "foldM increment (concat (map ?fb (nodes dfa))) ?z = foldM (\<lambda>x. increment (snd x)) (fallback_list dfa) ?z"
  proof -
    have "concat (map ?fb (nodes dfa)) = map snd (fallback_list dfa)"
      by (subst map_nth [of "nodes dfa", symmetric]) (simp add: fallback_list_def map_concat comp_def)
    then show ?thesis by (metis foldM_map)
  qed
  finally show ?thesis using countIncoming_loop [of "own_list dfa" t_target ?z] countIncoming_loop [of "fallback_list dfa" snd ?z] l(1,2)
    by simp
qed

lemma fillTables_ok:
  assumes wf: "nodes_wf dfa"
  shows "fillTables dfa (map (offset t_target (own_list dfa)) [0..<length (nodes dfa)]) (length (own_list dfa))
      (map (offset snd (fallback_list dfa)) [0..<length (nodes dfa)]) (length (fallback_list dfa))
    = Some ((graph_transitions dfa, map (count_of t_target (own_list dfa)) [0..<length (nodes dfa)]),
        (map fst (graph_fallbacks dfa), map (count_of snd (fallback_list dfa)) [0..<length (nodes dfa)]))"
proof -
  let ?m = "length (nodes dfa)" and ?L = "own_list dfa" and ?F = "fallback_list dfa"
  let ?s = "map (offset t_target ?L) [0..<?m]" and ?fs = "map (offset snd ?F) [0..<?m]"
  let ?a = "(replicate (length ?L) \<lparr>t_source = 0, t_target = 0, t_character = 0\<rparr>, replicate ?m 0)"
  let ?b = "(replicate (length ?F) 0, replicate ?m 0)"
  let ?xs = "\<lambda>i. map (\<lambda>t. \<lparr>t_source = i, t_target = snd t, t_character = fst t\<rparr>) (node_transitions dfa (nodes dfa ! i))"
  let ?ys = "\<lambda>i. map (Pair i) (node_fallbacks dfa (nodes dfa ! i))"
  let ?f = "\<lambda>x. fillEntry ?s (t_target x) x" and ?g = "\<lambda>x. fillEntry ?fs (snd x) (fst x)"
  note l = graph_lists [OF wf]
  have "fillTables dfa ?s (length ?L) ?fs (length ?F)
    = foldM (\<lambda>i (a, b). do { a \<leftarrow> foldM ?f (?xs i) a; b \<leftarrow> foldM ?g (?ys i) b; Some (a, b) }) [0..<?m] (?a, ?b)"
    unfolding fillTables_def
  proof (intro foldM_cong refl)
    fix i s assume "i \<in> set [0..<?m]"
    then have i: "i < ?m" by simp
    note r = nodes_wfD(1) [OF wf i]
    show "(case s of (table, fallbackTable) \<Rightarrow> do {
       node \<leftarrow> vec_at (nodes dfa) i;
       ts \<leftarrow> DFANode_transitions node dfa;
       table \<leftarrow> foldM (\<lambda>t. fillEntry ?s (snd t) \<lparr>t_source = i, t_target = snd t, t_character = fst t\<rparr>) ts table;
       fallbackTable \<leftarrow> (if hasFallbackTransition node then do {
            target \<leftarrow> fallbackTransitionDestination node dfa;
            fillEntry ?fs target i fallbackTable
          } else Some fallbackTable);
       Some (table, fallbackTable)
     }) = (case s of (a, b) \<Rightarrow> do { a \<leftarrow> foldM ?f (?xs i) a; b \<leftarrow> foldM ?g (?ys i) b; Some (a, b) })"
      by (cases s; cases "hasFallbackTransition (nodes dfa ! i)")
        (simp_all add: i vec_simps DFANode_transitions_eq [OF r] fallbackTransitionDestination_eq [OF r] node_fallbacks_def
          node_fallback_def foldM_map)
  qed
  also have "\<dots> = do { a \<leftarrow> foldM ?f (concat (map ?xs [0..<?m])) ?a; b \<leftarrow> foldM ?g (concat (map ?ys [0..<?m])) ?b; Some (a, b) }"
    by (rule foldM_pair)
  also have "concat (map ?xs [0..<?m]) = ?L" by (simp add: own_list_def)
  also have "concat (map ?ys [0..<?m]) = ?F" by (simp add: fallback_list_def)
  also have "foldM ?f ?L ?a = Some (graph_transitions dfa, map (count_of t_target ?L) [0..<?m])"
    using fill_loop [OF l(1), of _ "\<lambda>x. x"] by (simp add: graph_transitions_def)
  also have "foldM ?g ?F ?b = Some (map fst (graph_fallbacks dfa), map (count_of snd ?F) [0..<?m])"
    using fill_loop [OF l(2), of _ fst] by (simp add: graph_fallbacks_def)
  finally show ?thesis by simp
qed

lemma settled_const:
  "part_inv n P \<Longrightarrow> unmarked P \<Longrightarrow> (\<And>i. i < n \<Longrightarrow> c (tgt i) = 0) \<Longrightarrow> settled n tgt c P"
  by (simp add: settled_def compat_def)

lemma new_FullGraphPartition_ok:
  assumes wf: "nodes_wf dfa"
  shows "\<exists>G. new_FullGraphPartition dfa = Some G
    \<and> graph_inv (length (nodes dfa)) (graph_transitions dfa) (map fst (graph_fallbacks dfa))
         (\<lambda>i. snd (graph_fallbacks dfa ! i)) G
    \<and> unmarked (m_nodePartition G) \<and> m_nextTransitionSetToProcess G = 0"
proof -
  let ?m = "length (nodes dfa)" and ?trs = "graph_transitions dfa" and ?fl = "graph_fallbacks dfa"
  note l = graph_lists [OF wf]
  have mem: "t_source (?trs ! i) < ?m \<and> (t_character (?trs ! i), t_target (?trs ! i)) \<in> set (node_transitions dfa (nodes dfa ! t_source (?trs ! i)))"
    if "i < length ?trs" for i
    using nth_mem [OF that] unfolding l(3) mem_own_list .
  have "t_character (?trs ! i) < 128" if "i < length ?trs" for i using nodes_wfD(3) [OF wf] mem [OF that] by blast
  then obtain P where P: "initialTransitionPartition ?trs = Some P" "part_inv (length ?trs) P" "unmarked P"
    "\<forall>x < length ?trs. \<forall>y < length ?trs. cls P x = cls P y \<longrightarrow> t_character (?trs ! x) = t_character (?trs ! y)"
    using initialTransitionPartition_ok [of ?trs] by blast
  let ?G = "\<lparr>m_flattenedTransitionsStartOffsetPerNode = map (offset t_target (own_list dfa)) [0..<?m],
       m_flattenedTransitionsSizePerNode = map (count_of t_target (own_list dfa)) [0..<?m],
       m_flattenedFallbackTransitionsStartOffsetPerNode = map (offset snd (fallback_list dfa)) [0..<?m],
       m_flattenedFallbackTransitionsSizePerNode = map (count_of snd (fallback_list dfa)) [0..<?m],
       m_flattenedTransitions = ?trs, m_flattenedFallbackTransitions = map fst ?fl,
       m_nodePartition = initialize ?m new_Partition, m_transitionPartition = P,
       m_fallbackTransitionPartition = initialize (length (map fst ?fl)) new_Partition,
       m_nextTransitionSetToProcess = 0\<rparr>"
  have tot: "offset t_target (own_list dfa) ?m = length (own_list dfa)" "offset snd (fallback_list dfa) ?m = length (fallback_list dfa)"
    unfolding offset_def using length_group [OF l(1)] length_group [OF l(2)] .
  have run: "new_FullGraphPartition dfa = Some ?G"
    unfolding new_FullGraphPartition_def countIncoming_ok [OF wf]
    by (simp add: accumulate_counts tot fillTables_ok [OF wf] P(1))
  have src: "t_source (?trs ! i) < ?m" if "i < length ?trs" for i using mem [OF that] by simp
  have inj: "i = j" if "i < length ?trs" "j < length ?trs" "t_source (?trs ! i) = t_source (?trs ! j)"
    "t_character (?trs ! i) = t_character (?trs ! j)" for i j
    using nth_eq_iff_index_eq [OF l(7), of i j] that by simp
  have fsrc: "map fst ?fl ! i < ?m" if "i < length (map fst ?fl)" for i
  proof -
    have "?fl ! i \<in> set (fallback_list dfa)" using nth_mem [of i ?fl] that l(4) by simp
    then show ?thesis using mem_fallback_list [of "fst (?fl ! i)" "snd (?fl ! i)"] that by simp
  qed
  have g1: "grouped ?m (length ?trs) (\<lambda>i. t_target (?trs ! i)) (map (offset t_target (own_list dfa)) [0..<?m])
      (map (count_of t_target (own_list dfa)) [0..<?m])"
    using grouped_group [OF l(1)] unfolding graph_transitions_def [symmetric] l(5) .
  have g2: "grouped ?m (length (map fst ?fl)) (\<lambda>i. snd (?fl ! i)) (map (offset snd (fallback_list dfa)) [0..<?m])
      (map (count_of snd (fallback_list dfa)) [0..<?m])"
    using grouped_group [OF l(2)] unfolding graph_fallbacks_def [symmetric] length_map l(6) .
  have "tables_ok ?m ?trs (map fst ?fl) (\<lambda>i. snd (?fl ! i)) ?G"
    unfolding tables_ok_def using g1 g2 src inj fsrc l(8) by simp
  moreover have "settled (length ?trs) (\<lambda>i. t_target (?trs ! i)) (cls (initialize ?m new_Partition)) P"
  proof -
    have "t_target (?trs ! i) < ?m" if "i < length ?trs" for i using nodes_wfD(3) [OF wf] mem [OF that] by blast
    then show ?thesis by (intro settled_const P(2,3) initialize_inv(3))
  qed
  moreover have "settled (length (map fst ?fl)) (\<lambda>i. snd (?fl ! i)) (cls (initialize ?m new_Partition))
      (initialize (length (map fst ?fl)) new_Partition)"
  proof -
    have "snd (?fl ! i) < ?m" if "i < length ?fl" for i using l(2) l(4) nth_mem [OF that] by simp
    then have t: "snd (?fl ! i) < ?m" if "i < length (map fst ?fl)" for i using that by simp
    show ?thesis by (rule settled_const [OF initialize_inv(1,2)]) (intro initialize_inv(3) t)
  qed
  ultimately have "graph_inv ?m ?trs (map fst ?fl) (\<lambda>i. snd (?fl ! i)) ?G"
    unfolding graph_inv_def using initialize_inv(1) P(4) by (simp only: FullGraphPartition.simps simp_thms)
  moreover have "unmarked (initialize ?m new_Partition)" by (rule initialize_inv(2))
  ultimately show ?thesis using run by (intro exI [of _ ?G]) simp
qed

end
