(* ===== verification/Relocation.thy ===== *)
theory Relocation
  imports TransitionSimplification GraphTables
begin

text \<open>
  The second half of \<^verbatim>\<open>DFAMinimizer::minimize\<close>: the nodes that another node of their set replaces are killed, and the
  transitions of the others are sent to the replacements. \<open>rep\<close> is the replacement of a node.
\<close>

section \<open>Killing nodes\<close>

definition killed_node :: DFANode where
  "killed_node = \<lparr>m_actionsStart = 0, m_transitionsStart = 0, m_actionsLength = 0, m_transitionsLength = 0, m_flags = IsKilled\<rparr>"

lemma killed_node_simps [simp]:
  "isKilled killed_node" "\<not> hasFallbackTransition killed_node" "transition_slots killed_node = {}" "action_slots killed_node = {}"
  "node_in_range d killed_node" "node_transitions d killed_node = []" "node_fallback d killed_node = None" "node_actions d killed_node = []"
  by (simp_all add: killed_node_def isKilled_def hasFallbackTransition_def transition_slots_def action_slots_def node_in_range_def
      node_transitions_def node_fallback_def node_actions_def window_def IsKilled_def HasFallbackTransition_def)

lemma same_outside_mono: "same_outside S xs ys \<Longrightarrow> S \<subseteq> T \<Longrightarrow> same_outside T xs ys"
  unfolding same_outside_def by blast

lemma blank_range:
  assumes "b \<le> length tr"
  shows "\<exists>tr'. foldM (\<lambda>i tr. vec_set tr i v) [a..<b] tr = Some tr' \<and> same_outside {a..<b} tr tr'"
proof -
  have "0 + b \<le> length tr \<or> b \<le> a" using assms by simp
  from write_range [OF this, of "\<lambda>_. v"] show ?thesis by (auto simp: same_outside_def)
qed

lemma kill_ok:
  assumes "node_in_range d node"
  shows "\<exists>tr acts. kill node d = Some (killed_node, d\<lparr>dfa_transitions := tr, dfa_actions := acts\<rparr>)
    \<and> same_outside (transition_slots node) (dfa_transitions d) tr \<and> same_outside (action_slots node) (dfa_actions d) acts"
proof -
  have r: "m_transitionsStart node + m_transitionsLength node \<le> length (dfa_transitions d)"
    "m_actionsStart node + m_actionsLength node \<le> length (dfa_actions d)"
    using assms by (simp_all add: node_in_range_def)
  from blank_range [OF r(1)] obtain tr where tr: "foldM (\<lambda>i tr. vec_set tr i (max_u8, max_u32))
      [m_transitionsStart node..<m_transitionsStart node + m_transitionsLength node] (dfa_transitions d) = Some tr"
    "same_outside {m_transitionsStart node..<m_transitionsStart node + m_transitionsLength node} (dfa_transitions d) tr" by blast
  from blank_range [OF r(2)] obtain acts where acts: "foldM (\<lambda>i acts. vec_set acts i (- 1))
      [m_actionsStart node..<m_actionsStart node + m_actionsLength node] (dfa_actions d) = Some acts"
    "same_outside (action_slots node) (dfa_actions d) acts" unfolding action_slots_def by blast
  have "same_outside (transition_slots node) (dfa_transitions d) tr"
    by (rule same_outside_mono [OF tr(2)]) (auto simp: transition_slots_def)
  then show ?thesis using tr(1) acts by (intro exI [of _ tr] exI [of _ acts]) (simp add: kill_def killed_node_def)
qed

text \<open>The nodes and the relocation after the first \<open>k\<close> nodes.\<close>

definition killed_upto :: "(nat \<Rightarrow> nat) \<Rightarrow> nat \<Rightarrow> DFA \<Rightarrow> DFA \<Rightarrow> bool" where
  "killed_upto rep k dfa d \<longleftrightarrow> root d = root dfa \<and> length (dfa_transitions d) = length (dfa_transitions dfa)
     \<and> length (dfa_actions d) = length (dfa_actions dfa) \<and> length (nodes d) = length (nodes dfa)
     \<and> (\<forall>i < length (nodes dfa). if i < k \<and> rep i \<noteq> i then nodes d ! i = killed_node
          else nodes d ! i = nodes dfa ! i \<and> node_transitions d (nodes dfa ! i) = node_transitions dfa (nodes dfa ! i)
            \<and> node_fallback d (nodes dfa ! i) = node_fallback dfa (nodes dfa ! i)
            \<and> node_actions d (nodes dfa ! i) = node_actions dfa (nodes dfa ! i))"

lemma killed_upto_blocks:
  assumes b: "blocks_ok dfa" and ku: "killed_upto rep k dfa d"
  shows "blocks_ok d"
proof -
  note u = ku [unfolded killed_upto_def]
  have n: "nodes d ! i = killed_node \<or> nodes d ! i = nodes dfa ! i" if "i < length (nodes dfa)" for i
    using u that by (cases "i < k \<and> rep i \<noteq> i") simp_all
  have "dfa_layout d" unfolding dfa_layout_def
  proof (intro allI impI)
    fix i j assume "i < length (nodes d)" "j < length (nodes d)" "i \<noteq> j"
    then have ij: "i < length (nodes dfa)" "j < length (nodes dfa)" "i \<noteq> j" using u by simp_all
    then have "transition_slots (nodes dfa ! i) \<inter> transition_slots (nodes dfa ! j) = {} \<and> action_slots (nodes dfa ! i) \<inter> action_slots (nodes dfa ! j) = {}"
      using b unfolding blocks_ok_def dfa_layout_def by blast
    then show "transition_slots (nodes d ! i) \<inter> transition_slots (nodes d ! j) = {} \<and> action_slots (nodes d ! i) \<inter> action_slots (nodes d ! j) = {}"
      using n [OF ij(1)] n [OF ij(2)] by auto
  qed
  moreover have "node_in_range d (nodes d ! i)" if "i < length (nodes d)" for i
  proof -
    have i: "i < length (nodes dfa)" using u that by simp
    then have "node_in_range dfa (nodes dfa ! i)" using b by (simp add: blocks_ok_def)
    then have "node_in_range d (nodes dfa ! i)" using u by (simp add: node_in_range_def)
    then show ?thesis using n [OF i] by auto
  qed
  ultimately show ?thesis by (simp add: blocks_ok_def)
qed

lemma killReplaced_ok:
  assumes b: "blocks_ok dfa" and rep: "\<And>i. i < length (nodes dfa) \<Longrightarrow> nodeReplacement G i = Some (rep i)"
  shows "\<exists>d. killReplaced G dfa = Some (d, map rep [0..<length (nodes dfa)]) \<and> killed_upto rep (length (nodes dfa)) dfa d"
proof -
  let ?n = "length (nodes dfa)"
  define relo where "relo = (\<lambda>k. map (\<lambda>i. if i < k then rep i else i) [0..<?n])"
  let ?I = "\<lambda>k st. killed_upto rep k dfa (fst st) \<and> snd st = relo k"
  have "\<exists>st. killReplaced G dfa = Some st \<and> ?I (length [0..<?n]) st"
    unfolding killReplaced_def
  proof (rule foldM_invariant)
    show "?I 0 (dfa, [0..<?n])" by (simp add: killed_upto_def relo_def map_idI)
    fix k st assume "k < length [0..<?n]" and I: "?I k st"
    then have k: "k < ?n" "[0..<?n] ! k = k" by simp_all
    obtain d relocation where st: "st = (d, relocation)" by (cases st)
    have rl: "relocation = relo k" and ku: "killed_upto rep k dfa d" using I st by simp_all
    note u = ku [unfolded killed_upto_def]
    have node: "nodes d ! k = nodes dfa ! k" using u k(1) by auto
    let ?step = "(\<lambda>i (dfa, relocation). do {
         replacement \<leftarrow> nodeReplacement G i;
         (if i \<noteq> replacement then do {
            relocation \<leftarrow> vec_set relocation i replacement;
            node \<leftarrow> vec_at (nodes dfa) i;
            (node, dfa) \<leftarrow> kill node dfa;
            Some (dfa\<lparr>nodes := (nodes dfa)[i := node]\<rparr>, relocation)
          } else Some (dfa, relocation))
       })"
    have "\<exists>st'. ?step k st = Some st' \<and> ?I (Suc k) st'"
    proof (cases "rep k = k")
      case True
      have "relo (Suc k) = relo k" using True by (auto simp: relo_def less_Suc_eq)
      moreover have "i < Suc k \<and> rep i \<noteq> i \<longleftrightarrow> i < k \<and> rep i \<noteq> i" for i using True by (auto simp: less_Suc_eq)
      then have "killed_upto rep (Suc k) dfa d" using ku unfolding killed_upto_def by simp
      ultimately show ?thesis using rep [OF k(1)] True rl by (simp add: st)
    next
      case False
      have r: "node_in_range d (nodes dfa ! k)"
        using b k(1) u by (simp add: blocks_ok_def node_in_range_def)
      from kill_ok [OF r] obtain tr acts where kl:
        "kill (nodes dfa ! k) d = Some (killed_node, d\<lparr>dfa_transitions := tr, dfa_actions := acts\<rparr>)"
        "same_outside (transition_slots (nodes dfa ! k)) (dfa_transitions d) tr"
        "same_outside (action_slots (nodes dfa ! k)) (dfa_actions d) acts" by blast
      let ?d = "d\<lparr>dfa_transitions := tr, dfa_actions := acts, nodes := (nodes d)[k := killed_node]\<rparr>"
      have rl': "(relo k)[k := rep k] = relo (Suc k)"
        by (rule nth_equalityI) (use k(1) in \<open>auto simp: relo_def nth_list_update less_Suc_eq\<close>)
      have "?step k st = Some (?d, relo (Suc k))"
        using rep [OF k(1)] False rl kl(1) k(1) u node rl' by (simp add: st vec_simps relo_def)
      moreover have "killed_upto rep (Suc k) dfa ?d" unfolding killed_upto_def
      proof (intro conjI allI impI)
        show "root ?d = root dfa" "length (dfa_transitions ?d) = length (dfa_transitions dfa)"
          "length (dfa_actions ?d) = length (dfa_actions dfa)" "length (nodes ?d) = ?n"
          using u kl(2,3) by (simp_all add: same_outside_def)
        fix i assume i: "i < ?n"
        show "if i < Suc k \<and> rep i \<noteq> i then nodes ?d ! i = killed_node
          else nodes ?d ! i = nodes dfa ! i \<and> node_transitions ?d (nodes dfa ! i) = node_transitions dfa (nodes dfa ! i)
            \<and> node_fallback ?d (nodes dfa ! i) = node_fallback dfa (nodes dfa ! i)
            \<and> node_actions ?d (nodes dfa ! i) = node_actions dfa (nodes dfa ! i)"
        proof (cases "i = k")
          case True
          then show ?thesis using False i u by simp
        next
          case ik: False
          then have e: "i < Suc k \<and> rep i \<noteq> i \<longleftrightarrow> i < k \<and> rep i \<noteq> i" by auto
          have "transition_slots (nodes dfa ! i) \<inter> transition_slots (nodes dfa ! k) = {}" "action_slots (nodes dfa ! i) \<inter> action_slots (nodes dfa ! k) = {}"
            using b i k(1) ik unfolding blocks_ok_def dfa_layout_def by blast+
          moreover have "node_in_range d (nodes dfa ! i)" using b i u by (simp add: blocks_ok_def node_in_range_def)
          ultimately have "node_transitions ?d (nodes dfa ! i) = node_transitions d (nodes dfa ! i)"
            "node_fallback ?d (nodes dfa ! i) = node_fallback d (nodes dfa ! i)" "node_actions ?d (nodes dfa ! i) = node_actions d (nodes dfa ! i)"
            using node_outside [of _ d ?d] actions_outside [of _ d ?d] kl(2,3) by auto
          moreover have "nodes ?d ! i = nodes d ! i" using ik by simp
          ultimately show ?thesis unfolding e using u i by simp
        qed
      qed
      ultimately show ?thesis by simp
    qed
    then show "\<exists>st'. ?step ([0..<?n] ! k) st = Some st' \<and> ?I (Suc k) st'" unfolding k(2) .
  qed
  then obtain d r where d: "killReplaced G dfa = Some (d, r)" "killed_upto rep ?n dfa d" "r = relo ?n" by auto
  have "relo ?n = map rep [0..<?n]" by (simp add: relo_def)
  then show ?thesis using d by simp
qed

section \<open>Relocating the transitions\<close>

lemma relocate_loop:
  assumes "s + length ts \<le> length tr" "\<And>k. k < length ts \<Longrightarrow> tr ! (s + k) = ts ! k" "\<And>k. k < length ts \<Longrightarrow> snd (ts ! k) < length relocation"
  shows "\<exists>tr'. foldM (\<lambda>k tr. do {
         t \<leftarrow> vec_at tr (s + k);
         target \<leftarrow> vec_at relocation (snd (ts ! k));
         vec_set tr (s + k) (fst t, target)
       }) [0..<length ts] tr = Some tr' \<and> length tr' = length tr
    \<and> (\<forall>j < length tr. tr' ! j = (if s \<le> j \<and> j < s + length ts then (fst (ts ! (j - s)), relocation ! snd (ts ! (j - s))) else tr ! j))"
proof -
  let ?I = "\<lambda>k tr'. length tr' = length tr
    \<and> (\<forall>j < length tr. tr' ! j = (if s \<le> j \<and> j < s + k then (fst (ts ! (j - s)), relocation ! snd (ts ! (j - s))) else tr ! j))"
  let ?f = "\<lambda>k tr. do { t \<leftarrow> vec_at tr (s + k); target \<leftarrow> vec_at relocation (snd (ts ! k)); vec_set tr (s + k) (fst t, target) }"
  have "\<exists>tr'. foldM ?f [0..<length ts] tr = Some tr' \<and> ?I (length [0..<length ts]) tr'"
  proof (rule foldM_invariant)
    have "\<not> (s \<le> j \<and> j < s + 0)" for j by linarith
    then show "?I 0 tr" by (simp only: if_False) simp
    fix k tr' assume "k < length [0..<length ts]" and I: "?I k tr'"
    then have k: "k < length ts" "[0..<length ts] ! k = k" by simp_all
    have sk: "s + k < length tr'" "tr' ! (s + k) = ts ! k" using I k(1) assms(1) assms(2) [OF k(1)] by simp_all
    let ?v = "(fst (ts ! k), relocation ! snd (ts ! k))"
    have "?f k tr' = Some (tr'[s + k := ?v])" using sk assms(3) [OF k(1)] by (simp add: vec_simps)
    moreover have "?I (Suc k) (tr'[s + k := ?v])"
    proof (intro conjI allI impI)
      show "length (tr'[s + k := ?v]) = length tr" using I by simp
      fix j assume j: "j < length tr"
      show "tr'[s + k := ?v] ! j = (if s \<le> j \<and> j < s + Suc k then (fst (ts ! (j - s)), relocation ! snd (ts ! (j - s))) else tr ! j)"
      proof (cases "j = s + k")
        case True
        then show ?thesis using sk(1) by simp
      next
        case False
        then have "j < s + Suc k \<longleftrightarrow> j < s + k" by linarith
        then show ?thesis using I j False by simp
      qed
    qed
    ultimately show "\<exists>t'. ?f ([0..<length ts] ! k) tr' = Some t' \<and> ?I (Suc k) t'" unfolding k(2) by blast
  qed
  then show ?thesis by simp
qed

lemma relocateNode_ok:
  assumes k: "k < length (nodes d)" and r: "node_in_range d (nodes d ! k)"
    and own: "\<And>ch t. (ch, t) \<in> set (node_transitions d (nodes d ! k)) \<Longrightarrow> t < n"
    and fb: "\<And>t. node_fallback d (nodes d ! k) = Some t \<Longrightarrow> t < n"
  shows "\<exists>d'. relocateNode (map rep [0..<n]) (nodes d ! k) d = Some d' \<and> rewritten k d d'
    \<and> node_transitions d' (nodes d' ! k) = map (apsnd rep) (node_transitions d (nodes d ! k))
    \<and> node_fallback d' (nodes d' ! k) = map_option rep (node_fallback d (nodes d ! k))"
proof -
  let ?node = "nodes d ! k" and ?tr = "dfa_transitions d" and ?rel = "map rep [0..<n]"
  let ?s = "m_transitionsStart ?node" and ?ts = "node_transitions d ?node"
  have len: "length ?ts = m_transitionsLength ?node" "?s + length ?ts \<le> length ?tr"
    using r by (simp_all add: node_transitions_def node_in_range_def)
  have nth: "?tr ! (?s + j) = ?ts ! j" if "j < length ?ts" for j
    using that len by (simp add: node_transitions_def window_nth)
  have tgt: "snd (?ts ! j) < n" if "j < length ?ts" for j
    using own [of "fst (?ts ! j)" "snd (?ts ! j)"] nth_mem [OF that] by simp
  have "snd (?ts ! j) < length ?rel" if "j < length ?ts" for j using tgt [OF that] by simp
  from relocate_loop [OF len(2) nth this] obtain tr1 where tr1: "foldM (\<lambda>k tr. do {
         t \<leftarrow> vec_at tr (?s + k);
         target \<leftarrow> vec_at ?rel (snd (?ts ! k));
         vec_set tr (?s + k) (fst t, target)
       }) [0..<length ?ts] ?tr = Some tr1" "length tr1 = length ?tr"
    "\<forall>j < length ?tr. tr1 ! j = (if ?s \<le> j \<and> j < ?s + length ?ts then (fst (?ts ! (j - ?s)), ?rel ! snd (?ts ! (j - ?s))) else ?tr ! j)"
    by blast
  have own': "window tr' ?s (length ?ts) = map (apsnd rep) ?ts"
    if "length tr' = length ?tr" "\<And>j. j < length ?ts \<Longrightarrow> tr' ! (?s + j) = tr1 ! (?s + j)" for tr'
  proof (rule nth_equalityI)
    show "length (window tr' ?s (length ?ts)) = length (map (apsnd rep) ?ts)" using that(1) len(2) by simp
    fix j assume "j < length (window tr' ?s (length ?ts))"
    then have j: "j < length ?ts" using that(1) len(2) by simp
    then have "window tr' ?s (length ?ts) ! j = tr1 ! (?s + j)" using that len(2) by (simp add: window_nth)
    also have "\<dots> = (fst (?ts ! j), ?rel ! snd (?ts ! j))" using tr1(3) j len(2) by simp
    also have "\<dots> = map (apsnd rep) ?ts ! j" using j tgt [OF j] by (simp add: apsnd_def map_prod_def split_beta)
    finally show "window tr' ?s (length ?ts) ! j = map (apsnd rep) ?ts ! j" .
  qed
  have so1: "same_outside (transition_slots ?node) ?tr tr1"
    unfolding same_outside_def using tr1(2,3) len(1) by (auto simp: transition_slots_def)
  note start = relocateNode_def DFANode_transitions_eq [OF r] tr1(1) [unfolded len(1)]
  show ?thesis
  proof (cases "hasFallbackTransition ?node")
    case False
    let ?d = "d\<lparr>dfa_transitions := tr1\<rparr>"
    have "relocateNode ?rel ?node d = Some ?d" using False by (simp add: start)
    moreover have "rewritten k d ?d" using so1 tr1(2) by (simp add: rewritten_def node_in_range_def)
    moreover have "node_transitions ?d ?node = map (apsnd rep) ?ts"
      using own' [of tr1] tr1(2) len(1) by (simp add: node_transitions_def)
    ultimately show ?thesis using False by (intro exI [of _ ?d]) (simp add: node_fallback_def)
  next
    case True
    let ?e = "?s + m_transitionsLength ?node"
    have e: "?e < length ?tr" using r True by (simp add: node_in_range_def)
    obtain t where t: "node_fallback d ?node = Some t" "t = snd (?tr ! ?e)" using True by (simp add: node_fallback_def)
    have tn: "t < n" using fb [OF t(1)] .
    let ?tr' = "tr1[?e := (max_u8, rep t)]"
    let ?d = "d\<lparr>dfa_transitions := ?tr'\<rparr>"
    have "tr1 ! ?e = ?tr ! ?e" using tr1(3) e len(1) by simp
    then have "relocateNode ?rel ?node d = Some ?d"
      using True e tr1(2) t(2) tn
      by (simp add: start fallbackTransitionDestination_def changeFallbackTransition_def vec_simps)
    moreover have "same_outside (transition_slots ?node) ?tr ?tr'"
      using same_outside_trans [OF so1 same_outside_set] True by (simp add: transition_slots_def)
    then have "rewritten k d ?d" using tr1(2) by (simp add: rewritten_def node_in_range_def)
    moreover have "node_transitions ?d ?node = map (apsnd rep) ?ts"
      using own' [of ?tr'] tr1(2) len(1) by (simp add: node_transitions_def)
    moreover have "node_fallback ?d ?node = Some (rep t)" using True e tr1(2) by (simp add: node_fallback_def)
    ultimately show ?thesis using t(1) by (intro exI [of _ ?d]) simp
  qed
qed

lemma relocateNodes_ok:
  assumes b: "blocks_ok dfa"
    and tgt: "\<forall>i < length (nodes dfa). \<forall>ch t. (ch, t) \<in> set (node_transitions dfa (nodes dfa ! i)) \<longrightarrow> t < length (nodes dfa)"
      "\<forall>i < length (nodes dfa). \<forall>t. node_fallback dfa (nodes dfa ! i) = Some t \<longrightarrow> t < length (nodes dfa)"
  shows "\<exists>d. foldM (relocateNode (map rep [0..<length (nodes dfa)])) (nodes dfa) dfa = Some d \<and> blocks_ok d \<and> root d = root dfa
    \<and> length (nodes d) = length (nodes dfa)
    \<and> (\<forall>j < length (nodes dfa). node_actions d (nodes d ! j) = node_actions dfa (nodes dfa ! j)
         \<and> isKilled (nodes d ! j) = isKilled (nodes dfa ! j) \<and> hasFallbackTransition (nodes d ! j) = hasFallbackTransition (nodes dfa ! j)
         \<and> node_transitions d (nodes d ! j) = map (apsnd rep) (node_transitions dfa (nodes dfa ! j))
         \<and> node_fallback d (nodes d ! j) = map_option rep (node_fallback dfa (nodes dfa ! j)))"
proof -
  let ?n = "length (nodes dfa)"
  have "foldM (relocateNode (map rep [0..<?n])) (nodes dfa) = foldM (\<lambda>k. relocateNode (map rep [0..<?n]) (nodes dfa ! k)) [0..<?n]"
    using foldM_map [of "relocateNode (map rep [0..<?n])" "nth (nodes dfa)" "[0..<?n]"] by (simp add: map_nth)
  moreover have "\<exists>d. foldM (\<lambda>k. relocateNode (map rep [0..<?n]) (nodes dfa ! k)) [0..<?n] dfa = Some d \<and> blocks_ok d \<and> root d = root dfa
    \<and> length (nodes d) = ?n
    \<and> (\<forall>j < ?n. node_actions d (nodes d ! j) = node_actions dfa (nodes dfa ! j)
         \<and> isKilled (nodes d ! j) = isKilled (nodes dfa ! j) \<and> hasFallbackTransition (nodes d ! j) = hasFallbackTransition (nodes dfa ! j)
         \<and> node_transitions d (nodes d ! j) = map (apsnd rep) (node_transitions dfa (nodes dfa ! j))
         \<and> node_fallback d (nodes d ! j) = map_option rep (node_fallback dfa (nodes dfa ! j)))"
  proof (rule rewrite_loop [OF b])
    fix k d assume k: "k < ?n" and d: "blocks_ok d" "length (nodes d) = ?n"
      and eq: "nodes d ! k = nodes dfa ! k" "node_transitions d (nodes dfa ! k) = node_transitions dfa (nodes dfa ! k)"
        "node_fallback d (nodes dfa ! k) = node_fallback dfa (nodes dfa ! k)"
    have "node_in_range d (nodes d ! k)" using d k by (simp add: blocks_ok_def)
    moreover have "\<And>ch t. (ch, t) \<in> set (node_transitions d (nodes d ! k)) \<Longrightarrow> t < ?n"
      "\<And>t. node_fallback d (nodes d ! k) = Some t \<Longrightarrow> t < ?n" using tgt k unfolding eq by blast+
    ultimately show "\<exists>d'. relocateNode (map rep [0..<?n]) (nodes dfa ! k) d = Some d' \<and> rewritten k d d'
      \<and> node_transitions d' (nodes d' ! k) = map (apsnd rep) (node_transitions dfa (nodes dfa ! k))
      \<and> node_fallback d' (nodes d' ! k) = map_option rep (node_fallback dfa (nodes dfa ! k))"
      using relocateNode_ok [of k d ?n rep] k d(2) unfolding eq by simp
  qed
  ultimately show ?thesis by simp
qed

end
