(* ===== verification/MinimizerCorrect.thy ===== *)
theory MinimizerCorrect
  imports Relocation
begin

text \<open>
  Correctness of \<^verbatim>\<open>DFAMinimizer::minimize\<close> (\<^verbatim>\<open>Source/WebCore/contentextensions/DFAMinimizer.cpp\<close>): the partition it
  computes is a congruence of the automaton, and the automaton it leaves, one node for each set, does the same on every
  word.
\<close>

section \<open>The final states\<close>

lemma hasActions_iff: "node_in_range dfa node \<Longrightarrow> hasActions node \<longleftrightarrow> node_actions dfa node \<noteq> []"
  using length_window [of "m_actionsStart node" "m_actionsLength node" "dfa_actions dfa"]
  by (cases "m_actionsLength node") (auto simp: hasActions_def node_actions_def node_in_range_def window_def)

definition with_actions :: "DFA \<Rightarrow> u64 list \<Rightarrow> nat \<Rightarrow> nat list" where
  "with_actions dfa a k = filter (\<lambda>j. hasActions (nodes dfa ! j) \<and> node_actions dfa (nodes dfa ! j) = a) [0..<k]"

lemma finalStates_ok:
  assumes r: "\<And>i. i < length (nodes dfa) \<Longrightarrow> node_in_range dfa (nodes dfa ! i)"
  shows "\<exists>slots. finalStates dfa = Some slots \<and> distinct (map fst slots)
    \<and> (\<forall>a. map_of slots a = (let js = with_actions dfa a (length (nodes dfa)) in if js = [] then None else Some js))"
proof -
  define I where "I = (\<lambda>k slots. distinct (map fst slots)
    \<and> (\<forall>a. map_of slots a = (let js = with_actions dfa a k in if js = [] then None else Some js)))"
  have "\<exists>slots. finalStates dfa = Some slots \<and> I (length [0..<length (nodes dfa)]) slots"
    unfolding finalStates_def
  proof (rule foldM_invariant)
    show "I 0 []" by (simp add: I_def with_actions_def)
    fix k slots assume "k < length [0..<length (nodes dfa)]" and I: "I k slots"
    then have k: "k < length (nodes dfa)" by simp
    let ?node = "nodes dfa ! k"
    let ?a = "node_actions dfa ?node"
    let ?js = "case map_of slots ?a of None \<Rightarrow> [] | Some is \<Rightarrow> is"
    have js: "?js = with_actions dfa ?a k" using I by (simp add: I_def Let_def)
    show "\<exists>slots'. do {
        node \<leftarrow> vec_at (nodes dfa) ([0..<length (nodes dfa)] ! k);
        if hasActions node then do {
          actions \<leftarrow> DFANode_actions node dfa;
          Some (AList.update actions ((case map_of slots actions of None \<Rightarrow> [] | Some is \<Rightarrow> is) @ [[0..<length (nodes dfa)] ! k]) slots)
        } else Some slots } = Some slots' \<and> I (Suc k) slots'"
    proof (cases "hasActions ?node")
      case True
      let ?s = "AList.update ?a (?js @ [k]) slots"
      have "I (Suc k) ?s" unfolding I_def
      proof (intro conjI allI)
        show "distinct (map fst ?s)" using I by (intro distinct_update) (simp add: I_def)
        fix a show "map_of ?s a = (let js = with_actions dfa a (Suc k) in if js = [] then None else Some js)"
        proof (cases "a = ?a")
          case t: True
          then show ?thesis unfolding js using True by (simp add: update_conv' Let_def) (simp add: with_actions_def)
        next
          case False
          then have "with_actions dfa a (Suc k) = with_actions dfa a k" by (auto simp: with_actions_def)
          then show ?thesis using I False by (simp add: update_conv' I_def)
        qed
      qed
      then show ?thesis using True k by (simp add: vec_simps DFANode_actions_eq [OF r [OF k]])
    next
      case False
      then have "with_actions dfa a (Suc k) = with_actions dfa a k" for a by (simp add: with_actions_def)
      then show ?thesis using False k I by (simp add: vec_simps I_def)
    qed
  qed
  then show ?thesis by (simp add: I_def)
qed

section \<open>The partition is a congruence\<close>

text \<open>
  Nodes of the same set have the same actions in the same order, the same characters with targets of the same set, and
  fallbacks of the same set.
\<close>

definition congruence :: "DFA \<Rightarrow> (nat \<Rightarrow> nat) \<Rightarrow> bool" where
  "congruence dfa c \<longleftrightarrow> (\<forall>p < length (nodes dfa). \<forall>q < length (nodes dfa). c p = c q \<longrightarrow>
     node_actions dfa (nodes dfa ! p) = node_actions dfa (nodes dfa ! q)
     \<and> (\<forall>ch t. (ch, t) \<in> set (node_transitions dfa (nodes dfa ! p))
          \<longrightarrow> (\<exists>t'. (ch, t') \<in> set (node_transitions dfa (nodes dfa ! q)) \<and> c t' = c t))
     \<and> (\<forall>t. node_fallback dfa (nodes dfa ! p) = Some t \<longrightarrow> (\<exists>t'. node_fallback dfa (nodes dfa ! q) = Some t' \<and> c t' = c t)))"

lemma congruenceD:
  assumes "congruence dfa c" "p < length (nodes dfa)" "q < length (nodes dfa)" "c p = c q"
  shows "node_actions dfa (nodes dfa ! p) = node_actions dfa (nodes dfa ! q)"
    "\<And>ch t. (ch, t) \<in> set (node_transitions dfa (nodes dfa ! p))
       \<Longrightarrow> \<exists>t'. (ch, t') \<in> set (node_transitions dfa (nodes dfa ! q)) \<and> c t' = c t"
    "\<And>t. node_fallback dfa (nodes dfa ! p) = Some t \<Longrightarrow> \<exists>t'. node_fallback dfa (nodes dfa ! q) = Some t' \<and> c t' = c t"
  using assms unfolding congruence_def by blast+

text \<open>The same actions, from the sets of final states.\<close>

lemma same_actions:
  assumes r: "\<And>i. i < length (nodes dfa) \<Longrightarrow> node_in_range dfa (nodes dfa ! i)"
    and slots: "\<And>a. map_of slots a = (let js = with_actions dfa a (length (nodes dfa)) in if js = [] then None else Some js)"
    and split: "\<And>slot. slot \<in> set slots \<Longrightarrow> p \<in> set (snd slot) \<longleftrightarrow> q \<in> set (snd slot)"
    and pq: "p < length (nodes dfa)" "q < length (nodes dfa)"
  shows "node_actions dfa (nodes dfa ! p) = node_actions dfa (nodes dfa ! q)"
proof -
  have *: "node_actions dfa (nodes dfa ! y) = node_actions dfa (nodes dfa ! x)"
    if "node_actions dfa (nodes dfa ! x) \<noteq> []" "x < length (nodes dfa)"
      and s: "\<And>slot. slot \<in> set slots \<Longrightarrow> x \<in> set (snd slot) \<longleftrightarrow> y \<in> set (snd slot)" for x y
  proof -
    let ?a = "node_actions dfa (nodes dfa ! x)"
    let ?js = "with_actions dfa ?a (length (nodes dfa))"
    have x: "x \<in> set ?js" using that(1,2) hasActions_iff [OF r] by (simp add: with_actions_def)
    then have "map_of slots ?a = Some ?js" using slots [of ?a] by (auto simp: Let_def)
    then have "(?a, ?js) \<in> set slots" by (rule map_of_SomeD)
    from s [OF this] x have "y \<in> set ?js" by simp
    then show ?thesis by (simp add: with_actions_def)
  qed
  show ?thesis
  proof (cases "node_actions dfa (nodes dfa ! p) = []")
    case False
    from * [OF this pq(1) split] show ?thesis by simp
  next
    case True
    show ?thesis
    proof (rule ccontr)
      assume n: "node_actions dfa (nodes dfa ! p) \<noteq> node_actions dfa (nodes dfa ! q)"
      then have "node_actions dfa (nodes dfa ! q) \<noteq> []" using True by auto
      from * [OF this pq(2), of p] split n show False by simp
    qed
  qed
qed

lemma partition_congruence:
  assumes wf: "nodes_wf dfa" and m: "m = length (nodes dfa)"
    and inv: "graph_inv m (graph_transitions dfa) (map fst (graph_fallbacks dfa)) (\<lambda>i. snd (graph_fallbacks dfa ! i)) G"
    and fin: "done_transitions m (graph_transitions dfa) (length (m_sets (m_transitionPartition G))) G"
      "done_fallbacks m (map fst (graph_fallbacks dfa)) (length (m_sets (m_fallbackTransitionPartition G))) G"
    and acts: "\<And>p q. p < m \<Longrightarrow> q < m \<Longrightarrow> cls (m_nodePartition G) p = cls (m_nodePartition G) q
      \<Longrightarrow> node_actions dfa (nodes dfa ! p) = node_actions dfa (nodes dfa ! q)"
  shows "congruence dfa (cls (m_nodePartition G))"
  unfolding congruence_def
proof (intro allI impI conjI)
  let ?trs = "graph_transitions dfa" and ?fl = "graph_fallbacks dfa" and ?c = "cls (m_nodePartition G)"
  note l = graph_lists [OF wf]
  fix p q assume pq: "p < length (nodes dfa)" "q < length (nodes dfa)" "?c p = ?c q"
  note st = partition_stable [OF inv fin, unfolded m, OF pq]
  show "node_actions dfa (nodes dfa ! p) = node_actions dfa (nodes dfa ! q)" using acts [unfolded m, OF pq] .
  show "\<exists>t'. (ch, t') \<in> set (node_transitions dfa (nodes dfa ! q)) \<and> ?c t' = ?c t"
    if "(ch, t) \<in> set (node_transitions dfa (nodes dfa ! p))" for ch t
  proof -
    have "\<lparr>t_source = p, t_target = t, t_character = ch\<rparr> \<in> set ?trs" unfolding l(3) mem_own_list using that pq(1) by simp
    then obtain i where i: "i < length ?trs" "?trs ! i = \<lparr>t_source = p, t_target = t, t_character = ch\<rparr>" by (auto simp: in_set_conv_nth)
    have "t_source (?trs ! i) = p" using i(2) by simp
    from st(1) [OF i(1) this] obtain j where j: "j < length ?trs" "t_source (?trs ! j) = q"
      "t_character (?trs ! j) = ch" "?c (t_target (?trs ! j)) = ?c t" using i(2) by auto
    have "?trs ! j \<in> set (own_list dfa)" using nth_mem [OF j(1)] unfolding l(3) .
    then have "(ch, t_target (?trs ! j)) \<in> set (node_transitions dfa (nodes dfa ! q))" using j(2,3) unfolding mem_own_list by simp
    then show ?thesis using j(4) by blast
  qed
  show "\<exists>t'. node_fallback dfa (nodes dfa ! q) = Some t' \<and> ?c t' = ?c t" if "node_fallback dfa (nodes dfa ! p) = Some t" for t
  proof -
    have "(p, t) \<in> set ?fl" unfolding l(4) mem_fallback_list using that pq(1) by simp
    then obtain i where i: "i < length ?fl" "?fl ! i = (p, t)" by (auto simp: in_set_conv_nth)
    have i': "i < length (map fst ?fl)" "map fst ?fl ! i = p" using i by simp_all
    from st(2) [OF this] obtain j where j: "j < length ?fl" "map fst ?fl ! j = q" "?c (snd (?fl ! j)) = ?c t"
      using i(2) by auto
    then have "?fl ! j = (q, snd (?fl ! j))" by (simp add: prod_eq_iff)
    then have "(q, snd (?fl ! j)) \<in> set (fallback_list dfa)" using nth_mem [OF j(1)] l(4) by simp
    then have "node_fallback dfa (nodes dfa ! q) = Some (snd (?fl ! j))" unfolding mem_fallback_list by simp
    then show ?thesis using j(3) by blast
  qed
qed

lemma partition_ok:
  assumes wf: "nodes_wf dfa"
  shows "\<exists>G0 finals G1 G2 G. new_FullGraphPartition dfa = Some G0 \<and> finalStates dfa = Some finals \<and> splitByActions finals G0 = Some G1
    \<and> splitByUniqueTransitions G1 = Some G2 \<and> splitByFallbackTransitions G2 = Some G
    \<and> part_core (length (nodes dfa)) (m_nodePartition G) \<and> congruence dfa (cls (m_nodePartition G))"
proof -
  let ?m = "length (nodes dfa)" and ?trs = "graph_transitions dfa" and ?fbs = "map fst (graph_fallbacks dfa)"
  let ?ft = "\<lambda>i. snd (graph_fallbacks dfa ! i)"
  note r = nodes_wfD(1) [OF wf]
  obtain G0 where G0: "new_FullGraphPartition dfa = Some G0" "graph_inv ?m ?trs ?fbs ?ft G0" "unmarked (m_nodePartition G0)"
    "m_nextTransitionSetToProcess G0 = 0" using new_FullGraphPartition_ok [OF wf] by blast
  obtain finals where f: "finalStates dfa = Some finals" "distinct (map fst finals)"
    "\<And>a. map_of finals a = (let js = with_actions dfa a ?m in if js = [] then None else Some js)"
    using finalStates_ok [OF r] by auto
  have "distinct (snd slot) \<and> set (snd slot) \<subseteq> {..<?m}" if "slot \<in> set finals" for slot
  proof -
    have "map_of finals (fst slot) = Some (snd slot)" using f(2) that by simp
    then have "snd slot = with_actions dfa (fst slot) ?m" using f(3) [of "fst slot"] by (auto simp: Let_def split: if_splits)
    then show ?thesis by (auto simp: with_actions_def)
  qed
  then have "\<forall>slot \<in> set finals. distinct (snd slot) \<and> set (snd slot) \<subseteq> {..<?m}" by blast
  from splitByActions_ok [OF G0(2,3) this] obtain G1 where G1: "splitByActions finals G0 = Some G1"
    "graph_inv ?m ?trs ?fbs ?ft G1" "unmarked (m_nodePartition G1)" "m_nextTransitionSetToProcess G1 = 0"
    "\<forall>slot \<in> set finals. \<forall>p < ?m. \<forall>q < ?m. cls (m_nodePartition G1) p = cls (m_nodePartition G1) q
       \<longrightarrow> (p \<in> set (snd slot) \<longleftrightarrow> q \<in> set (snd slot))" using G0(4) by auto
  have "done_transitions ?m ?trs (m_nextTransitionSetToProcess G1) G1" unfolding G1(4) done_transitions_def by (rule pend_0)
  from splitByUniqueTransitions_ok [OF G1(2,3) this] obtain G2 where G2: "splitByUniqueTransitions G1 = Some G2"
    "graph_inv ?m ?trs ?fbs ?ft G2" "unmarked (m_nodePartition G2)" "graph_step ?m (length ?trs) (length ?fbs) G1 G2"
    "done_transitions ?m ?trs (m_nextTransitionSetToProcess G2) G2"
    "m_nextTransitionSetToProcess G2 = length (m_sets (m_transitionPartition G2))" by blast
  have "done_fallbacks ?m ?fbs 0 G2" unfolding done_fallbacks_def by (rule pend_0)
  from splitByFallbackLoop_ok [OF G2(2,3,5,6) this] obtain G where G: "splitByFallbackLoop 0 G2 = Some G"
    "graph_inv ?m ?trs ?fbs ?ft G" "graph_step ?m (length ?trs) (length ?fbs) G2 G"
    "done_transitions ?m ?trs (length (m_sets (m_transitionPartition G))) G"
    "done_fallbacks ?m ?fbs (length (m_sets (m_fallbackTransitionPartition G))) G" by blast
  have "splitByFallbackTransitions G2 = Some G" using G(1) G2(6) by (simp add: splitByFallbackTransitions_def partition_size_def)
  moreover have "congruence dfa (cls (m_nodePartition G))"
  proof (rule partition_congruence [OF wf refl G(2,4,5)])
    fix p q assume pq: "p < ?m" "q < ?m" "cls (m_nodePartition G) p = cls (m_nodePartition G) q"
    have "cls (m_nodePartition G2) p = cls (m_nodePartition G2) q" using G(3) pq unfolding graph_step_def refines_def by blast
    then have c1: "cls (m_nodePartition G1) p = cls (m_nodePartition G1) q" using G2(4) pq unfolding graph_step_def refines_def by blast
    show "node_actions dfa (nodes dfa ! p) = node_actions dfa (nodes dfa ! q)"
      by (rule same_actions [OF r f(3) _ pq(1,2)]) (use G1(5) pq(1,2) c1 in blast)+
  qed
  moreover have "part_core ?m (m_nodePartition G)" using graph_invD(2) [OF G(2)] .
  ultimately show ?thesis using G0(1) f(1) G1(1) G2(1) by blast
qed

section \<open>Replacements\<close>

text \<open>A replacement sends every node to a node of its set, and two nodes of a set to the same one.\<close>

definition replacement :: "DFA \<Rightarrow> (nat \<Rightarrow> nat) \<Rightarrow> bool" where
  "replacement dfa rep \<longleftrightarrow> (\<forall>i < length (nodes dfa). rep i < length (nodes dfa) \<and> rep (rep i) = rep i
     \<and> node_actions dfa (nodes dfa ! rep i) = node_actions dfa (nodes dfa ! i)
     \<and> (\<forall>ch t. (ch, t) \<in> set (node_transitions dfa (nodes dfa ! i))
          \<longrightarrow> (\<exists>t'. (ch, t') \<in> set (node_transitions dfa (nodes dfa ! rep i)) \<and> rep t' = rep t))
     \<and> (\<forall>ch t. (ch, t) \<in> set (node_transitions dfa (nodes dfa ! rep i))
          \<longrightarrow> (\<exists>t'. (ch, t') \<in> set (node_transitions dfa (nodes dfa ! i)) \<and> rep t' = rep t))
     \<and> map_option rep (node_fallback dfa (nodes dfa ! rep i)) = map_option rep (node_fallback dfa (nodes dfa ! i)))"

lemma replacementD:
  assumes "replacement dfa rep" "i < length (nodes dfa)"
  shows "rep i < length (nodes dfa)" "rep (rep i) = rep i" "node_actions dfa (nodes dfa ! rep i) = node_actions dfa (nodes dfa ! i)"
    "\<And>ch t. (ch, t) \<in> set (node_transitions dfa (nodes dfa ! i))
      \<Longrightarrow> \<exists>t'. (ch, t') \<in> set (node_transitions dfa (nodes dfa ! rep i)) \<and> rep t' = rep t"
    "\<And>ch t. (ch, t) \<in> set (node_transitions dfa (nodes dfa ! rep i))
      \<Longrightarrow> \<exists>t'. (ch, t') \<in> set (node_transitions dfa (nodes dfa ! i)) \<and> rep t' = rep t"
    "map_option rep (node_fallback dfa (nodes dfa ! rep i)) = map_option rep (node_fallback dfa (nodes dfa ! i))"
proof -
  note f = assms(1) [unfolded replacement_def, THEN spec, THEN mp, OF assms(2)]
  show "rep i < length (nodes dfa)" by (rule f [THEN conjunct1])
  note f = f [THEN conjunct2]
  show "rep (rep i) = rep i" by (rule f [THEN conjunct1])
  note f = f [THEN conjunct2]
  show "node_actions dfa (nodes dfa ! rep i) = node_actions dfa (nodes dfa ! i)" by (rule f [THEN conjunct1])
  note f = f [THEN conjunct2]
  show "\<And>ch t. (ch, t) \<in> set (node_transitions dfa (nodes dfa ! i))
      \<Longrightarrow> \<exists>t'. (ch, t') \<in> set (node_transitions dfa (nodes dfa ! rep i)) \<and> rep t' = rep t"
    by (rule f [THEN conjunct1, rule_format])
  note f = f [THEN conjunct2]
  show "\<And>ch t. (ch, t) \<in> set (node_transitions dfa (nodes dfa ! rep i))
      \<Longrightarrow> \<exists>t'. (ch, t') \<in> set (node_transitions dfa (nodes dfa ! i)) \<and> rep t' = rep t"
    by (rule f [THEN conjunct1, rule_format])
  show "map_option rep (node_fallback dfa (nodes dfa ! rep i)) = map_option rep (node_fallback dfa (nodes dfa ! i))"
    by (rule f [THEN conjunct2])
qed

lemma nodeReplacement_ok:
  assumes wf: "nodes_wf dfa" and p: "part_core (length (nodes dfa)) (m_nodePartition G)"
    and c: "congruence dfa (cls (m_nodePartition G))"
  shows "\<exists>rep. (\<forall>i < length (nodes dfa). nodeReplacement G i = Some (rep i)) \<and> replacement dfa rep"
proof -
  let ?n = "length (nodes dfa)" and ?N = "m_nodePartition G" and ?c = "cls (m_nodePartition G)"
  define rep where "rep i = the (firstElementInSet (?c i) ?N)" for i
  have first: "firstElementInSet (?c i) ?N = Some (rep i)" "rep i < ?n" "?c (rep i) = ?c i" if "i < ?n" for i
    using firstElementInSet_ok [OF p that] by (auto simp: rep_def)
  have len: "length (m_elementToSetMap ?N) = ?n" using part_coreD(3) [OF p] .
  have nr: "nodeReplacement G i = Some (rep i)" if "i < ?n" for i
    using first(1) [OF that] that len by (simp add: nodeReplacement_def setIndex_def vec_simps cls_def)
  have same: "rep i = rep j" if "?c i = ?c j" for i j using that by (simp add: rep_def)
  have "replacement dfa rep" unfolding replacement_def
  proof (intro allI impI conjI)
    fix i assume i: "i < ?n"
    note r = first(2,3) [OF i]
    note d = congruenceD [OF c i r(1) r(2) [symmetric]] and d' = congruenceD [OF c r(1) i r(2)]
    show "rep i < ?n" by (rule r(1))
    show "rep (rep i) = rep i" by (rule same [OF r(2)])
    show "node_actions dfa (nodes dfa ! rep i) = node_actions dfa (nodes dfa ! i)" by (rule d'(1))
    show "\<exists>t'. (ch, t') \<in> set (node_transitions dfa (nodes dfa ! rep i)) \<and> rep t' = rep t"
      if "(ch, t) \<in> set (node_transitions dfa (nodes dfa ! i))" for ch t using d(2) [OF that] same by blast
    show "\<exists>t'. (ch, t') \<in> set (node_transitions dfa (nodes dfa ! i)) \<and> rep t' = rep t"
      if "(ch, t) \<in> set (node_transitions dfa (nodes dfa ! rep i))" for ch t using d'(2) [OF that] same by blast
    show "map_option rep (node_fallback dfa (nodes dfa ! rep i)) = map_option rep (node_fallback dfa (nodes dfa ! i))"
    proof (cases "node_fallback dfa (nodes dfa ! i)")
      case (Some t)
      from d(3) [OF this] obtain t' where t': "node_fallback dfa (nodes dfa ! rep i) = Some t'" "?c t' = ?c t" by blast
      show ?thesis unfolding Some t'(1) option.map same [OF t'(2)] by (rule refl)
    next
      case None
      have "node_fallback dfa (nodes dfa ! rep i) = None"
      proof (rule ccontr)
        assume "node_fallback dfa (nodes dfa ! rep i) \<noteq> None"
        then obtain t where "node_fallback dfa (nodes dfa ! rep i) = Some t" by blast
        from d'(3) [OF this] None show False by simp
      qed
      then show ?thesis using None by simp
    qed
  qed
  then show ?thesis using nr by blast
qed

section \<open>What minimize returns\<close>

text \<open>
  The automata that \<^verbatim>\<open>minimize\<close> handles as it means to: the windows of the nodes do not overlap, no node misses exactly
  one character, and where a node has a transition on the terminator and a fallback, their targets have different
  actions.
\<close>

definition terminator_distinct :: "DFA \<Rightarrow> bool" where
  "terminator_distinct dfa \<longleftrightarrow> (\<forall>node \<in> set (nodes dfa). \<forall>(c, t) \<in> set (node_transitions dfa node). c = 0 \<longrightarrow>
     (case node_fallback dfa node of None \<Rightarrow> True
      | Some d \<Rightarrow> node_actions dfa (nodes dfa ! t) \<noteq> node_actions dfa (nodes dfa ! d)))"

definition minimizable :: "DFA \<Rightarrow> bool" where
  "minimizable dfa \<longleftrightarrow> dfa_layout dfa \<and> length (nodes dfa) \<le> max_u32
     \<and> (\<forall>node \<in> set (nodes dfa). \<not> isKilled node \<and> \<not> one_missing dfa node) \<and> terminator_distinct dfa"

lemma one_missing_iff:
  "node_in_range dfa node \<Longrightarrow> one_missing dfa node \<longleftrightarrow> node_fallback dfa node = None
     \<and> (length (node_transitions dfa node) = 126 \<and> 0 \<notin> fst ` set (node_transitions dfa node)
      \<or> length (node_transitions dfa node) = 127 \<and> 0 \<in> fst ` set (node_transitions dfa node))"
  by (auto simp: one_missing_def node_fallback_def node_transitions_def node_in_range_def)

lemma own_length:
  assumes "node_in_range dfa node" "distinct (map fst (node_transitions dfa node))" "\<forall>(c, t) \<in> set (node_transitions dfa node). c < 128"
  shows "m_transitionsLength node < 256"
proof -
  have "card (set (map fst (node_transitions dfa node))) \<le> card {..<128::nat}" using assms(3) by (intro card_mono) auto
  then have "length (node_transitions dfa node) \<le> 128" using distinct_card [OF assms(2)] by simp
  then show ?thesis using assms(1) by (simp add: node_transitions_def node_in_range_def)
qed

lemma simplified_subset: "set (simplified fb ts) \<subseteq> set ts"
  by (auto simp: simplified_def split: option.splits)

lemma simplified_distinct: "distinct (map fst ts) \<Longrightarrow> distinct (map fst (simplified fb ts))"
  by (auto simp: simplified_def distinct_map_filter split: option.splits)

text \<open>The nodes of the first simplification and of the result.\<close>

definition simplified_dfa :: "DFA \<Rightarrow> DFA \<Rightarrow> bool" where
  "simplified_dfa dfa d \<longleftrightarrow> root d = root dfa \<and> length (nodes d) = length (nodes dfa)
     \<and> (\<forall>i < length (nodes dfa). node_actions d (nodes d ! i) = node_actions dfa (nodes dfa ! i)
          \<and> \<not> isKilled (nodes d ! i)
          \<and> node_transitions d (nodes d ! i) = simplified (node_fallback dfa (nodes dfa ! i)) (node_transitions dfa (nodes dfa ! i))
          \<and> node_fallback d (nodes d ! i) = node_fallback dfa (nodes dfa ! i))"

definition minimized_dfa :: "(nat \<Rightarrow> nat) \<Rightarrow> DFA \<Rightarrow> DFA \<Rightarrow> bool" where
  "minimized_dfa rep d d' \<longleftrightarrow> root d' = rep (root d) \<and> length (nodes d') = length (nodes d)
     \<and> (\<forall>i < length (nodes d). rep i \<noteq> i \<longrightarrow> isKilled (nodes d' ! i))
     \<and> (\<forall>i < length (nodes d). rep i = i \<longrightarrow> \<not> isKilled (nodes d' ! i)
          \<and> node_actions d' (nodes d' ! i) = node_actions d (nodes d ! i)
          \<and> node_transitions d' (nodes d' ! i) = simplified (map_option rep (node_fallback d (nodes d ! i)))
               (map (apsnd rep) (node_transitions d (nodes d ! i)))
          \<and> node_fallback d' (nodes d' ! i) = map_option rep (node_fallback d (nodes d ! i)))"

lemma minimizableD:
  assumes wf: "dfa_wf dfa" and mn: "minimizable dfa"
  shows "blocks_ok dfa" "nodes_wf dfa" "length (nodes dfa) \<le> max_u32"
    "\<And>i. i < length (nodes dfa) \<Longrightarrow> \<not> isKilled (nodes dfa ! i) \<and> \<not> one_missing dfa (nodes dfa ! i)
      \<and> m_transitionsLength (nodes dfa ! i) < 256 \<and> node_fallback dfa (nodes dfa ! i) \<noteq> Some max_u32"
proof -
  have nk: "\<not> isKilled (nodes dfa ! i)" "\<not> one_missing dfa (nodes dfa ! i)" if "i < length (nodes dfa)" for i
    using mn nth_mem [OF that] unfolding minimizable_def by blast+
  show nw: "nodes_wf dfa" using wf mn unfolding nodes_wf_def dfa_wf_def minimizable_def by blast
  note n = nodes_wfD [OF nw]
  show m: "length (nodes dfa) \<le> max_u32" using mn by (simp add: minimizable_def)
  show "blocks_ok dfa" using mn n(1) by (simp add: blocks_ok_def minimizable_def)
  show "\<not> isKilled (nodes dfa ! i) \<and> \<not> one_missing dfa (nodes dfa ! i)
      \<and> m_transitionsLength (nodes dfa ! i) < 256 \<and> node_fallback dfa (nodes dfa ! i) \<noteq> Some max_u32"
    if i: "i < length (nodes dfa)" for i
  proof -
    have "\<forall>(c, t) \<in> set (node_transitions dfa (nodes dfa ! i)). c < 128" using n(3) [OF i] by blast
    from own_length [OF n(1,2) [OF i] this] show ?thesis using nk [OF i] n(4) [OF i, of max_u32] m by auto
  qed
qed

lemma first_simplification:
  assumes wf: "dfa_wf dfa" and mn: "minimizable dfa"
  shows "\<exists>d. simplifyTransitions dfa = Some d \<and> blocks_ok d \<and> nodes_wf d \<and> simplified_dfa dfa d"
proof -
  note m = minimizableD [OF wf mn]
  note n = nodes_wfD [OF m(2)]
  have "\<And>i. i < length (nodes dfa) \<Longrightarrow> \<not> one_missing dfa (nodes dfa ! i) \<and> m_transitionsLength (nodes dfa ! i) < 256
      \<and> node_fallback dfa (nodes dfa ! i) \<noteq> Some max_u32" using m(4) by blast
  from simplifyTransitions_ok [OF m(1) this] obtain d where d: "simplifyTransitions dfa = Some d" "blocks_ok d" "root d = root dfa"
    "length (nodes d) = length (nodes dfa)"
    "\<forall>j < length (nodes dfa). node_actions d (nodes d ! j) = node_actions dfa (nodes dfa ! j)
         \<and> isKilled (nodes d ! j) = isKilled (nodes dfa ! j) \<and> hasFallbackTransition (nodes d ! j) = hasFallbackTransition (nodes dfa ! j)
         \<and> node_transitions d (nodes d ! j) = simplified (node_fallback dfa (nodes dfa ! j)) (node_transitions dfa (nodes dfa ! j))
         \<and> node_fallback d (nodes d ! j) = node_fallback dfa (nodes dfa ! j)" by blast
  have s: "simplified_dfa dfa d" unfolding simplified_dfa_def using d(3,4,5) m(4) by simp
  have "dfa_node_wf d (nodes d ! i)" if "i < length (nodes d)" for i
  proof -
    have i: "i < length (nodes dfa)" using that d(4) by simp
    have own: "node_transitions d (nodes d ! i) = simplified (node_fallback dfa (nodes dfa ! i)) (node_transitions dfa (nodes dfa ! i))"
      "node_fallback d (nodes d ! i) = node_fallback dfa (nodes dfa ! i)" using d(5) i by simp_all
    have live: "\<not> isKilled (nodes d ! t)" if "t < length (nodes dfa)" for t using d(5) m(4) that by simp
    have "(c, t) \<in> set (node_transitions dfa (nodes dfa ! i))" if "(c, t) \<in> set (node_transitions d (nodes d ! i))" for c t
      using that simplified_subset unfolding own(1) by blast
    then have "\<forall>(c, t) \<in> set (node_transitions d (nodes d ! i)). c < 128 \<and> t < length (nodes d) \<and> \<not> isKilled (nodes d ! t)"
      using n(3) [OF i] live d(4) by fastforce
    moreover have "distinct (map fst (node_transitions d (nodes d ! i)))" unfolding own(1) using simplified_distinct n(2) [OF i] .
    moreover have "node_in_range d (nodes d ! i)" using d(2) that by (simp add: blocks_ok_def)
    ultimately show ?thesis unfolding dfa_node_wf_def own(2) using n(4) [OF i] live d(4) by simp
  qed
  then have "nodes_wf d" unfolding nodes_wf_def by (metis in_set_conv_nth)
  then show ?thesis using d(1,2) s by blast
qed

lemma root_update [simp]:
  "node_actions (d\<lparr>root := r\<rparr>) node = node_actions d node" "node_transitions (d\<lparr>root := r\<rparr>) node = node_transitions d node"
  "node_fallback (d\<lparr>root := r\<rparr>) node = node_fallback d node" "node_in_range (d\<lparr>root := r\<rparr>) node = node_in_range d node"
  by (simp_all add: node_actions_def node_transitions_def node_fallback_def node_in_range_def)

lemma minimize_result:
  assumes wf: "dfa_wf dfa" and mn: "minimizable dfa"
  shows "\<exists>d rep d'. minimize dfa = Some d' \<and> nodes_wf d \<and> simplified_dfa dfa d \<and> replacement d rep \<and> blocks_ok d'
    \<and> minimized_dfa rep d d'"
proof -
  note mz = minimizableD [OF wf mn]
  obtain d where d: "simplifyTransitions dfa = Some d" "blocks_ok d" "nodes_wf d" "simplified_dfa dfa d"
    using first_simplification [OF wf mn] by blast
  let ?n = "length (nodes d)"
  note sd = d(4) [unfolded simplified_dfa_def]
  have n: "length (nodes dfa) = ?n" "root d = root dfa" using sd by simp_all
  have live: "\<forall>i < ?n. \<not> isKilled (nodes d ! i)" using sd by simp
  note w = nodes_wfD [OF d(3)]
  obtain G0 finals G1 G2 G where G: "new_FullGraphPartition d = Some G0" "finalStates d = Some finals" "splitByActions finals G0 = Some G1"
    "splitByUniqueTransitions G1 = Some G2" "splitByFallbackTransitions G2 = Some G"
    "part_core ?n (m_nodePartition G)" "congruence d (cls (m_nodePartition G))" using partition_ok [OF d(3)] by blast
  obtain rep where rep: "\<And>i. i < ?n \<Longrightarrow> nodeReplacement G i = Some (rep i)" "replacement d rep"
    using nodeReplacement_ok [OF d(3) G(6,7)] by blast
  obtain d2 where d2: "killReplaced G d = Some (d2, map rep [0..<?n])" "killed_upto rep ?n d d2"
    using killReplaced_ok [OF d(2) rep(1)] by blast
  note u = d2(2) [unfolded killed_upto_def]
  have n2: "length (nodes d2) = ?n" "root d2 = root d" using u by simp_all
  have killed: "nodes d2 ! i = killed_node" if "i < ?n" "rep i \<noteq> i" for i using u that by simp
  have kept: "nodes d2 ! i = nodes d ! i" "node_transitions d2 (nodes d2 ! i) = node_transitions d (nodes d ! i)"
    "node_fallback d2 (nodes d2 ! i) = node_fallback d (nodes d ! i)" "node_actions d2 (nodes d2 ! i) = node_actions d (nodes d ! i)"
    if "i < ?n" "rep i = i" for i
  proof -
    have e: "(i < ?n \<and> rep i \<noteq> i) = False" using that(2) by blast
    have k: "nodes d2 ! i = nodes d ! i \<and> node_transitions d2 (nodes d ! i) = node_transitions d (nodes d ! i)
      \<and> node_fallback d2 (nodes d ! i) = node_fallback d (nodes d ! i) \<and> node_actions d2 (nodes d ! i) = node_actions d (nodes d ! i)"
      using d2(2) [unfolded killed_upto_def, THEN conjunct2, THEN conjunct2, THEN conjunct2, THEN conjunct2, THEN spec, THEN mp, OF that(1)]
      unfolding e if_False .
    then show "nodes d2 ! i = nodes d ! i" "node_transitions d2 (nodes d2 ! i) = node_transitions d (nodes d ! i)"
      "node_fallback d2 (nodes d2 ! i) = node_fallback d (nodes d ! i)" "node_actions d2 (nodes d2 ! i) = node_actions d (nodes d ! i)"
      by simp_all
  qed
  have tgt: "t < length (nodes d2)" if "i < length (nodes d2)" "(ch, t) \<in> set (node_transitions d2 (nodes d2 ! i))" for i ch t
    using that w(3) [of i ch t] kept(2) [of i] killed [of i] n2(1) by (cases "rep i = i") simp_all
  have tgf: "t < length (nodes d2)" if "i < length (nodes d2)" "node_fallback d2 (nodes d2 ! i) = Some t" for i t
    using that w(4) [of i t] kept(3) [of i] killed [of i] n2(1) by (cases "rep i = i") simp_all
  have b2: "blocks_ok d2" using killed_upto_blocks [OF d(2) d2(2)] .
  have tgt': "\<forall>i < length (nodes d2). \<forall>ch t. (ch, t) \<in> set (node_transitions d2 (nodes d2 ! i)) \<longrightarrow> t < length (nodes d2)"
    "\<forall>i < length (nodes d2). \<forall>t. node_fallback d2 (nodes d2 ! i) = Some t \<longrightarrow> t < length (nodes d2)"
    using tgt tgf by blast+
  from relocateNodes_ok [where rep = rep, OF b2 tgt'] obtain d3 where d3:
    "foldM (relocateNode (map rep [0..<?n])) (nodes d2) d2 = Some d3" "blocks_ok d3" "root d3 = root d2" "length (nodes d3) = ?n"
    "\<And>j. j < ?n \<Longrightarrow> node_actions d3 (nodes d3 ! j) = node_actions d2 (nodes d2 ! j)
         \<and> isKilled (nodes d3 ! j) = isKilled (nodes d2 ! j) \<and> hasFallbackTransition (nodes d3 ! j) = hasFallbackTransition (nodes d2 ! j)
         \<and> node_transitions d3 (nodes d3 ! j) = map (apsnd rep) (node_transitions d2 (nodes d2 ! j))
         \<and> node_fallback d3 (nodes d3 ! j) = map_option rep (node_fallback d2 (nodes d2 ! j))"
    unfolding n2(1) by blast
  have pre: "\<not> one_missing d3 (nodes d3 ! i) \<and> m_transitionsLength (nodes d3 ! i) < 256 \<and> node_fallback d3 (nodes d3 ! i) \<noteq> Some max_u32"
    if "i < length (nodes d3)" for i
  proof -
    have i: "i < ?n" "i < length (nodes dfa)" using that d3(4) n(1) by simp_all
    have r3: "node_in_range d3 (nodes d3 ! i)" using d3(2) that by (simp add: blocks_ok_def)
    show ?thesis
    proof (cases "rep i = i")
      case False
      then have "node_transitions d3 (nodes d3 ! i) = []" "node_fallback d3 (nodes d3 ! i) = None"
        using d3(5) [OF i(1)] killed [OF i(1)] by simp_all
      moreover have "m_transitionsLength (nodes d3 ! i) = length (node_transitions d3 (nodes d3 ! i))"
        using r3 by (simp add: node_transitions_def node_in_range_def)
      ultimately show ?thesis using one_missing_iff [OF r3] by simp
    next
      case True
      note k = kept [OF i(1) True]
      have own: "node_transitions d3 (nodes d3 ! i) = map (apsnd rep) (node_transitions d (nodes d ! i))"
        "node_fallback d3 (nodes d3 ! i) = map_option rep (node_fallback d (nodes d ! i))" using d3(5) [OF i(1)] k by simp_all
      have fst: "map fst (node_transitions d3 (nodes d3 ! i)) = map fst (node_transitions d (nodes d ! i))" unfolding own(1) by simp
      have im: "fst ` set (node_transitions d3 (nodes d3 ! i)) = fst ` set (node_transitions d (nodes d ! i))"
        "length (node_transitions d3 (nodes d3 ! i)) = length (node_transitions d (nodes d ! i))"
        unfolding own(1) by (simp_all add: image_image)
      have "\<not> one_missing d3 (nodes d3 ! i)"
      proof
        assume "one_missing d3 (nodes d3 ! i)"
        then have o: "node_fallback d (nodes d ! i) = None"
          "length (node_transitions d (nodes d ! i)) = 126 \<and> 0 \<notin> fst ` set (node_transitions d (nodes d ! i))
            \<or> length (node_transitions d (nodes d ! i)) = 127 \<and> 0 \<in> fst ` set (node_transitions d (nodes d ! i))"
          unfolding one_missing_iff [OF r3] own(2) im by simp_all
        then have "node_fallback dfa (nodes dfa ! i) = None" using sd i(2) by simp
        moreover from this have "node_transitions d (nodes d ! i) = node_transitions dfa (nodes dfa ! i)"
          using sd i(2) by (simp add: simplified_def)
        ultimately have "one_missing dfa (nodes dfa ! i)"
          using o(2) one_missing_iff [of dfa "nodes dfa ! i"] mz(1) i(2) by (simp add: blocks_ok_def)
        then show False using mz(4) [OF i(2)] by blast
      qed
      moreover have "m_transitionsLength (nodes d3 ! i) < 256"
      proof (rule own_length [OF r3])
        show "distinct (map fst (node_transitions d3 (nodes d3 ! i)))" unfolding fst by (rule w(2) [OF i(1)])
        show "\<forall>(c, t) \<in> set (node_transitions d3 (nodes d3 ! i)). c < 128" unfolding own(1) using w(3) [OF i(1)] by auto
      qed
      moreover have "node_fallback d3 (nodes d3 ! i) \<noteq> Some max_u32"
      proof
        assume "node_fallback d3 (nodes d3 ! i) = Some max_u32"
        then obtain t where t: "node_fallback d (nodes d ! i) = Some t" "rep t = max_u32" unfolding own(2) by auto
        have "rep t < ?n" using replacementD(1) [OF rep(2) w(4) [OF i(1) t(1)]] .
        then show False using t(2) mz(3) n(1) by simp
      qed
      ultimately show ?thesis by blast
    qed
  qed
  from simplifyTransitions_ok [OF d3(2) pre] obtain d4 where d4: "simplifyTransitions d3 = Some d4" "blocks_ok d4" "root d4 = root d3"
    "length (nodes d4) = length (nodes d3)"
    "\<And>j. j < length (nodes d3) \<Longrightarrow> node_actions d4 (nodes d4 ! j) = node_actions d3 (nodes d3 ! j)
         \<and> isKilled (nodes d4 ! j) = isKilled (nodes d3 ! j) \<and> hasFallbackTransition (nodes d4 ! j) = hasFallbackTransition (nodes d3 ! j)
         \<and> node_transitions d4 (nodes d4 ! j) = simplified (node_fallback d3 (nodes d3 ! j)) (node_transitions d3 (nodes d3 ! j))
         \<and> node_fallback d4 (nodes d4 ! j) = node_fallback d3 (nodes d3 ! j)" by blast
  let ?d' = "d4\<lparr>root := rep (root d)\<rparr>"
  have rt: "root d4 = root d" "root d < ?n" using wf n d4(3) d3(3) n2(2) by (simp_all add: dfa_wf_def)
  have "minimize dfa = Some ?d'"
    using d(1) G(1-5) d2(1) d3(1) d4(1) rt by (simp add: minimize_def vec_simps)
  moreover have "blocks_ok ?d'" using d4(2) by (simp add: blocks_ok_def dfa_layout_def node_in_range_def)
  moreover have "minimized_dfa rep d ?d'" unfolding minimized_dfa_def
  proof (intro conjI allI impI)
    show "root ?d' = rep (root d)" by simp
    show "length (nodes ?d') = ?n" using d4(4) d3(4) by simp
    fix i assume i: "i < ?n"
    have i3: "i < length (nodes d3)" using i d3(4) by simp
    { assume "rep i \<noteq> i"
      then show "isKilled (nodes ?d' ! i)" using d4(5) [OF i3] d3(5) [OF i] killed [OF i] by simp }
    assume r: "rep i = i"
    note k = kept [OF i r] and e3 = d3(5) [OF i] and e4 = d4(5) [OF i3]
    have "\<not> isKilled (nodes d ! i)" using live i by blast
    then show "\<not> isKilled (nodes ?d' ! i)" using e4 e3 unfolding k(1) by simp
    show "node_actions ?d' (nodes ?d' ! i) = node_actions d (nodes d ! i)" using e4 e3 k(4) by simp
    show "node_fallback ?d' (nodes ?d' ! i) = map_option rep (node_fallback d (nodes d ! i))"
      using e4 e3 k(3) by simp
    show "node_transitions ?d' (nodes ?d' ! i) = simplified (map_option rep (node_fallback d (nodes d ! i)))
               (map (apsnd rep) (node_transitions d (nodes d ! i)))"
      using e4 e3 k(2,3) by simp
  qed
  ultimately show ?thesis using d(3,4) rep(2) by blast
qed

section \<open>The minimized automaton simulates the automaton\<close>

definition step_of :: "nat option \<Rightarrow> (nat \<times> nat) list \<Rightarrow> nat \<Rightarrow> nat option" where
  "step_of fb ts c = (case map_of ts c of Some t \<Rightarrow> Some t | None \<Rightarrow> if c \<noteq> 0 then fb else None)"

lemma node_step_of: "node_step dfa node c = step_of (node_fallback dfa node) (node_transitions dfa node) c"
  by (simp add: node_step_def step_of_def)

lemma step_of_simplified:
  assumes d: "distinct (map fst ts)" and z: "\<And>t. (0, t) \<in> set ts \<Longrightarrow> fb \<noteq> Some t"
  shows "step_of fb (simplified fb ts) c = step_of fb ts c"
proof (cases fb)
  case None
  then show ?thesis by (simp add: simplified_def)
next
  case (Some f)
  let ?fs = "filter (\<lambda>t. snd t \<noteq> f) ts"
  have df: "distinct (map fst ?fs)" using d by (rule distinct_map_filter)
  show ?thesis
  proof (cases "map_of ts c")
    case None
    then have "c \<notin> fst ` set ?fs" by (auto simp: map_of_eq_None_iff)
    then have "map_of ?fs c = None" by (simp add: map_of_eq_None_iff)
    then show ?thesis using None Some by (simp add: step_of_def simplified_def)
  next
    case s: (Some t)
    then have m: "(c, t) \<in> set ts" by (rule map_of_SomeD)
    show ?thesis
    proof (cases "t = f")
      case True
      have "c \<notin> fst ` set ?fs" using m d True by (auto dest: eq_key_imp_eq_value)
      then have "map_of ?fs c = None" by (simp add: map_of_eq_None_iff)
      moreover have "c \<noteq> 0" using z [of t] m True Some by (cases "c = 0") simp_all
      ultimately show ?thesis using s True Some by (simp add: step_of_def simplified_def)
    next
      case False
      then have "(c, t) \<in> set ?fs" using m by simp
      then have "map_of ?fs c = Some t" using df by simp
      then show ?thesis using s Some by (simp add: step_of_def simplified_def)
    qed
  qed
qed

lemma step_of_rep: "step_of (map_option rep fb) (map (apsnd rep) ts) c = map_option rep (step_of fb ts c)"
proof -
  have "map_of (map (apsnd rep) ts) c = map_option rep (map_of ts c)"
    by (induction ts) (auto simp: apsnd_def map_prod_def split: prod.splits)
  then show ?thesis by (simp add: step_of_def split: option.splits)
qed

lemma step_of_related:
  assumes d: "distinct (map fst ts)" "distinct (map fst ts')"
    and r: "\<And>ch t. (ch, t) \<in> set ts \<Longrightarrow> \<exists>t'. (ch, t') \<in> set ts' \<and> rep t' = rep t"
    and l: "\<And>ch t. (ch, t) \<in> set ts' \<Longrightarrow> \<exists>t'. (ch, t') \<in> set ts \<and> rep t' = rep t"
    and fb: "map_option rep fb' = map_option rep fb"
  shows "map_option rep (step_of fb' ts' c) = map_option rep (step_of fb ts c)"
proof (cases "map_of ts c")
  case (Some t)
  from r [OF map_of_SomeD [OF this]] obtain t' where t': "(c, t') \<in> set ts'" "rep t' = rep t" by blast
  then have "map_of ts' c = Some t'" using d(2) by simp
  then show ?thesis using Some t'(2) by (simp add: step_of_def)
next
  case None
  have "map_of ts' c = None"
  proof (rule ccontr)
    assume "map_of ts' c \<noteq> None"
    then obtain t where "map_of ts' c = Some t" by blast
    from l [OF map_of_SomeD [OF this]] obtain t' where "(c, t') \<in> set ts" by blast
    then show False using None by (force simp: map_of_eq_None_iff)
  qed
  then show ?thesis using None fb by (simp add: step_of_def)
qed

lemma simplified_step:
  assumes wf: "nodes_wf dfa" and s: "simplified_dfa dfa d" and td: "terminator_distinct dfa"
  shows "dfa_step d q c = dfa_step dfa q c"
proof (cases "q < length (nodes dfa)")
  case True
  note n = nodes_wfD [OF wf True]
  let ?own = "node_transitions dfa (nodes dfa ! q)" and ?fb = "node_fallback dfa (nodes dfa ! q)"
  have "?fb \<noteq> Some t" if "(0, t) \<in> set ?own" for t
    using td nth_mem [OF True] that unfolding terminator_distinct_def by fastforce
  then have "step_of ?fb (simplified ?fb ?own) c = step_of ?fb ?own c" by (rule step_of_simplified [OF n(2)])
  then show ?thesis using s True by (simp add: dfa_step_def node_step_of simplified_dfa_def)
next
  case False
  then show ?thesis using s by (simp add: dfa_step_def simplified_dfa_def)
qed

lemma minimized_step:
  assumes wf: "nodes_wf dfa" and s: "simplified_dfa dfa d" and td: "terminator_distinct dfa" and wd: "nodes_wf d"
    and rep: "replacement d rep" and mi: "minimized_dfa rep d d'" and q: "q < length (nodes d)"
  shows "dfa_step d' (rep q) c = map_option rep (dfa_step d q c)"
proof -
  note r = replacementD [OF rep q]
  let ?r = "rep q"
  let ?own = "\<lambda>i. node_transitions d (nodes d ! i)" and ?fb = "\<lambda>i. node_fallback d (nodes d ! i)"
  note w = nodes_wfD [OF wd] and rq = nodes_wfD(2) [OF wd q]
  have len: "length (nodes dfa) = length (nodes d)" using s by (simp add: simplified_dfa_def)
  have n': "node_transitions d' (nodes d' ! ?r) = simplified (map_option rep (?fb ?r)) (map (apsnd rep) (?own ?r))"
    "node_fallback d' (nodes d' ! ?r) = map_option rep (?fb ?r)" "length (nodes d') = length (nodes d)"
    using mi r(1,2) by (simp_all add: minimized_dfa_def)
  have z: "map_option rep (?fb ?r) \<noteq> Some t" if "(0, t) \<in> set (map (apsnd rep) (?own ?r))" for t
  proof
    assume "map_option rep (?fb ?r) = Some t"
    then obtain f where f: "?fb ?r = Some f" "rep f = t" by auto
    from that obtain u where u: "(0, u) \<in> set (?own ?r)" "rep u = t" by auto
    have rl: "?r < length (nodes dfa)" using r(1) len by simp
    have fd: "node_fallback dfa (nodes dfa ! ?r) = Some f" using s rl f(1) by (simp add: simplified_dfa_def)
    have "(0, u) \<in> set (node_transitions dfa (nodes dfa ! ?r))"
      using s rl u(1) simplified_subset unfolding simplified_dfa_def by fastforce
    then have ne: "node_actions dfa (nodes dfa ! u) \<noteq> node_actions dfa (nodes dfa ! f)"
      using td nth_mem [OF rl] fd unfolding terminator_distinct_def by fastforce
    have uf: "u < length (nodes d)" "f < length (nodes d)" using w(3) [OF r(1) u(1)] w(4) [OF r(1) f(1)] by simp_all
    have "node_actions d (nodes d ! u) = node_actions d (nodes d ! f)"
      using replacementD(3) [OF rep uf(1)] replacementD(3) [OF rep uf(2)] unfolding u(2) f(2) by simp
    then show False using ne s uf len by (simp add: simplified_dfa_def)
  qed
  have "distinct (map fst (map (apsnd rep) (?own ?r)))" using w(2) [OF r(1)] by simp
  from step_of_simplified [OF this z] have "dfa_step d' ?r c = step_of (map_option rep (?fb ?r)) (map (apsnd rep) (?own ?r)) c"
    using r(1) n' by (simp add: dfa_step_def node_step_of)
  also have "\<dots> = map_option rep (step_of (?fb ?r) (?own ?r) c)" by (rule step_of_rep)
  also have "\<dots> = map_option rep (step_of (?fb q) (?own q) c)"
    by (rule step_of_related [OF rq w(2) [OF r(1)] r(4,5,6)])
  also have "\<dots> = map_option rep (dfa_step d q c)" using q by (simp add: dfa_step_def node_step_of)
  finally show ?thesis .
qed

lemma minimized_wf:
  assumes wf: "dfa_wf dfa" and s: "simplified_dfa dfa d" and wd: "nodes_wf d"
    and rep: "replacement d rep" and mi: "minimized_dfa rep d d'" and b: "blocks_ok d'"
  shows "dfa_wf d'"
proof -
  have len: "length (nodes d') = length (nodes d)" using mi by (simp add: minimized_dfa_def)
  have live: "rep t < length (nodes d') \<and> \<not> isKilled (nodes d' ! rep t)" if "t < length (nodes d)" for t
    using replacementD(1,2) [OF rep that] mi by (simp add: minimized_dfa_def)
  have rt: "root d < length (nodes d)" "root d' = rep (root d)" using wf s mi by (simp_all add: dfa_wf_def simplified_dfa_def minimized_dfa_def)
  have "dfa_node_wf d' (nodes d' ! i)" if i: "i < length (nodes d')" and nk: "\<not> isKilled (nodes d' ! i)" for i
  proof -
    have i': "i < length (nodes d)" using i len by simp
    have ri: "rep i = i" using mi i' nk unfolding minimized_dfa_def by blast
    note w = nodes_wfD [OF wd i']
    have own: "node_transitions d' (nodes d' ! i) = simplified (map_option rep (node_fallback d (nodes d ! i)))
               (map (apsnd rep) (node_transitions d (nodes d ! i)))"
      "node_fallback d' (nodes d' ! i) = map_option rep (node_fallback d (nodes d ! i))"
      using mi i' ri unfolding minimized_dfa_def by blast+
    have "distinct (map fst (map (apsnd rep) (node_transitions d (nodes d ! i))))" using w(2) by simp
    then have "distinct (map fst (node_transitions d' (nodes d' ! i)))" unfolding own(1) by (rule simplified_distinct)
    moreover have "c < 128 \<and> t < length (nodes d') \<and> \<not> isKilled (nodes d' ! t)" if "(c, t) \<in> set (node_transitions d' (nodes d' ! i))" for c t
    proof -
      have "(c, t) \<in> set (map (apsnd rep) (node_transitions d (nodes d ! i)))" using that simplified_subset unfolding own(1) by blast
      then obtain u where u: "(c, u) \<in> set (node_transitions d (nodes d ! i))" "t = rep u" by auto
      then show ?thesis using w(3) [OF u(1)] live [of u] by simp
    qed
    moreover have "t < length (nodes d') \<and> \<not> isKilled (nodes d' ! t)" if fb: "node_fallback d' (nodes d' ! i) = Some t" for t
    proof -
      obtain u where u: "node_fallback d (nodes d ! i) = Some u" "t = rep u" using fb unfolding own(2) by auto
      then show ?thesis using w(4) [OF u(1)] live [of u] by simp
    qed
    moreover have "node_in_range d' (nodes d' ! i)" using b i by (simp add: blocks_ok_def)
    ultimately show ?thesis unfolding dfa_node_wf_def by blast
  qed
  then have "\<forall>node \<in> set (nodes d'). \<not> isKilled node \<longrightarrow> dfa_node_wf d' node" by (metis in_set_conv_nth)
  then show ?thesis using live [OF rt(1)] rt(2) by (simp add: dfa_wf_def)
qed

lemma minimize_simulates:
  assumes wf: "dfa_wf dfa" and mn: "minimizable dfa"
  shows "\<exists>dfa'. minimize dfa = Some dfa' \<and> dfa_wf dfa' \<and> length (nodes dfa') = length (nodes dfa)
    \<and> (\<forall>w. map_option (state_actions dfa') (dfa_run dfa' (root dfa') w) = map_option (state_actions dfa) (dfa_run dfa (root dfa) w))"
proof -
  from minimize_result [OF wf mn] obtain d rep d' where m: "minimize dfa = Some d'" and wd: "nodes_wf d" and s: "simplified_dfa dfa d"
    and rep: "replacement d rep" and b: "blocks_ok d'" and mi: "minimized_dfa rep d d'" by blast
  have len: "length (nodes dfa) = length (nodes d)" "root d = root dfa" using s by (simp_all add: simplified_dfa_def)
  have nw: "nodes_wf dfa" and td: "terminator_distinct dfa" using minimizableD(2) [OF wf mn] mn by (simp_all add: minimizable_def)
  have st: "dfa_step d' (rep q) c = map_option rep (dfa_step dfa q c)" if "q < length (nodes d)" for q c
    using minimized_step [OF nw s td wd rep mi that] simplified_step [OF nw s td] by simp
  have run: "dfa_run d' (rep q) w = map_option rep (dfa_run dfa q w)
      \<and> (\<forall>q'. dfa_run dfa q w = Some q' \<longrightarrow> q' < length (nodes d))" if "q < length (nodes d)" for q w
    using that
  proof (induction w arbitrary: q)
    case Nil
    then show ?case by simp
  next
    case (Cons c w)
    show ?case
    proof (cases "dfa_step dfa q c")
      case None
      then show ?thesis using st [OF Cons.prems, of c] by simp
    next
      case (Some q')
      have "\<not> isKilled (nodes dfa ! q)" using minimizableD(4) [OF wf mn] Cons.prems len(1) by simp
      then have "q' < length (nodes d)" using dfa_step_wf [OF wf _ Some] len(1) by simp
      from Cons.IH [OF this] show ?thesis using st [OF Cons.prems, of c] Some by simp
    qed
  qed
  have act: "state_actions d' (rep q) = state_actions dfa q" if "q < length (nodes d)" for q
  proof -
    have "node_actions d' (nodes d' ! rep q) = node_actions d (nodes d ! rep q)"
      using mi replacementD(1,2) [OF rep that] by (simp add: minimized_dfa_def)
    then show ?thesis using replacementD(3) [OF rep that] s that by (simp add: state_actions_def simplified_dfa_def)
  qed
  have rt: "root dfa < length (nodes d)" "root d' = rep (root dfa)" using wf len mi by (simp_all add: dfa_wf_def minimized_dfa_def)
  have "map_option (state_actions d') (dfa_run d' (root d') w) = map_option (state_actions dfa) (dfa_run dfa (root dfa) w)" for w
    using run [OF rt(1), of w] act unfolding rt(2) by (cases "dfa_run dfa (root dfa) w") simp_all
  then show ?thesis using m minimized_wf [OF wf s wd rep mi b] mi len by (auto simp: minimized_dfa_def)
qed

section \<open>Minimization keeps the matches\<close>

text \<open>C3.
  On a well-formed automaton whose windows do not overlap, in which no node lacks exactly the transition that
  \<^verbatim>\<open>simplifyTransitions\<close> gets wrong, \<^verbatim>\<open>DFAMinimizer::minimize\<close> returns a well-formed automaton that has the same actions
  after every word (and fails on the same words).
\<close>

theorem minimize_equivalent:
  assumes "dfa_wf dfa" "minimizable dfa"
  shows "\<exists>dfa'. minimize dfa = Some dfa' \<and> dfa_wf dfa' \<and> length (nodes dfa') = length (nodes dfa)
    \<and> (\<forall>w. map_option (state_actions dfa') (dfa_run dfa' (root dfa') w) = map_option (state_actions dfa) (dfa_run dfa (root dfa) w))"
  using assms by (rule minimize_simulates)

text \<open>Two equivalent nodes: \<open>a\<close> and \<open>b\<close> lead to the action 5.\<close>

definition mergeable_dfa :: DFA where
  "mergeable_dfa = \<lparr>dfa_actions = [5, 5], dfa_transitions = [(97, 1), (98, 2)],
     nodes = [\<lparr>m_actionsStart = 0, m_transitionsStart = 0, m_actionsLength = 0, m_transitionsLength = 2, m_flags = 0\<rparr>,
              \<lparr>m_actionsStart = 0, m_transitionsStart = 2, m_actionsLength = 1, m_transitionsLength = 0, m_flags = 0\<rparr>,
              \<lparr>m_actionsStart = 1, m_transitionsStart = 2, m_actionsLength = 1, m_transitionsLength = 0, m_flags = 0\<rparr>],
     root = 0\<rparr>"

lemma mergeable_dfa_ok: "dfa_wf mergeable_dfa" "minimizable mergeable_dfa"
proof -
  let ?n = "\<lambda>i. nodes mergeable_dfa ! i"
  have n: "set (nodes mergeable_dfa) = {?n 0, ?n 1, ?n 2}" by (simp add: mergeable_dfa_def)
  have t: "node_transitions mergeable_dfa (?n 0) = [(97, 1), (98, 2)]" "node_transitions mergeable_dfa (?n 1) = []"
    "node_transitions mergeable_dfa (?n 2) = []" "node_fallback mergeable_dfa (?n 0) = None"
    "node_fallback mergeable_dfa (?n 1) = None" "node_fallback mergeable_dfa (?n 2) = None"
    "node_in_range mergeable_dfa (?n 0)" "node_in_range mergeable_dfa (?n 1)" "node_in_range mergeable_dfa (?n 2)"
    "\<not> isKilled (?n 0)" "\<not> isKilled (?n 1)" "\<not> isKilled (?n 2)" "length (nodes mergeable_dfa) = 3" "root mergeable_dfa = 0"
    "m_transitionsLength (?n 0) = 2" "m_transitionsLength (?n 1) = 0" "m_transitionsLength (?n 2) = 0"
    by (simp_all add: mergeable_dfa_def node_transitions_def node_fallback_def node_in_range_def window_def hasFallbackTransition_def isKilled_def)
  have wf: "dfa_node_wf mergeable_dfa (?n 0)" "dfa_node_wf mergeable_dfa (?n 1)" "dfa_node_wf mergeable_dfa (?n 2)"
    using t by (simp_all add: dfa_node_wf_def)
  then show "dfa_wf mergeable_dfa" unfolding dfa_wf_def n using t by simp
  have slots: "transition_slots (?n 0) = {0..<2}" "transition_slots (?n 1) = {}" "transition_slots (?n 2) = {}"
    "action_slots (?n 0) = {}" "action_slots (?n 1) = {0..<1}" "action_slots (?n 2) = {1..<2}"
    by (auto simp: transition_slots_def action_slots_def mergeable_dfa_def hasFallbackTransition_def)
  have "transition_slots (?n i) \<inter> transition_slots (?n j) = {} \<and> action_slots (?n i) \<inter> action_slots (?n j) = {}"
    if "i < 3" "j < 3" "i \<noteq> j" for i j
  proof -
    have "i \<in> {0, 1, 2}" "j \<in> {0, 1, 2}" using that by auto
    then show ?thesis using that(3) slots by (elim insertE emptyE) simp_all
  qed
  then have "dfa_layout mergeable_dfa" unfolding dfa_layout_def t(13) by blast
  moreover have "\<forall>node \<in> set (nodes mergeable_dfa). \<not> isKilled node \<and> \<not> one_missing mergeable_dfa node"
    unfolding n using t by (simp add: one_missing_def)
  moreover have "terminator_distinct mergeable_dfa" unfolding terminator_distinct_def n using t by simp
  ultimately show "minimizable mergeable_dfa" using t(13) by (simp add: minimizable_def max_u32_def)
qed

theorem minimize_equivalent_witness:
  "\<exists>dfa'. minimize mergeable_dfa = Some dfa' \<and> dfa_wf dfa'
    \<and> map_option (state_actions dfa') (dfa_run dfa' (root dfa') [98]) = Some {5}"
proof -
  have "map_option (state_actions mergeable_dfa) (dfa_run mergeable_dfa (root mergeable_dfa) [98]) = Some {5}"
    by (simp add: mergeable_dfa_def dfa_step_def node_step_def node_transitions_def window_def hasFallbackTransition_def
        state_actions_def node_actions_def isKilled_def node_fallback_def)
  then show ?thesis using minimize_equivalent [OF mergeable_dfa_ok] by metis
qed

end
