(* ===== verification/PatternLanguage.thy ===== *)
theory PatternLanguage
  imports URLFilterParser
begin

text \<open>
  What the pattern parser promises. The simplification of the terms of a pattern does not change
  the URLs it matches, and the terms of a pattern match exactly the URLs that the regular expression
  of the pattern matches. A URL is its characters, none of them the terminator 0; the interpreter
  reads them followed by the terminator, and a pattern matches if a prefix of that string is in
  the language of its terms.
\<close>

section \<open>Terms that do not read the terminator\<close>

fun plain :: "Term \<Rightarrow> bool" where
  "plain (CharacterSet q i w) \<longleftrightarrow> \<not> bit w 0 \<or> (\<not> i \<and> bitCount w = 128)"
| "plain (Group q ts) \<longleftrightarrow> list_all plain ts"
| "plain t \<longleftrightarrow> False"

definition S_any :: lang where
  "S_any = {w. 0 \<notin> set w}"

lemma lstar_no_zero: "w \<in> lstar A \<Longrightarrow> A \<subseteq> S_any \<Longrightarrow> w \<in> S_any"
  by (induction rule: lstar.induct) (auto simp: S_any_def)

lemma conc_no_zero: "A \<subseteq> S_any \<Longrightarrow> B \<subseteq> S_any \<Longrightarrow> conc A B \<subseteq> S_any"
  by (auto simp: conc_def S_any_def)

lemma Nil_S_any [simp]: "[] \<in> S_any"
  by (simp add: S_any_def)

lemma quant_no_zero:
  assumes "A \<subseteq> S_any"
  shows "quant_lang q A \<subseteq> S_any"
proof -
  have l: "lstar A \<subseteq> S_any" using lstar_no_zero [OF _ assms] by blast
  show ?thesis using l assms conc_no_zero [OF l assms] by (cases q) simp_all
qed

lemma terms_no_zero: "(\<And>t. t \<in> set ts \<Longrightarrow> term_lang t \<subseteq> S_any) \<Longrightarrow> terms_lang ts \<subseteq> S_any"
  by (induction ts) (simp_all add: conc_no_zero)

lemma charset_no_zero: "\<not> bit w 0 \<or> (\<not> i \<and> bitCount w = 128) \<Longrightarrow> \<not> charset_matches i w 0"
  by (auto simp: charset_matches_def)

lemma plain_no_zero: "plain t \<Longrightarrow> term_lang t \<subseteq> S_any"
proof (induction t)
  case (CharacterSet q i w)
  then have "{[c] | c. charset_matches i w c} \<subseteq> S_any"
    using charset_no_zero [of w i] by (auto simp: S_any_def)
  then show ?case by (simp add: quant_no_zero)
next
  case (Group q ts)
  then have "terms_lang ts \<subseteq> S_any" by (intro terms_no_zero) (auto simp: list_all_iff)
  then show ?case by (simp add: quant_no_zero)
qed simp_all

lemma plain_terms_no_zero: "list_all plain ts \<Longrightarrow> terms_lang ts \<subseteq> S_any"
  by (rule terms_no_zero) (auto simp: list_all_iff dest: plain_no_zero)

lemma universal_plain: "isUniversalTransition t \<Longrightarrow> plain t"
  by (induction t rule: isUniversalTransition.induct) (auto simp: bitCount_zero)

lemma any_plain: "isKnownToMatchAnyString t \<Longrightarrow> plain t"
  by (induction t rule: isKnownToMatchAnyString.induct) (auto simp: bitCount_zero dest: universal_plain)

lemma any_lang: "isKnownToMatchAnyString t \<Longrightarrow> term_lang t = S_any"
  using plain_no_zero [OF any_plain, of t] any_string_lang [of t] by (auto simp: S_any_def) (metis gr0I)

lemma plain_not_EOL: "plain t \<Longrightarrow> \<not> isEndOfLineAssertion t"
  by (cases t) auto

lemma bit_fold_bv_set:
  "(\<forall>x \<in> set xs. x < 128) \<Longrightarrow> bit (fold bv_set xs w) c \<longleftrightarrow> c \<in> set xs \<or> bit w c"
  by (induction xs arbitrary: w) (auto simp: bit_bv_set)

lemma canonicalDotStar_any: "isKnownToMatchAnyString canonicalDotStar"
  by (auto simp: canonicalDotStar_def new_UniversalTransition_def bitCount_full bit_fold_bv_set simp del: upt_rec_numeral)

lemma canonicalDotStar_plain: "plain canonicalDotStar" "valid_term canonicalDotStar"
  using any_plain [OF canonicalDotStar_any]
  by (simp_all add: canonicalDotStar_def new_UniversalTransition_def del: upt_rec_numeral)

lemma canonicalDotStar_lang: "term_lang canonicalDotStar = S_any"
  by (rule any_lang [OF canonicalDotStar_any])

lemma S_any_S_any: "conc S_any (conc S_any A) = conc S_any A"
proof -
  have "conc S_any S_any = S_any"
    by (auto simp: conc_def S_any_def) (metis append_Nil empty_iff empty_set)
  then show ?thesis by (simp flip: conc_assoc)
qed

section \<open>Matching\<close>

definition eol_term :: "bool \<Rightarrow> Term list" where
  "eol_term eol = (if eol then [new_EndOfLineAssertionTerm] else [])"

definition fires :: "Term list \<Rightarrow> nat list \<Rightarrow> bool" where
  "fires ts url \<longleftrightarrow> (\<exists>u v. url @ [0] = u @ v \<and> u \<in> terms_lang ts)"

definition matches_prefix :: "bool \<Rightarrow> lang \<Rightarrow> nat list \<Rightarrow> bool" where
  "matches_prefix eol L url \<longleftrightarrow> (\<exists>u v. url = u @ v \<and> u \<in> L \<and> (eol \<longrightarrow> v = []))"

lemma EOL_lang: "term_lang new_EndOfLineAssertionTerm = {[0]}"
proof -
  have bits: "bit (bv_set 0 0 :: 128 word) c \<longleftrightarrow> c = 0" for c by (simp add: bit_bv_set)
  have "bitCount (bv_set 0 0) \<noteq> 128"
    using bits [of 1] by (auto simp: bitCount_full intro!: exI [of _ 1])
  then show ?thesis by (auto simp: new_EndOfLineAssertionTerm_def charset_matches_def bits)
qed

lemma EOL_isEOL [simp]: "isEndOfLineAssertion new_EndOfLineAssertionTerm"
  by (simp add: new_EndOfLineAssertionTerm_def) (simp add: bitCount_def setBits_def bit_bv_set upt_conv_Cons)

lemma EOL_not_any [simp]: "\<not> isKnownToMatchAnyString new_EndOfLineAssertionTerm"
  using any_plain plain_not_EOL EOL_isEOL by blast

lemma fires_iff:
  assumes "list_all plain as" "0 \<notin> set url"
  shows "fires (as @ eol_term eol) url \<longleftrightarrow> matches_prefix eol (terms_lang as) url"
proof (cases eol)
  case True
  have "fires (as @ [new_EndOfLineAssertionTerm]) url \<longleftrightarrow> url \<in> terms_lang as"
  proof
    assume "fires (as @ [new_EndOfLineAssertionTerm]) url"
    then obtain u v where "url @ [0] = (u @ [0]) @ v" "u \<in> terms_lang as"
      unfolding fires_def terms_lang_append by (auto simp: EOL_lang elim!: concE)
    moreover from this have "v = []"
      using assms(2) by (cases v rule: rev_cases) (auto simp flip: append_assoc)
    ultimately show "url \<in> terms_lang as" by simp
  next
    assume "url \<in> terms_lang as"
    then have "url @ [0] \<in> terms_lang (as @ [new_EndOfLineAssertionTerm])"
      unfolding terms_lang_append by (intro concI) (simp_all add: EOL_lang)
    then show "fires (as @ [new_EndOfLineAssertionTerm]) url" unfolding fires_def by blast
  qed
  then show ?thesis using True by (auto simp: matches_prefix_def eol_term_def)
next
  case False
  have "fires as url \<longleftrightarrow> (\<exists>u v. url = u @ v \<and> u \<in> terms_lang as)"
  proof
    assume "fires as url"
    then obtain u v where u: "url @ [0] = u @ v" "u \<in> terms_lang as" by (auto simp: fires_def)
    have "0 \<notin> set u" using plain_terms_no_zero [OF assms(1)] u(2) by (auto simp: S_any_def)
    then have "v \<noteq> []" using u(1) by (metis append_Nil2 in_set_conv_decomp)
    then obtain v' x where "v = v' @ [x]" by (metis rev_exhaust)
    with u(1) have "url = u @ v'" by (simp flip: append_assoc)
    with u(2) show "\<exists>u v. url = u @ v \<and> u \<in> terms_lang as" by blast
  next
    assume "\<exists>u v. url = u @ v \<and> u \<in> terms_lang as"
    then show "fires as url" unfolding fires_def by (metis append.assoc)
  qed
  then show ?thesis using False by (auto simp: matches_prefix_def eol_term_def)
qed

section \<open>Simplification keeps the matches\<close>

lemma collapse_lang:
  "terms_lang (collapseDotStars False ts) = terms_lang ts"
  "conc S_any (terms_lang (collapseDotStars True ts)) = conc S_any (terms_lang ts)"
proof (induction ts)
  case (Cons t ts)
  { case 1
    show ?case using Cons.IH by (simp add: canonicalDotStar_lang any_lang)
  next
    case 2
    show ?case using Cons.IH by (simp add: any_lang S_any_S_any) }
qed simp_all

lemma collapse_plain: "list_all plain ts \<Longrightarrow> list_all plain (collapseDotStars b ts)"
  by (induction b ts rule: collapseDotStars.induct) (simp_all add: canonicalDotStar_plain)

lemma collapse_graph: "list_all valid_term ts \<Longrightarrow> list_all valid_term (collapseDotStars b ts)"
  by (induction b ts rule: collapseDotStars.induct) (simp_all add: canonicalDotStar_plain)

lemma collapse_eol: "collapseDotStars b (as @ eol_term eol) = collapseDotStars b as @ eol_term eol"
  by (induction b as rule: collapseDotStars.induct) (simp_all add: eol_term_def)

lemma collapse_Nil: "collapseDotStars False ts = [] \<longleftrightarrow> ts = []"
  by (cases ts) simp_all

lemma can_match_empty:
  "plain t \<Longrightarrow> valid_term t \<Longrightarrow> \<not> matchesAtLeastOneCharacter t \<Longrightarrow> [] \<in> term_lang t"
proof (induction t)
  case (CharacterSet q i w)
  then show ?case using plain_not_EOL [OF CharacterSet(1)]
    by (cases q) (auto intro: lstar_Nil split: if_splits)
next
  case (Group q ts)
  have terms: "[] \<in> terms_lang ts" if "\<not> list_ex matchesAtLeastOneCharacter ts"
  proof -
    have "[] \<in> term_lang t" if "t \<in> set ts" for t
      using Group that \<open>\<not> list_ex matchesAtLeastOneCharacter ts\<close>
      by (auto simp: list_all_iff list_ex_iff simp del: matchesAtLeastOneCharacter.simps)
    then show ?thesis
      by (induction ts) (auto simp: conc_def)
  qed
  show ?case
  proof (cases "q = ZeroOrOne \<or> q = ZeroOrMore")
    case True
    then show ?thesis by (auto intro: lstar_Nil)
  next
    case False
    with Group.prems(3) terms have "[] \<in> terms_lang ts" by (simp split: if_splits)
    with False concI [OF lstar_Nil this] show ?thesis by (cases q) simp_all
  qed
qed simp_all


lemma matches_prefix_iff: "matches_prefix eol L url \<longleftrightarrow> (if eol then url \<in> L else url \<in> conc L UNIV)"
  by (auto simp: matches_prefix_def conc_def)

lemma conc_S_any_iff: "0 \<notin> set url \<Longrightarrow> url \<in> conc A S_any \<longleftrightarrow> url \<in> conc A UNIV"
  by (fastforce simp: conc_def S_any_def)

lemma removeTrailing_matches:
  "list_all plain as \<Longrightarrow> list_all valid_term as \<Longrightarrow>
    conc (terms_lang (removeTrailingEmpty as)) UNIV = conc (terms_lang as) UNIV
    \<and> list_all plain (removeTrailingEmpty as) \<and> list_all valid_term (removeTrailingEmpty as)
    \<and> (removeTrailingEmpty as = [] \<or> matchesAtLeastOneCharacter (last (removeTrailingEmpty as)))"
proof (induction as rule: rev_induct)
  case (snoc t as)
  have r: "removeTrailingEmpty (as @ [t]) =
      (if matchesAtLeastOneCharacter t then as @ [t] else removeTrailingEmpty as)"
    by (simp add: removeTrailingEmpty_def del: matchesAtLeastOneCharacter.simps)
  have p: "list_all plain as" "list_all valid_term as" using snoc.prems by simp_all
  show ?case
  proof (cases "matchesAtLeastOneCharacter t")
    case True
    then show ?thesis using snoc.prems unfolding r by (simp del: matchesAtLeastOneCharacter.simps)
  next
    case False
    then have "[] \<in> term_lang t" using can_match_empty [of t] snoc.prems by simp
    then have "conc (term_lang t) UNIV = UNIV" by (auto simp: conc_def)
    then have "conc (terms_lang as) UNIV = conc (terms_lang (as @ [t])) UNIV"
      unfolding terms_lang_append conc_assoc by simp
    then show ?thesis using snoc.IH [OF p] False unfolding r
      by (simp del: matchesAtLeastOneCharacter.simps foldr_append)
  qed
qed (simp add: removeTrailingEmpty_def)

lemma last_append_eol: "eol \<Longrightarrow> last (as @ eol_term eol) = new_EndOfLineAssertionTerm"
  by (simp add: eol_term_def)

text \<open>The second half of the simplification, after the \<open>.*\<close> in front has been decided.\<close>

definition simplifyTail :: "Term list \<Rightarrow> Term list" where
  "simplifyTail ts =
     (let ts = (if length ts > 2 \<and> isEndOfLineAssertion (last ts)
                     \<and> isKnownToMatchAnyString (ts ! (length ts - 2))
                  then take (length ts - 2) ts else ts)
      in if isEndOfLineAssertion (last ts) then ts else removeTrailingEmpty ts)"

lemma simplifyTail_matches:
  assumes "list_all plain as" "list_all valid_term as" "as @ eol_term eol \<noteq> []"
  obtains as' eol' where "simplifyTail (as @ eol_term eol) = as' @ eol_term eol'"
    "list_all plain as'" "list_all valid_term as'" "eol' \<longrightarrow> eol"
    "\<And>url. 0 \<notin> set url \<Longrightarrow> matches_prefix eol' (terms_lang as') url \<longleftrightarrow> matches_prefix eol (terms_lang as) url"
    "eol' \<or> as' = [] \<or> matchesAtLeastOneCharacter (last as')"
proof -
  let ?P = "\<lambda>ts bs e. ts = bs @ eol_term e \<and> list_all plain bs \<and> list_all valid_term bs \<and> ts \<noteq> [] \<and> (e \<longrightarrow> eol)
    \<and> (\<forall>url. 0 \<notin> set url \<longrightarrow> matches_prefix e (terms_lang bs) url = matches_prefix eol (terms_lang as) url)"
  let ?ts = "as @ eol_term eol"
  let ?cut = "length ?ts > 2 \<and> isEndOfLineAssertion (last ?ts) \<and> isKnownToMatchAnyString (?ts ! (length ?ts - 2))"
  obtain ts2 where ts2: "ts2 = (if ?cut then take (length ?ts - 2) ?ts else ?ts)" by blast
  have "\<exists>bs e. ?P ts2 bs e"
  proof (cases ?cut)
    case True
    have eol
    proof (rule ccontr)
      assume "\<not> eol"
      then have "last ?ts \<in> set as" using assms(3) by (simp add: eol_term_def)
      then show False using True assms(1) plain_not_EOL by (auto simp: list_all_iff)
    qed
    then obtain bs t where as: "as = bs @ [t]" "bs \<noteq> []"
      using True by (cases as rule: rev_cases) (auto simp: eol_term_def)
    then have t: "isKnownToMatchAnyString t" using True \<open>eol\<close> by (simp add: eol_term_def nth_append)
    have "ts2 = bs @ eol_term False" using ts2 True t \<open>eol\<close> as by (simp add: eol_term_def)
    moreover have "matches_prefix False (terms_lang bs) url = matches_prefix eol (terms_lang as) url"
      if "0 \<notin> set url" for url
      using \<open>eol\<close> conc_S_any_iff [OF that] any_lang [OF t]
      unfolding as terms_lang_append by (simp add: matches_prefix_iff)
    ultimately have "?P ts2 bs False" using assms as by simp
    then show ?thesis by blast
  next
    case False
    then have "ts2 = ?ts" unfolding ts2 by (rule if_not_P)
    moreover have "?P ?ts as eol" using assms by simp
    ultimately have "?P ts2 as eol" by (simp only: simp_thms)
    then show ?thesis by blast
  qed
  then obtain bs e where b: "?P ts2 bs e" by blast
  then have eq: "ts2 = bs @ eol_term e" and ne: "bs @ eol_term e \<noteq> []" by (metis (no_types, lifting))+
  have tail: "simplifyTail ?ts = (if isEndOfLineAssertion (last ts2) then ts2 else removeTrailingEmpty ts2)"
    by (simp only: simplifyTail_def Let_def ts2)
  show thesis
  proof (cases e)
    case True
    then have "isEndOfLineAssertion (last ts2)" unfolding eq using last_append_eol [of e bs] by simp
    then have "simplifyTail ?ts = bs @ eol_term e" using tail unfolding eq by simp
    with b True that show thesis by blast
  next
    case False
    then have "ts2 = bs" "bs \<noteq> []" using eq ne by (simp_all add: eol_term_def)
    moreover from this have "\<not> isEndOfLineAssertion (last bs)"
      using b plain_not_EOL [of "last bs"] by (simp add: list_all_iff)
    ultimately have t: "simplifyTail ?ts = removeTrailingEmpty bs @ eol_term False"
      using tail by (simp add: eol_term_def)
    have p: "list_all plain bs" "list_all valid_term bs" using b by blast+
    have r: "conc (terms_lang (removeTrailingEmpty bs)) UNIV = conc (terms_lang bs) UNIV"
      "list_all plain (removeTrailingEmpty bs)" "list_all valid_term (removeTrailingEmpty bs)"
      "removeTrailingEmpty bs = [] \<or> matchesAtLeastOneCharacter (last (removeTrailingEmpty bs))"
      using removeTrailing_matches [OF p] by blast+
    have m: "matches_prefix False (terms_lang (removeTrailingEmpty bs)) url = matches_prefix eol (terms_lang as) url"
      if "0 \<notin> set url" for url
      using b that False r(1) by (simp add: matches_prefix_iff)
    show thesis by (rule that [OF t r(2,3) _ m]) (use r(4) in auto)
  qed
qed


text \<open>\<open>matches_url bol eol L url\<close>: some part of the URL is in \<open>L\<close>, anchored as the flags say.\<close>

definition matches_url :: "bool \<Rightarrow> bool \<Rightarrow> lang \<Rightarrow> nat list \<Rightarrow> bool" where
  "matches_url bol eol L url \<longleftrightarrow>
     (\<exists>p m s. url = p @ m @ s \<and> m \<in> L \<and> (bol \<longrightarrow> p = []) \<and> (eol \<longrightarrow> s = []))"

lemma matches_url_iff:
  "matches_url bol eol L url \<longleftrightarrow> (\<exists>p r. url = p @ r \<and> (bol \<longrightarrow> p = []) \<and> matches_prefix eol L r)"
  by (auto simp: matches_url_def matches_prefix_def)

lemma matches_prefix_front:
  assumes "0 \<notin> set url"
  shows "matches_prefix eol (conc S_any L) url \<longleftrightarrow> matches_url False eol L url"
proof -
  have "matches_prefix eol (conc S_any L) url \<longleftrightarrow> (\<exists>p m s. url = p @ m @ s \<and> p \<in> S_any \<and> m \<in> L \<and> (eol \<longrightarrow> s = []))"
  proof
    assume "matches_prefix eol (conc S_any L) url"
    then obtain p m s where "url = (p @ m) @ s" "p \<in> S_any" "m \<in> L" "eol \<longrightarrow> s = []"
      unfolding matches_prefix_def conc_def by blast
    then show "\<exists>p m s. url = p @ m @ s \<and> p \<in> S_any \<and> m \<in> L \<and> (eol \<longrightarrow> s = [])" by (metis append.assoc)
  next
    assume "\<exists>p m s. url = p @ m @ s \<and> p \<in> S_any \<and> m \<in> L \<and> (eol \<longrightarrow> s = [])"
    then obtain p m s where "url = (p @ m) @ s" "p \<in> S_any" "m \<in> L" "eol \<longrightarrow> s = []" by (metis append.assoc)
    then show "matches_prefix eol (conc S_any L) url"
      unfolding matches_prefix_def using concI [of p S_any m L] by blast
  qed
  also have "\<dots> \<longleftrightarrow> matches_url False eol L url"
  proof -
    have "p \<in> S_any" if "url = p @ m @ s" for p m s using assms that by (auto simp: S_any_def)
    then show ?thesis unfolding matches_url_def by blast
  qed
  finally show ?thesis .
qed

lemma simplifyTerms_matches:
  assumes "list_all plain as" "list_all valid_term as" "as @ eol_term eol \<noteq> []"
  obtains as' eol' where "simplifyTerms bol (as @ eol_term eol) = as' @ eol_term eol'"
    "list_all plain as'" "list_all valid_term as'" "eol' \<longrightarrow> eol"
    "\<And>url. 0 \<notin> set url \<Longrightarrow> matches_prefix eol' (terms_lang as') url \<longleftrightarrow> matches_url bol eol (terms_lang as) url"
    "eol' \<or> as' = [] \<or> matchesAtLeastOneCharacter (last as')"
proof -
  let ?c = "collapseDotStars False as"
  let ?add = "\<not> bol \<and> \<not> isKnownToMatchAnyString (hd (?c @ eol_term eol))"
  let ?f = "if ?add then canonicalDotStar # ?c else ?c"
  have ne: "?c @ eol_term eol \<noteq> []" using assms(3) by (auto simp: collapse_Nil)
  have f: "list_all plain ?f" "list_all valid_term ?f" "?f @ eol_term eol \<noteq> []"
    using ne collapse_plain [OF assms(1)] collapse_graph [OF assms(2)] canonicalDotStar_plain by simp_all
  have s: "simplifyTerms bol (as @ eol_term eol) = simplifyTail (?f @ eol_term eol)"
  proof -
    have "(if ?add then canonicalDotStar # (?c @ eol_term eol) else ?c @ eol_term eol) = ?f @ eol_term eol" by simp
    then show ?thesis
      using assms(3) by (simp only: simplifyTerms_def simplifyTail_def collapse_eol Let_def if_False)
  qed
  have lang: "terms_lang ?f = (if bol then terms_lang as else conc S_any (terms_lang as))"
  proof (cases "\<not> bol \<and> isKnownToMatchAnyString (hd (?c @ eol_term eol))")
    case True
    then obtain t ts where "?c = t # ts" "isKnownToMatchAnyString t"
      using ne by (cases ?c) (auto simp: eol_term_def split: if_splits)
    then have "conc S_any (terms_lang ?c) = terms_lang ?c" by (simp add: any_lang S_any_S_any)
    then show ?thesis using True by (simp add: collapse_lang)
  next
    case False
    then show ?thesis by (auto simp: collapse_lang canonicalDotStar_lang)
  qed
  have m: "matches_prefix eol (terms_lang ?f) url \<longleftrightarrow> matches_url bol eol (terms_lang as) url"
    if "0 \<notin> set url" for url
    unfolding lang using matches_prefix_front [OF that] by (simp add: matches_url_iff)
  show thesis
    by (rule simplifyTail_matches [OF f], rule that) (use s m in auto)
qed

end
