(* ===== verification/PatternRegex.thy ===== *)
theory PatternRegex
  imports PatternLanguage
begin

text \<open>
  The regular expressions that URL filters support, the calls that Yarr makes for them, their
  language, and the proof that the pattern parser turns those calls into terms with the same
  matches.
\<close>

section \<open>Regular expressions\<close>

datatype ClassItem = ItemAtom u16 | ItemRange u16 u16

datatype Regex = RChar u16 | RDot | RClass bool "ClassItem list" | RGroup "Regex list"
  | RQuant Regex AtomQuantifier

fun is_quantified :: "Regex \<Rightarrow> bool" where
  "is_quantified (RQuant r q) \<longleftrightarrow> True"
| "is_quantified r \<longleftrightarrow> False"

fun item_ok :: "ClassItem \<Rightarrow> bool" where
  "item_ok (ItemAtom c) \<longleftrightarrow> isASCII c \<and> c \<noteq> 0"
| "item_ok (ItemRange a b) \<longleftrightarrow> isASCII a \<and> a \<noteq> 0 \<and> isASCII b \<and> b \<noteq> 0"

fun regex_ok :: "Regex \<Rightarrow> bool" where
  "regex_ok (RChar c) \<longleftrightarrow> isASCII c \<and> c \<noteq> 0"
| "regex_ok RDot \<longleftrightarrow> True"
| "regex_ok (RClass inverted items) \<longleftrightarrow> list_all item_ok items"
| "regex_ok (RGroup rs) \<longleftrightarrow> rs \<noteq> [] \<and> list_all regex_ok rs"
| "regex_ok (RQuant r q) \<longleftrightarrow> regex_ok r \<and> \<not> is_quantified r \<and> q \<noteq> One"

fun item_call :: "ClassItem \<Rightarrow> YarrCall" where
  "item_call (ItemAtom c) = CallCharacterClassAtom c"
| "item_call (ItemRange a b) = CallCharacterClassRange a b"

fun quantifier_call :: "yarr \<Rightarrow> AtomQuantifier \<Rightarrow> YarrCall" where
  "quantifier_call Y One = CallQuantifyAtom 1 1 True"
| "quantifier_call Y ZeroOrOne = CallQuantifyAtom 0 1 True"
| "quantifier_call Y ZeroOrMore = CallQuantifyAtom 0 (quantifyInfinite Y) True"
| "quantifier_call Y OneOrMore = CallQuantifyAtom 1 (quantifyInfinite Y) True"

fun regex_calls :: "yarr \<Rightarrow> Regex \<Rightarrow> YarrCall list" where
  "regex_calls Y (RChar c) = [CallPatternCharacter c]"
| "regex_calls Y RDot = [CallBuiltInCharacterClass (NewlineClassID Y) True]"
| "regex_calls Y (RClass inverted items) =
     CallCharacterClassBegin inverted # map item_call items @ [CallCharacterClassEnd]"
| "regex_calls Y (RGroup rs) =
     CallParenthesesSubpatternBegin True # concat (map (regex_calls Y) rs) @ [CallParenthesesEnd]"
| "regex_calls Y (RQuant r q) = regex_calls Y r @ [quantifier_call Y q]"

definition pattern_calls :: "yarr \<Rightarrow> bool \<Rightarrow> Regex list \<Rightarrow> bool \<Rightarrow> YarrCall list" where
  "pattern_calls Y bol rs eol = (if bol then [CallAssertionBOL] else [])
     @ concat (map (regex_calls Y) rs) @ (if eol then [CallAssertionEOL] else [])"

text \<open>The language, over the ASCII characters that a URL can contain.\<close>

definition same_char :: "bool \<Rightarrow> u16 \<Rightarrow> nat \<Rightarrow> bool" where
  "same_char cs c d \<longleftrightarrow> d = unat c
     \<or> (\<not> cs \<and> isASCIIAlpha c \<and> (d = unat (toASCIILower c) \<or> d = unat (toASCIIUpper c)))"

fun item_matches :: "bool \<Rightarrow> ClassItem \<Rightarrow> nat \<Rightarrow> bool" where
  "item_matches cs (ItemAtom c) d \<longleftrightarrow> same_char cs c d"
| "item_matches cs (ItemRange a b) d \<longleftrightarrow> (\<exists>c \<in> {unat a..unat b}. same_char cs (of_nat c) d)"

fun regex_lang :: "bool \<Rightarrow> Regex \<Rightarrow> lang" where
  "regex_lang cs (RChar c) = {[d] | d. same_char cs c d}"
| "regex_lang cs RDot = {[d] | d. 1 \<le> d \<and> d < 128}"
| "regex_lang cs (RClass inverted items) =
     {[d] | d. 1 \<le> d \<and> d < 128 \<and> (\<exists>i \<in> set items. item_matches cs i d) \<noteq> inverted}"
| "regex_lang cs (RGroup rs) = foldr (\<lambda>r L. conc (regex_lang cs r) L) rs {[]}"
| "regex_lang cs (RQuant r q) = quant_lang q (regex_lang cs r)"

abbreviation regexes_lang :: "bool \<Rightarrow> Regex list \<Rightarrow> lang" where
  "regexes_lang cs rs \<equiv> foldr (\<lambda>r L. conc (regex_lang cs r) L) rs {[]}"

section \<open>The term of a regular expression\<close>

fun add_item :: "bool \<Rightarrow> ClassItem \<Rightarrow> Term \<Rightarrow> Term" where
  "add_item cs (ItemAtom c) t = addCharacter t c cs"
| "add_item cs (ItemRange a b) t =
     fold (\<lambda>i t. addCharacter t (of_nat i) cs) [unat a..<Suc (unat b)] t"

fun regex_term :: "bool \<Rightarrow> Regex \<Rightarrow> Term" where
  "regex_term cs (RChar c) = new_CharacterTerm (ucast c) cs"
| "regex_term cs RDot = new_UniversalTransition"
| "regex_term cs (RClass inverted items) = fold (add_item cs) items (new_CharacterSetTerm inverted)"
| "regex_term cs (RGroup rs) = Group One (map (regex_term cs) rs)"
| "regex_term cs (RQuant r q) = quantify (regex_term cs r) q"

text \<open>The bits of a character set.\<close>

lemma add_range_bits:
  assumes "\<forall>c \<in> set ns. c < 128"
  shows "\<exists>w'. fold (\<lambda>i t. addCharacter t (of_nat i) cs) ns (CharacterSet q i w) = CharacterSet q i w' \<and>
    (\<forall>k. bit w' k \<longleftrightarrow> bit w k \<or> (\<exists>c \<in> set ns. same_char cs (of_nat c) k))"
  using assms
proof (induction ns arbitrary: w)
  case (Cons n ns)
  have "isASCII (of_nat n :: u16)" using Cons.prems by (simp add: isASCII_unat unat_of_nat)
  from addCharacter_bits [OF this, of q i w cs] obtain w1 where
    w1: "addCharacter (CharacterSet q i w) (of_nat n) cs = CharacterSet q i w1"
      "\<And>k. bit w1 k \<longleftrightarrow> bit w k \<or> same_char cs (of_nat n) k"
    unfolding same_char_def by blast
  with Cons.IH [of w1] Cons.prems show ?case by auto
qed auto

lemma add_item_bits:
  assumes "item_ok item"
  shows "\<exists>w'. add_item cs item (CharacterSet q i w) = CharacterSet q i w' \<and>
    (\<forall>k. bit w' k \<longleftrightarrow> bit w k \<or> item_matches cs item k)"
proof (cases item)
  case (ItemAtom c)
  with assms addCharacter_bits [of c q i w cs] show ?thesis by (auto simp: same_char_def)
next
  case (ItemRange a b)
  then have "\<forall>c \<in> set [unat a..<Suc (unat b)]. c < 128" using assms by (auto simp: isASCII_unat)
  from add_range_bits [OF this, of cs q i w] show ?thesis
    by (simp only: ItemRange add_item.simps item_matches.simps set_upt atLeastLessThanSuc_atLeastAtMost)
qed

lemma add_items_bits:
  assumes "list_all item_ok items"
  shows "\<exists>w'. fold (add_item cs) items (CharacterSet q i w) = CharacterSet q i w' \<and>
    (\<forall>k. bit w' k \<longleftrightarrow> bit w k \<or> (\<exists>item \<in> set items. item_matches cs item k))"
  using assms
proof (induction items arbitrary: w)
  case (Cons item items)
  from add_item_bits [of item cs q i w] Cons.prems obtain w1 where
    w1: "add_item cs item (CharacterSet q i w) = CharacterSet q i w1"
      "\<And>k. bit w1 k \<longleftrightarrow> bit w k \<or> item_matches cs item k" by auto
  with Cons.IH [of w1] Cons.prems show ?case by auto
qed auto

lemma alpha_not_control: "isASCII (c :: u16) \<Longrightarrow> isASCIIAlpha c \<longrightarrow> 64 < unat (toASCIIUpper c)"
  by (rule u16_ascii_cases) code_simp

lemma same_char_bounds:
  assumes "isASCII c" "c \<noteq> 0" "same_char cs c d"
  shows "1 \<le> d \<and> d < 128"
proof -
  have "0 < unat c" "unat c < 128" using assms(1,2) by (simp_all add: isASCII_unat unat_gt_0)
  then show ?thesis
    using assms(3) ascii_case_conversions [OF assms(1)] alpha_not_control [OF assms(1)]
    unfolding same_char_def by auto
qed

lemma item_matches_bounds:
  assumes "item_ok item" "item_matches cs item d"
  shows "1 \<le> d \<and> d < 128"
proof (cases item)
  case (ItemAtom c)
  then show ?thesis using assms same_char_bounds [of c cs d] by simp
next
  case (ItemRange a b)
  then obtain c where c: "unat a \<le> c" "c \<le> unat b" "same_char cs (of_nat c) d" using assms by auto
  have "a \<noteq> 0" "unat b < 128" using assms(1) ItemRange by (auto simp: isASCII_unat)
  then have "0 < c" "c < 128" using c(1,2) by (auto simp: unat_gt_0 [symmetric] intro: less_le_trans)
  then have "isASCII (of_nat c :: u16)" "(of_nat c :: u16) \<noteq> 0"
    by (simp_all add: isASCII_unat unat_of_nat unat_eq_zero [symmetric])
  then show ?thesis using c(3) same_char_bounds by blast
qed

lemma new_CharacterTerm_bits:
  assumes "isASCII c"
  shows "\<exists>w. new_CharacterTerm (ucast c) cs = CharacterSet One False w \<and> (\<forall>k. bit w k \<longleftrightarrow> same_char cs c k)"
proof -
  have "scast (ucast c :: u8) = c"
  proof (rule word_unat_eq_iff [THEN iffD2])
    have c: "unat c < 128" using assms by (simp add: isASCII_unat)
    then have "unat (ucast c :: u8) = unat c" by (simp add: unsigned_ucast_eq take_bit_nat_eq_self)
    then have "sint (ucast c :: u8) = int (unat c)"
      using c by (simp add: sint_uint signed_take_bit_int_eq_self uint_nat del: of_nat_unat)
    then have "(scast (ucast c :: u8) :: u16) = of_int (int (unat c))"
      by (simp only: scast_eq)
    then show "unat (scast (ucast c :: u8) :: u16) = unat c" by simp
  qed
  then show ?thesis
    using addCharacter_bits [OF assms, of One False 0 cs] by (auto simp: new_CharacterTerm_def same_char_def)
qed

lemma regex_term_plain:
  "regex_ok r \<Longrightarrow> plain (regex_term cs r) \<and> valid_term (regex_term cs r) \<and> solid (regex_term cs r)
     \<and> isValid (regex_term cs r) \<and> (\<not> is_quantified r \<longrightarrow> m_quantifier (regex_term cs r) = One)"
proof (induction r)
  case (RChar c)
  then obtain w where "new_CharacterTerm (ucast c) cs = CharacterSet One False w" "\<And>k. bit w k \<longleftrightarrow> same_char cs c k"
    using new_CharacterTerm_bits [of c cs] by auto
  then show ?case using same_char_bounds [of c cs 0] RChar by auto
next
  case RDot
  then show ?case using universal_plain [of new_UniversalTransition]
    by (auto simp: new_UniversalTransition_def bitCount_full bit_fold_bv_set simp del: upt_rec_numeral)
next
  case (RClass inverted items)
  then obtain w where "fold (add_item cs) items (new_CharacterSetTerm inverted) = CharacterSet One inverted w"
    "\<And>k. bit w k \<longleftrightarrow> (\<exists>item \<in> set items. item_matches cs item k)"
    using add_items_bits [of items cs One inverted 0] by (auto simp: new_CharacterSetTerm_def)
  then show ?case using item_matches_bounds [of _ cs 0] RClass by (auto simp: list_all_iff)
next
  case (RGroup rs)
  then show ?case by (auto simp: list_all_iff)
next
  case (RQuant r q)
  then show ?case by (cases "regex_term cs r") auto
qed

section \<open>The language of the term\<close>

definition ascii :: "lang \<Rightarrow> lang" where
  "ascii L = {w \<in> L. \<forall>c \<in> set w. c < 128}"

lemma ascii_conc: "ascii (conc A B) = conc (ascii A) (ascii B)"
  by (fastforce simp: ascii_def conc_def)

lemma ascii_lstar: "ascii (lstar A) = lstar (ascii A)"
proof -
  have "\<forall>c \<in> set w. c < 128 \<Longrightarrow> w \<in> lstar (ascii A)" if "w \<in> lstar A" for w
    using that
  proof induction
    case (lstar_snoc u v)
    then have "u \<in> lstar (ascii A)" "v \<in> ascii A" by (auto simp: ascii_def)
    then show ?case by (rule lstar.lstar_snoc)
  qed (rule lstar.lstar_Nil)
  moreover have "w \<in> ascii (lstar A)" if "w \<in> lstar (ascii A)" for w
    using that
  proof induction
    case (lstar_snoc u v)
    then have "u \<in> lstar A" "v \<in> A" "\<forall>c \<in> set (u @ v). c < 128" by (auto simp: ascii_def)
    then show ?case by (simp add: ascii_def lstar.lstar_snoc)
  qed (simp add: ascii_def lstar.lstar_Nil)
  ultimately show ?thesis unfolding ascii_def by blast
qed

lemma ascii_chars: "ascii {[d] | d. P d} = {[d] | d. P d \<and> d < 128}"
  by (auto simp: ascii_def)

lemma ascii_quant: "ascii (quant_lang q A) = quant_lang q (ascii A)"
  by (cases q) (simp_all add: ascii_conc ascii_lstar, auto simp: ascii_def)

lemma ascii_terms:
  "(\<And>r. r \<in> set rs \<Longrightarrow> ascii (term_lang (f r)) = g r) \<Longrightarrow>
     ascii (terms_lang (map f rs)) = foldr (\<lambda>r L. conc (g r) L) rs {[]}"
  by (induction rs) (simp_all add: ascii_conc, auto simp: ascii_def)

lemma charset_ascii:
  assumes "\<not> bit w 0" "d < 128"
  shows "charset_matches i w d \<longleftrightarrow> 1 \<le> d \<and> bit w d \<noteq> i"
proof -
  have u: "isUniversalTransition (CharacterSet One i w) \<longleftrightarrow> i \<and> (\<forall>c. \<not> bit w c)"
    using assms(1) by (auto simp: bitCount_zero bitCount_full)
  have "d = 0 \<or> 1 \<le> d" by arith
  then show ?thesis unfolding charset_matches_def u using assms by (cases i) auto
qed

lemma ascii_charset:
  assumes "\<not> bit w 0"
  shows "ascii {[d] | d. charset_matches i w d} = {[d] | d. 1 \<le> d \<and> d < 128 \<and> bit w d \<noteq> i}"
proof -
  have "charset_matches i w d \<and> d < 128 \<longleftrightarrow> 1 \<le> d \<and> d < 128 \<and> bit w d \<noteq> i" for d
    using charset_ascii [OF assms, of d i] by blast
  then show ?thesis by (simp only: ascii_chars)
qed

lemma regex_term_lang: "regex_ok r \<Longrightarrow> ascii (term_lang (regex_term cs r)) = regex_lang cs r"
proof (induction r)
  case (RChar c)
  then obtain w where w: "new_CharacterTerm (ucast c) cs = CharacterSet One False w" "\<And>k. bit w k \<longleftrightarrow> same_char cs c k"
    using new_CharacterTerm_bits [of c cs] by auto
  have "\<not> bit w 0" using w(2) same_char_bounds [of c cs 0] RChar by auto
  note a = ascii_charset [OF this, of False]
  have "1 \<le> d \<and> d < 128 \<and> bit w d \<noteq> False \<longleftrightarrow> same_char cs c d" for d
    using w(2) same_char_bounds [of c cs d] RChar by auto
  then show ?case using a by (simp add: w(1))
next
  case RDot
  obtain w where w: "new_UniversalTransition = CharacterSet One False w"
    by (rule that [OF new_UniversalTransition_def])
  have "isUniversalTransition new_UniversalTransition"
    by (auto simp: new_UniversalTransition_def bitCount_full bit_fold_bv_set simp del: upt_rec_numeral)
  then have u: "charset_matches False w d \<longleftrightarrow> d \<noteq> 0" for d unfolding w by (rule universal_matches)
  have "d \<noteq> 0 \<longleftrightarrow> 1 \<le> d" for d :: nat by arith
  then have "charset_matches False w d \<and> d < 128 \<longleftrightarrow> 1 \<le> d \<and> d < 128" for d by (simp only: u)
  then show ?case
    by (simp only: w regex_term.simps term_lang.simps quant_lang.simps ascii_chars regex_lang.simps)
next
  case (RClass inverted items)
  then obtain w where w: "fold (add_item cs) items (new_CharacterSetTerm inverted) = CharacterSet One inverted w"
    "\<And>k. bit w k \<longleftrightarrow> (\<exists>item \<in> set items. item_matches cs item k)"
    using add_items_bits [of items cs One inverted 0] by (auto simp: new_CharacterSetTerm_def)
  have "\<not> bit w 0" using w(2) item_matches_bounds [of _ cs 0] RClass by (auto simp: list_all_iff)
  from ascii_charset [OF this, of inverted] show ?case using w by simp
next
  case (RGroup rs)
  have "ascii (terms_lang (map (regex_term cs) rs)) = regexes_lang cs rs"
    by (rule ascii_terms) (use RGroup in \<open>auto simp: list_all_iff\<close>)
  then show ?case by simp
next
  case (RQuant r q)
  have v: "valid_term (regex_term cs r)" "m_quantifier (regex_term cs r) = One"
    using RQuant.prems regex_term_plain [of r cs] by auto
  then have "term_lang (quantify (regex_term cs r) q) = quant_lang q (term_lang (regex_term cs r))"
    by (cases "regex_term cs r") auto
  then show ?case using RQuant by (simp add: ascii_quant)
qed


section \<open>The parser builds that term\<close>

text \<open>A parser with no error, no end of line assertion, and only groups without quantifier open.\<close>

definition clean :: "PatternParser \<Rightarrow> bool" where
  "clean p \<longleftrightarrow> m_parseStatus p = Ok \<and> \<not> m_hasProcessedEndOfLineAssertion p
     \<and> (m_floatingTerm p = new_Term \<or> valid_term (m_floatingTerm p) \<and> \<not> isEndOfLineAssertion (m_floatingTerm p))
     \<and> list_all fresh_group (m_openGroups p)"

definition push :: "Term \<Rightarrow> PatternParser \<Rightarrow> PatternParser" where
  "push t p = (if m_openGroups p = [] then p\<lparr>m_sunkTerms := m_sunkTerms p @ [t]\<rparr>
     else p\<lparr>m_openGroups := butlast (m_openGroups p) @ [extendGroupSubpattern (last (m_openGroups p)) t]\<rparr>)"

lemma valid_isValid: "valid_term t \<Longrightarrow> isValid t"
  by (cases t) simp_all

lemma sink_clean:
  assumes "clean p"
  shows "sinkFloatingTermIfNecessary p = (if isValid (m_floatingTerm p)
      then push (m_floatingTerm p) (p\<lparr>m_floatingTerm := new_Term\<rparr>) else p)"
  using assms by (auto simp: clean_def sinkFloatingTermIfNecessary_def push_def Let_def)

lemma push_fields [simp]:
  "m_floatingTerm (push t p) = m_floatingTerm p" "m_parseStatus (push t p) = m_parseStatus p"
  "m_patternIsCaseSensitive (push t p) = m_patternIsCaseSensitive p"
  "m_hasProcessedEndOfLineAssertion (push t p) = m_hasProcessedEndOfLineAssertion p"
  "m_hasBeginningOfLineAssertion (push t p) = m_hasBeginningOfLineAssertion p"
  by (simp_all add: push_def)

lemma push_fresh: "list_all fresh_group (m_openGroups p) \<Longrightarrow> valid_term t \<Longrightarrow> list_all fresh_group (m_openGroups (push t p))"
  using list_all_butlast_last [of fresh_group "m_openGroups p"] by (simp add: push_def fresh_group_extend)

lemma sink_clean_fields:
  assumes "clean p"
  shows "m_floatingTerm (sinkFloatingTermIfNecessary p) = new_Term"
    and "m_parseStatus (sinkFloatingTermIfNecessary p) = Ok"
    and "m_patternIsCaseSensitive (sinkFloatingTermIfNecessary p) = m_patternIsCaseSensitive p"
    and "\<not> m_hasProcessedEndOfLineAssertion (sinkFloatingTermIfNecessary p)"
    and "m_hasBeginningOfLineAssertion (sinkFloatingTermIfNecessary p) = m_hasBeginningOfLineAssertion p"
    and "list_all fresh_group (m_openGroups (sinkFloatingTermIfNecessary p))"
  using assms push_fresh [of "p\<lparr>m_floatingTerm := new_Term\<rparr>" "m_floatingTerm p"]
  by (auto simp: sink_clean clean_def dest: valid_isValid)

text \<open>The state after an atom: what was floating is sunk, the atom floats.\<close>

definition float :: "PatternParser \<Rightarrow> Term \<Rightarrow> PatternParser" where
  "float p t = (sinkFloatingTermIfNecessary p)\<lparr>m_floatingTerm := t\<rparr>"

lemma clean_float: "clean p \<Longrightarrow> valid_term t \<Longrightarrow> plain t \<Longrightarrow> clean (float p t)"
  using sink_clean_fields [of p] plain_not_EOL by (simp add: clean_def float_def)

lemma sink_float:
  assumes "clean p" "valid_term t" "plain t"
  shows "sinkFloatingTermIfNecessary (float p t) = push t (sinkFloatingTermIfNecessary p)"
proof -
  have "(sinkFloatingTermIfNecessary p)\<lparr>m_floatingTerm := new_Term\<rparr> = sinkFloatingTermIfNecessary p"
    using sink_clean_fields(1) [OF assms(1)] by (simp add: PatternParser.equality)
  then show ?thesis
    using sink_clean [OF clean_float [OF assms]] valid_isValid [OF assms(2)] by (simp add: float_def)
qed

lemma clean_no_error: "clean p \<Longrightarrow> \<not> hasError p"
  by (simp add: clean_def hasError_def)

text \<open>The members of a class.\<close>

lemma run_items:
  assumes "list_all item_ok items" "\<not> hasError p" "isCharacterSet (m_floatingTerm p)"
  shows "foldM (delegateCall Y) (map item_call items) p =
    Some (p\<lparr>m_floatingTerm := fold (add_item (m_patternIsCaseSensitive p)) items (m_floatingTerm p)\<rparr>)"
  using assms
proof (induction items arbitrary: p)
  case (Cons item items)
  let ?t = "add_item (m_patternIsCaseSensitive p) item (m_floatingTerm p)"
  have "delegateCall Y (item_call item) p = Some (p\<lparr>m_floatingTerm := ?t\<rparr>)"
    using Cons.prems
    by (cases item) (simp_all add: atomCharacterClassAtom_def atomCharacterClassRange_def)
  moreover have "isCharacterSet ?t" "\<not> hasError (p\<lparr>m_floatingTerm := ?t\<rparr>)"
    using Cons.prems by (cases item; simp add: addCharacters_set hasError_def)+
  ultimately show ?case using Cons.IH [of "p\<lparr>m_floatingTerm := ?t\<rparr>"] Cons.prems(1) by simp
qed simp

text \<open>A sequence of atoms, from what holds for each.\<close>

lemma run_list:
  assumes "\<And>r p. r \<in> set rs \<Longrightarrow> clean p \<Longrightarrow> m_patternIsCaseSensitive p = cs \<Longrightarrow>
      foldM (delegateCall Y) (regex_calls Y r) p = Some (float p (regex_term cs r))"
    and "list_all regex_ok rs" "clean p" "m_patternIsCaseSensitive p = cs"
  shows "\<exists>p'. foldM (delegateCall Y) (concat (map (regex_calls Y) rs)) p = Some p' \<and> clean p'
    \<and> sinkFloatingTermIfNecessary p' = fold push (map (regex_term cs) rs) (sinkFloatingTermIfNecessary p)"
  using assms
proof (induction rs arbitrary: p)
  case (Cons r rs)
  let ?p = "float p (regex_term cs r)"
  have t: "valid_term (regex_term cs r)" "plain (regex_term cs r)"
    using regex_term_plain [of r cs] Cons.prems(2) by auto
  have r: "foldM (delegateCall Y) (regex_calls Y r) p = Some ?p"
    by (rule Cons.prems(1) [OF _ Cons.prems(3,4)]) simp
  have p: "clean ?p" "m_patternIsCaseSensitive ?p = cs"
    using clean_float [OF Cons.prems(3) t] sink_clean_fields(3) [OF Cons.prems(3)] Cons.prems(4)
    by (simp_all add: float_def)
  have "\<exists>p'. foldM (delegateCall Y) (concat (map (regex_calls Y) rs)) ?p = Some p' \<and> clean p'
    \<and> sinkFloatingTermIfNecessary p' = fold push (map (regex_term cs) rs) (sinkFloatingTermIfNecessary ?p)"
    by (rule Cons.IH [OF Cons.prems(1) _ p]) (use Cons.prems(2) in simp_all)
  then show ?case using r sink_float [OF Cons.prems(3) t] by (simp add: foldM_append)
qed auto

lemma push_group:
  "fold push ts (p\<lparr>m_openGroups := gs @ [Group One us]\<rparr>) = p\<lparr>m_openGroups := gs @ [Group One (us @ ts)]\<rparr>"
  by (induction ts arbitrary: us) (simp_all add: push_def)

lemma run_regex:
  assumes "quantifyInfinite Y \<noteq> 1"
  shows "regex_ok r \<Longrightarrow> clean p \<Longrightarrow> m_patternIsCaseSensitive p = cs \<Longrightarrow>
     foldM (delegateCall Y) (regex_calls Y r) p = Some (float p (regex_term cs r))"
proof (induction r arbitrary: p)
  case (RChar c)
  then show ?case using clean_no_error [OF RChar(2)] sink_clean_fields(3) [OF RChar(2)]
    by (simp add: atomPatternCharacter_def float_def Let_def)
next
  case RDot
  then show ?case using clean_no_error [OF RDot(2)]
    by (simp add: atomBuiltInCharacterClass_def float_def Let_def)
next
  case (RClass inverted items)
  let ?p = "float p (new_CharacterSetTerm inverted)"
  have "\<not> hasError ?p" "m_patternIsCaseSensitive ?p = cs"
    using sink_clean_fields [OF RClass(2)] RClass(3) by (simp_all add: float_def hasError_def)
  with run_items [of items ?p Y] RClass clean_no_error [OF RClass(2)] show ?case
    by (simp add: foldM_append atomCharacterClassBegin_def float_def)
next
  case (RGroup rs)
  let ?s = "sinkFloatingTermIfNecessary p"
  let ?p1 = "?s\<lparr>m_openGroups := m_openGroups ?s @ [Group One []]\<rparr>"
  have p1: "clean ?p1" "m_patternIsCaseSensitive ?p1 = cs"
    using sink_clean_fields [OF RGroup.prems(2)] RGroup.prems(3) by (simp_all add: clean_def)
  have s1: "sinkFloatingTermIfNecessary ?p1 = ?p1"
    using sink_clean [OF p1(1)] sink_clean_fields(1) [OF RGroup.prems(2)] by simp
  obtain p2 where p2: "foldM (delegateCall Y) (concat (map (regex_calls Y) rs)) ?p1 = Some p2" "clean p2"
    "sinkFloatingTermIfNecessary p2 = fold push (map (regex_term cs) rs) ?p1"
    using run_list [of rs cs Y ?p1] RGroup p1 s1 by (auto simp: list_all_iff)
  have "atomParenthesesEnd p2 = Some (float p (Group One (map (regex_term cs) rs)))"
    using clean_no_error [OF p2(2)] p2(3)
    by (simp add: atomParenthesesEnd_def Let_def push_group float_def)
  then show ?case
    using p2(1) clean_no_error [OF RGroup.prems(2)]
    by (simp add: foldM_append atomParenthesesSubpatternBegin_def new_GroupTerm_def Let_def)
next
  case (RQuant r q)
  have t: "valid_term (regex_term cs r)" "m_quantifier (regex_term cs r) = One" "plain (regex_term cs r)"
    using regex_term_plain [of r cs] RQuant.prems by auto
  have "\<not> hasError (float p (regex_term cs r))"
    using clean_no_error [OF clean_float [OF RQuant.prems(2) t(1,3)]] .
  then have "delegateCall Y (quantifier_call Y q) (float p (regex_term cs r))
      = Some (float p (quantify (regex_term cs r) q))"
    using t valid_isValid [OF t(1)] RQuant.prems(1) assms
    by (cases q) (simp_all add: quantifyAtom_def float_def)
  then show ?case using RQuant by (simp add: foldM_append)
qed


section \<open>Adding a pattern\<close>

lemma set_collapse: "set (collapseDotStars b ts) \<subseteq> insert canonicalDotStar (set ts)"
  by (induction b ts rule: collapseDotStars.induct) auto

lemma set_removeTrailingEmpty: "set (removeTrailingEmpty ts) \<subseteq> set ts"
  unfolding removeTrailingEmpty_def by (auto dest: set_dropWhileD)

lemma set_simplifyTerms: "set (simplifyTerms bol ts) \<subseteq> insert canonicalDotStar (set ts)"
proof -
  have "set (take n us) \<subseteq> set us" for n and us :: "Term list" by (rule set_take_subset)
  then show ?thesis
    using set_collapse [of False ts] set_removeTrailingEmpty
    unfolding simplifyTerms_def Let_def by (fastforce split: if_splits)
qed

lemma canonicalDotStar_solid: "solid canonicalDotStar"
  by (simp add: canonicalDotStar_def new_UniversalTransition_def del: upt_rec_numeral)

lemma push_top: "m_openGroups p = [] \<Longrightarrow> fold push ts p = p\<lparr>m_sunkTerms := m_sunkTerms p @ ts\<rparr>"
  by (induction ts arbitrary: p) (simp_all add: push_def)

text \<open>The parser after all the calls for a pattern, and after the last term has been sunk.\<close>

lemma run_pattern:
  assumes "quantifyInfinite Y \<noteq> 1" "list_all regex_ok rs"
  obtains p where "foldM (delegateCall Y) (pattern_calls Y bol rs eol) (new_PatternParser cs) = Some p"
    "\<not> hasError p" "m_parseStatus (sinkFloatingTermIfNecessary p) = Ok"
    "m_hasBeginningOfLineAssertion (sinkFloatingTermIfNecessary p) = bol"
    "m_sunkTerms (sinkFloatingTermIfNecessary p) = map (regex_term cs) rs @ eol_term eol"
proof -
  let ?ts = "map (regex_term cs) rs"
  let ?p1 = "(new_PatternParser cs)\<lparr>m_hasBeginningOfLineAssertion := bol\<rparr>"
  have p1: "clean ?p1" "m_patternIsCaseSensitive ?p1 = cs"
    by (simp_all add: clean_def new_PatternParser_def)
  have bol: "foldM (delegateCall Y) (if bol then [CallAssertionBOL] else []) (new_PatternParser cs) = Some ?p1"
    by (simp add: assertionBOL_def new_PatternParser_def hasError_def)
  have "\<exists>p2. foldM (delegateCall Y) (concat (map (regex_calls Y) rs)) ?p1 = Some p2 \<and> clean p2
    \<and> sinkFloatingTermIfNecessary p2 = fold push ?ts (sinkFloatingTermIfNecessary ?p1)"
    by (rule run_list [OF _ assms(2) p1]) (use run_regex [OF assms(1)] assms(2) in \<open>auto simp: list_all_iff\<close>)
  then obtain p2 where p2: "foldM (delegateCall Y) (concat (map (regex_calls Y) rs)) ?p1 = Some p2" "clean p2"
    "sinkFloatingTermIfNecessary p2 = fold push ?ts (sinkFloatingTermIfNecessary ?p1)" by blast
  have s1: "sinkFloatingTermIfNecessary ?p1 = ?p1"
    by (simp add: sinkFloatingTermIfNecessary_def new_PatternParser_def)
  have s2: "sinkFloatingTermIfNecessary p2 = ?p1\<lparr>m_sunkTerms := ?ts\<rparr>"
    unfolding p2(3) s1 by (subst push_top) (simp_all add: new_PatternParser_def)
  show thesis
  proof (cases eol)
    case False
    show thesis
      by (rule that [of p2])
        (use bol p2(1) clean_no_error [OF p2(2)] s2 False in
          \<open>simp_all add: pattern_calls_def foldM_append eol_term_def new_PatternParser_def\<close>)
  next
    case True
    let ?p3 = "(?p1\<lparr>m_sunkTerms := ?ts\<rparr>)\<lparr>m_floatingTerm := new_EndOfLineAssertionTerm\<rparr>"
    have s3: "sinkFloatingTermIfNecessary ?p3 =
        ?p1\<lparr>m_sunkTerms := ?ts @ [new_EndOfLineAssertionTerm], m_hasProcessedEndOfLineAssertion := True\<rparr>"
      by (simp add: sinkFloatingTermIfNecessary_def new_PatternParser_def)
    show thesis
      by (rule that [of ?p3])
        (use bol p2(1) clean_no_error [OF p2(2)] s2 s3 True in
          \<open>simp_all add: pattern_calls_def foldM_append eol_term_def assertionEOL_def\<close>,
         simp_all add: new_PatternParser_def hasError_def)
  qed
qed

lemma matches_url_ascii:
  assumes "set url \<subseteq> {1..<128}" "ascii L = L'"
  shows "matches_url bol eol L url \<longleftrightarrow> matches_url bol eol L' url"
proof -
  have "m \<in> L \<longleftrightarrow> m \<in> L'" if "url = p @ m @ s" for p m s
    using assms that by (auto simp: ascii_def)
  then show ?thesis unfolding matches_url_def by blast
qed

lemma addPattern_regex:
  assumes "quantifyInfinite Y \<noteq> 1" "list_all regex_ok rs" "containsOnlyASCII pattern" "pattern \<noteq> []"
    and "yarr_parse Y pattern = (pattern_calls Y bol rs eol, False)"
  shows "(\<exists>ts. URLFilterParser_addPattern Y pattern cs patternId filters = Some (Ok, addPattern patternId ts filters)
        \<and> legal_pattern ts
        \<and> (\<forall>url. set url \<subseteq> {1..<128} \<longrightarrow> fires ts url = matches_url bol eol (regexes_lang cs rs) url))
    \<or> (URLFilterParser_addPattern Y pattern cs patternId filters = Some (MatchesEverything, filters)
        \<and> (eol \<or> (\<forall>url. set url \<subseteq> {1..<128} \<longrightarrow> matches_url bol eol (regexes_lang cs rs) url)))"
proof -
  let ?as = "map (regex_term cs) rs"
  obtain p where p: "foldM (delegateCall Y) (pattern_calls Y bol rs eol) (new_PatternParser cs) = Some p"
    "\<not> hasError p" "m_parseStatus (sinkFloatingTermIfNecessary p) = Ok"
    "m_hasBeginningOfLineAssertion (sinkFloatingTermIfNecessary p) = bol"
    "m_sunkTerms (sinkFloatingTermIfNecessary p) = ?as @ eol_term eol"
    using run_pattern [OF assms(1,2)] by metis
  obtain ts where ts: "ts = simplifyTerms bol (?as @ eol_term eol)" by blast
  have add: "URLFilterParser_addPattern Y pattern cs patternId filters =
      Some (if list_ex matchesAtLeastOneCharacter ts then (Ok, addPattern patternId ts filters)
        else (MatchesEverything, filters))"
    using assms(3-5) p
    by (simp add: URLFilterParser_addPattern_def finalize_def simplifySunkTerms_def ts Let_def fail_def hasError_def
        del: matchesAtLeastOneCharacter.simps)
  have ok: "list_all plain ?as" "list_all valid_term ?as" "list_all solid ?as"
    using assms(2) regex_term_plain by (auto simp: list_all_iff)
  have lang: "ascii (terms_lang ?as) = regexes_lang cs rs"
    by (rule ascii_terms) (use assms(2) regex_term_lang in \<open>auto simp: list_all_iff\<close>)
  have solid: "list_all solid ts"
    using set_simplifyTerms [of bol "?as @ eol_term eol"] ok(3) canonicalDotStar_solid
    by (auto simp: ts list_all_iff eol_term_def new_EndOfLineAssertionTerm_def split: if_splits)
  show ?thesis
  proof (cases "?as @ eol_term eol = []")
    case True
    then have "ts = []" "rs = []" "\<not> eol" by (auto simp: ts simplifyTerms_def eol_term_def split: if_splits)
    moreover have "matches_url bol False {[]} url" for url
      unfolding matches_url_def by (rule exI [of _ "[]"]) auto
    ultimately show ?thesis using add by simp
  next
    case False
    from simplifyTerms_matches [OF ok(1,2) False, of bol] obtain as' eol' where
      s: "ts = as' @ eol_term eol'" "list_all plain as'" "list_all valid_term as'" "eol' \<longrightarrow> eol"
      "\<And>url. 0 \<notin> set url \<Longrightarrow> matches_prefix eol' (terms_lang as') url \<longleftrightarrow> matches_url bol eol (terms_lang ?as) url"
      "eol' \<or> as' = [] \<or> matchesAtLeastOneCharacter (last as')"
      unfolding ts by metis
    have m: "fires ts url \<longleftrightarrow> matches_url bol eol (regexes_lang cs rs) url" if "set url \<subseteq> {1..<128}" for url
    proof -
      have "0 \<notin> set url" using that by auto
      then show ?thesis
        using fires_iff [OF s(2)] s(5) matches_url_ascii [OF that lang] unfolding s(1) by blast
    qed
    show ?thesis
    proof (cases "list_ex matchesAtLeastOneCharacter ts")
      case True
      have "ts \<noteq> []" using True by auto
      moreover have "list_all valid_term ts"
        using s(1,3) by (simp add: eol_term_def new_EndOfLineAssertionTerm_def)
      ultimately have "legal_pattern ts" using solid by (simp add: legal_pattern_def list_all_iff)
      with True add m show ?thesis by auto
    next
      case none: False
      have "matches_url bol eol (regexes_lang cs rs) url" if "\<not> eol" "set url \<subseteq> {1..<128}" for url
      proof -
        have "\<not> eol'" using s(4) that(1) by blast
        moreover have "\<not> list_ex matchesAtLeastOneCharacter as'" using none s(1) by (simp del: matchesAtLeastOneCharacter.simps)
        ultimately have "as' = []" using s(6) last_in_set [of as'] unfolding list_ex_iff by blast
        then have "matches_prefix eol' (terms_lang as') url" using \<open>\<not> eol'\<close> by (simp add: matches_prefix_def)
        moreover have "0 \<notin> set url" using that(2) by auto
        ultimately show ?thesis using s(5) matches_url_ascii [OF that(2) lang] by blast
      qed
      then show ?thesis using none add by auto
    qed
  qed
qed


text \<open>C10.
  The pattern parser is correct: when Yarr makes the calls of a regular expression (anchored or not), the pattern is
  accepted and what is added to the filters matches exactly the URLs in which the regular expression matches; or it is rejected
  as matching everything, which it does unless it is anchored at its end.
\<close>

theorem addPattern_matches_regex:
  assumes "quantifyInfinite Y \<noteq> 1" "list_all regex_ok rs" "containsOnlyASCII pattern" "pattern \<noteq> []"
    and "yarr_parse Y pattern = (pattern_calls Y bol rs eol, False)"
  shows "(\<exists>ts. URLFilterParser_addPattern Y pattern cs patternId filters = Some (Ok, addPattern patternId ts filters)
        \<and> ts \<noteq> [] \<and> list_all valid_term ts
        \<and> (\<forall>url. set url \<subseteq> {1..<128} \<longrightarrow> fires ts url = matches_url bol eol (regexes_lang cs rs) url))
    \<or> (URLFilterParser_addPattern Y pattern cs patternId filters = Some (MatchesEverything, filters)
        \<and> (eol \<or> (\<forall>url. set url \<subseteq> {1..<128} \<longrightarrow> matches_url bol eol (regexes_lang cs rs) url)))"
  using addPattern_regex [OF assms, of cs patternId filters] unfolding legal_pattern_def list_all_iff by blast

theorem addPattern_matches_regex_witness:
  "(\<exists>ts. URLFilterParser_addPattern example_yarr [97] True 1 new_CombinedURLFilters
        = Some (Ok, addPattern 1 ts new_CombinedURLFilters) \<and> fires ts [97])
    \<or> URLFilterParser_addPattern example_yarr [97] True 1 new_CombinedURLFilters
        = Some (MatchesEverything, new_CombinedURLFilters)"
proof -
  have "matches_url False False (regexes_lang True [RChar 97]) [97]"
    unfolding matches_url_def
    by (rule exI [of _ "[]"], rule exI [of _ "[97]"], rule exI [of _ "[]"]) (simp add: same_char_def)
  moreover have "quantifyInfinite example_yarr \<noteq> 1" "list_all regex_ok [RChar 97]" "containsOnlyASCII [97]"
    "yarr_parse example_yarr [97] = (pattern_calls example_yarr False [RChar 97] False, False)"
    by (simp_all add: example_yarr_def containsOnlyASCII_def pattern_calls_def isASCII_def)
  note addPattern_matches_regex [OF this(1,2,3) _ this(4), of True 1 new_CombinedURLFilters]
  ultimately show ?thesis by auto
qed



end
