(* ===== verification/RulePipeline.thy ===== *)
theory RulePipeline
  imports SubsetConstruction MinimizerCorrect DFABytecodeInterpreter ContentExtensionCompiler PatternRegex
begin

text \<open>
  The composition that \<^verbatim>\<open>compileRuleList\<close> of \<^verbatim>\<open>Source/WebCore/contentextensions/ContentExtensionCompiler.cpp\<close> makes of the
  components: every NFA is converted, the DFA is minimized, the DFAs are compiled one after the other, and the interpreter
  and \<^verbatim>\<open>actionsFromDFARoot\<close> run on the result.
\<close>

section \<open>The layout of converted automata\<close>

text \<open>The windows lie below \<open>b\<close> and do not overlap.\<close>

definition laid :: "nat \<Rightarrow> DFA \<Rightarrow> bool" where
  "laid b d \<longleftrightarrow> dfa_layout d \<and> b \<le> length (dfa_transitions d)
     \<and> (\<forall>i < length (nodes d). transition_slots (nodes d ! i) \<subseteq> {..<b} \<and> action_slots (nodes d ! i) \<subseteq> {..<length (dfa_actions d)})"

lemma laid_append: "laid b d \<Longrightarrow> laid b (d\<lparr>dfa_transitions := dfa_transitions d @ ts\<rparr>)"
  by (simp add: laid_def dfa_layout_def)

lemma laid_update:
  assumes l: "laid b d" and i: "i < length (nodes d)" and n: "action_slots node = action_slots (nodes d ! i)"
    "transition_slots node \<subseteq> transition_slots (nodes d ! i) \<union> {b..<b'}" and b': "b \<le> b'" "b' \<le> length (dfa_transitions d)"
  shows "laid b' (d\<lparr>nodes := (nodes d)[i := node]\<rparr>)"
proof -
  let ?d = "d\<lparr>nodes := (nodes d)[i := node]\<rparr>"
  have old: "transition_slots (nodes d ! j) \<subseteq> {..<b}" "action_slots (nodes d ! j) \<subseteq> {..<length (dfa_actions d)}"
    if "j < length (nodes d)" for j using l that unfolding laid_def by blast+
  have dis: "transition_slots (nodes d ! j) \<inter> transition_slots (nodes d ! k) = {} \<and> action_slots (nodes d ! j) \<inter> action_slots (nodes d ! k) = {}"
    if "j < length (nodes d)" "k < length (nodes d)" "j \<noteq> k" for j k using l that unfolding laid_def dfa_layout_def by blast
  have node: "transition_slots node \<inter> transition_slots (nodes d ! j) = {}" "action_slots node \<inter> action_slots (nodes d ! j) = {}"
    if j: "j < length (nodes d)" "j \<noteq> i" for j
  proof -
    have "{b..<b'} \<inter> transition_slots (nodes d ! j) = {}" using old(1) [OF j(1)] by fastforce
    then show "transition_slots node \<inter> transition_slots (nodes d ! j) = {}" using dis [OF i j(1)] j(2) n(2) by blast
    show "action_slots node \<inter> action_slots (nodes d ! j) = {}" using dis [OF i j(1)] j(2) n(1) by simp
  qed
  have "dfa_layout ?d" unfolding dfa_layout_def
  proof (intro allI impI)
    fix j k assume jk: "j < length (nodes ?d)" "k < length (nodes ?d)" "j \<noteq> k"
    show "transition_slots (nodes ?d ! j) \<inter> transition_slots (nodes ?d ! k) = {} \<and> action_slots (nodes ?d ! j) \<inter> action_slots (nodes ?d ! k) = {}"
      using jk node [of k] node [of j] dis [of j k] i by (cases "j = i"; cases "k = i") (auto simp: Int_commute)
  qed
  moreover have "transition_slots node \<subseteq> {..<b'}" using n(2) old(1) [OF i] b'(1) by fastforce
  moreover have "transition_slots (nodes d ! j) \<subseteq> {..<b'}" if "j < length (nodes d)" for j using old(1) [OF that] b'(1) by fastforce
  ultimately show ?thesis using b'(2) old(2) n(1) i by (auto simp: laid_def nth_list_update)
qed

lemma laid_new_node:
  assumes l: "laid b d" and n: "transition_slots node = {}" "action_slots node \<subseteq> {length (dfa_actions d)..<length (dfa_actions d) + length acts}"
  shows "laid b (d\<lparr>dfa_actions := dfa_actions d @ acts, nodes := nodes d @ [node]\<rparr>)"
proof -
  let ?d = "d\<lparr>dfa_actions := dfa_actions d @ acts, nodes := nodes d @ [node]\<rparr>"
  have old: "transition_slots (nodes d ! j) \<subseteq> {..<b}" "action_slots (nodes d ! j) \<subseteq> {..<length (dfa_actions d)}"
    if "j < length (nodes d)" for j using l that unfolding laid_def by blast+
  have dis: "transition_slots (nodes d ! j) \<inter> transition_slots (nodes d ! k) = {} \<and> action_slots (nodes d ! j) \<inter> action_slots (nodes d ! k) = {}"
    if "j < length (nodes d)" "k < length (nodes d)" "j \<noteq> k" for j k using l that unfolding laid_def dfa_layout_def by blast
  have new: "action_slots node \<inter> action_slots (nodes d ! j) = {}" if "j < length (nodes d)" for j
    using old(2) [OF that] n(2) by fastforce
  have "dfa_layout ?d" unfolding dfa_layout_def
  proof (intro allI impI)
    fix j k assume jk: "j < length (nodes ?d)" "k < length (nodes ?d)" "j \<noteq> k"
    then consider "j < length (nodes d)" "k < length (nodes d)" | "j = length (nodes d)" "k < length (nodes d)"
      | "j < length (nodes d)" "k = length (nodes d)" by fastforce
    then show "transition_slots (nodes ?d ! j) \<inter> transition_slots (nodes ?d ! k) = {} \<and> action_slots (nodes ?d ! j) \<inter> action_slots (nodes ?d ! k) = {}"
      by cases (use jk(3) dis new n(1) in \<open>auto simp: nth_append\<close>)
  qed
  moreover have "action_slots (nodes ?d ! j) \<subseteq> {..<length (dfa_actions ?d)} \<and> transition_slots (nodes ?d ! j) \<subseteq> {..<b}"
    if "j < length (nodes ?d)" for j
    using that old [of j] n by (cases "j < length (nodes d)") (fastforce simp: nth_append less_Suc_eq)+
  ultimately show ?thesis using l by (simp add: laid_def)
qed

lemma translate_laid:
  assumes "translate graph s d = Some (d', entry)" "laid b d"
  shows "laid b d'"
proof -
  obtain acts where d': "length acts \<le> 65535" "d' = d\<lparr>dfa_actions := dfa_actions d @ acts,
      nodes := nodes d @ [node_setActions (length (dfa_actions d)) (length acts) new_DFANode]\<rparr>"
    using assms(1) by (auto simp: translate_def Let_def split: Option.bind_splits if_splits)
  show ?thesis unfolding d'(2) using d'(1)
    by (intro laid_new_node [OF assms(2)])
      (simp_all add: node_setActions_def new_DFANode_def transition_slots_def action_slots_def hasFallbackTransition_def)
qed

lemma getOrCreateDFANode_laid:
  assumes "getOrCreateDFANode s graph (d, table, un) = Some ((d', table', un'), i)" "laid b d"
  shows "laid b d'"
  using assms translate_laid by (fastforce simp: getOrCreateDFANode_def split: option.splits Option.bind_splits)

lemma addKeyTransition_laid:
  assumes "addKeyTransition graph sets key st = Some st'" "laid b (fst st)"
  shows "laid b (fst st')"
proof (cases "sets ! key = []")
  case True
  then show ?thesis using assms by (simp add: addKeyTransition_def)
next
  case False
  obtain d table un where st: "st = (d, table, un)" by (cases st)
  obtain d1 table1 un1 t where g: "getOrCreateDFANode (sets ! key) graph (d, table, un) = Some ((d1, table1, un1), t)"
    "st' = (d1\<lparr>dfa_transitions := dfa_transitions d1 @ [(key, t)]\<rparr>, table1, un1)"
    using False assms(1) by (auto simp: addKeyTransition_def st split: Option.bind_splits)
  show ?thesis using laid_append getOrCreateDFANode_laid [OF g(1)] assms(2) by (simp add: st g(2))
qed

lemma finishNodeSet_laid:
  assumes f: "finishNodeSet graph fb i st = Some st'" and l: "laid (length (dfa_transitions (fst st))) (fst st)"
    and i: "i < length (nodes (fst st))" and nf: "\<not> hasFallbackTransition (nodes (fst st) ! i)"
  shows "laid (length (dfa_transitions (fst st'))) (fst st')"
proof (cases "fb = []")
  case True
  then show ?thesis using f l by (simp add: finishNodeSet_def)
next
  case False
  obtain d table un where st: "st = (d, table, un)" by (cases st)
  let ?b = "length (dfa_transitions d)"
  obtain d3 table3 un3 t where gc: "getOrCreateDFANode fb graph (d, table, un) = Some ((d3, table3, un3), t)"
    using False f by (auto simp: finishNodeSet_def st split: Option.bind_splits)
  have d3: "dfa_transitions d3 = dfa_transitions d" "\<exists>new. nodes d3 = nodes d @ new"
    using gc by (auto simp: getOrCreateDFANode_def translate_def Let_def split: option.splits Option.bind_splits if_splits)
  then have n: "nodes d3 ! i = nodes d ! i" "i < length (nodes d3)" using i by (auto simp: st nth_append)
  have l3: "laid ?b d3" using getOrCreateDFANode_laid [OF gc] l by (simp add: st)
  let ?node = "(nodes d ! i)\<lparr>m_flags := m_flags (nodes d ! i) OR HasFallbackTransition\<rparr>"
  let ?d4 = "d3\<lparr>dfa_transitions := dfa_transitions d3 @ [(max_u8, t)]\<rparr>"
  have e: "?b = m_transitionsStart (nodes d ! i) + m_transitionsLength (nodes d ! i)"
    and st': "st' = (?d4\<lparr>nodes := (nodes ?d4)[i := ?node]\<rparr>, table3, un3)"
    using f False gc n d3(1) by (simp_all add: finishNodeSet_def st vec_simps addFallbackTransition_def split: if_splits)
  have "laid ?b ?d4" using laid_append [OF l3] .
  then have "laid (?b + 1) (?d4\<lparr>nodes := (nodes ?d4)[i := ?node]\<rparr>)"
  proof (rule laid_update)
    show "transition_slots ?node \<subseteq> transition_slots (nodes ?d4 ! i) \<union> {?b..<?b + 1}"
      using n(1) nf e by (auto simp: transition_slots_def st split: if_splits)
  qed (use n d3(1) in \<open>simp_all add: action_slots_def\<close>)
  then show ?thesis using d3(1) by (simp add: st')
qed

lemma processNodeSet_laid:
  assumes g: "graph_ok graph closures" and inv: "conv_inv graph closures {i} (d, table, un)"
    and e: "(buffer, i) \<in> set table" and p: "processNodeSet graph closures (buffer, i) (d, table, un) = Some st'"
    and l: "laid (length (dfa_transitions d)) d"
  shows "laid (length (dfa_transitions (fst st'))) (fst st')"
proof -
  have tab: "table_ok graph table" using inv by (simp add: conv_inv_def)
  have i: "i < length table" using table_ok_mem [OF tab e] by auto
  have b: "set buffer \<subseteq> {..<length graph}" using tab e by (auto simp: table_ok_def)
  obtain sets fb where s: "populateTransitions buffer graph closures = Some (sets, fb)" "length sets = 128"
    "\<forall>s \<in> set sets. distinct s \<and> set s \<subseteq> {..<length graph}"
    using populateTransitions_bounded [OF g b] by blast
  obtain d1 table1 un1 where f: "foldM (addKeyTransition graph sets) [0..<128] (d, table, un) = Some (d1, table1, un1)"
    using p s(1) by (auto simp: processNodeSet_def Let_def split: Option.bind_splits)
  note K = keys_fold_inv [OF inv f s(2,3)]
  then obtain L new where L: "dfa_transitions d1 = dfa_transitions d @ L" "table1 = table @ new" "i < length (nodes d1)"
    using i by (auto simp: keys_inv_def conv_inv_def)
  have inv1: "conv_inv graph closures {i} (d1, table1, un1)" using K by (simp add: keys_inv_def)
  then have "m_flags (nodes d1 ! i) = 0" using i L(2) by (auto simp: conv_inv_def node_inv_def)
  then have nf: "\<not> hasFallbackTransition (nodes d1 ! i)" by simp
  have "laid (length (dfa_transitions d)) (fst (d1, table1, un1))"
    using f by (rule foldM_preserves [where I = "\<lambda>st. laid (length (dfa_transitions d)) (fst st)"]) (use l addKeyTransition_laid in auto)
  then have l1: "laid (length (dfa_transitions d)) d1" by simp
  let ?node = "node_setTransitions (length (dfa_transitions d)) (length L) (nodes d1 ! i)"
  have len: "length L \<le> 127" and fin: "finishNodeSet graph fb i (d1\<lparr>nodes := (nodes d1)[i := ?node]\<rparr>, table1, un1) = Some st'"
    using p unfolding processNodeSet_eq [OF s(1) f L(1,3)] by (simp_all split: if_splits)
  have "laid (length (dfa_transitions d) + length L) (d1\<lparr>nodes := (nodes d1)[i := ?node]\<rparr>)"
    by (rule laid_update [OF l1 L(3)])
      (use len nf L(1) in \<open>simp_all add: node_setTransitions_def action_slots_def transition_slots_def hasFallbackTransition_def\<close>)
  then show ?thesis using L(1,3) nf
    by (intro finishNodeSet_laid [OF fin]) (simp_all add: node_setTransitions_def hasFallbackTransition_def)
qed

lemma convertLoop_laid:
  assumes "graph_ok graph closures" "conv_inv graph closures {} st" "laid (length (dfa_transitions (fst st))) (fst st)"
    "convertLoop graph closures st = Some d'"
  shows "dfa_layout d'"
  using assms
proof (induction graph closures st rule: convertLoop.induct)
  case (1 graph closures st)
  obtain d table un where st: "st = (d, table, un)" by (cases st)
  from "1.prems"(4) obtain st' where un: "un \<noteq> []" and
    p: "processNodeSet graph closures (last un) (d, table, butlast un) = Some st'"
    and r: "(if snd (snd st') = [] then Some (fst st') else convertLoop graph closures st') = Some d'"
    by (subst (asm) convertLoop.simps) (auto simp: st split: if_splits option.splits)
  obtain b i where e: "last un = (b, i)" by fastforce
  have c: "conv_inv graph closures {i} (d, table, butlast un)" "(b, i) \<in> set table"
    using conv_inv_pop [of graph closures d table un] "1.prems"(2) un by (simp_all add: st e)
  have inv': "conv_inv graph closures {} st'"
    using processNodeSet_correct [OF "1.prems"(1) c] p by (auto simp: e)
  have l': "laid (length (dfa_transitions (fst st'))) (fst st')"
    using processNodeSet_laid [OF "1.prems"(1) c] p "1.prems"(3) by (simp add: e st)
  show ?case
  proof (cases "snd (snd st') = []")
    case True
    then show ?thesis using l' r by (simp add: laid_def)
  next
    case False
    then show ?thesis using "1.IH" [OF st [symmetric] refl un p False "1.prems"(1) inv' l'] r by simp
  qed
qed

lemma convert_layout:
  assumes wf: "nfa_wf nfa" and c: "convert nfa = Some d"
  shows "dfa_layout d" "\<forall>node \<in> set (nodes d). \<not> isKilled node"
proof -
  obtain graph closures s where i:
    "resolveEpsilonClosures (m_nodes nfa) epsilonTransitionCharacter = Some (graph, closures)" "graph_ok graph closures"
    "extendSetWithClosure closures (m_root nfa) [m_root nfa] = Some s"
    "\<And>d entry. translate graph s new_DFA = Some (d, entry) \<Longrightarrow> conv_inv graph closures {} (d, [entry], [entry])"
    using convert_init [OF wf] by metis
  from c obtain d0 entry where t: "translate graph s new_DFA = Some (d0, entry)"
    and l: "convertLoop graph closures (d0, [entry], [entry]) = Some d"
    by (auto simp: convert_def i(1,3) split: Option.bind_splits)
  have "laid 0 new_DFA" by (simp add: laid_def dfa_layout_def new_DFA_def)
  then have "laid 0 d0" using translate_laid [OF t] by blast
  moreover have "dfa_transitions d0 = []" using t by (auto simp: translate_def Let_def new_DFA_def split: Option.bind_splits if_splits)
  ultimately show "dfa_layout d" using convertLoop_laid [OF i(2) i(4) [OF t] _ l] by simp
  obtain table where "conv_inv graph closures {} (d, [entry] @ table, [])"
    using convertLoop_correct [OF i(2) i(4) [OF t] l] by auto
  then have "\<forall>k < length (nodes d). \<not> isKilled (nodes d ! k)" by (auto simp: conv_inv_def node_inv_def)
  then show "\<forall>node \<in> set (nodes d). \<not> isKilled node" by (metis in_set_conv_nth)
qed

section \<open>The minimized automaton of an NFA\<close>

text \<open>What a word gives: the actions of the node that it leads to.\<close>

definition dfa_accepts :: "DFA \<Rightarrow> nat list \<Rightarrow> u64 \<Rightarrow> bool" where
  "dfa_accepts dfa w a \<longleftrightarrow> (\<exists>q. dfa_run dfa (root dfa) w = Some q \<and> a \<in> state_actions dfa q)"

text \<open>
  The conditions on the automata under which minimization and interpretation keep what they match: end of line assertions end
  their patterns, and the defects of \<^verbatim>\<open>simplifyTransitions\<close> do not show.
\<close>

definition rule_dfa :: "DFA \<Rightarrow> bool" where
  "rule_dfa dfa \<longleftrightarrow> eol_ok dfa \<and> length (nodes dfa) \<le> max_u32 \<and> terminator_distinct dfa
     \<and> (\<forall>node \<in> set (nodes dfa). \<not> one_missing dfa node) \<and> \<not> hasActions (nodes dfa ! root dfa)"

definition rule_nfa :: "NFA \<Rightarrow> bool" where
  "rule_nfa nfa \<longleftrightarrow> nfa_wf nfa \<and> (case convert nfa of None \<Rightarrow> False | Some dfa \<Rightarrow> rule_dfa dfa)"

lemma minimize_eol:
  assumes wf: "dfa_wf dfa" and mn: "minimizable dfa" and eol: "eol_ok dfa" and m: "minimize dfa = Some dfa'"
  shows "eol_ok dfa'"
proof -
  from minimize_result [OF wf mn] m obtain d rep where wd: "nodes_wf d" and s: "simplified_dfa dfa d"
    and rep: "replacement d rep" and mi: "minimized_dfa rep d dfa'" by auto
  note nw = minimizableD(2) [OF wf mn]
  have td: "terminator_distinct dfa" using mn by (simp add: minimizable_def)
  have len: "length (nodes dfa) = length (nodes d)" "length (nodes dfa') = length (nodes d)"
    using s mi by (simp_all add: simplified_dfa_def minimized_dfa_def)
  show ?thesis unfolding eol_ok_def
  proof (intro ballI impI allI)
    fix node t assume node: "node \<in> set (nodes dfa')" "\<not> isKilled node" and step: "node_step dfa' node 0 = Some t"
    obtain i where i: "i < length (nodes d)" "node = nodes dfa' ! i" using node(1) len(2) by (auto simp: in_set_conv_nth)
    have ri: "rep i = i" using mi node(2) i unfolding minimized_dfa_def by blast
    have "dfa_step dfa' (rep i) 0 = map_option rep (dfa_step dfa i 0)"
      using minimized_step [OF nw s td wd rep mi i(1)] simplified_step [OF nw s td] by simp
    moreover have "dfa_step dfa' (rep i) 0 = Some t" using step i len(2) unfolding ri by (simp add: dfa_step_def)
    ultimately obtain u where u: "dfa_step dfa i 0 = Some u" "t = rep u" by (cases "dfa_step dfa i 0") simp_all
    have st: "node_step dfa (nodes dfa ! i) 0 = Some u" using u(1) by (simp add: dfa_step_def split: if_splits)
    have live: "\<not> isKilled (nodes dfa ! i)" using minimizableD(4) [OF wf mn] i(1) len(1) by simp
    have ud: "u < length (nodes d)" using dfa_step_wf [OF wf live u(1)] len(1) by simp
    have "nodes dfa ! i \<in> set (nodes dfa)" using i(1) len(1) by simp
    then have "node_fallback dfa (nodes dfa ! u) = None" using eol st live unfolding eol_ok_def by blast
    then have "node_fallback d (nodes d ! u) = None" using s ud len(1) by (simp add: simplified_dfa_def)
    then have "map_option rep (node_fallback d (nodes d ! rep u)) = None" using replacementD(6) [OF rep ud] by simp
    then show "node_fallback dfa' (nodes dfa' ! t) = None"
      using mi replacementD(1,2) [OF rep ud] unfolding u(2) by (simp add: minimized_dfa_def)
  qed
qed

lemma rule_nfa_minimized:
  assumes "rule_nfa nfa"
  shows "\<exists>dfa dfa'. convert nfa = Some dfa \<and> minimize dfa = Some dfa' \<and> dfa_ok dfa' \<and> node_actions dfa' (nodes dfa' ! root dfa') = []
    \<and> (\<forall>w a. dfa_accepts dfa' w a \<longleftrightarrow> nfa_matches nfa w a)"
proof -
  obtain dfa where wf: "nfa_wf nfa" and c: "convert nfa = Some dfa" and r: "rule_dfa dfa"
    using assms by (auto simp: rule_nfa_def split: option.splits)
  note dw = convert_wf [OF wf c] and run = convert_run [OF wf c]
  have mn: "minimizable dfa" using convert_layout [OF wf c] r by (simp add: minimizable_def rule_dfa_def)
  obtain dfa' where m: "minimize dfa = Some dfa'" "dfa_wf dfa'" "length (nodes dfa') = length (nodes dfa)"
    "\<And>w. map_option (state_actions dfa') (dfa_run dfa' (root dfa') w) = map_option (state_actions dfa) (dfa_run dfa (root dfa) w)"
    using minimize_simulates [OF dw mn] by blast
  have "eol_ok dfa'" using minimize_eol [OF dw mn _ m(1)] r by (simp add: rule_dfa_def)
  then have ok: "dfa_ok dfa'" using m(2,3) r by (simp add: dfa_ok_def rule_dfa_def)
  have rt: "root dfa < length (nodes dfa)" using dw by (simp add: dfa_wf_def)
  have "node_in_range dfa (nodes dfa ! root dfa)" using dw rt by (auto simp: dfa_wf_def dfa_node_wf_def)
  then have "node_actions dfa (nodes dfa ! root dfa) = []" using r hasActions_iff by (simp add: rule_dfa_def)
  then have "node_actions dfa' (nodes dfa' ! root dfa') = []" using m(4) [of "[]"] by (simp add: state_actions_def)
  moreover have "dfa_accepts dfa' w a \<longleftrightarrow> nfa_matches nfa w a" for w a
  proof -
    have "dfa_accepts dfa' w a \<longleftrightarrow> dfa_accepts dfa w a" using m(4) [of w] unfolding dfa_accepts_def
      by (cases "dfa_run dfa' (root dfa') w"; cases "dfa_run dfa (root dfa) w") auto
    also have "\<dots> \<longleftrightarrow> nfa_matches nfa w a"
      using run [of w] reach_bound [OF wf, of w] unfolding dfa_accepts_def nfa_matches_def SubsetConstruction.reach_def
      by (cases "dfa_run dfa (root dfa) w") auto
    finally show ?thesis .
  qed
  ultimately show ?thesis using c m(1) ok by blast
qed

section \<open>The universal actions\<close>

lemma addUniversalActions_ok:
  assumes ok: "dfa_ok m" and u: "length u < 65535"
  shows "\<exists>m'. addUniversalActions u m = Some m' \<and> dfa_ok m' \<and> root m' = root m \<and> length (nodes m') = length (nodes m)
    \<and> (\<forall>q c. dfa_step m' q c = dfa_step m q c) \<and> state_actions m' (root m) = set u
    \<and> (\<forall>q < length (nodes m). q \<noteq> root m \<longrightarrow> \<not> isKilled (nodes m ! q) \<longrightarrow> state_actions m' q = state_actions m q)"
proof -
  let ?node = "node_setActions (length (dfa_actions m)) (length u) (nodes m ! root m)"
  define m' where "m' = m\<lparr>dfa_actions := dfa_actions m @ u, nodes := (nodes m)[root m := ?node]\<rparr>"
  have wf: "dfa_wf m" "eol_ok m" "length (nodes m) \<le> max_u32" using ok by (simp_all add: dfa_ok_def)
  have rt: "root m < length (nodes m)" "\<not> isKilled (nodes m ! root m)" using wf(1) by (simp_all add: dfa_wf_def)
  have add: "addUniversalActions u m = Some m'" using u rt(1) by (simp add: addUniversalActions_def vec_simps Let_def m'_def)
  have f: "dfa_actions m' = dfa_actions m @ u" "dfa_transitions m' = dfa_transitions m" "length (nodes m') = length (nodes m)" "root m' = root m"
    by (simp_all add: m'_def)
  have nth: "nodes m' ! q = (if q = root m then ?node else nodes m ! q)" if "q < length (nodes m)" for q
    using that by (simp add: m'_def nth_list_update)
  have node: "node_transitions m' node = node_transitions m node" "node_fallback m' node = node_fallback m node"
    "node_transitions m ?node = node_transitions m (nodes m ! root m)" "node_fallback m ?node = node_fallback m (nodes m ! root m)"
    "isKilled ?node = isKilled (nodes m ! root m)" "hasFallbackTransition ?node = hasFallbackTransition (nodes m ! root m)" for node
    by (simp_all add: node_transitions_def node_fallback_def f(2) node_setActions_def hasFallbackTransition_def isKilled_def)
  have view: "node_transitions m' (nodes m' ! q) = node_transitions m (nodes m ! q)"
    "node_fallback m' (nodes m' ! q) = node_fallback m (nodes m ! q)" "isKilled (nodes m' ! q) = isKilled (nodes m ! q)"
    if "q < length (nodes m)" for q
    using nth [OF that] node by simp_all
  have step: "dfa_step m' q c = dfa_step m q c" for q c
    using view [of q] f(3) by (cases "q < length (nodes m)") (simp_all add: dfa_step_def node_step_def split: option.splits)
  have nwf: "dfa_node_wf m' (nodes m' ! q)" if q: "q < length (nodes m)" "\<not> isKilled (nodes m ! q)" for q
  proof -
    have w: "dfa_node_wf m (nodes m ! q)" using wf(1) q by (simp add: dfa_wf_def)
    have "node_in_range m' (nodes m' ! q)"
      using w u nth [OF q(1)] f(1,2) node(6)
      by (cases "q = root m") (auto simp: dfa_node_wf_def node_in_range_def node_setActions_def hasFallbackTransition_def)
    moreover have "\<forall>(c, t) \<in> set (node_transitions m' (nodes m' ! q)). c < 128 \<and> t < length (nodes m') \<and> \<not> isKilled (nodes m' ! t)"
      unfolding view(1) [OF q(1)] f(3) using w view(3) by (fastforce simp: dfa_node_wf_def)
    moreover have "t < length (nodes m') \<and> \<not> isKilled (nodes m' ! t)" if "node_fallback m' (nodes m' ! q) = Some t" for t
      using that w view(3) [of t] f(3) unfolding view(2) [OF q(1)] dfa_node_wf_def by simp
    moreover have "distinct (map fst (node_transitions m' (nodes m' ! q)))" unfolding view(1) [OF q(1)] using w by (simp add: dfa_node_wf_def)
    ultimately show ?thesis unfolding dfa_node_wf_def by blast
  qed
  have index: "\<exists>q < length (nodes m). node = nodes m' ! q" if "node \<in> set (nodes m')" for node
    using that f(3) by (auto simp: in_set_conv_nth)
  have "dfa_node_wf m' node" if "node \<in> set (nodes m')" "\<not> isKilled node" for node
    using index [OF that(1)] nwf view(3) that(2) by blast
  then have wf': "dfa_wf m'" unfolding dfa_wf_def f(3,4) using rt view(3) [OF rt(1)] by blast
  have eol': "eol_ok m'" unfolding eol_ok_def
  proof (intro ballI impI allI)
    fix node t assume n: "node \<in> set (nodes m')" "\<not> isKilled node" "node_step m' node 0 = Some t"
    obtain q where q: "q < length (nodes m)" "node = nodes m' ! q" using index [OF n(1)] by blast
    have st: "dfa_step m q 0 = Some t" using n(3) step [of q 0] q f(3) by (simp add: dfa_step_def)
    have lv: "\<not> isKilled (nodes m ! q)" using n(2) q view(3) by simp
    have "node_fallback m (nodes m ! t) = None" using wf(2) q(1) st lv by (auto simp: eol_ok_def dfa_step_def)
    moreover have "t < length (nodes m)" using dfa_step_wf [OF wf(1) lv st] by blast
    ultimately show "node_fallback m' (nodes m' ! t) = None" using view(2) by simp
  qed
  have "state_actions m' (root m) = set u"
    using nth [OF rt(1)] u f(1) by (simp add: state_actions_def node_actions_def node_setActions_def window_end)
  moreover have "state_actions m' q = state_actions m q" if q: "q < length (nodes m)" "q \<noteq> root m" "\<not> isKilled (nodes m ! q)" for q
  proof -
    have "m_actionsStart (nodes m ! q) + m_actionsLength (nodes m ! q) \<le> length (dfa_actions m)"
      using wf(1) q by (auto simp: dfa_wf_def dfa_node_wf_def node_in_range_def)
    then show ?thesis using nth [OF q(1)] q(2) f(1) by (simp add: state_actions_def node_actions_def window_append)
  qed
  moreover have "dfa_ok m'" using wf' eol' wf(3) f(3) by (simp add: dfa_ok_def)
  ultimately show ?thesis using add step f(3,4) by blast
qed

text \<open>The automaton of the NFA at an index, with the universal actions at the first.\<close>

definition compiled_dfa :: "u64 list \<Rightarrow> nat \<times> NFA \<Rightarrow> DFA" where
  "compiled_dfa u x = (let m = the (Option.bind (convert (snd x)) minimize) in
     if fst x = 0 then the (addUniversalActions u m) else m)"

lemma compiled_dfa_ok:
  assumes nfa: "rule_nfa nfa" and u: "length u < 65535"
  shows "compileNFA u i nfa bc = compile_dfa (compiled_dfa u (i, nfa)) bc" "dfa_ok (compiled_dfa u (i, nfa))"
    "dfa_accepts (compiled_dfa u (i, nfa)) w a \<longleftrightarrow> nfa_matches nfa w a
      \<or> i = 0 \<and> a \<in> set u \<and> dfa_run (compiled_dfa u (i, nfa)) (root (compiled_dfa u (i, nfa))) w = Some (root (compiled_dfa u (i, nfa)))"
    "i = 0 \<Longrightarrow> state_actions (compiled_dfa u (i, nfa)) (root (compiled_dfa u (i, nfa))) = set u"
proof -
  obtain dfa m where m: "convert nfa = Some dfa" "minimize dfa = Some m" "dfa_ok m" "node_actions m (nodes m ! root m) = []"
    "\<And>w a. dfa_accepts m w a \<longleftrightarrow> nfa_matches nfa w a" using rule_nfa_minimized [OF nfa] by blast
  have wf: "dfa_wf m" using m(3) by (simp add: dfa_ok_def)
  have rt: "root m < length (nodes m)" "\<not> isKilled (nodes m ! root m)" using wf by (simp_all add: dfa_wf_def)
  have "node_in_range m (nodes m ! root m)" using wf rt by (auto simp: dfa_wf_def dfa_node_wf_def)
  then have na: "\<not> hasActions (nodes m ! root m)" using m(4) hasActions_iff by simp
  obtain m' where m': "addUniversalActions u m = Some m'" "dfa_ok m'" "root m' = root m" "length (nodes m') = length (nodes m)"
    "\<And>q c. dfa_step m' q c = dfa_step m q c" "state_actions m' (root m) = set u"
    "\<And>q. q < length (nodes m) \<Longrightarrow> q \<noteq> root m \<Longrightarrow> \<not> isKilled (nodes m ! q) \<Longrightarrow> state_actions m' q = state_actions m q"
    using addUniversalActions_ok [OF m(3) u] by blast
  have run: "dfa_run m' q w = dfa_run m q w" for q w by (induction w arbitrary: q) (simp_all add: m'(5) split: option.splits)
  have live: "q' < length (nodes m) \<and> \<not> isKilled (nodes m ! q')"
    if "dfa_run m q w = Some q'" "q < length (nodes m)" "\<not> isKilled (nodes m ! q)" for q q' w
    using that
  proof (induction w arbitrary: q)
    case (Cons c w)
    then obtain p where p: "dfa_step m q c = Some p" "dfa_run m p w = Some q'" by (auto split: option.splits)
    then show ?case using Cons.IH [OF p(2)] dfa_step_wf [OF wf Cons.prems(3) p(1)] by blast
  qed simp
  have cd: "compiled_dfa u (i, nfa) = (if i = 0 then m' else m)" using m(1,2) m'(1) by (simp add: compiled_dfa_def)
  show "compileNFA u i nfa bc = compile_dfa (compiled_dfa u (i, nfa)) bc"
    using m(1,2) m'(1) na rt(1) unfolding cd by (simp add: compileNFA_def vec_simps)
  show "dfa_ok (compiled_dfa u (i, nfa))" using m(3) m'(2) unfolding cd by simp
  have "dfa_accepts m' w a \<longleftrightarrow> dfa_accepts m w a \<or> a \<in> set u \<and> dfa_run m (root m) w = Some (root m)"
  proof (cases "dfa_run m (root m) w")
    case None
    then show ?thesis by (simp add: dfa_accepts_def run m'(3))
  next
    case (Some q)
    then have "q < length (nodes m) \<and> \<not> isKilled (nodes m ! q)" using live [OF Some rt] by blast
    moreover have "state_actions m (root m) = {}" using m(4) by (simp add: state_actions_def)
    ultimately show ?thesis using Some m'(6) m'(7) [of q] by (cases "q = root m") (simp_all add: dfa_accepts_def run m'(3))
  qed
  then show "dfa_accepts (compiled_dfa u (i, nfa)) w a \<longleftrightarrow> nfa_matches nfa w a
      \<or> i = 0 \<and> a \<in> set u \<and> dfa_run (compiled_dfa u (i, nfa)) (root (compiled_dfa u (i, nfa))) w = Some (root (compiled_dfa u (i, nfa)))"
    unfolding cd using m(5) by (auto simp: run m'(3))
  show "i = 0 \<Longrightarrow> state_actions (compiled_dfa u (i, nfa)) (root (compiled_dfa u (i, nfa))) = set u" unfolding cd using m'(3,6) by simp
qed

section \<open>Compiling and interpreting the NFAs\<close>

lemma compileNFAs_dfas:
  assumes nfas: "\<forall>nfa \<in> set nfas. rule_nfa nfa" and u: "length u < 65535"
  shows "compileNFAs u nfas = foldM compile_dfa (map (compiled_dfa u) (List.enumerate 0 nfas)) []"
  unfolding compileNFAs_def foldM_map
proof (rule foldM_cong [OF refl refl])
  fix x bc assume "x \<in> set (List.enumerate 0 nfas)"
  then have "rule_nfa (snd x)" using nfas by (auto simp: set_zip enumerate_eq_zip)
  then show "(case x of (i, nfa) \<Rightarrow> compileNFA u i nfa) bc = compile_dfa (compiled_dfa u x) bc"
    using compiled_dfa_ok(1) [OF _ u, of "snd x" "fst x"] by (cases x) simp
qed

text \<open>The locations of the actions that some prefix of the terminated URL gives, and whose flags pass.\<close>

definition triggered :: "u16 \<Rightarrow> u8 list \<Rightarrow> (nat list \<Rightarrow> u64 \<Rightarrow> bool) \<Rightarrow> u64 set" where
  "triggered flags url R = {location a | a k. R (take k (terminated url)) a \<and> passes flags a}"

lemma triggered_cong: "(\<And>w a. R w a \<longleftrightarrow> R' w a) \<Longrightarrow> triggered flags url R = triggered flags url R'"
  by (simp add: triggered_def)

lemma compiled_segments:
  assumes ok: "\<forall>dfa \<in> set (dfa # dfas). dfa_ok dfa" and size: "total_size (dfa # dfas) < max_u32" and url: "0 \<notin> set url"
  shows "\<exists>bc acts roots. foldM compile_dfa (dfa # dfas) [] = Some bc \<and> interpret_bytecode bc url flags = Some acts
    \<and> actionsFromDFARoot bc = Some roots
    \<and> set acts \<union> set roots = (\<Union>d \<in> set (dfa # dfas). triggered flags url (dfa_accepts d))
    \<and> set roots = {location a | a. a \<in> state_actions dfa (root dfa) \<and> \<not> DFABytecodeInterpreter.flagged a}"
proof -
  obtain roots where roots: "actionsFromDFARoot (segments 0 (dfa # dfas)) = Some roots"
    "set roots = {location a | a. a \<in> state_actions dfa (root dfa) \<and> \<not> DFABytecodeInterpreter.flagged a}"
    using root_of_segments [OF ok size] by blast
  have comp: "foldM compile_dfa (dfa # dfas) [] = Some (segments 0 (dfa # dfas))"
    using compile_dfas [of "dfa # dfas" "[]"] ok size by (simp add: dfa_ok_def)
  note int = interpret_segments [OF ok url size, of flags]
  have rest: "matched_actions flags url False d = triggered flags url (dfa_accepts d)" for d
    by (auto simp: matched_actions_def triggered_def dfa_accepts_def)
  have first: "matched_actions flags url True dfa \<union> set roots = triggered flags url (dfa_accepts dfa)"
  proof (intro Set.set_eqI iffI)
    fix x assume "x \<in> matched_actions flags url True dfa \<union> set roots"
    then consider a k q where "x = location a" "dfa_run dfa (root dfa) (take k (terminated url)) = Some q" "a \<in> state_actions dfa q" "passes flags a"
      | a where "x = location a" "a \<in> state_actions dfa (root dfa)" "\<not> DFABytecodeInterpreter.flagged a"
      unfolding roots(2) matched_actions_def by blast
    then show "x \<in> triggered flags url (dfa_accepts dfa)"
    proof cases
      case 1
      then show ?thesis unfolding triggered_def dfa_accepts_def by blast
    next
      case 2
      then have "passes flags a" by (simp add: passes_def DFABytecodeInterpreter.flagged_def)
      then show ?thesis unfolding triggered_def dfa_accepts_def using 2
        by (intro CollectI exI [of _ a] exI [of _ 0]) simp
    qed
  next
    fix x assume "x \<in> triggered flags url (dfa_accepts dfa)"
    then obtain a k q where "x = location a" "dfa_run dfa (root dfa) (take k (terminated url)) = Some q" "a \<in> state_actions dfa q" "passes flags a"
      unfolding triggered_def dfa_accepts_def by blast
    then show "x \<in> matched_actions flags url True dfa \<union> set roots"
      unfolding roots(2) matched_actions_def by (cases "q = root dfa \<and> \<not> DFABytecodeInterpreter.flagged a") auto
  qed
  have "set (run_dfas flags url (dfa # dfas)) \<union> set roots = (\<Union>d \<in> set (dfa # dfas). triggered flags url (dfa_accepts d))"
    unfolding set_run_dfas rest using first by auto
  then show ?thesis using comp int roots by blast
qed

lemma compileNFAs_ok:
  assumes nfas: "nfas \<noteq> []" "\<forall>nfa \<in> set nfas. rule_nfa nfa" and u: "length u < 65535" and url: "0 \<notin> set url"
    and size: "total_size (map (compiled_dfa u) (List.enumerate 0 nfas)) < max_u32"
  shows "\<exists>bc acts roots. compileNFAs u nfas = Some bc \<and> interpret_bytecode bc url flags = Some acts \<and> actionsFromDFARoot bc = Some roots
    \<and> set acts \<union> set roots = {location a | a. passes flags a \<and> (a \<in> set u \<or> (\<exists>nfa \<in> set nfas. \<exists>k. nfa_matches nfa (take k (terminated url)) a))}
    \<and> set roots = {location a | a. a \<in> set u \<and> \<not> DFABytecodeInterpreter.flagged a}"
proof -
  let ?ds = "map (compiled_dfa u) (List.enumerate 0 nfas)"
  have mem: "x \<in> set (List.enumerate 0 nfas) \<Longrightarrow> snd x \<in> set nfas" for x by (auto simp: set_zip enumerate_eq_zip)
  have each: "\<exists>x \<in> set (List.enumerate 0 nfas). snd x = nfa" if "nfa \<in> set nfas" for nfa
  proof -
    have "nfa \<in> set (map snd (List.enumerate 0 nfas))" using that by (simp only: map_snd_enumerate)
    then show ?thesis unfolding set_map by blast
  qed
  obtain n0 ns where n0: "nfas = n0 # ns" using nfas(1) by (cases nfas) auto
  have first: "(0, n0) \<in> set (List.enumerate 0 nfas)" by (simp add: n0)
  have ok: "\<forall>d \<in> set ?ds. dfa_ok d"
  proof
    fix d assume "d \<in> set ?ds"
    then obtain x where x: "x \<in> set (List.enumerate 0 nfas)" "d = compiled_dfa u x" by auto
    then show "dfa_ok d" using compiled_dfa_ok(2) [OF _ u, of "snd x" "fst x"] mem [OF x(1)] nfas(2) by simp
  qed
  have rn0: "rule_nfa n0" using nfas(2) n0 by simp
  obtain d ds where d: "?ds = d # ds" "d = compiled_dfa u (0, n0)" by (simp add: n0)
  have du: "state_actions d (root d) = set u" unfolding d(2) by (rule compiled_dfa_ok(4) [OF rn0 u refl])
  obtain bc acts roots where r: "foldM compile_dfa ?ds [] = Some bc" "interpret_bytecode bc url flags = Some acts"
    "actionsFromDFARoot bc = Some roots"
    "set acts \<union> set roots = (\<Union>d \<in> set ?ds. triggered flags url (dfa_accepts d))"
    "set roots = {location a | a. a \<in> set u \<and> \<not> DFABytecodeInterpreter.flagged a}"
  proof -
    have "\<forall>dfa \<in> set (d # ds). dfa_ok dfa" "total_size (d # ds) < max_u32" using ok size unfolding d(1) by simp_all
    from compiled_segments [OF this url, of flags] that show ?thesis unfolding d(1) du by blast
  qed
  have acc: "dfa_accepts (compiled_dfa u x) w a \<longleftrightarrow> nfa_matches (snd x) w a \<or> fst x = 0 \<and> a \<in> set u
      \<and> dfa_run (compiled_dfa u x) (root (compiled_dfa u x)) w = Some (root (compiled_dfa u x))"
    if "x \<in> set (List.enumerate 0 nfas)" for x w a
    using compiled_dfa_ok(3) [OF _ u, of "snd x" "fst x" w a] mem [OF that] nfas(2) by simp
  have "(\<Union>d \<in> set ?ds. triggered flags url (dfa_accepts d)) = {location a | a. passes flags a
      \<and> (a \<in> set u \<or> (\<exists>nfa \<in> set nfas. \<exists>k. nfa_matches nfa (take k (terminated url)) a))}"
  proof (intro Set.set_eqI iffI)
    fix y assume "y \<in> (\<Union>d \<in> set ?ds. triggered flags url (dfa_accepts d))"
    then obtain x a k where x: "x \<in> set (List.enumerate 0 nfas)" "y = location a" "passes flags a"
      "dfa_accepts (compiled_dfa u x) (take k (terminated url)) a" by (auto simp: triggered_def)
    then show "y \<in> {location a | a. passes flags a \<and> (a \<in> set u \<or> (\<exists>nfa \<in> set nfas. \<exists>k. nfa_matches nfa (take k (terminated url)) a))}"
      using acc [OF x(1)] mem [OF x(1)] by blast
  next
    fix y assume "y \<in> {location a | a. passes flags a \<and> (a \<in> set u \<or> (\<exists>nfa \<in> set nfas. \<exists>k. nfa_matches nfa (take k (terminated url)) a))}"
    then obtain a where a: "y = location a" "passes flags a" "a \<in> set u \<or> (\<exists>nfa \<in> set nfas. \<exists>k. nfa_matches nfa (take k (terminated url)) a)" by blast
    have "\<exists>x \<in> set (List.enumerate 0 nfas). \<exists>k. dfa_accepts (compiled_dfa u x) (take k (terminated url)) a"
    proof (cases "a \<in> set u")
      case True
      have "dfa_accepts (compiled_dfa u (0, n0)) (take 0 (terminated url)) a" using acc [OF first, of "[]" a] True by simp
      then show ?thesis using first by blast
    next
      case False
      then obtain nfa k where n: "nfa \<in> set nfas" "nfa_matches nfa (take k (terminated url)) a" using a(3) by blast
      from each [OF n(1)] obtain x where "x \<in> set (List.enumerate 0 nfas)" "snd x = nfa" by blast
      then show ?thesis using acc [of x "take k (terminated url)" a] n(2) by blast
    qed
    then show "y \<in> (\<Union>d \<in> set ?ds. triggered flags url (dfa_accepts d))" using a(1,2) by (auto simp: triggered_def)
  qed
  then show ?thesis using r compileNFAs_dfas [OF nfas(2) u] by simp
qed

end
