(* ===== verification/RuleListCorrect.thy ===== *)
theory RuleListCorrect
  imports RulePipeline
begin

text \<open>
  Correctness of \<^verbatim>\<open>compileRuleList\<close> (\<^verbatim>\<open>Source/WebCore/contentextensions/ContentExtensionCompiler.cpp\<close>): the compiled
  rules trigger the actions of exactly the rules whose regular expression matches the URL and whose flags pass.
\<close>

section \<open>Every pattern is in some NFA\<close>

lemma createNFAs_fold:
  assumes "\<And>t v nfas r. (t, v) \<in> set es \<Longrightarrow> f (t, v) nfas = Some r \<Longrightarrow> length nfas \<le> length r \<and> (P v \<longrightarrow> length nfas < length r)"
    and "foldM f es nfas = Some r"
  shows "length nfas \<le> length r \<and> ((\<exists>e \<in> set es. P (snd e)) \<longrightarrow> length nfas < length r)"
  using assms
proof (induction es arbitrary: nfas)
  case Nil
  then show ?case by simp
next
  case (Cons e es)
  obtain t v where e: "e = (t, v)" by (cases e)
  obtain r' where r': "f (t, v) nfas = Some r'" "foldM f es r' = Some r" using Cons.prems(2) e by (auto split: Option.bind_splits)
  have step: "length nfas \<le> length r' \<and> (P v \<longrightarrow> length nfas < length r')" using Cons.prems(1) [OF _ r'(1)] e by simp
  have "length r' \<le> length r \<and> ((\<exists>e \<in> set es. P (snd e)) \<longrightarrow> length r' < length r)"
    by (rule Cons.IH [OF _ r'(2)]) (rule Cons.prems(1); simp)
  then show ?case using step e by auto
qed

lemma createNFAsFrom_grows:
  "createNFAsFrom stack v nfas = Some r \<Longrightarrow> tree_ok v \<Longrightarrow> leaf_ok v \<Longrightarrow> length nfas < length r"
proof (induction stack v nfas arbitrary: r rule: createNFAsFrom.induct)
  case (1 stack es acts var nfas)
  let ?f = "\<lambda>(term, v) nfas. if inVariableLengthPrefix v then createNFAsFrom (stack @ [(term, finalActions v)]) v nfas else Some nfas"
  let ?v = "PrefixTreeVertex es acts var"
  from "1.prems"(1) obtain r' where f: "foldM ?f es nfas = Some r'"
    and r: "(if needToGenerate ?v then do { nfa \<leftarrow> generateNFA stack ?v; Some (r' @ [nfa]) } else Some r') = Some r"
    by (auto split: Option.bind_splits)
  have len: "length nfas \<le> length r' \<and> ((\<exists>e \<in> set es. inVariableLengthPrefix (snd e)) \<longrightarrow> length nfas < length r')"
  proof (rule createNFAs_fold [OF _ f])
    fix t v ns s assume e: "(t, v) \<in> set es" and s: "?f (t, v) ns = Some s"
    show "length ns \<le> length s \<and> (inVariableLengthPrefix v \<longrightarrow> length ns < length s)"
    proof (cases "inVariableLengthPrefix v")
      case True
      have "tree_ok v" "leaf_ok v" using "1.prems"(2) e by (auto simp: CombinedURLFilters.edge_ok_def)
      then show ?thesis using "1.IH" [OF e refl True] s True by fastforce
    qed (use s in simp)
  qed
  have r'r: "length r' \<le> length r \<and> (needToGenerate ?v \<longrightarrow> length r' < length r)"
    using r by (auto split: if_splits Option.bind_splits)
  show ?case
  proof (cases "\<exists>e \<in> set es. inVariableLengthPrefix (snd e)")
    case True
    then show ?thesis using len r'r by linarith
  next
    case False
    have "needToGenerate ?v"
    proof (cases es)
      case Nil
      then show ?thesis using "1.prems"(3) by (simp add: needToGenerate_def leaf_ok_def)
    next
      case (Cons e es')
      then show ?thesis using False by (auto simp: needToGenerate_def split_beta)
    qed
    then show ?thesis using len r'r by linarith
  qed
qed

lemma createNFAs_nonempty:
  assumes "filters_ok f" "a \<in> filterActions f p" "p \<noteq> []" "createNFAs f = Some nfas"
  shows "nfas \<noteq> []"
proof -
  let ?r = "m_prefixTreeRoot f"
  have "tree_ok ?r" using assms(1) by (simp add: filters_ok_def root_ok_def)
  moreover have "prefixEdges ?r \<noteq> []"
    using assms(2,3) by (cases p) (auto simp: filterActions_def patternActions_Cons split: option.splits)
  ultimately have "length [] < length nfas" using createNFAsFrom_grows [of "[]" ?r "[]" nfas] assms(4) by (simp add: createNFAs_def leaf_ok_def)
  then show ?thesis by simp
qed

section \<open>Adding the patterns of the rules\<close>

text \<open>The regular expression that Yarr reads from the pattern of a rule: anchored at the start, its parts, anchored at the end.\<close>

type_synonym description = "bool \<times> Regex list \<times> bool"

abbreviation rule_pattern :: "Rule \<Rightarrow> u16 list" where
  "rule_pattern rule \<equiv> str_chars (urlFilter (m_trigger rule))"

definition describes :: "yarr \<Rightarrow> (Rule \<Rightarrow> description) \<Rightarrow> Rule \<Rightarrow> bool" where
  "describes Y D rule \<longleftrightarrow> (case D rule of (bol, rs, eol) \<Rightarrow> list_all regex_ok rs \<and> containsOnlyASCII (rule_pattern rule)
     \<and> rule_pattern rule \<noteq> [] \<and> yarr_parse Y (rule_pattern rule) = (pattern_calls Y bol rs eol, False))"

text \<open>The rules that the parser reports as matching everything.\<close>

definition universal_rule :: "yarr \<Rightarrow> Rule \<Rightarrow> bool" where
  "universal_rule Y rule \<longleftrightarrow> (case URLFilterParser_addPattern Y (rule_pattern rule) (urlFilterIsCaseSensitive (m_trigger rule))
      0 new_CombinedURLFilters of Some (status, _) \<Rightarrow> status = MatchesEverything | None \<Rightarrow> False)"

definition rule_matches :: "(Rule \<Rightarrow> description) \<Rightarrow> Rule \<Rightarrow> nat list \<Rightarrow> bool" where
  "rule_matches D rule url \<longleftrightarrow> (case D rule of (bol, rs, eol) \<Rightarrow>
     matches_url bol eol (regexes_lang (urlFilterIsCaseSensitive (m_trigger rule)) rs) url)"

definition rule_applies :: "yarr \<Rightarrow> (Rule \<Rightarrow> description) \<Rightarrow> Rule \<Rightarrow> nat list \<Rightarrow> bool" where
  "rule_applies Y D rule url \<longleftrightarrow> universal_rule Y rule \<or> rule_matches D rule url"

text \<open>A rule that matches everything after an ignore-previous-rules.\<close>

fun late_universal :: "yarr \<Rightarrow> bool \<Rightarrow> Rule list \<Rightarrow> bool" where
  "late_universal Y seen [] \<longleftrightarrow> False"
| "late_universal Y seen (rule # rules) \<longleftrightarrow> (seen \<and> universal_rule Y rule)
     \<or> late_universal Y (seen \<or> m_type (m_action rule) = IgnorePreviousRules) rules"

abbreviation rule_id :: "Rule \<times> nat \<Rightarrow> u64" where
  "rule_id r \<equiv> actionLocationAndFlags (trigger_flags (m_trigger (fst r))) (snd r)"

lemma addPattern_status:
  "map_option fst (URLFilterParser_addPattern Y p cs i f) = map_option fst (URLFilterParser_addPattern Y p cs j g)"
  by (cases "yarr_parse Y p"; cases "foldM (delegateCall Y) (fst (yarr_parse Y p)) (new_PatternParser cs)")
    (simp_all add: URLFilterParser_addPattern_def finalize_def Let_def)

lemma addRulePattern_ok:
  assumes Y: "quantifyInfinite Y \<noteq> 1" and d: "describes Y D rule" and st: "combinedURLFilters st = fold (\<lambda>(a, p). addPattern a p) ps new_CombinedURLFilters"
  shows "if universal_rule Y rule
    then addRulePattern Y rule loc st = Some (if ignorePreviousRulesSeen st then Inl RegexMatchesEverythingAfterIgnorePreviousRules
      else Inr (st\<lparr>universalActionLocations := hs_add (rule_id (rule, loc)) (universalActionLocations st),
        ignorePreviousRulesSeen := m_type (m_action rule) = IgnorePreviousRules\<rparr>))
    else \<exists>ts. addRulePattern Y rule loc st = Some (Inr (st\<lparr>combinedURLFilters := fold (\<lambda>(a, p). addPattern a p) (ps @ [(rule_id (rule, loc), ts)]) new_CombinedURLFilters,
        ignorePreviousRulesSeen := ignorePreviousRulesSeen st \<or> m_type (m_action rule) = IgnorePreviousRules\<rparr>))
      \<and> legal_pattern ts \<and> (\<forall>url. set url \<subseteq> {1..<128} \<longrightarrow> fires ts url = rule_matches D rule url)"
proof -
  obtain bol rs eol where D: "D rule = (bol, rs, eol)" by (cases "D rule")
  let ?p = "rule_pattern rule" and ?cs = "urlFilterIsCaseSensitive (m_trigger rule)" and ?id = "rule_id (rule, loc)"
  have a: "list_all regex_ok rs" "containsOnlyASCII ?p" "?p \<noteq> []" "yarr_parse Y ?p = (pattern_calls Y bol rs eol, False)"
    using d by (simp_all add: describes_def D)
  have len: "str_length (urlFilter (m_trigger rule)) \<noteq> 0" using a(3) by (cases "urlFilter (m_trigger rule)") simp_all
  have stat: "map_option fst (URLFilterParser_addPattern Y ?p ?cs ?id (combinedURLFilters st))
      = map_option fst (URLFilterParser_addPattern Y ?p ?cs 0 new_CombinedURLFilters)" by (rule addPattern_status)
  note m = addPattern_regex [OF Y a, of ?cs ?id "combinedURLFilters st"]
  show ?thesis
  proof (cases "universal_rule Y rule")
    case True
    then have "URLFilterParser_addPattern Y ?p ?cs ?id (combinedURLFilters st) = Some (MatchesEverything, combinedURLFilters st)"
      using m stat unfolding universal_rule_def by (auto split: option.splits)
    then show ?thesis using True len by (simp add: addRulePattern_def Let_def)
  next
    case False
    then have "\<not> (URLFilterParser_addPattern Y ?p ?cs ?id (combinedURLFilters st) = Some (MatchesEverything, combinedURLFilters st))"
      using stat unfolding universal_rule_def by (auto split: option.splits)
    then obtain ts where ts: "URLFilterParser_addPattern Y ?p ?cs ?id (combinedURLFilters st) = Some (Ok, addPattern ?id ts (combinedURLFilters st))"
      "legal_pattern ts" "\<forall>url. set url \<subseteq> {1..<128} \<longrightarrow> fires ts url = matches_url bol eol (regexes_lang ?cs rs) url" using m by blast
    have "addRulePattern Y rule loc st = Some (Inr (st\<lparr>combinedURLFilters := addPattern ?id ts (combinedURLFilters st),
        ignorePreviousRulesSeen := ignorePreviousRulesSeen st \<or> m_type (m_action rule) = IgnorePreviousRules\<rparr>))"
      using ts(1) len by (simp add: addRulePattern_def Let_def)
    then show ?thesis using False ts(2,3) by (intro if_not_P [THEN iffD2, OF False]) (auto simp: st rule_matches_def D)
  qed
qed

lemma addRulePatterns_late:
  assumes Y: "quantifyInfinite Y \<noteq> 1" and d: "\<forall>r \<in> set rl. describes Y D (fst r)"
    and st: "combinedURLFilters st = fold (\<lambda>(a, p). addPattern a p) ps new_CombinedURLFilters"
    and l: "late_universal Y (ignorePreviousRulesSeen st) (map fst rl)"
  shows "addRulePatterns Y rl st = Some (Inl RegexMatchesEverythingAfterIgnorePreviousRules)"
  using d st l
proof (induction rl arbitrary: st ps)
  case Nil
  then show ?case by simp
next
  case (Cons r rl)
  obtain rule loc where r: "r = (rule, loc)" by (cases r)
  have "describes Y D rule" using Cons.prems(1) r by simp
  note a = addRulePattern_ok [OF Y this Cons.prems(2), of loc]
  show ?case
  proof (cases "universal_rule Y rule")
    case True
    then show ?thesis using a Cons.prems Cons.IH by (cases "ignorePreviousRulesSeen st") (simp_all add: r)
  next
    case False
    then obtain ts where ts: "addRulePattern Y rule loc st = Some (Inr (st\<lparr>combinedURLFilters := fold (\<lambda>(a, p). addPattern a p) (ps @ [(rule_id (rule, loc), ts)]) new_CombinedURLFilters,
        ignorePreviousRulesSeen := ignorePreviousRulesSeen st \<or> m_type (m_action rule) = IgnorePreviousRules\<rparr>))" using a by auto
    have "late_universal Y (ignorePreviousRulesSeen st \<or> m_type (m_action rule) = IgnorePreviousRules) (map fst rl)"
      using Cons.prems(3) False r by simp
    then show ?thesis using Cons.IH [of "st\<lparr>combinedURLFilters := fold (\<lambda>(a, p). addPattern a p) (ps @ [(rule_id (rule, loc), ts)]) new_CombinedURLFilters,
        ignorePreviousRulesSeen := ignorePreviousRulesSeen st \<or> m_type (m_action rule) = IgnorePreviousRules\<rparr>" "ps @ [(rule_id (rule, loc), ts)]"]
      Cons.prems(1) ts by (simp add: r)
  qed
qed

text \<open>What the patterns and the universal actions are after the rules \<open>rl\<close>.\<close>

definition added :: "yarr \<Rightarrow> (Rule \<Rightarrow> description) \<Rightarrow> (Rule \<times> nat) list \<Rightarrow> (u64 \<times> Term list) list \<Rightarrow> u64 set \<Rightarrow> bool" where
  "added Y D rl ps U \<longleftrightarrow> (\<forall>x \<in> set ps. legal_pattern (snd x)) \<and> U = {rule_id r | r. r \<in> set rl \<and> universal_rule Y (fst r)}
     \<and> (\<forall>x \<in> set ps. \<exists>r \<in> set rl. fst x = rule_id r \<and> \<not> universal_rule Y (fst r)
          \<and> (\<forall>url. set url \<subseteq> {1..<128} \<longrightarrow> fires (snd x) url = rule_matches D (fst r) url))
     \<and> (\<forall>r \<in> set rl. \<not> universal_rule Y (fst r) \<longrightarrow> (\<exists>x \<in> set ps. fst x = rule_id r
          \<and> (\<forall>url. set url \<subseteq> {1..<128} \<longrightarrow> fires (snd x) url = rule_matches D (fst r) url)))"

lemma added_snoc_universal:
  "added Y D rl ps U \<Longrightarrow> universal_rule Y (fst r) \<Longrightarrow> added Y D (rl @ [r]) ps (insert (rule_id r) U)"
  unfolding added_def by (cases r) auto

lemma added_snoc_pattern:
  assumes "added Y D rl ps U" "\<not> universal_rule Y (fst r)" "legal_pattern ts"
    "\<forall>url. set url \<subseteq> {1..<128} \<longrightarrow> fires ts url = rule_matches D (fst r) url"
  shows "added Y D (rl @ [r]) (ps @ [(rule_id r, ts)]) U"
  using assms unfolding added_def by auto

lemma addRulePatterns_ok:
  assumes Y: "quantifyInfinite Y \<noteq> 1" and d: "\<forall>r \<in> set rl. describes Y D (fst r)"
    and st: "combinedURLFilters st = fold (\<lambda>(a, p). addPattern a p) ps new_CombinedURLFilters"
    and l: "\<not> late_universal Y (ignorePreviousRulesSeen st) (map fst rl)"
    and a: "added Y D rl0 ps (set (universalActionLocations st))"
  shows "\<exists>st' ps'. addRulePatterns Y rl st = Some (Inr st') \<and> combinedURLFilters st' = fold (\<lambda>(a, p). addPattern a p) ps' new_CombinedURLFilters
    \<and> added Y D (rl0 @ rl) ps' (set (universalActionLocations st'))
    \<and> length (universalActionLocations st') \<le> length (universalActionLocations st) + length rl"
  using d st l a
proof (induction rl arbitrary: st ps rl0)
  case Nil
  then show ?case by auto
next
  case (Cons r rl)
  obtain rule loc where r: "r = (rule, loc)" by (cases r)
  have "describes Y D rule" using Cons.prems(1) r by simp
  note a = addRulePattern_ok [OF Y this Cons.prems(2), of loc]
  have d: "\<forall>r \<in> set rl. describes Y D (fst r)" using Cons.prems(1) by simp
  show ?case
  proof (cases "universal_rule Y rule")
    case True
    have i: "\<not> ignorePreviousRulesSeen st" "\<not> late_universal Y (m_type (m_action rule) = IgnorePreviousRules) (map fst rl)"
      using Cons.prems(3) True r by (auto split: if_splits)
    let ?st = "st\<lparr>universalActionLocations := hs_add (rule_id (rule, loc)) (universalActionLocations st),
        ignorePreviousRulesSeen := m_type (m_action rule) = IgnorePreviousRules\<rparr>"
    have "added Y D (rl0 @ [r]) ps (set (universalActionLocations ?st))"
      using added_snoc_universal [OF Cons.prems(4), of r] True r by (simp add: hs_simps)
    with Cons.IH [OF d, of ?st ps "rl0 @ [r]"] i(2) Cons.prems(2) obtain st' ps' where
      "addRulePatterns Y rl ?st = Some (Inr st')" "combinedURLFilters st' = fold (\<lambda>(a, p). addPattern a p) ps' new_CombinedURLFilters"
      "added Y D (rl0 @ r # rl) ps' (set (universalActionLocations st'))"
      "length (universalActionLocations st') \<le> length (universalActionLocations ?st) + length rl" by auto
    moreover have "length (universalActionLocations ?st) \<le> length (universalActionLocations st) + 1" by (simp add: hs_add_def)
    ultimately show ?thesis using a True i(1) by (auto simp: r)
  next
    case False
    let ?ps = "\<lambda>ts. ps @ [(rule_id (rule, loc), ts)]"
    let ?st = "\<lambda>ts. st\<lparr>combinedURLFilters := fold (\<lambda>(a, p). addPattern a p) (?ps ts) new_CombinedURLFilters,
        ignorePreviousRulesSeen := ignorePreviousRulesSeen st \<or> m_type (m_action rule) = IgnorePreviousRules\<rparr>"
    obtain ts where ts: "addRulePattern Y rule loc st = Some (Inr (?st ts))" "legal_pattern ts"
      "\<forall>url. set url \<subseteq> {1..<128} \<longrightarrow> fires ts url = rule_matches D rule url" using a False by auto
    have l: "\<not> late_universal Y (ignorePreviousRulesSeen (?st ts)) (map fst rl)" using Cons.prems(3) False r by simp
    have "added Y D (rl0 @ [r]) (?ps ts) (set (universalActionLocations (?st ts)))"
      using added_snoc_pattern [OF Cons.prems(4), of r ts] False ts(2,3) r by simp
    with Cons.IH [OF d _ l, of "?ps ts" "rl0 @ [r]"] obtain st' ps' where
      "addRulePatterns Y rl (?st ts) = Some (Inr st')" "combinedURLFilters st' = fold (\<lambda>(a, p). addPattern a p) ps' new_CombinedURLFilters"
      "added Y D (rl0 @ r # rl) ps' (set (universalActionLocations st'))"
      "length (universalActionLocations st') \<le> length (universalActionLocations (?st ts)) + length rl" by auto
    then show ?thesis using ts(1) by (auto simp: r)
  qed
qed

section \<open>Flags and locations\<close>

lemma actionLocationAndFlags_parts:
  "drop_bit 32 (actionLocationAndFlags f l) = ucast f"
  "actionLocationAndFlags f l AND 0xFFFF00000000 = push_bit 32 (ucast f)"
  "location (actionLocationAndFlags f l) = ucast (of_nat l :: u32)"
proof -
  let ?a = "actionLocationAndFlags f l"
  have mask: "(0xFFFF00000000 :: u64) = push_bit 32 (mask 16)" by (simp add: mask_eq_exp_minus_1 push_bit_eq_mult)
  have bits: "bit ?a n \<longleftrightarrow> (if n < 32 then bit (of_nat l :: u32) n else n < 64 \<and> bit f (n - 32))" for n
    using bit_imp_le_length [of "of_nat l :: u32" n] bit_imp_le_length [of f "n - 32"]
    by (auto simp: actionLocationAndFlags_def bit_simps)
  have f16: "n < 16" "n < 32" "n < 64" if "bit f n" for n using bit_imp_le_length [OF that] by simp_all
  show "drop_bit 32 ?a = ucast f"
    using f16 by (intro bit_word_eqI) (auto simp: bit_drop_bit_eq bits bit_ucast_iff)
  show "?a AND 0xFFFF00000000 = push_bit 32 (ucast f)" unfolding mask
    using f16 by (intro bit_word_eqI) (auto simp: bit_and_iff bits bit_push_bit_iff bit_mask_iff bit_ucast_iff)
  have "ucast ?a = (of_nat l :: u32)" by (intro bit_word_eqI) (simp add: bit_ucast_iff bits)
  then show "location ?a = ucast (of_nat l :: u32)" by (simp add: location_def)
qed

lemma passes_iff: "passes flags (actionLocationAndFlags f l) \<longleftrightarrow> f = 0 \<or> flags AND f \<noteq> 0"
  and flagged_iff: "DFABytecodeInterpreter.flagged (actionLocationAndFlags f l) \<longleftrightarrow> f \<noteq> 0"
proof -
  have f16: "n < 16" "n < 32" "n < 64" if "bit f n" for n using bit_imp_le_length [OF that] by simp_all
  have same: "ucast (ucast f :: u64) = f" by (intro bit_word_eqI) (use f16 in \<open>auto simp: bit_ucast_iff\<close>)
  have "push_bit 32 (ucast f :: u64) = 0 \<longleftrightarrow> f = 0"
  proof
    assume "push_bit 32 (ucast f :: u64) = 0"
    then have "drop_bit 32 (push_bit 32 (ucast f :: u64)) = 0" by simp
    moreover have "drop_bit 32 (push_bit 32 (ucast f :: u64)) = ucast f"
      using f16 by (intro bit_word_eqI) (auto simp: bit_drop_bit_eq bit_push_bit_iff bit_ucast_iff)
    ultimately have "(ucast f :: u64) = 0" by simp
    then have "ucast (ucast f :: u64) = (0 :: u16)" by simp
    then show "f = 0" by (simp add: same)
  qed simp
  then show "passes flags (actionLocationAndFlags f l) \<longleftrightarrow> f = 0 \<or> flags AND f \<noteq> 0"
    "DFABytecodeInterpreter.flagged (actionLocationAndFlags f l) \<longleftrightarrow> f \<noteq> 0"
    by (simp_all add: passes_def DFABytecodeInterpreter.flagged_def actionLocationAndFlags_parts same)
qed

lemma serializeActionsFrom_length:
  "serializeActionsFrom rules previous bs locs = Some (bytes, locs') \<Longrightarrow> length locs' = length locs + length rules"
proof (induction rules previous bs locs rule: serializeActionsFrom.induct)
  case (2 rule rules previous bs locs)
  have "length (takeWhile (sameTriggerSelector rule) rules) + length (dropWhile (sameTriggerSelector rule) rules) = length rules"
    by (metis length_append takeWhile_dropWhile_id)
  then show ?case using 2 by (auto simp: Let_def split: Option.bind_splits if_splits)
qed simp

section \<open>The compiled rules\<close>

lemma fires_take: "fires ts (map unat url) \<longleftrightarrow> (\<exists>k. take k (terminated url) \<in> terms_lang ts)"
proof
  assume "fires ts (map unat url)"
  then obtain u v where "map unat url @ [0] = u @ v" "u \<in> terms_lang ts" unfolding fires_def by blast
  then have "take (length u) (terminated url) \<in> terms_lang ts" by (simp add: terminated_def)
  then show "\<exists>k. take k (terminated url) \<in> terms_lang ts" ..
next
  assume "\<exists>k. take k (terminated url) \<in> terms_lang ts"
  then obtain k where "take k (terminated url) \<in> terms_lang ts" ..
  moreover have "map unat url @ [0] = take k (terminated url) @ drop k (terminated url)"
    unfolding append_take_drop_id by (simp add: terminated_def)
  ultimately show "fires ts (map unat url)" unfolding fires_def by blast
qed

lemma new_NFA_matches: "\<not> nfa_matches new_NFA w a"
  by (auto simp: nfa_matches_def finals_def new_NFA_def createNode_def new_NFANode_def)

text \<open>The state after all rules and the NFAs that are compiled.\<close>

definition rule_state :: "yarr \<Rightarrow> Rule list \<Rightarrow> nat list \<Rightarrow> CompilerState" where
  "rule_state Y rules locs = (case addRulePatterns Y (zip rules locs) new_CompilerState of
     Some (Inr st) \<Rightarrow> st | _ \<Rightarrow> new_CompilerState)"

definition rule_nfas :: "CompilerState \<Rightarrow> NFA list" where
  "rule_nfas st = (case createNFAs (combinedURLFilters st) of
     Some nfas \<Rightarrow> if nfas = [] \<and> universalActionLocations st \<noteq> [] then [new_NFA] else nfas | None \<Rightarrow> [])"

lemma rule_nfas_ok:
  assumes Y: "quantifyInfinite Y \<noteq> 1" and d: "\<forall>r \<in> set rules. describes Y D r"
    and l: "\<not> late_universal Y False rules" and len: "length locs = length rules" "rules \<noteq> []"
  shows "\<exists>nfas. addRulePatterns Y (zip rules locs) new_CompilerState = Some (Inr (rule_state Y rules locs))
    \<and> createNFAs (combinedURLFilters (rule_state Y rules locs)) = Some nfas
    \<and> rule_nfas (rule_state Y rules locs)
       = (if nfas = [] \<and> universalActionLocations (rule_state Y rules locs) \<noteq> [] then [new_NFA] else nfas)
    \<and> rule_nfas (rule_state Y rules locs) \<noteq> []
    \<and> length (universalActionLocations (rule_state Y rules locs)) \<le> length rules
    \<and> set (universalActionLocations (rule_state Y rules locs)) = {rule_id r | r. r \<in> set (zip rules locs) \<and> universal_rule Y (fst r)}
    \<and> (\<forall>a url. set (map unat url) \<subseteq> {1..<128} \<longrightarrow> (a \<in> set (universalActionLocations (rule_state Y rules locs))
         \<or> (\<exists>nfa \<in> set (rule_nfas (rule_state Y rules locs)). \<exists>k. nfa_matches nfa (take k (terminated url)) a))
         = (\<exists>r \<in> set (zip rules locs). a = rule_id r \<and> rule_applies Y D (fst r) (map unat url)))"
proof -
  let ?rl = "zip rules locs" and ?st = "rule_state Y rules locs"
  have mf: "map fst ?rl = rules" using len(1) by simp
  have dz: "\<forall>r \<in> set ?rl. describes Y D (fst r)" using d by (auto dest: set_zip_leftD)
  have init: "combinedURLFilters new_CompilerState = fold (\<lambda>(a, p). addPattern a p) [] new_CombinedURLFilters"
    "\<not> late_universal Y (ignorePreviousRulesSeen new_CompilerState) (map fst ?rl)"
    "added Y D [] [] (set (universalActionLocations new_CompilerState))"
    using l mf by (simp_all add: new_CompilerState_def added_def)
  obtain st ps where st: "addRulePatterns Y ?rl new_CompilerState = Some (Inr st)"
    "combinedURLFilters st = fold (\<lambda>(a, p). addPattern a p) ps new_CombinedURLFilters"
    "added Y D ?rl ps (set (universalActionLocations st))" "length (universalActionLocations st) \<le> length rules"
    using addRulePatterns_ok [OF Y dz init] len(1) by (auto simp: new_CompilerState_def)
  have eq: "?st = st" by (simp add: rule_state_def st(1))
  have legal: "\<forall>x \<in> set ps. legal_pattern (snd x)" using st(3) by (simp add: added_def)
  note ok = pt.invar_fold [OF pt.invar_empty legal]
  obtain nfas where nfas: "createNFAs (combinedURLFilters st) = Some nfas"
    "\<And>w a. (\<exists>nfa \<in> set nfas. nfa_matches nfa w a) \<longleftrightarrow> (\<exists>p. (a, p) \<in> set ps \<and> w \<in> terms_lang p)"
    using createNFAs_spec [OF ok] unfolding st(2) by (auto simp: pt.lookup_build [OF legal])
  have non: "nfas \<noteq> []" if "ps \<noteq> []"
  proof -
    obtain a p where p: "(a, p) \<in> set ps" using \<open>ps \<noteq> []\<close> by (cases ps) auto
    then have "p \<noteq> []" using legal by (auto simp: legal_pattern_def)
    moreover have "a \<in> filterActions (fold (\<lambda>(a, p). addPattern a p) ps new_CombinedURLFilters) p"
      using p pt.lookup_build [OF legal] by blast
    ultimately show ?thesis using createNFAs_nonempty [OF ok] nfas(1) unfolding st(2) by blast
  qed
  have rn: "rule_nfas st = (if nfas = [] \<and> universalActionLocations st \<noteq> [] then [new_NFA] else nfas)"
    by (simp add: rule_nfas_def nfas(1))
  have "ps \<noteq> [] \<or> universalActionLocations st \<noteq> []"
  proof -
    obtain r where r: "r \<in> set ?rl" using len by (cases rules; cases locs) auto
    show ?thesis
    proof (cases "universal_rule Y (fst r)")
      case True
      then have "rule_id r \<in> set (universalActionLocations st)" using st(3) r unfolding added_def by blast
      then show ?thesis by auto
    next
      case False
      then have "\<exists>x \<in> set ps. fst x = rule_id r" using st(3) r unfolding added_def by blast
      then show ?thesis by auto
    qed
  qed
  then have ne: "rule_nfas st \<noteq> []" unfolding rn using non by auto
  have match: "(a \<in> set (universalActionLocations st) \<or> (\<exists>nfa \<in> set (rule_nfas st). \<exists>k. nfa_matches nfa (take k (terminated url)) a))
       = (\<exists>r \<in> set ?rl. a = rule_id r \<and> rule_applies Y D (fst r) (map unat url))"
    if url: "set (map unat url) \<subseteq> {1..<128}" for a url
  proof -
    have "(\<exists>nfa \<in> set (rule_nfas st). \<exists>k. nfa_matches nfa (take k (terminated url)) a) \<longleftrightarrow> (\<exists>p. (a, p) \<in> set ps \<and> fires p (map unat url))"
      unfolding fires_take
    proof (cases "nfas = []")
      case True
      then show "(\<exists>nfa \<in> set (rule_nfas st). \<exists>k. nfa_matches nfa (take k (terminated url)) a) \<longleftrightarrow> (\<exists>p. (a, p) \<in> set ps \<and> (\<exists>k. take k (terminated url) \<in> terms_lang p))"
        using nfas(2) [where a = a] new_NFA_matches by (auto simp: rn)
    next
      case False
      have "(\<exists>nfa \<in> set nfas. \<exists>k. nfa_matches nfa (take k (terminated url)) a) \<longleftrightarrow> (\<exists>k. \<exists>nfa \<in> set nfas. nfa_matches nfa (take k (terminated url)) a)" by blast
      also have "\<dots> \<longleftrightarrow> (\<exists>p. (a, p) \<in> set ps \<and> (\<exists>k. take k (terminated url) \<in> terms_lang p))" unfolding nfas(2) by blast
      finally show "(\<exists>nfa \<in> set (rule_nfas st). \<exists>k. nfa_matches nfa (take k (terminated url)) a) \<longleftrightarrow> (\<exists>p. (a, p) \<in> set ps \<and> (\<exists>k. take k (terminated url) \<in> terms_lang p))"
        using False by (simp add: rn)
    qed
    also have "\<dots> \<longleftrightarrow> (\<exists>r \<in> set ?rl. a = rule_id r \<and> \<not> universal_rule Y (fst r) \<and> rule_matches D (fst r) (map unat url))"
    proof
      assume "\<exists>p. (a, p) \<in> set ps \<and> fires p (map unat url)"
      then obtain p where p: "(a, p) \<in> set ps" "fires p (map unat url)" by blast
      obtain r where "r \<in> set ?rl" "fst (a, p) = rule_id r" "\<not> universal_rule Y (fst r)"
        "\<forall>url. set url \<subseteq> {1..<128} \<longrightarrow> fires (snd (a, p)) url = rule_matches D (fst r) url"
        using st(3) p(1) unfolding added_def by blast
      then show "\<exists>r \<in> set ?rl. a = rule_id r \<and> \<not> universal_rule Y (fst r) \<and> rule_matches D (fst r) (map unat url)" using p(2) url by auto
    next
      assume "\<exists>r \<in> set ?rl. a = rule_id r \<and> \<not> universal_rule Y (fst r) \<and> rule_matches D (fst r) (map unat url)"
      then obtain r where r: "r \<in> set ?rl" "a = rule_id r" "\<not> universal_rule Y (fst r)" "rule_matches D (fst r) (map unat url)" by blast
      obtain x where "x \<in> set ps" "fst x = rule_id r" "\<forall>url. set url \<subseteq> {1..<128} \<longrightarrow> fires (snd x) url = rule_matches D (fst r) url"
        using st(3) r(1,3) unfolding added_def by blast
      then show "\<exists>p. (a, p) \<in> set ps \<and> fires p (map unat url)" using r(2,4) url by (intro exI [of _ "snd x"]) (cases x, simp)
    qed
    moreover have "a \<in> set (universalActionLocations st) \<longleftrightarrow> (\<exists>r \<in> set ?rl. a = rule_id r \<and> universal_rule Y (fst r))"
      using st(3) unfolding added_def by blast
    ultimately show ?thesis unfolding rule_applies_def by blast
  qed
  have "set (universalActionLocations st) = {rule_id r | r. r \<in> set ?rl \<and> universal_rule Y (fst r)}" using st(3) unfolding added_def by blast
  then show ?thesis unfolding eq using st(1,4) nfas(1) rn ne match by blast
qed

lemma compileRuleList_actions:
  assumes Y: "quantifyInfinite Y \<noteq> 1" and d: "\<forall>r \<in> set rules. describes Y D r" and ne: "rules \<noteq> []" "length rules < 65535"
    and s: "serializeActions rules = Some (bytes, locs)" and l: "\<not> late_universal Y False rules"
    and nfas: "\<forall>nfa \<in> set (rule_nfas (rule_state Y rules locs)). rule_nfa nfa"
    and size: "total_size (map (compiled_dfa (universalActionLocations (rule_state Y rules locs)))
        (List.enumerate 0 (rule_nfas (rule_state Y rules locs)))) < max_u32"
    and url: "set (map unat url) \<subseteq> {1..<128}"
  shows "\<exists>bc acts roots. compileRuleList Y (Inr rules) client = Some (writeBytecode bc (writeActions bytes client), None)
    \<and> interpret_bytecode bc url flags = Some acts \<and> actionsFromDFARoot bc = Some roots
    \<and> set acts \<union> set roots = {ucast (of_nat loc :: u32) | rule loc. (rule, loc) \<in> set (zip rules locs)
        \<and> rule_applies Y D rule (map unat url)
        \<and> (trigger_flags (m_trigger rule) = 0 \<or> flags AND trigger_flags (m_trigger rule) \<noteq> 0)}
    \<and> set roots = {ucast (of_nat loc :: u32) | rule loc. (rule, loc) \<in> set (zip rules locs) \<and> universal_rule Y rule
        \<and> trigger_flags (m_trigger rule) = 0}"
proof -
  let ?st = "rule_state Y rules locs" and ?rl = "zip rules locs"
  have len: "length locs = length rules" using serializeActionsFrom_length [of rules None "[]" "[]"] s by (simp add: serializeActions_def)
  obtain ns where st: "addRulePatterns Y ?rl new_CompilerState = Some (Inr ?st)" "createNFAs (combinedURLFilters ?st) = Some ns"
    "rule_nfas ?st = (if ns = [] \<and> universalActionLocations ?st \<noteq> [] then [new_NFA] else ns)" "rule_nfas ?st \<noteq> []"
    "length (universalActionLocations ?st) \<le> length rules"
    "set (universalActionLocations ?st) = {rule_id r | r. r \<in> set ?rl \<and> universal_rule Y (fst r)}"
    and match: "\<And>a. (a \<in> set (universalActionLocations ?st) \<or> (\<exists>nfa \<in> set (rule_nfas ?st). \<exists>k. nfa_matches nfa (take k (terminated url)) a))
         = (\<exists>r \<in> set ?rl. a = rule_id r \<and> rule_applies Y D (fst r) (map unat url))"
  proof -
    from rule_nfas_ok [OF Y d l len ne(1)] show ?thesis
    proof (elim exE conjE, goal_cases)
      case (1 ns)
      note m = 1(7) [rule_format, OF url]
      show ?case by (rule that [OF 1(1-6) m])
    qed
  qed
  have u: "length (universalActionLocations ?st) < 65535" using st(5) ne(2) by simp
  have "0 \<notin> set url"
  proof
    assume "0 \<in> set url"
    then have "unat (0 :: u8) \<in> set (map unat url)" unfolding set_map by (rule imageI)
    then show False using url by auto
  qed
  from compileNFAs_ok [OF st(4) nfas u this size, of flags] obtain bc acts roots where
    c: "compileNFAs (universalActionLocations ?st) (rule_nfas ?st) = Some bc" "interpret_bytecode bc url flags = Some acts"
      "actionsFromDFARoot bc = Some roots"
    and set: "set acts \<union> set roots = {location a | a. passes flags a \<and> (a \<in> set (universalActionLocations ?st)
      \<or> (\<exists>nfa \<in> set (rule_nfas ?st). \<exists>k. nfa_matches nfa (take k (terminated url)) a))}"
    and roots: "set roots = {location a | a. a \<in> set (universalActionLocations ?st) \<and> \<not> DFABytecodeInterpreter.flagged a}" by (elim exE conjE) (rule that)
  have comp: "compileRuleList Y (Inr rules) client = Some (writeBytecode bc (writeActions bytes client), None)"
    using s st(1,2) c(1) st(3) by (simp add: compileRuleList_def Let_def)
  have "set acts \<union> set roots = {location (rule_id r) | r. r \<in> set ?rl \<and> rule_applies Y D (fst r) (map unat url) \<and> passes flags (rule_id r)}"
    unfolding set match by blast
  also have "\<dots> = {ucast (of_nat loc :: u32) | rule loc. (rule, loc) \<in> set ?rl \<and> rule_applies Y D rule (map unat url)
        \<and> (trigger_flags (m_trigger rule) = 0 \<or> flags AND trigger_flags (m_trigger rule) \<noteq> 0)}"
    unfolding actionLocationAndFlags_parts(3) passes_iff by auto
  finally have all: "set acts \<union> set roots = {ucast (of_nat loc :: u32) | rule loc. (rule, loc) \<in> set ?rl
        \<and> rule_applies Y D rule (map unat url)
        \<and> (trigger_flags (m_trigger rule) = 0 \<or> flags AND trigger_flags (m_trigger rule) \<noteq> 0)}" .
  have "set roots = {location (rule_id r) | r. r \<in> set ?rl \<and> universal_rule Y (fst r) \<and> \<not> DFABytecodeInterpreter.flagged (rule_id r)}"
    unfolding roots st(6) by blast
  also have "\<dots> = {ucast (of_nat loc :: u32) | rule loc. (rule, loc) \<in> set ?rl \<and> universal_rule Y rule \<and> trigger_flags (m_trigger rule) = 0}"
    unfolding actionLocationAndFlags_parts(3) flagged_iff by auto
  finally have "set roots = {ucast (of_nat loc :: u32) | rule loc. (rule, loc) \<in> set ?rl \<and> universal_rule Y rule \<and> trigger_flags (m_trigger rule) = 0}" .
  then show ?thesis by (intro exI conjI) (rule comp, rule c(2), rule c(3), rule all)
qed

section \<open>The size of the compiled automata\<close>

lemma block_actions_size:
  "code_size (block dfa i) \<le> (if isKilled (nodes dfa ! i) then 0 else 7 * length (node_actions dfa (nodes dfa ! i)) + 908)"
proof -
  let ?node = "nodes dfa ! i"
  have "isize (range_instr r) \<le> 7" "isize (act_instr a) \<le> 7" for r a by (auto simp: range_instr_def act_instr_def)
  then have "code_size (map range_instr rs) \<le> 7 * length rs" "code_size (map act_instr as) \<le> 7 * length as" for rs as
    using code_size_bound [of "map range_instr rs"] code_size_bound [of "map act_instr as"] by auto
  then have "code_size (map range_instr (nodeRanges (destinations_of dfa ?node))) \<le> 903"
    "code_size (action_instrs dfa ?node) \<le> 7 * length (node_actions dfa ?node)"
    using nodeRanges_length [of "destinations_of dfa ?node"]
    by (auto simp: action_instrs_def intro: order_trans [of _ "7 * length (nodeRanges (destinations_of dfa ?node))"])
  moreover have "isize (case node_fallback dfa ?node of None \<Rightarrow> TerminateI | Some t \<Rightarrow> JumpI t) \<le> 5" by (simp split: option.split)
  ultimately show ?thesis by (simp add: block_def transition_instrs_def Let_def)
qed

lemma program_actions_size:
  assumes wf: "dfa_wf dfa" and f: "\<And>i. i < length (nodes dfa) \<Longrightarrow> code_size (block dfa i) \<le> f i"
  shows "code_size (program dfa) \<le> sum f {..<length (nodes dfa)}"
proof -
  have ord: "set (node_order dfa) = {..<length (nodes dfa)}" "distinct (node_order dfa)" using node_order_mem [OF wf] by auto
  have "code_size (concat (map (block dfa) is)) \<le> sum_list (map f is)" if "set is \<subseteq> {..<length (nodes dfa)}" for "is"
    using that
  proof (induction "is")
    case (Cons i "is")
    then show ?case using f [of i] by simp
  qed simp
  then have "code_size (program dfa) \<le> sum_list (map f (node_order dfa))" using ord(1) by (simp add: program_def)
  also have "\<dots> = sum f {..<length (nodes dfa)}" using ord by (metis sum.distinct_set_conv_list)
  finally show ?thesis .
qed

text \<open>Killed nodes take no code and the others keep their actions, so the converted automaton bounds the compiled one.\<close>

lemma minimize_keeps_actions:
  assumes wf: "dfa_wf dfa" and mn: "minimizable dfa" and m: "minimize dfa = Some m" and i: "i < length (nodes m)" "\<not> isKilled (nodes m ! i)"
  shows "node_actions m (nodes m ! i) = node_actions dfa (nodes dfa ! i)"
proof -
  obtain d rep where s: "simplified_dfa dfa d" and mi: "minimized_dfa rep d m" using minimize_result [OF wf mn] m by auto
  have len: "length (nodes dfa) = length (nodes m)" "length (nodes d) = length (nodes m)"
    using s mi by (simp_all add: simplified_dfa_def minimized_dfa_def)
  have "rep i = i" using mi i len(2) unfolding minimized_dfa_def by metis
  then have "node_actions m (nodes m ! i) = node_actions d (nodes d ! i)" using mi i(1) len(2) unfolding minimized_dfa_def by metis
  also have "\<dots> = node_actions dfa (nodes dfa ! i)" using s i(1) len(1) unfolding simplified_dfa_def by metis
  finally show ?thesis .
qed

lemma compiled_size:
  assumes nfa: "rule_nfa nfa" and u: "length u < 65535" and dfa: "convert nfa = Some dfa"
  shows "code_size (program (compiled_dfa u (i, nfa))) \<le> 7 * length u
     + (\<Sum>q < length (nodes dfa). 7 * length (node_actions dfa (nodes dfa ! q)) + 908)"
proof -
  have r: "nfa_wf nfa" "rule_dfa dfa" using nfa dfa by (simp_all add: rule_nfa_def)
  note dw = convert_wf [OF r(1) dfa]
  have mn: "minimizable dfa" using convert_layout [OF r(1) dfa] r(2) by (simp add: minimizable_def rule_dfa_def)
  obtain m where m: "minimize dfa = Some m" "dfa_wf m" "length (nodes m) = length (nodes dfa)" using minimize_simulates [OF dw mn] by blast
  have rt: "root m < length (nodes m)" using m(2) by (simp add: dfa_wf_def)
  define m' where "m' = m\<lparr>dfa_actions := dfa_actions m @ u, nodes := (nodes m)[root m := node_setActions (length (dfa_actions m)) (length u) (nodes m ! root m)]\<rparr>"
  have add: "addUniversalActions u m = Some m'" using u rt by (simp add: addUniversalActions_def vec_simps Let_def m'_def)
  have cd: "compiled_dfa u (i, nfa) = (if i = 0 then m' else m)" using dfa m(1) add by (simp add: compiled_dfa_def)
  let ?f = "\<lambda>q. 7 * length (node_actions dfa (nodes dfa ! q)) + 908" and ?g = "\<lambda>q. if q = root m then 7 * length u else 0"
  have bm: "code_size (block m q) \<le> ?f q" if "q < length (nodes m)" for q
    using block_actions_size [of m q] minimize_keeps_actions [OF dw mn m(1) that] by (simp split: if_splits)
  have bm': "code_size (block m' q) \<le> ?g q + ?f q" if q: "q < length (nodes m)" for q
  proof (cases "q = root m")
    case True
    then have "node_actions m' (nodes m' ! q) = u" using q u by (simp add: m'_def node_actions_def node_setActions_def window_end)
    then show ?thesis using block_actions_size [of m' q] True by (simp split: if_splits)
  next
    case False
    then have eq: "nodes m' ! q = nodes m ! q" by (simp add: m'_def)
    show ?thesis
    proof (cases "isKilled (nodes m ! q)")
      case True
      then show ?thesis using block_actions_size [of m' q] eq by simp
    next
      case nk: False
      then have "m_actionsStart (nodes m ! q) + m_actionsLength (nodes m ! q) \<le> length (dfa_actions m)"
        using m(2) q by (auto simp: dfa_wf_def dfa_node_wf_def node_in_range_def)
      then have "node_actions m' (nodes m' ! q) = node_actions m (nodes m ! q)" unfolding eq by (simp add: node_actions_def m'_def window_append)
      then have "code_size (block m' q) \<le> ?f q" using block_actions_size [of m' q] minimize_keeps_actions [OF dw mn m(1) q nk]
        by (simp split: if_splits)
      then show ?thesis by simp
    qed
  qed
  have len: "length (nodes m') = length (nodes m)" by (simp add: m'_def)
  have "code_size (program m') \<le> (\<Sum>q < length (nodes m'). ?g q + ?f q)"
    by (rule program_actions_size) (use compiled_dfa_ok(2) [OF nfa u, of 0] dfa m(1) add bm' len in \<open>simp_all add: compiled_dfa_def dfa_ok_def\<close>)
  also have "\<dots> = 7 * length u + (\<Sum>q < length (nodes dfa). ?f q)"
    unfolding sum.distrib len using rt m(3) by (simp add: sum.delta)
  finally have "code_size (program m') \<le> 7 * length u + (\<Sum>q < length (nodes dfa). ?f q)" .
  moreover have "code_size (program m) \<le> (\<Sum>q < length (nodes m). ?f q)" by (rule program_actions_size [OF m(2) bm])
  ultimately show ?thesis unfolding cd using m(3) by auto
qed

end
