(* ===== verification/RuleListProperties.thy ===== *)
theory RuleListProperties
  imports RuleListCorrect
begin

text \<open>
  The properties of \<^verbatim>\<open>compileRuleList\<close> (\<^verbatim>\<open>Source/WebCore/contentextensions/ContentExtensionCompiler.cpp\<close>) as a whole and a
  rule list they are applied to: one rule that blocks what the regular expression \<open>^a\<close> matches, for the flag 1.
\<close>

section \<open>A concrete rule list\<close>

definition block_yarr :: yarr where
  "block_yarr = \<lparr>NewlineClassID = 3, quantifyInfinite = - 1,
     yarr_parse = (\<lambda>pattern. ([CallAssertionBOL, CallPatternCharacter 97], False))\<rparr>"

definition block_rule :: Rule where
  "block_rule = \<lparr>m_trigger = \<lparr>urlFilter = String8 [94, 97], urlFilterIsCaseSensitive = True, trigger_flags = 1\<rparr>,
     m_action = \<lparr>m_extensionIdentifier = None, m_type = BlockLoad, m_actionID = - 1, m_stringArgument = None\<rparr>\<rparr>"

definition block_nfa :: NFA where
  "block_nfa = \<lparr>m_nodes = [\<lparr>transitions = [(97, [1])], transitionsOnAnyCharacter = [], finalRuleIds = []\<rparr>,
     \<lparr>transitions = [], transitionsOnAnyCharacter = [], finalRuleIds = [4294967296]\<rparr>], m_root = 0\<rparr>"

definition block_dfa :: DFA where
  "block_dfa = \<lparr>dfa_actions = [4294967296], dfa_transitions = [(97, 1)],
     nodes = [\<lparr>m_actionsStart = 0, m_transitionsStart = 0, m_actionsLength = 0, m_transitionsLength = 1, m_flags = 0\<rparr>,
              \<lparr>m_actionsStart = 0, m_transitionsStart = 1, m_actionsLength = 1, m_transitionsLength = 0, m_flags = 0\<rparr>],
     root = 0\<rparr>"

lemma block_serialized: "serializeActions [block_rule] = Some ([0], [0])"
  by code_simp

lemma block_state: "addRulePatterns block_yarr [(block_rule, 0)] new_CompilerState = Some (Inr
    \<lparr>combinedURLFilters = \<lparr>m_prefixTreeRoot = PrefixTreeVertex [(CharacterSet One False 158456325028528675187087900672,
        PrefixTreeVertex [] [4294967296] False)] [] False\<rparr>, universalActionLocations = [], ignorePreviousRulesSeen = False\<rparr>)"
  by code_simp

lemma block_nfas_created: "createNFAs \<lparr>m_prefixTreeRoot = PrefixTreeVertex [(CharacterSet One False 158456325028528675187087900672,
        PrefixTreeVertex [] [4294967296] False)] [] False\<rparr> = Some [block_nfa]"
  by code_simp

lemma block_not_universal: "\<not> universal_rule block_yarr block_rule"
  by code_simp

lemma no_transitions:
  "\<forall>key \<in> set keys. sets ! key = [] \<Longrightarrow> foldM (addKeyTransition graph sets) keys st = Some st"
  by (induction keys) (simp_all add: addKeyTransition_def)

lemma one_transition:
  assumes "key < 128" "\<And>k. k < 128 \<Longrightarrow> k \<noteq> key \<Longrightarrow> sets ! k = []"
  shows "foldM (addKeyTransition graph sets) [0..<128] st = addKeyTransition graph sets key st"
proof -
  have split: "[0..<128] = [0..<key] @ key # [Suc key..<128]"
    using upt_add_eq_append [of 0 key "128 - key"] upt_conv_Cons [OF assms(1)] assms(1) by simp
  have "foldM (addKeyTransition graph sets) [0..<key] st = Some st" by (rule no_transitions) (use assms in auto)
  moreover have "foldM (addKeyTransition graph sets) [Suc key..<128] st' = Some st'" for st' by (rule no_transitions) (use assms(2) in auto)
  ultimately show ?thesis unfolding split foldM_append by (cases "addKeyTransition graph sets key st") simp_all
qed

lemma block_populated:
  "populateTransitions [0] (m_nodes block_nfa) [[], []] = Some ((replicate 128 [])[97 := [1]], [])"
  "populateTransitions [1] (m_nodes block_nfa) [[], []] = Some (replicate 128 [], [])"
  by (simp_all add: populateTransitions_def fallbackSet_def block_nfa_def vec_simps populateSlot_def addWithClosure_def
      extendSetWithClosure_def hs_simps hs_add_def hs_addAll_def)

lemma block_resolved: "resolveEpsilonClosures (m_nodes block_nfa) epsilonTransitionCharacter = Some (m_nodes block_nfa, [[], []])"
  by (simp add: resolveEpsilonClosures_def block_nfa_def epsilonClosureExcludingSelf_def vec_simps epsilonTransitionCharacter_def)

definition block_dfa0 :: DFA where
  "block_dfa0 = \<lparr>dfa_actions = [], dfa_transitions = [], nodes = [node_setActions 0 0 new_DFANode], root = 0\<rparr>"

definition block_dfa1 :: DFA where
  "block_dfa1 = \<lparr>dfa_actions = [4294967296], dfa_transitions = [(97, 1)],
     nodes = [node_setTransitions 0 1 (node_setActions 0 0 new_DFANode), node_setActions 0 1 new_DFANode], root = 0\<rparr>"

lemma block_processed:
  "processNodeSet (m_nodes block_nfa) [[], []] ([0], 0) (block_dfa0, [([0], 0)], [])
     = Some (block_dfa1, [([0], 0), ([1], 1)], [([1], 1)])"
  "processNodeSet (m_nodes block_nfa) [[], []] ([1], 1) (block_dfa1, [([0], 0), ([1], 1)], [])
     = Some (block_dfa, [([0], 0), ([1], 1)], [])"
proof -
  have "foldM (addKeyTransition (m_nodes block_nfa) ((replicate 128 [])[97 := [1]])) [0..<128] (block_dfa0, [([0], 0)], [])
     = addKeyTransition (m_nodes block_nfa) ((replicate 128 [])[97 := [1]]) 97 (block_dfa0, [([0], 0)], [])"
    by (rule one_transition) simp_all
  also have "\<dots> = Some (\<lparr>dfa_actions = [4294967296], dfa_transitions = [(97, 1)],
      nodes = [node_setActions 0 0 new_DFANode, node_setActions 0 1 new_DFANode], root = 0\<rparr>, [([0], 0), ([1], 1)], [([1], 1)])"
    by (simp add: addKeyTransition_def getOrCreateDFANode_def findNodeSet_def uniqueNodeIdSet_eq_def translate_def block_nfa_def
        vec_simps hs_simps hs_add_def hs_addAll_def block_dfa0_def)
  finally show "processNodeSet (m_nodes block_nfa) [[], []] ([0], 0) (block_dfa0, [([0], 0)], [])
     = Some (block_dfa1, [([0], 0), ([1], 1)], [([1], 1)])"
    by (simp add: processNodeSet_def block_populated [unfolded One_nat_def] vec_simps Let_def block_dfa1_def) (simp add: block_dfa0_def)
  have "foldM (addKeyTransition (m_nodes block_nfa) (replicate 128 [])) [0..<128] st = Some st" for st
    by (rule no_transitions) simp
  then show "processNodeSet (m_nodes block_nfa) [[], []] ([1], 1) (block_dfa1, [([0], 0), ([1], 1)], [])
     = Some (block_dfa, [([0], 0), ([1], 1)], [])"
    by (simp add: processNodeSet_def block_populated [unfolded One_nat_def] vec_simps Let_def block_dfa1_def block_dfa_def node_setTransitions_def
        node_setActions_def new_DFANode_def)
qed

lemma block_converted: "convert block_nfa = Some block_dfa"
proof -
  have "m_root block_nfa = 0" by (simp add: block_nfa_def)
  moreover have "translate (m_nodes block_nfa) [0] new_DFA = Some (block_dfa0, ([0], 0))"
    by (simp add: translate_def block_nfa_def vec_simps hs_addAll_def new_DFA_def block_dfa0_def)
  moreover have "convertLoop (m_nodes block_nfa) [[], []] (block_dfa0, [([0], 0)], [([0], 0)]) = Some block_dfa"
    by (simp add: convertLoop.simps [of _ _ "(block_dfa0, [([0], 0)], [([0], 0)])"] block_processed [unfolded One_nat_def]
        convertLoop.simps [of _ _ "(block_dfa1, [([0], 0), ([Suc 0], Suc 0)], [([Suc 0], Suc 0)])"])
  ultimately show ?thesis by (simp add: convert_def block_resolved extendSetWithClosure_def vec_simps)
qed

lemma block_rule_nfas:
  "rule_nfas (rule_state block_yarr [block_rule] [0]) = [block_nfa]"
  "universalActionLocations (rule_state block_yarr [block_rule] [0]) = []"
proof -
  have "rule_state block_yarr [block_rule] [0] = \<lparr>combinedURLFilters = \<lparr>m_prefixTreeRoot = PrefixTreeVertex
      [(CharacterSet One False 158456325028528675187087900672, PrefixTreeVertex [] [4294967296] False)] [] False\<rparr>,
      universalActionLocations = [], ignorePreviousRulesSeen = False\<rparr>"
    unfolding rule_state_def zip_Cons_Cons zip_Nil block_state by simp
  then show "rule_nfas (rule_state block_yarr [block_rule] [0]) = [block_nfa]"
    "universalActionLocations (rule_state block_yarr [block_rule] [0]) = []"
    by (simp_all add: rule_nfas_def block_nfas_created)
qed

lemma block_rule_nfa: "rule_nfa block_nfa"
proof -
  let ?n0 = "nodes block_dfa ! 0" and ?n1 = "nodes block_dfa ! 1"
  have n: "set (nodes block_dfa) = {?n0, ?n1}" by (simp add: block_dfa_def)
  have t: "node_transitions block_dfa ?n0 = [(97, 1)]" "node_fallback block_dfa ?n0 = None"
    "node_transitions block_dfa ?n1 = []" "node_fallback block_dfa ?n1 = None" "m_transitionsLength ?n0 = 1" "m_transitionsLength ?n1 = 0"
    by (simp_all add: block_dfa_def node_transitions_def node_fallback_def window_def hasFallbackTransition_def)
  have "nfa_wf block_nfa"
    by (simp add: nfa_wf_def block_nfa_def node_wf_def)
  moreover have "eol_ok block_dfa" unfolding eol_ok_def n using t by (simp add: node_step_def)
  moreover have "terminator_distinct block_dfa" unfolding terminator_distinct_def n using t by simp
  moreover have "\<not> one_missing block_dfa ?n0" "\<not> one_missing block_dfa ?n1" using t by (simp_all add: one_missing_def)
  then have "\<forall>node \<in> set (nodes block_dfa). \<not> one_missing block_dfa node" unfolding n by blast
  moreover have "\<not> hasActions (nodes block_dfa ! root block_dfa)" "length (nodes block_dfa) \<le> max_u32"
    by (simp_all add: block_dfa_def hasActions_def max_u32_def)
  ultimately show ?thesis by (simp add: rule_nfa_def block_converted rule_dfa_def)
qed

lemma block_rule_size: "total_size (map (compiled_dfa []) (List.enumerate 0 [block_nfa])) < max_u32"
proof -
  have "{..<length (nodes block_dfa)} = {0, 1}" by (auto simp: block_dfa_def)
  moreover have "node_actions block_dfa (nodes block_dfa ! 0) = []" "length (node_actions block_dfa (nodes block_dfa ! 1)) = 1"
    by (simp_all add: block_dfa_def node_actions_def window_def)
  ultimately have "(\<Sum>q < length (nodes block_dfa). 7 * length (node_actions block_dfa (nodes block_dfa ! q)) + 908) = 1823" by simp
  then have "code_size (program (compiled_dfa [] (0, block_nfa))) \<le> 1823"
    using compiled_size [OF block_rule_nfa _ block_converted, of "[]" 0] by simp
  then show ?thesis by (simp add: total_size_def max_u32_def)
qed

section \<open>Correctness of the compilation\<close>


lemma block_described: "describes block_yarr (\<lambda>rule. (True, [RChar 97], False)) block_rule"
  by (simp add: describes_def block_rule_def block_yarr_def pattern_calls_def containsOnlyASCII_def isASCII_def)

lemma block_applies: "rule_applies block_yarr (\<lambda>rule. (True, [RChar 97], False)) block_rule [97, 98]"
proof -
  have "[97, 98 :: nat] = [] @ [97] @ [98]" "[97] \<in> regexes_lang (urlFilterIsCaseSensitive (m_trigger block_rule)) [RChar 97]"
    by (simp_all add: same_char_def)
  then have "matches_url True False (regexes_lang (urlFilterIsCaseSensitive (m_trigger block_rule)) [RChar 97]) [97, 98]"
    unfolding matches_url_def by blast
  then show ?thesis by (simp add: rule_applies_def rule_matches_def)
qed


section \<open>The error of the compilation\<close>


text \<open>The patterns \<open>^a\<close> and \<open>^a?\<close>.\<close>

definition late_yarr :: yarr where
  "late_yarr = \<lparr>NewlineClassID = 3, quantifyInfinite = - 1,
     yarr_parse = (\<lambda>pattern. (if pattern = [94, 97] then [CallAssertionBOL, CallPatternCharacter 97]
       else [CallAssertionBOL, CallPatternCharacter 97, CallQuantifyAtom 0 1 True], False))\<rparr>"

definition late_rules :: "Rule list" where
  "late_rules = [
     \<lparr>m_trigger = \<lparr>urlFilter = String8 [94, 97], urlFilterIsCaseSensitive = True, trigger_flags = 1\<rparr>,
      m_action = \<lparr>m_extensionIdentifier = None, m_type = IgnorePreviousRules, m_actionID = - 1, m_stringArgument = None\<rparr>\<rparr>,
     \<lparr>m_trigger = \<lparr>urlFilter = String8 [94, 97, 63], urlFilterIsCaseSensitive = True, trigger_flags = 1\<rparr>,
      m_action = \<lparr>m_extensionIdentifier = None, m_type = BlockLoad, m_actionID = - 1, m_stringArgument = None\<rparr>\<rparr>]"

lemma late_serialized: "serializeActions late_rules = Some ([4, 0], [0, 1])"
  by code_simp

lemma late_second_universal: "URLFilterParser_addPattern late_yarr [94, 97, 63] True i f = Some (MatchesEverything, f)"
  by code_simp

lemma late_rules_late: "late_universal late_yarr False late_rules"
  by (simp add: late_rules_def universal_rule_def late_second_universal)


end
