(* ===== verification/BackendCorrect.thy ===== *)
theory BackendCorrect
  imports ContentExtensionsBackend ContentExtensionParser RuleListProperties
begin

text \<open>
  What a content blocker does: the actions that \<^verbatim>\<open>ContentExtensionsBackend::actionsForResourceLoad\<close> returns for the rules
  that \<^verbatim>\<open>compileRuleList\<close> compiled, in terms of the rules.
\<close>

section \<open>The actions of one extension\<close>

abbreviation read_action :: "u8 list \<Rightarrow> u32 \<Rightarrow> Action option" where
  "read_action bytes l \<equiv> deserialize bytes (length bytes) (unat l)"

abbreviation ignores :: "(u32 \<Rightarrow> Action) \<Rightarrow> u32 \<Rightarrow> bool" where
  "ignores act l \<equiv> m_type (act l) = IgnorePreviousRules"

definition sheet_action :: "WString \<Rightarrow> Action" where
  "sheet_action ident = \<lparr>m_extensionIdentifier = Some ident, m_type = CSSDisplayNoneStyleSheet, m_actionID = - 1,
     m_stringArgument = Some ident\<rparr>"

lemma addTriggered_eq:
  assumes "\<forall>l \<in> set ls. read_action (ce_actions (m_compiledExtension e)) l = Some (act l)"
  shows "addTriggered e ls xs = Some (xs @ map (\<lambda>l. setExtensionIdentifier (ce_identifier e) (act l)) (takeWhile (\<lambda>l. \<not> ignores act l) ls),
    \<exists>l \<in> set ls. ignores act l)"
  using assms by (induction ls arbitrary: xs) (simp_all add: setExtensionIdentifier_def Let_def)

lemma takeWhile_descending:
  assumes "sorted_wrt (\<ge>) (ls :: u32 list)"
  shows "set (takeWhile (\<lambda>l. \<not> I l) ls) = {l \<in> set ls. \<forall>m \<in> set ls. I m \<longrightarrow> m < l}"
  using assms
proof (induction ls)
  case (Cons x ls)
  then have le: "\<forall>l \<in> set ls. l \<le> x" and IH: "set (takeWhile (\<lambda>l. \<not> I l) ls) = {l \<in> set ls. \<forall>m \<in> set ls. I m \<longrightarrow> m < l}" by simp_all
  show ?case
  proof (cases "I x")
    case True
    have "\<not> x < l" if "l \<in> set (x # ls)" for l using le that by (auto simp: not_less)
    then show ?thesis using True by auto
  next
    case False
    have "m < x" if "m \<in> set ls" "I m" for m using le that False by (cases "m = x") (auto simp: order.strict_iff_order)
    then have "{l \<in> set (x # ls). \<forall>m \<in> set (x # ls). I m \<longrightarrow> m < l} = insert x {l \<in> set ls. \<forall>m \<in> set ls. I m \<longrightarrow> m < l}"
      using False by auto
    then show ?thesis using False IH by simp
  qed
qed simp

lemma addUniversal_eq:
  assumes "actionsFromDFARoot (ce_bytecode (m_compiledExtension e)) = Some roots"
    and "\<forall>a \<in> set roots. read_action (ce_actions (m_compiledExtension e)) (ucast a) = Some (act (ucast a))"
  shows "addUniversal e xs = Some (xs @ map (\<lambda>a. setExtensionIdentifier (ce_identifier e) (act (ucast a)))
      (filter (\<lambda>a. m_type (act (ucast a)) \<noteq> CSSDisplayNoneSelector) roots) @ [sheet_action (ce_identifier e)])"
proof -
  have "foldM (\<lambda>actionLocation collected. do {
         action \<leftarrow> action_at (m_compiledExtension e) actionLocation;
         let action = setExtensionIdentifier (ce_identifier e) action;
         Some (if m_type action \<noteq> CSSDisplayNoneSelector then collected @ [action] else collected)
       }) roots ys = Some (ys @ map (\<lambda>a. setExtensionIdentifier (ce_identifier e) (act (ucast a)))
      (filter (\<lambda>a. m_type (act (ucast a)) \<noteq> CSSDisplayNoneSelector) roots))" for ys
    using assms(2) by (induction roots arbitrary: ys) (simp_all add: action_at_def setExtensionIdentifier_def Let_def)
  then show ?thesis using assms(1)
    by (simp add: addUniversal_def new_Action_string_def setExtensionIdentifier_def sheet_action_def)
qed

lemma extensionActions_spec:
  assumes int: "interpret_bytecode (ce_bytecode (m_compiledExtension e)) url flags = Some acts"
    and rt: "actionsFromDFARoot (ce_bytecode (m_compiledExtension e)) = Some roots"
    and T: "T = ucast ` set acts" and R: "R = ucast ` set roots"
    and act: "\<forall>l \<in> T \<union> R. read_action (ce_actions (m_compiledExtension e)) l = Some (act l)"
  shows "\<exists>xs. extensionActions url flags e collected = Some (collected @ xs)
    \<and> set xs = (if \<exists>l \<in> T. ignores act l
        then (\<lambda>l. setExtensionIdentifier (ce_identifier e) (act l)) ` {l \<in> T. \<forall>m \<in> T. ignores act m \<longrightarrow> m < l}
        else insert (sheet_action (ce_identifier e))
          ((\<lambda>l. setExtensionIdentifier (ce_identifier e) (act l)) ` (T \<union> {l \<in> R. m_type (act l) \<noteq> CSSDisplayNoneSelector})))"
proof -
  let ?f = "\<lambda>l. setExtensionIdentifier (ce_identifier e) (act l)"
  let ?ls = "rev (sort (map (\<lambda>a. ucast a :: u32) acts))"
  have ls: "set ?ls = T" "sorted_wrt (\<ge>) ?ls" by (simp_all add: T sorted_wrt_rev)
  have tr: "addTriggered e ?ls collected = Some (collected @ map ?f (takeWhile (\<lambda>l. \<not> ignores act l) ?ls), \<exists>l \<in> T. ignores act l)"
    using addTriggered_eq [of ?ls e act collected] act unfolding ls(1) by blast
  note tw = takeWhile_descending [OF ls(2), of "ignores act", unfolded ls(1)]
  show ?thesis
  proof (cases "\<exists>l \<in> T. ignores act l")
    case True
    have "extensionActions url flags e collected = Some (collected @ map ?f (takeWhile (\<lambda>l. \<not> ignores act l) ?ls))"
      using int tr True by (simp add: extensionActions_def)
    moreover have "set (map ?f (takeWhile (\<lambda>l. \<not> ignores act l) ?ls)) = ?f ` {l \<in> T. \<forall>m \<in> T. ignores act m \<longrightarrow> m < l}"
      unfolding set_map tw ..
    ultimately show ?thesis using True by auto
  next
    case False
    have "\<forall>a \<in> set roots. read_action (ce_actions (m_compiledExtension e)) (ucast a) = Some (act (ucast a))" using act R by blast
    note un = addUniversal_eq [OF rt this, of "collected @ map ?f (takeWhile (\<lambda>l. \<not> ignores act l) ?ls)"]
    have eq: "extensionActions url flags e collected = Some (collected @ map ?f (takeWhile (\<lambda>l. \<not> ignores act l) ?ls)
        @ map (\<lambda>a. ?f (ucast a)) (filter (\<lambda>a. m_type (act (ucast a)) \<noteq> CSSDisplayNoneSelector) roots) @ [sheet_action (ce_identifier e)])"
      using int tr False un by (simp add: extensionActions_def)
    have "set (map ?f (takeWhile (\<lambda>l. \<not> ignores act l) ?ls)) = ?f ` T" unfolding set_map tw using False by auto
    moreover have "set (map (\<lambda>a. ?f (ucast a)) (filter (\<lambda>a. m_type (act (ucast a)) \<noteq> CSSDisplayNoneSelector) roots))
        = ?f ` {l \<in> R. m_type (act l) \<noteq> CSSDisplayNoneSelector}" unfolding R by auto
    ultimately have "set (map ?f (takeWhile (\<lambda>l. \<not> ignores act l) ?ls)
        @ map (\<lambda>a. ?f (ucast a)) (filter (\<lambda>a. m_type (act (ucast a)) \<noteq> CSSDisplayNoneSelector) roots) @ [sheet_action (ce_identifier e)])
      = insert (sheet_action (ce_identifier e)) (?f ` (T \<union> {l \<in> R. m_type (act l) \<noteq> CSSDisplayNoneSelector}))"
      unfolding set_append image_Un by simp
    then show ?thesis unfolding if_not_P [OF False] using eq by blast
  qed
qed

section \<open>The locations of the rules\<close>

lemma deserialize_bound: "deserialize bytes len l = Some a \<Longrightarrow> l < length bytes"
  by (auto simp: deserialize_def vec_at_def split: Option.bind_splits if_splits)

lemma group_trigger:
  assumes "g \<in> set (groups rs)" "r \<in> set g" "isSelector r"
  shows "trigger_eq (m_trigger (hd g)) (m_trigger r)"
  using assms
proof (induction rs rule: groups.induct)
  case (2 r0 rs)
  show ?case
  proof (cases "g \<in> set (groups (dropWhile (joins r0) rs))")
    case False
    then have g: "g = r0 # takeWhile (joins r0) rs" using "2.prems"(1) by simp
    then have "r = r0 \<or> joins r0 r" using "2.prems"(2) by (auto dest: set_takeWhileD)
    then show ?thesis unfolding g using "2.prems"(3)
      by (auto simp: joins_def sameTriggerSelector_def isSelector_def action_eq_def trigger_eq_def wstring_eq_def split: if_splits)
  qed (use 2 in blast)
qed simp

text \<open>Every rule's location holds an action of its type; rules at one location have one type, and selectors one trigger.\<close>

lemma serialized_locations:
  assumes rules: "list_all serializable rules" "weight rules \<le> 268435440"
  shows "\<exists>bytes locs. serializeActions rules = Some (bytes, locs) \<and> length locs = length rules \<and> sorted locs
    \<and> length bytes < 4294967296
    \<and> (\<forall>i < length rules. \<exists>a. deserialize bytes (length bytes) (locs ! i) = Some a \<and> m_type a = m_type (m_action (rules ! i)) \<and> m_actionID a = of_nat (locs ! i))
    \<and> (\<forall>i < length rules. \<forall>j < length rules. locs ! i = locs ! j \<longrightarrow> isSelector (rules ! i) \<longrightarrow> trigger_eq (m_trigger (rules ! i)) (m_trigger (rules ! j)))"
proof -
  obtain bytes offs where s: "serializeActions rules = Some (bytes, spread (groups rules) offs)" "sorted_wrt (<) offs"
    "concat (groups rules) = rules" "length bytes < 4294967296"
    and d: "list_all2 (\<lambda>g off. \<exists>a. deserialize bytes (length bytes) off = Some a \<and> represents g off a) (groups rules) offs"
    using serializeActions_reads [OF rules] by blast
  let ?locs = "spread (groups rules) offs"
  have len: "length (groups rules) = length offs" using d by (rule list_all2_lengthD)
  have ll: "length ?locs = length rules" using length_spread [OF len] s(3) by simp
  have grp: "\<exists>k < length offs. rules ! i \<in> set (groups rules ! k) \<and> ?locs ! i = offs ! k" if "i < length rules" for i
  proof -
    have "(rules ! i, ?locs ! i) \<in> set (zip (concat (groups rules)) ?locs)" using that ll s(3) by (auto simp: in_set_zip)
    then show ?thesis using spread_zip [OF len] len by fastforce
  qed
  have act: "\<exists>a. deserialize bytes (length bytes) (?locs ! i) = Some a \<and> m_type a = m_type (m_action (rules ! i)) \<and> m_actionID a = of_nat (?locs ! i)"
    if i: "i < length rules" for i
  proof -
    obtain k where k: "k < length offs" "rules ! i \<in> set (groups rules ! k)" "?locs ! i = offs ! k" using grp [OF i] by blast
    have "groups rules ! k \<in> set (groups rules)" using k(1) len by simp
    then have "m_type (m_action (rules ! i)) = m_type (m_action (hd (groups rules ! k)))" using k(2) by (rule group_type)
    moreover obtain a where "deserialize bytes (length bytes) (offs ! k) = Some a" "represents (groups rules ! k) (offs ! k) a"
      using list_all2_nthD2 [OF d k(1)] by blast
    ultimately show ?thesis using k(3) by (auto simp: represents_def)
  qed
  have trg: "trigger_eq (m_trigger (rules ! i)) (m_trigger (rules ! j))"
    if ij: "i < length rules" "j < length rules" "?locs ! i = ?locs ! j" "isSelector (rules ! i)" for i j
  proof -
    obtain k where k: "k < length offs" "rules ! i \<in> set (groups rules ! k)" "?locs ! i = offs ! k" using grp [OF ij(1)] by blast
    obtain k' where k': "k' < length offs" "rules ! j \<in> set (groups rules ! k')" "?locs ! j = offs ! k'" using grp [OF ij(2)] by blast
    have "distinct offs" using s(2) strict_sorted_iff by blast
    then have kk: "k' = k" using k(1,3) k'(1,3) ij(3) by (simp add: nth_eq_iff_index_eq)
    have g: "groups rules ! k \<in> set (groups rules)" using k(1) len by simp
    have "isSelector (rules ! j)" using group_type [OF g k(2)] group_type [OF g] k'(2) kk ij(4) by (simp add: isSelector_def)
    then have "trigger_eq (m_trigger (hd (groups rules ! k))) (m_trigger (rules ! j))" using group_trigger [OF g] k'(2) kk by blast
    moreover have "trigger_eq (m_trigger (hd (groups rules ! k))) (m_trigger (rules ! i))" using group_trigger [OF g k(2) ij(4)] .
    ultimately show ?thesis by (simp add: trigger_eq_def wstring_eq_def)
  qed
  show ?thesis using s(1,4) ll spread_sorted [OF len s(2)] act trg by (intro exI conjI) blast+
qed

lemma late_universal_order:
  "\<not> late_universal Y seen rules \<Longrightarrow> j < length rules \<Longrightarrow> universal_rule Y (rules ! j)
    \<Longrightarrow> \<not> seen \<and> (\<forall>i < j. m_type (m_action (rules ! i)) \<noteq> IgnorePreviousRules)"
proof (induction Y seen rules arbitrary: j rule: late_universal.induct)
  case (2 Y seen rule rules)
  show ?case
  proof (cases j)
    case (Suc j')
    then have "\<not> (seen \<or> m_type (m_action rule) = IgnorePreviousRules) \<and> (\<forall>i < j'. m_type (m_action (rules ! i)) \<noteq> IgnorePreviousRules)"
      using 2 by simp
    then show ?thesis using Suc by (auto simp: less_Suc_eq_0_disj)
  qed (use 2 in simp)
qed simp

section \<open>The actions for a load\<close>

text \<open>A rule is triggered by a URL with flags.\<close>

definition triggers :: "yarr \<Rightarrow> (Rule \<Rightarrow> description) \<Rightarrow> u16 \<Rightarrow> nat list \<Rightarrow> Rule \<Rightarrow> bool" where
  "triggers Y D flags url rule \<longleftrightarrow> rule_applies Y D rule url
     \<and> (trigger_flags (m_trigger rule) = 0 \<or> flags AND trigger_flags (m_trigger rule) \<noteq> 0)"

text \<open>The action of a rule counts if the rule is triggered and no ignore-previous-rules after it is.\<close>

definition counts :: "yarr \<Rightarrow> (Rule \<Rightarrow> description) \<Rightarrow> u16 \<Rightarrow> nat list \<Rightarrow> Rule list \<Rightarrow> nat \<Rightarrow> bool" where
  "counts Y D flags url rules i \<longleftrightarrow> i < length rules \<and> triggers Y D flags url (rules ! i)
     \<and> m_type (m_action (rules ! i)) \<noteq> IgnorePreviousRules
     \<and> (\<forall>j. i < j \<and> j < length rules \<and> m_type (m_action (rules ! j)) = IgnorePreviousRules
         \<longrightarrow> \<not> triggers Y D flags url (rules ! j))"

text \<open>Universal selectors without flags are in the style sheet of the extension.\<close>

definition in_style_sheet :: "yarr \<Rightarrow> Rule \<Rightarrow> bool" where
  "in_style_sheet Y rule \<longleftrightarrow> isSelector rule \<and> universal_rule Y rule \<and> trigger_flags (m_trigger rule) = 0"

text \<open>
  The locations: \<open>L k\<close> is that of the rule \<open>k\<close>, \<open>T\<close> and \<open>R\<close> are the triggered and the root locations, \<open>uni\<close> are the rules on the
  root. A rule is kept exactly if it counts.
\<close>

lemma triggered_ignore:
  assumes TR: "T \<union> R = L ` {k. k < n \<and> trg k}" and R: "R \<subseteq> L ` {k. k < n \<and> uni k}"
    and I: "\<And>k. k < n \<Longrightarrow> I (L k) = ign k" and uni: "\<And>k. k < n \<Longrightarrow> uni k \<Longrightarrow> \<not> ign k"
    and j: "j < n" "ign j" "trg j"
  shows "L j \<in> T"
proof (rule ccontr)
  assume "L j \<notin> T"
  then have "L j \<in> R" using TR j by blast
  then obtain k where k: "k < n" "uni k" "L j = L k" using R by blast
  then have "ign k" using I [OF j(1)] I [OF k(1)] j(2) by simp
  then show False using uni [OF k(1,2)] by simp
qed

lemma kept_locations:
  fixes L :: "nat \<Rightarrow> u32"
  assumes TR: "T \<union> R = L ` {k. k < n \<and> trg k}" and R: "R \<subseteq> L ` {k. k < n \<and> uni k}"
    and I: "\<And>k. k < n \<Longrightarrow> I (L k) = ign k" and uni: "\<And>k. k < n \<Longrightarrow> uni k \<Longrightarrow> \<not> ign k"
    and mono: "\<And>i j. i \<le> j \<Longrightarrow> j < n \<Longrightarrow> L i \<le> L j" and order: "\<And>i j. i < j \<Longrightarrow> j < n \<Longrightarrow> uni j \<Longrightarrow> \<not> ign i"
    and some: "\<exists>l \<in> T. I l"
  shows "{l \<in> T. \<forall>m \<in> T. I m \<longrightarrow> m < l} = L ` {k. k < n \<and> trg k \<and> \<not> ign k \<and> (\<forall>j. k < j \<and> j < n \<and> ign j \<longrightarrow> \<not> trg j)}"
proof (intro Set.set_eqI iffI)
  have tI: "L j \<in> T" if "j < n" "ign j" "trg j" for j
    by (rule triggered_ignore [where uni = uni and I = I, OF TR R]) (use I uni that in blast)+
  fix l assume "l \<in> {l \<in> T. \<forall>m \<in> T. I m \<longrightarrow> m < l}"
  then have l: "l \<in> T" "\<forall>m \<in> T. I m \<longrightarrow> m < l" by auto
  obtain k where k: "k < n" "trg k" "l = L k" using l(1) TR by blast
  have "\<not> ign k" using l I [OF k(1)] k(3) by auto
  moreover have "\<not> trg j" if j: "k < j" "j < n" "ign j" for j
  proof
    assume "trg j"
    then have "L j < l" using l(2) tI [OF j(2,3)] I [OF j(2)] j(3) by simp
    then show False using mono [of k j] j(1,2) k(3) by simp
  qed
  ultimately show "l \<in> L ` {k. k < n \<and> trg k \<and> \<not> ign k \<and> (\<forall>j. k < j \<and> j < n \<and> ign j \<longrightarrow> \<not> trg j)}" using k by blast
next
  fix l assume "l \<in> L ` {k. k < n \<and> trg k \<and> \<not> ign k \<and> (\<forall>j. k < j \<and> j < n \<and> ign j \<longrightarrow> \<not> trg j)}"
  then obtain k where k: "k < n" "trg k" "\<not> ign k" "\<And>j. k < j \<Longrightarrow> j < n \<Longrightarrow> ign j \<Longrightarrow> \<not> trg j" "l = L k" by blast
  have above: "m < l" if m: "m \<in> T" "I m" for m
  proof -
    obtain j where j: "j < n" "trg j" "m = L j" using m(1) TR by blast
    have ij: "ign j" using m(2) I [OF j(1)] j(3) by simp
    then have "\<not> k < j" using k(4) j by blast
    then have "L j \<le> L k" using mono [of j k] k(1) by simp
    moreover have "L j \<noteq> L k" using ij I [OF j(1)] I [OF k(1)] k(3) by auto
    ultimately show ?thesis using j(3) k(5) by simp
  qed
  have "l \<in> T"
  proof (rule ccontr)
    assume "l \<notin> T"
    then have "l \<in> R" using TR k by blast
    then obtain k' where k': "k' < n" "uni k'" "l = L k'" using R by blast
    obtain m where m: "m \<in> T" "I m" using some by blast
    obtain j where j: "j < n" "trg j" "m = L j" using m(1) TR by blast
    have ij: "ign j" using m(2) I [OF j(1)] j(3) by simp
    have "\<not> j < k'" using order [of j k'] k'(1,2) ij by blast
    then have "L k' \<le> L j" using mono [of k' j] j(1) by simp
    moreover have "L j < L k'" using above [OF m] j(3) k'(3) by simp
    ultimately show False by simp
  qed
  then show "l \<in> {l \<in> T. \<forall>m \<in> T. I m \<longrightarrow> m < l}" using above by blast
qed

definition rule_action :: "WString \<Rightarrow> u8 list \<Rightarrow> nat list \<Rightarrow> Rule list \<Rightarrow> nat \<Rightarrow> Action \<Rightarrow> bool" where
  "rule_action ident bytes locs rules k a \<longleftrightarrow> m_type a = m_type (m_action (rules ! k))
     \<and> (\<exists>b. deserialize bytes (length bytes) (locs ! k) = Some b \<and> a = setExtensionIdentifier ident b)"

definition installed :: "WString \<Rightarrow> u8 list \<Rightarrow> u8 list \<Rightarrow> ContentExtensionsBackend" where
  "installed ident bc bytes = [(str_chars ident, new_ContentExtension ident \<lparr>ce_bytecode = bc, ce_actions = bytes\<rparr>)]"

lemma ascii_bytes:
  assumes "\<forall>c \<in> set (s :: u16 list). c \<noteq> 0 \<and> isASCII c"
  shows "set (map unat (map ucast s :: u8 list)) \<subseteq> {1..<128}" "containsOnlyASCII s"
proof -
  have "unat (ucast c :: u8) = unat c \<and> 0 < unat c \<and> unat c < 128" if "c \<in> set s" for c
  proof -
    have c: "c \<noteq> 0" "unat c < 128" using assms that by (auto simp: isASCII_unat)
    then show ?thesis by (simp add: unsigned_ucast_eq take_bit_nat_eq_self unat_gt_0)
  qed
  then show "set (map unat (map ucast s :: u8 list)) \<subseteq> {1..<128}" by fastforce
  show "containsOnlyASCII s" using assms by (simp add: containsOnlyASCII_def list_all_iff)
qed

lemma extension_rule_actions:
  fixes acts roots :: "u64 list"
  defines "T \<equiv> (ucast ` set acts :: u32 set)" and "R \<equiv> (ucast ` set roots :: u32 set)"
  assumes ser: "length locs = length rules" "sorted locs" "length bytes < 4294967296"
    and read: "\<forall>i < length rules. \<exists>a. deserialize bytes (length bytes) (locs ! i) = Some a \<and> m_type a = m_type (m_action (rules ! i))"
    and same: "\<forall>i < length rules. \<forall>j < length rules. locs ! i = locs ! j \<longrightarrow> isSelector (rules ! i) \<longrightarrow> trigger_eq (m_trigger (rules ! i)) (m_trigger (rules ! j))"
    and late: "\<not> late_universal Y False rules"
    and safe: "\<forall>r \<in> set rules. m_type (m_action r) = IgnorePreviousRules \<and> trigger_flags (m_trigger r) = 0 \<longrightarrow> \<not> universal_rule Y r"
    and simple: "\<forall>r \<in> set rules. m_type (m_action r) \<noteq> CSSDisplayNoneStyleSheet"
    and int: "interpret_bytecode bc url flags = Some acts" and rt: "actionsFromDFARoot bc = Some roots"
    and all: "set acts \<union> set roots = {ucast (of_nat loc :: u32) | rule loc. (rule, loc) \<in> set (zip rules locs) \<and> triggers Y D flags curl rule}"
    and roots: "set roots = {ucast (of_nat loc :: u32) | rule loc. (rule, loc) \<in> set (zip rules locs) \<and> universal_rule Y rule
        \<and> trigger_flags (m_trigger rule) = 0}"
  shows "\<exists>xs. extensionActions url flags (new_ContentExtension ident \<lparr>ce_bytecode = bc, ce_actions = bytes\<rparr>) collected = Some (collected @ xs)
    \<and> (\<forall>a \<in> set xs. a = sheet_action ident \<or> (\<exists>k. counts Y D flags curl rules k \<and> rule_action ident bytes locs rules k a))
    \<and> (\<forall>k. counts Y D flags curl rules k \<and> \<not> in_style_sheet Y (rules ! k) \<longrightarrow> (\<exists>a \<in> set xs. rule_action ident bytes locs rules k a))
    \<and> (sheet_action ident \<in> set xs \<longleftrightarrow>
        \<not> (\<exists>j < length rules. m_type (m_action (rules ! j)) = IgnorePreviousRules \<and> triggers Y D flags curl (rules ! j)))"
proof -
  let ?n = "length rules" and ?e = "new_ContentExtension ident \<lparr>ce_bytecode = bc, ce_actions = bytes\<rparr>"
  define L where "L = (\<lambda>k. of_nat (locs ! k) :: u32)"
  define act where "act = (\<lambda>l. the (read_action bytes l))"
  let ?trg = "\<lambda>k. triggers Y D flags curl (rules ! k)" and ?ign = "\<lambda>k. m_type (m_action (rules ! k)) = IgnorePreviousRules"
    and ?uni = "\<lambda>k. universal_rule Y (rules ! k) \<and> trigger_flags (m_trigger (rules ! k)) = 0"
  let ?f = "\<lambda>l. setExtensionIdentifier ident (act l)"
  have bound: "locs ! k < 4294967296" if "k < ?n" for k using read that deserialize_bound ser(3) by fastforce
  have unat_L: "unat (L k) = locs ! k" if "k < ?n" for k using bound [OF that] by (simp add: L_def unat_of_nat)
  have act_L: "read_action bytes (L k) = Some (act (L k)) \<and> m_type (act (L k)) = m_type (m_action (rules ! k))" if "k < ?n" for k
    using read that unat_L [OF that] by (auto simp: act_def)
  have zip: "(rule, loc) \<in> set (zip rules locs) \<longleftrightarrow> (\<exists>k < ?n. rule = rules ! k \<and> loc = locs ! k)" for rule loc
    using ser(1) by (auto simp: in_set_zip)
  have narrow: "ucast (ucast x :: u64) = x" for x :: u32 by (rule bit_word_eqI) (simp add: bit_ucast_iff)
  have imgs: "(ucast :: u64 \<Rightarrow> u32) ` {ucast (of_nat loc :: u32) | rule loc. (rule, loc) \<in> set (zip rules locs) \<and> P rule} = L ` {k. k < ?n \<and> P (rules ! k)}" for P
    unfolding zip L_def by (auto simp: narrow image_iff) (metis narrow)
  have TR: "T \<union> R = L ` {k. k < ?n \<and> ?trg k}" unfolding T_def R_def image_Un [symmetric] all imgs ..
  have Req: "R = L ` {k. k < ?n \<and> ?uni k}" unfolding R_def roots imgs ..
  have acts: "\<forall>l \<in> T \<union> R. read_action (ce_actions (m_compiledExtension ?e)) l = Some (act l)"
    unfolding TR using act_L by (auto simp: new_ContentExtension_def)
  have cid: "ce_identifier ?e = ident" "ce_bytecode (m_compiledExtension ?e) = bc" by (simp_all add: new_ContentExtension_def)
  have I: "ignores act (L k) = ?ign k" if "k < ?n" for k using act_L [OF that] by simp
  have uni: "\<not> ?ign k" if "k < ?n" "?uni k" for k using safe nth_mem [OF that(1)] that(2) by blast
  have mono: "L i \<le> L j" if "i \<le> j" "j < ?n" for i j
    using unat_L [of i] unat_L [of j] that sorted_nth_mono [OF ser(2) that(1)] ser(1) by (simp add: word_le_nat_alt)
  have order: "\<not> ?ign i" if "i < j" "j < ?n" "?uni j" for i j using late_universal_order [OF late that(2)] that(1,3) by blast
  have tI: "L j \<in> T" if "j < ?n" "?ign j" "?trg j" for j
    by (rule triggered_ignore [where uni = ?uni and I = "ignores act", OF TR]) (use Req I uni that in blast)+
  have ex: "(\<exists>l \<in> T. ignores act l) \<longleftrightarrow> (\<exists>j < ?n. ?ign j \<and> ?trg j)"
  proof
    assume "\<exists>l \<in> T. ignores act l"
    then obtain l where l: "l \<in> T" "ignores act l" by blast
    then obtain k where "k < ?n" "?trg k" "l = L k" using TR by blast
    then show "\<exists>j < ?n. ?ign j \<and> ?trg j" using I l(2) by blast
  next
    assume "\<exists>j < ?n. ?ign j \<and> ?trg j"
    then show "\<exists>l \<in> T. ignores act l" using tI I by blast
  qed
  have eqs: "T = ucast ` set acts" "R = ucast ` set roots" by (simp_all only: T_def R_def)
  have int': "interpret_bytecode (ce_bytecode (m_compiledExtension ?e)) url flags = Some acts"
    and rt': "actionsFromDFARoot (ce_bytecode (m_compiledExtension ?e)) = Some roots" unfolding cid by (rule int, rule rt)
  note spec = extensionActions_spec [OF int' rt' eqs acts, of collected, unfolded cid(1)]
  obtain xs where xs: "extensionActions url flags ?e collected = Some (collected @ xs)"
    "set xs = (if \<exists>l \<in> T. ignores act l then ?f ` {l \<in> T. \<forall>m \<in> T. ignores act m \<longrightarrow> m < l}
        else insert (sheet_action ident) (?f ` (T \<union> {l \<in> R. m_type (act l) \<noteq> CSSDisplayNoneSelector})))"
    using spec by (elim exE conjE) (rule that)
  have ra: "rule_action ident bytes locs rules k (?f (L k))" if "k < ?n" for k
    unfolding rule_action_def using act_L [OF that] unat_L [OF that] by (auto simp: setExtensionIdentifier_def)
  have ns: "sheet_action ident \<noteq> ?f (L k)" if "k < ?n" for k
    using act_L [OF that] simple nth_mem [OF that] by (auto simp: sheet_action_def setExtensionIdentifier_def dest!: arg_cong [of _ _ m_type])
  let ?c = "counts Y D flags curl rules"
  show ?thesis
  proof (cases "\<exists>l \<in> T. ignores act l")
    case True
    have "{l \<in> T. \<forall>m \<in> T. ignores act m \<longrightarrow> m < l} = L ` {k. k < ?n \<and> ?trg k \<and> \<not> ?ign k \<and> (\<forall>j. k < j \<and> j < ?n \<and> ?ign j \<longrightarrow> \<not> ?trg j)}"
      by (rule kept_locations [where uni = ?uni, OF TR]) (use Req I uni mono order True in blast)+
    also have "{k. k < ?n \<and> ?trg k \<and> \<not> ?ign k \<and> (\<forall>j. k < j \<and> j < ?n \<and> ?ign j \<longrightarrow> \<not> ?trg j)} = {k. ?c k}"
      unfolding counts_def by blast
    finally have xs': "set xs = ?f ` L ` {k. ?c k}" using xs(2) True by simp
    have kn: "?c k \<Longrightarrow> k < ?n" for k by (simp add: counts_def)
    have "\<forall>a \<in> set xs. \<exists>k. ?c k \<and> rule_action ident bytes locs rules k a" unfolding xs' using ra kn by blast
    moreover have "\<forall>k. ?c k \<longrightarrow> (\<exists>a \<in> set xs. rule_action ident bytes locs rules k a)" unfolding xs' using ra kn by blast
    moreover have "sheet_action ident \<notin> set xs" unfolding xs' using ns kn by blast
    ultimately show ?thesis using xs(1) ex True by (intro exI [of _ xs]) blast
  next
    case False
    then have none: "\<not> (\<exists>j < ?n. ?ign j \<and> ?trg j)" using ex by blast
    have xs': "set xs = insert (sheet_action ident) (?f ` (T \<union> {l \<in> R. m_type (act l) \<noteq> CSSDisplayNoneSelector}))" using xs(2) False by simp
    have ck: "?c k \<longleftrightarrow> k < ?n \<and> ?trg k" for k using none unfolding counts_def by blast
    have sound: "a = sheet_action ident \<or> (\<exists>k. ?c k \<and> rule_action ident bytes locs rules k a)" if a: "a \<in> set xs" for a
    proof (cases "a = sheet_action ident")
      case False
      then obtain l where l: "l \<in> T \<union> R" "a = ?f l" using a unfolding xs' by blast
      then obtain k where "k < ?n" "?trg k" "l = L k" using TR by blast
      then show ?thesis using ra l(2) ck by blast
    qed simp
    have complete: "\<exists>a \<in> set xs. rule_action ident bytes locs rules k a" if k: "?c k" "\<not> in_style_sheet Y (rules ! k)" for k
    proof -
      have kn: "k < ?n" "L k \<in> T \<union> R" using k(1) TR unfolding ck by blast+
      have "L k \<in> T \<union> {l \<in> R. m_type (act l) \<noteq> CSSDisplayNoneSelector}"
      proof (rule ccontr)
        assume "L k \<notin> T \<union> {l \<in> R. m_type (act l) \<noteq> CSSDisplayNoneSelector}"
        then have r: "L k \<in> R" "m_type (act (L k)) = CSSDisplayNoneSelector" using kn(2) by auto
        then have sel: "isSelector (rules ! k)" using act_L [OF kn(1)] by (simp add: isSelector_def)
        obtain k' where k': "k' < ?n" "?uni k'" "L k = L k'" using r(1) Req by blast
        have "locs ! k = locs ! k'" using unat_L [OF kn(1)] unat_L [OF k'(1)] k'(3) by simp
        then have "trigger_eq (m_trigger (rules ! k)) (m_trigger (rules ! k'))" using same kn(1) k'(1) sel by blast
        then have "?uni k" using k'(2) by (simp add: trigger_eq_def wstring_eq_def universal_rule_def)
        then show False using k(2) sel by (simp add: in_style_sheet_def)
      qed
      then have "?f (L k) \<in> set xs" unfolding xs' by blast
      then show ?thesis using ra [OF kn(1)] by blast
    qed
    show ?thesis using xs(1) sound complete none xs' by (intro exI [of _ xs]) blast
  qed
qed

section \<open>From the JSON text to the actions\<close>


definition block_json :: ExampleValue where
  "block_json = ExampleArray [ExampleObject [
     (''trigger'', ExampleObject [(''url-filter'', ExampleString [94, 97]), (''url-filter-is-case-sensitive'', ExampleBool True),
        (''resource-type'', ExampleArray [ExampleString (map of_char ''document'')])]),
     (''action'', ExampleObject [(''type'', ExampleString (map of_char ''block''))])]]"

definition block_load :: ResourceLoadInfo where
  "block_load = \<lparr>resourceURL = null_URL\<lparr>URL.m_string := [97, 98]\<rparr>, mainDocumentURL = null_URL, resource_type = Document\<rparr>"

lemma block_parsed: "parseRuleList (example_engine block_json) [] = Inr [block_rule]"
proof -
  have "str_chars (String8 (map of_char ''document'')) = lit ''document''" "str_chars (String8 (map of_char ''block'')) = lit ''block''"
    by code_simp+
  moreover have "readResourceType (lit ''document'') = 1" by code_simp
  ultimately show ?thesis
    by (simp add: parseRuleList_def loadEncodedRules_def example_engine_def block_json_def loadRule_def loadTrigger_def loadAction_def
        optionalTypeFlags_def getTypeFlags_def Let_def new_Trigger_def simpleAction_def new_Action_def block_rule_def)
qed


end
