(* ===== verification/UniversalIgnore.thy ===== *)
theory UniversalIgnore
  imports BackendCorrect
begin

text \<open>
  The case that the correctness of content blockers leaves out: a pattern that matches everything on an
  ignore-previous-rules without flags.
\<close>

section \<open>The automaton without patterns\<close>

definition empty_dfa :: DFA where
  "empty_dfa = \<lparr>dfa_actions = [], dfa_transitions = [], nodes = [node_setTransitions 0 0 (node_setActions 0 0 new_DFANode)], root = 0\<rparr>"

lemma empty_nodes: "m_nodes new_NFA = [new_NFANode]" "m_root new_NFA = 0"
  by (simp_all add: new_NFA_def createNode_def)

lemma empty_converted: "convert new_NFA = Some empty_dfa"
proof -
  let ?d = "\<lparr>dfa_actions = [], dfa_transitions = [], nodes = [node_setActions 0 0 new_DFANode], root = 0\<rparr>"
  have "resolveEpsilonClosures [new_NFANode] epsilonTransitionCharacter = Some ([new_NFANode], [[]])"
    by (simp add: resolveEpsilonClosures_def new_NFANode_def epsilonClosureExcludingSelf_def vec_simps)
  moreover have "translate [new_NFANode] [0] new_DFA = Some (?d, ([0], 0))"
    by (simp add: translate_def new_NFANode_def vec_simps hs_addAll_def new_DFA_def)
  moreover have "populateTransitions [0] [new_NFANode] [[]] = Some (replicate 128 [], [])"
    by (simp add: populateTransitions_def fallbackSet_def new_NFANode_def vec_simps)
  then have "processNodeSet [new_NFANode] [[]] ([0], 0) (?d, [([0], 0)], []) = Some (empty_dfa, [([0], 0)], [])"
    using no_transitions [of "[0..<128]" "replicate 128 []" "[new_NFANode]" "(?d, [([0], 0)], [])"]
    by (simp add: processNodeSet_def vec_simps Let_def empty_dfa_def)
  then have "convertLoop [new_NFANode] [[]] (?d, [([0], 0)], [([0], 0)]) = Some empty_dfa"
    by (simp add: convertLoop.simps)
  ultimately show ?thesis by (simp add: convert_def empty_nodes extendSetWithClosure_def vec_simps)
qed

lemma empty_rule_nfa: "rule_nfa new_NFA"
proof -
  let ?n = "nodes empty_dfa ! 0"
  have n: "set (nodes empty_dfa) = {?n}" by (simp add: empty_dfa_def)
  have t: "node_transitions empty_dfa ?n = []" "node_fallback empty_dfa ?n = None" "m_transitionsLength ?n = 0"
    by (simp_all add: empty_dfa_def node_transitions_def node_fallback_def window_def hasFallbackTransition_def node_setTransitions_def
        node_setActions_def new_DFANode_def)
  have "eol_ok empty_dfa" unfolding eol_ok_def n using t by (simp add: node_step_def)
  moreover have "terminator_distinct empty_dfa" unfolding terminator_distinct_def n using t by simp
  moreover have "\<forall>node \<in> set (nodes empty_dfa). \<not> one_missing empty_dfa node" unfolding n using t by (simp add: one_missing_def)
  moreover have "\<not> hasActions (nodes empty_dfa ! root empty_dfa)" "length (nodes empty_dfa) \<le> max_u32"
    by (simp_all add: empty_dfa_def hasActions_def max_u32_def node_setTransitions_def node_setActions_def new_DFANode_def)
  ultimately show ?thesis by (simp add: rule_nfa_def new_NFA_wf empty_converted rule_dfa_def)
qed

lemma empty_compiled:
  assumes u: "length u < 1000" and url: "0 \<notin> set url"
  shows "\<exists>bc acts roots. compileNFAs u [new_NFA] = Some bc \<and> interpret_bytecode bc url flags = Some acts \<and> actionsFromDFARoot bc = Some roots
    \<and> set acts \<subseteq> {location a | a. a \<in> set u \<and> DFABytecodeInterpreter.flagged a}
    \<and> set roots = {location a | a. a \<in> set u \<and> \<not> DFABytecodeInterpreter.flagged a}"
proof -
  have u': "length u < 65535" using u by simp
  define d where "d = compiled_dfa u (0, new_NFA)"
  note ok = compiled_dfa_ok [OF empty_rule_nfa u', of 0, folded d_def]
  have "code_size (program d) \<le> 7 * length u + 908"
    using compiled_size [OF empty_rule_nfa u' empty_converted, of 0, folded d_def] by (simp add: empty_dfa_def node_actions_def window_def
      node_setTransitions_def node_setActions_def new_DFANode_def)
  then have size: "total_size [d] < max_u32" using u by (simp add: total_size_def max_u32_def)
  have one: "\<forall>d' \<in> set [d]. dfa_ok d'" using ok(2) by simp
  have comp: "compileNFAs u [new_NFA] = Some (segments 0 [d])"
    using compileNFAs_dfas [of "[new_NFA]" u] empty_rule_nfa u' compile_dfas [of "[d]" "[]"] ok(2) size
    by (simp add: dfa_ok_def d_def)
  note int = interpret_segments [OF one url size, of flags]
  obtain roots where roots: "actionsFromDFARoot (segments 0 [d]) = Some roots"
    "set roots = {location a | a. a \<in> state_actions d (root d) \<and> \<not> DFABytecodeInterpreter.flagged a}"
    using root_of_segments [OF one size] by blast
  have "set (run_dfas flags url [d]) = matched_actions flags url True d" using set_run_dfas [of flags url d "[]"] by simp
  also have "\<dots> \<subseteq> {location a | a. a \<in> set u \<and> DFABytecodeInterpreter.flagged a}"
  proof
    fix x assume "x \<in> matched_actions flags url True d"
    then obtain a k q where a: "x = location a" "dfa_run d (root d) (take k (terminated url)) = Some q" "a \<in> state_actions d q"
      "\<not> (q = root d \<and> \<not> DFABytecodeInterpreter.flagged a)" unfolding matched_actions_def by blast
    then have "dfa_accepts d (take k (terminated url)) a" unfolding dfa_accepts_def by blast
    then have "a \<in> set u" "q = root d" using ok(3) new_NFA_matches a(2) by auto
    then show "x \<in> {location a | a. a \<in> set u \<and> DFABytecodeInterpreter.flagged a}" using a(1,4) by blast
  qed
  finally show ?thesis using comp int roots ok(4) by auto
qed

section \<open>A load with such a rule\<close>

lemma foldM_fails: "a \<in> set xs \<Longrightarrow> (\<And>st. f a st = None) \<Longrightarrow> foldM f xs st = None"
  by (induction xs arbitrary: st) (auto split: Option.bind_splits)

text \<open>The bytecode of such a rule list: no action is triggered by a URL, and the action at location 0 is that of the root.\<close>

lemma universal_ignore_compiled:
  assumes "quantifyInfinite Y \<noteq> 1" "describes Y D rule" "universal_rule Y rule" "m_type (m_action rule) = IgnorePreviousRules"
    and "trigger_flags (m_trigger rule) = 0" and url: "0 \<notin> set url"
  obtains bc roots where "compileRuleList Y (Inr [rule]) client = Some (writeBytecode bc (writeActions [4] client), None)"
    "interpret_bytecode bc url flags = Some []" "actionsFromDFARoot bc = Some roots" "set roots = {0}"
proof -
  let ?id = "rule_id (rule, 0)"
  have ser: "serializeActions [rule] = Some ([4], [0])" using assms(4) by (simp add: serializeActions_def isSelector_def)
  have init: "combinedURLFilters new_CompilerState = fold (\<lambda>(a, p). addPattern a p) [] new_CombinedURLFilters" by (simp add: new_CompilerState_def)
  have st: "addRulePatterns Y [(rule, 0)] new_CompilerState
      = Some (Inr \<lparr>combinedURLFilters = new_CombinedURLFilters, universalActionLocations = [?id], ignorePreviousRulesSeen = True\<rparr>)"
    using addRulePattern_ok [OF assms(1,2) init, of 0] assms(3,4) by (simp add: new_CompilerState_def hs_add_def)
  have nfas: "createNFAs new_CombinedURLFilters = Some []" by code_simp
  obtain bc acts roots where bc: "compileNFAs [?id] [new_NFA] = Some bc" "interpret_bytecode bc url flags = Some acts"
    "actionsFromDFARoot bc = Some roots" "set acts \<subseteq> {location a | a. a \<in> set [?id] \<and> DFABytecodeInterpreter.flagged a}"
    "set roots = {location a | a. a \<in> set [?id] \<and> \<not> DFABytecodeInterpreter.flagged a}"
    using empty_compiled [of "[?id]" url flags] url by auto
  have comp: "compileRuleList Y (Inr [rule]) client = Some (writeBytecode bc (writeActions [4] client), None)"
    using ser st nfas bc(1) by (simp add: compileRuleList_def Let_def)
  have nf: "\<not> DFABytecodeInterpreter.flagged ?id" using assms(5) flagged_iff by simp
  have acts: "acts = []" using bc(4) nf by (cases acts) auto
  have "location ?id = 0" unfolding actionLocationAndFlags_parts(3) fst_conv snd_conv by simp
  then have "set roots = {0}" using bc(5) nf by auto
  with that comp bc(2,3) acts show ?thesis by blast
qed

text \<open>The actions of a load, when the bytecode has that effect.\<close>

definition ignore_action :: Action where
  "ignore_action = \<lparr>m_extensionIdentifier = None, m_type = IgnorePreviousRules, m_actionID = 0, m_stringArgument = None\<rparr>"

lemma universal_ignore_actions:
  assumes "interpret_bytecode bc (map ucast (URL.m_string (resourceURL i))) flags = Some []"
    and "actionsFromDFARoot bc = Some roots" "set roots = {0}" "getResourceFlags env fresh i = Some flags"
    and "containsOnlyASCII (URL.m_string (resourceURL i))" "\<not> protocolIsData (resourceURL i)"
  shows "actionsForResourceLoad env fresh (installed ident bc [4]) i
      = Some (map (\<lambda>a. setExtensionIdentifier ident ignore_action) roots @ [sheet_action ident])"
proof -
  let ?e = "new_ContentExtension ident \<lparr>ce_bytecode = bc, ce_actions = [4]\<rparr>"
  have rd: "deserialize [4] (Suc 0) 0 = Some ignore_action"
    by (simp add: deserialize_def byte_action_def new_Action_type_def vec_at_def ignore_action_def)
  have "\<forall>a \<in> set roots. read_action (ce_actions (m_compiledExtension ?e)) (ucast a) = Some ((\<lambda>l. ignore_action) (ucast a :: u32))"
    using assms(3) rd by (simp add: new_ContentExtension_def)
  note un = addUniversal_eq [OF _ this, of "[]"]
  have "extensionActions (map ucast (URL.m_string (resourceURL i))) flags ?e [] = addUniversal ?e []"
    using assms(1) by (simp add: extensionActions_def new_ContentExtension_def)
  also have "\<dots> = Some (map (\<lambda>a. setExtensionIdentifier ident ignore_action) roots @ [sheet_action ident])"
    using un assms(2) by (simp add: new_ContentExtension_def ignore_action_def)
  finally show ?thesis using assms(4-6) by (simp add: actionsForResourceLoad_def installed_def)
qed


definition ignore_rule :: Rule where
  "ignore_rule = \<lparr>m_trigger = \<lparr>urlFilter = String8 [94, 97, 63], urlFilterIsCaseSensitive = True, trigger_flags = 0\<rparr>,
     m_action = \<lparr>m_extensionIdentifier = None, m_type = IgnorePreviousRules, m_actionID = - 1, m_stringArgument = None\<rparr>\<rparr>"

definition example_loader :: DocumentLoader where
  "example_loader = \<lparr>m_gotFirstByte = False, m_pendingNamedContentExtensionStyleSheets = [],
     m_pendingContentExtensionDisplayNoneSelectors = [], frame_document = None, main_document_url = None\<rparr>"


end
