(* ===== verification/LoadProcessing.thy ===== *)
theory LoadProcessing
  imports UniversalIgnore
begin

text \<open>
  What \<^verbatim>\<open>ContentExtensionsBackend::processContentExtensionRulesForLoad\<close> does with the actions for a load.
\<close>

section \<open>Blocking loads and cookies\<close>

definition sheets_ok :: "(ustring \<Rightarrow> bool) \<Rightarrow> ContentExtensionsBackend \<Rightarrow> bool" where
  "sheets_ok parseString m \<longleftrightarrow> (\<forall>(name, e) \<in> set m. extension_styleSheet parseString e \<noteq> None)"

definition processable :: "ResourceType \<Rightarrow> Action \<Rightarrow> bool" where
  "processable type a \<longleftrightarrow> m_type a \<noteq> IgnorePreviousRules \<and> m_type a \<noteq> InvalidAction
     \<and> (m_type a = CSSDisplayNoneSelector \<longrightarrow> m_actionID a \<noteq> - 1)"

lemma hm_upd_entries: "set (hm_upd k v m) \<subseteq> insert (k, v) (set m)"
  by (induction m) (auto split: if_splits)

lemma styleSheet_again: "extension_styleSheet ps e = Some (e', s) \<Longrightarrow> extension_styleSheet ps e' \<noteq> None"
  by (auto simp: extension_styleSheet_def Let_def split: if_splits Option.bind_splits)

lemma globalDisplayNoneStyleSheet_ok:
  assumes "sheets_ok ps m"
  shows "\<exists>m' s. globalDisplayNoneStyleSheet ps name m = Some (m', s) \<and> sheets_ok ps m'"
proof (cases "map_of m name")
  case None
  then show ?thesis using assms by (simp add: globalDisplayNoneStyleSheet_def)
next
  case (Some e)
  then have "(name, e) \<in> set m" by (rule map_of_SomeD)
  then obtain e' s where e: "extension_styleSheet ps e = Some (e', s)" using assms unfolding sheets_ok_def by fastforce
  have "sheets_ok ps (hm_upd name e' m)"
    using assms hm_upd_entries [of name e' m] styleSheet_again [OF e] unfolding sheets_ok_def by fastforce
  then show ?thesis using Some e by (simp add: globalDisplayNoneStyleSheet_def)
qed

lemma processAction_ok:
  assumes "processable type a" "sheets_ok ps (ls_backend st)" "type = Document \<longrightarrow> \<not> m_gotFirstByte (ls_loader st)"
  shows "\<exists>st'. processAction ps type a st = Some st' \<and> sheets_ok ps (ls_backend st') \<and> m_gotFirstByte (ls_loader st') = m_gotFirstByte (ls_loader st)
    \<and> willBlockLoad st' = (willBlockLoad st \<or> m_type a = BlockLoad)
    \<and> ls_request st' = map_option (\<lambda>r. if m_type a = BlockCookies then r\<lparr>m_allowCookies := False\<rparr> else r) (ls_request st)"
proof (cases "m_type a")
  case CSSDisplayNoneSelector
  then show ?thesis using assms
    by (cases "frame_document (ls_loader st)")
      (auto simp: processAction_def processSelector_def Let_def addPendingContentExtensionDisplayNoneSelector_def processable_def
        document_addDisplayNoneSelector_def styleSheet_addDisplayNoneSelector_def option.map_id0 [unfolded id_def] split: option.split)
next
  case CSSDisplayNoneStyleSheet
  obtain m' s where "globalDisplayNoneStyleSheet ps (action_identifier (m_stringArgument a)) (ls_backend st) = Some (m', s)" "sheets_ok ps m'"
    using globalDisplayNoneStyleSheet_ok [OF assms(2)] by blast
  then show ?thesis using CSSDisplayNoneStyleSheet assms(3)
    by (cases s) (auto simp: processAction_def processStyleSheet_def Let_def addPendingContentExtensionSheet_def option.map_id0 [unfolded id_def])
qed (use assms in \<open>simp_all add: processAction_def processable_def option.map_id0 [unfolded id_def]\<close>)

lemma processActions_ok:
  assumes "\<forall>a \<in> set as. processable type a" "sheets_ok ps (ls_backend st)" "type = Document \<longrightarrow> \<not> m_gotFirstByte (ls_loader st)"
  shows "\<exists>st'. foldM (processAction ps type) as st = Some st'
    \<and> willBlockLoad st' = (willBlockLoad st \<or> (\<exists>a \<in> set as. m_type a = BlockLoad))
    \<and> ls_request st' = map_option (\<lambda>r. if \<exists>a \<in> set as. m_type a = BlockCookies then r\<lparr>m_allowCookies := False\<rparr> else r) (ls_request st)"
  using assms
proof (induction as arbitrary: st)
  case Nil
  then show ?case by (simp add: option.map_id0 [unfolded id_def])
next
  case (Cons a as)
  obtain st1 where s1: "processAction ps type a st = Some st1" "sheets_ok ps (ls_backend st1)"
    "m_gotFirstByte (ls_loader st1) = m_gotFirstByte (ls_loader st)" "willBlockLoad st1 = (willBlockLoad st \<or> m_type a = BlockLoad)"
    "ls_request st1 = map_option (\<lambda>r. if m_type a = BlockCookies then r\<lparr>m_allowCookies := False\<rparr> else r) (ls_request st)"
    using processAction_ok [of type a ps st] Cons.prems by auto
  obtain st' where s': "foldM (processAction ps type) as st1 = Some st'"
    "willBlockLoad st' = (willBlockLoad st1 \<or> (\<exists>a \<in> set as. m_type a = BlockLoad))"
    "ls_request st' = map_option (\<lambda>r. if \<exists>a \<in> set as. m_type a = BlockCookies then r\<lparr>m_allowCookies := False\<rparr> else r) (ls_request st1)"
    using Cons.IH [of st1] Cons.prems(1,3) s1(2,3) by auto
  show ?case using s1 s' by (cases "ls_request st") auto
qed

text \<open>C32.
  The request is replaced by the null request exactly if an action blocks the load, and otherwise only loses its cookies,
  exactly if an action blocks them. Processing does not fail when no action is an ignore-previous-rules, the selectors have
  identifiers, the loader of a main document has not seen data yet and the style sheets of the extensions can be built.
\<close>

theorem load_processed:
  assumes "actionsForResourceLoad env fresh m \<lparr>resourceURL = request_url request,
      mainDocumentURL = (case main_document_url loader of None \<Rightarrow> null_URL | Some url \<Rightarrow> url), resource_type = type\<rparr> = Some as"
    and "\<forall>a \<in> set as. processable type a" "sheets_ok parseString m" "type = Document \<longrightarrow> \<not> m_gotFirstByte loader"
  shows "\<exists>m' loader'. processContentExtensionRulesForLoad parseString env fresh m request type loader = Some (m',
      if \<exists>a \<in> set as. m_type a = BlockLoad then None
      else Some (if \<exists>a \<in> set as. m_type a = BlockCookies then request\<lparr>m_allowCookies := False\<rparr> else request), loader')"
proof -
  obtain st' where "foldM (processAction parseString type) as \<lparr>ls_backend = m, ls_request = Some request, ls_loader = loader, willBlockLoad = False\<rparr> = Some st'"
    "willBlockLoad st' = (\<exists>a \<in> set as. m_type a = BlockLoad)"
    "ls_request st' = Some (if \<exists>a \<in> set as. m_type a = BlockCookies then request\<lparr>m_allowCookies := False\<rparr> else request)"
    using processActions_ok [of as type parseString "\<lparr>ls_backend = m, ls_request = Some request, ls_loader = loader, willBlockLoad = False\<rparr>"] assms(2-4)
    by auto
  then show ?thesis using assms(1) by (simp add: processContentExtensionRulesForLoad_def Let_def)
qed

text \<open>An extension whose only rule is universal and blocks the load.\<close>

theorem load_processed_witness:
  "\<exists>bc m' loader'. processContentExtensionRulesForLoad (\<lambda>text. True) example_env (0, 1) (installed (String8 [1]) bc [0])
     \<lparr>request_url = null_URL\<lparr>URL.m_string := [97, 98]\<rparr>, m_allowCookies = True\<rparr> Script example_loader = Some (m', None, loader')"
proof -
  let ?r = "\<lparr>request_url = null_URL\<lparr>URL.m_string := [97, 98]\<rparr>, m_allowCookies = True\<rparr>"
  let ?i = "\<lparr>resourceURL = request_url ?r,
      mainDocumentURL = (case main_document_url example_loader of None \<Rightarrow> null_URL | Some url \<Rightarrow> url), resource_type = Script\<rparr>"
  define block where "block = \<lparr>m_extensionIdentifier = None, m_type = BlockLoad, m_actionID = 0, m_stringArgument = None\<rparr>"
  let ?f = "\<lambda>a :: u64. setExtensionIdentifier (String8 [1]) block"
  obtain flags where flags: "getResourceFlags example_env (0, 1) ?i = Some flags" by (simp add: getResourceFlags_def)
  have "\<not> DFABytecodeInterpreter.flagged 0" "location 0 = 0" by (simp_all add: DFABytecodeInterpreter.flagged_def location_def)
  with empty_compiled [of "[0]" "[97, 98]" flags] obtain bc acts roots where bc: "interpret_bytecode bc [97, 98] flags = Some acts"
    "actionsFromDFARoot bc = Some roots" "acts = []" "set roots = {0}" by auto
  let ?e = "new_ContentExtension (String8 [1]) \<lparr>ce_bytecode = bc, ce_actions = [0]\<rparr>"
  have read: "deserialize [0] (Suc 0) 0 = Some block"
    by (simp add: deserialize_def vec_at_def byte_action_def new_Action_type_def block_def)
  have "\<forall>a \<in> set roots. read_action (ce_actions (m_compiledExtension ?e)) (ucast a) = Some ((\<lambda>l. block) (ucast a :: u32))"
    using bc(4) read by (simp add: new_ContentExtension_def)
  note un = addUniversal_eq [OF _ this, of "[]"]
  let ?as = "map ?f roots @ [sheet_action (String8 [1])]"
  have "extensionActions [97, 98] flags ?e [] = addUniversal ?e []" using bc(1,3) by (simp add: extensionActions_def new_ContentExtension_def)
  also have "\<dots> = Some ?as" using un bc(2) by (simp add: new_ContentExtension_def block_def)
  finally have "actionsForResourceLoad example_env (0, 1) (installed (String8 [1]) bc [0]) ?i = Some ?as"
    using flags by (simp add: actionsForResourceLoad_def installed_def protocolIsData_def protocolIs_def null_URL_def invalidate_def
        containsOnlyASCII_def isASCII_def)
  moreover have "\<forall>a \<in> set ?as. processable Script a" by (simp add: processable_def setExtensionIdentifier_def block_def sheet_action_def)
  moreover have "mapM (action_at (m_compiledExtension ?e)) roots = Some (map (\<lambda>a. block) roots)"
  proof -
    have "\<forall>a \<in> set roots. action_at (m_compiledExtension ?e) a = Some block" using bc(4) read by (simp add: action_at_def new_ContentExtension_def)
    then show ?thesis by (induction roots) simp_all
  qed
  then have "sheets_ok (\<lambda>text. True) (installed (String8 [1]) bc [0])"
    using bc(2) by (simp add: sheets_ok_def installed_def extension_styleSheet_def new_ContentExtension_def globalDisplayNoneSelectors_def
        block_def filter_empty_conv)
  ultimately have "\<exists>m' loader'. processContentExtensionRulesForLoad (\<lambda>text. True) example_env (0, 1) (installed (String8 [1]) bc [0]) ?r Script example_loader
      = Some (m', if \<exists>a \<in> set ?as. m_type a = BlockLoad then None
      else Some (if \<exists>a \<in> set ?as. m_type a = BlockCookies then ?r\<lparr>m_allowCookies := False\<rparr> else ?r), loader')"
    by (intro load_processed) (simp_all add: example_loader_def)
  moreover have "\<exists>a \<in> set ?as. m_type a = BlockLoad" using bc(4) by (auto simp: setExtensionIdentifier_def block_def)
  ultimately show ?thesis by (intro exI [of _ bc]) (simp only: if_True)
qed

section \<open>Selectors\<close>

lemma pending_last:
  assumes "as \<noteq> []" "\<forall>a \<in> set as. m_type a = CSSDisplayNoneSelector \<and> action_identifier (m_extensionIdentifier a) = name"
    and "\<not> m_gotFirstByte (ls_loader st)"
  shows "\<exists>st'. foldM (processAction ps Document) as st = Some st' \<and> map_of (m_pendingContentExtensionDisplayNoneSelectors (ls_loader st')) name
    = Some (m_stringArgument (last as), m_actionID (last as))"
  using assms
proof (induction as arbitrary: st)
  case (Cons a as)
  let ?st = "st\<lparr>ls_loader := (ls_loader st)\<lparr>m_pendingContentExtensionDisplayNoneSelectors :=
    hm_upd name (m_stringArgument a, m_actionID a) (m_pendingContentExtensionDisplayNoneSelectors (ls_loader st))\<rparr>\<rparr>"
  have s: "processAction ps Document a st = Some ?st" using Cons.prems(2,3)
    by (simp add: processAction_def processSelector_def Let_def addPendingContentExtensionDisplayNoneSelector_def)
  show ?case
  proof (cases "as = []")
    case True
    then show ?thesis using s by (simp add: hs_simps)
  next
    case False
    then show ?thesis using Cons.IH [of ?st] Cons.prems(2,3) s by simp
  qed
qed simp

lemma document_selectors:
  assumes "\<forall>a \<in> set as. m_type a = CSSDisplayNoneSelector \<and> action_identifier (m_extensionIdentifier a) = name \<and> m_actionID a \<noteq> - 1"
    and "frame_document (ls_loader st) = Some d" "type \<noteq> Document"
  shows "\<exists>st' d'. foldM (processAction ps type) as st = Some st' \<and> frame_document (ls_loader st') = Some d'
    \<and> (\<forall>sheet i. map_of (m_contentExtensionSelectorSheets d) name = Some sheet \<longrightarrow> i \<in> set (m_addedSelectorIDs sheet)
         \<longrightarrow> (\<exists>sheet'. map_of (m_contentExtensionSelectorSheets d') name = Some sheet' \<and> i \<in> set (m_addedSelectorIDs sheet')))
    \<and> (\<forall>a \<in> set as. \<exists>sheet. map_of (m_contentExtensionSelectorSheets d') name = Some sheet \<and> m_actionID a \<in> set (m_addedSelectorIDs sheet))"
  using assms
proof (induction as arbitrary: st d)
  case (Cons a as)
  let ?sheet = "case map_of (m_contentExtensionSelectorSheets d) name of None \<Rightarrow> \<lparr>m_addedSelectorIDs = [], addedRules = []\<rparr> | Some sheet \<Rightarrow> sheet"
  obtain sheet1 where sh: "styleSheet_addDisplayNoneSelector (m_stringArgument a) (m_actionID a) ?sheet = Some sheet1"
    "set (m_addedSelectorIDs sheet1) = insert (m_actionID a) (set (m_addedSelectorIDs ?sheet))"
  proof -
    have "m_actionID a \<noteq> - 1" using Cons.prems(1) by simp
    then have "\<exists>s'. styleSheet_addDisplayNoneSelector (m_stringArgument a) (m_actionID a) s = Some s'
      \<and> set (m_addedSelectorIDs s') = insert (m_actionID a) (set (m_addedSelectorIDs s))" for s
      by (simp add: styleSheet_addDisplayNoneSelector_def insert_absorb)
    then show ?thesis using that by blast
  qed
  define d1 where "d1 = d\<lparr>m_contentExtensionSelectorSheets := hm_upd name sheet1 (m_contentExtensionSelectorSheets d)\<rparr>"
  let ?st = "st\<lparr>ls_loader := (ls_loader st)\<lparr>frame_document := Some d1\<rparr>\<rparr>"
  have s: "processAction ps type a st = Some ?st" using Cons.prems sh(1)
    by (simp add: processAction_def processSelector_def Let_def document_addDisplayNoneSelector_def d1_def)
  have m1: "map_of (m_contentExtensionSelectorSheets d1) name = Some sheet1" by (simp add: d1_def hs_simps)
  obtain st' d' where r: "foldM (processAction ps type) as ?st = Some st'" "frame_document (ls_loader st') = Some d'"
    and keep: "\<And>sheet i. map_of (m_contentExtensionSelectorSheets d1) name = Some sheet \<Longrightarrow> i \<in> set (m_addedSelectorIDs sheet)
         \<Longrightarrow> (\<exists>sheet'. map_of (m_contentExtensionSelectorSheets d') name = Some sheet' \<and> i \<in> set (m_addedSelectorIDs sheet'))"
    and all: "\<forall>a \<in> set as. \<exists>sheet. map_of (m_contentExtensionSelectorSheets d') name = Some sheet \<and> m_actionID a \<in> set (m_addedSelectorIDs sheet)"
    using Cons.IH [of ?st d1] Cons.prems(1,3) by auto
  have "\<exists>sheet. map_of (m_contentExtensionSelectorSheets d') name = Some sheet \<and> i \<in> set (m_addedSelectorIDs sheet)"
    if "i = m_actionID a \<or> i \<in> set (m_addedSelectorIDs ?sheet)" for i
    using keep [OF m1, of i] that sh(2) by simp
  then show ?case using s r all by (intro exI [of _ st'] exI [of _ d']) auto
qed auto


definition selector_action :: "u8 \<Rightarrow> u32 \<Rightarrow> Action" where
  "selector_action c actionID = \<lparr>m_extensionIdentifier = Some (String8 [1]), m_type = CSSDisplayNoneSelector, m_actionID = actionID,
     m_stringArgument = Some (String8 [c])\<rparr>"

definition selector_state :: LoadState where
  "selector_state = \<lparr>ls_backend = [], ls_request = None,
     ls_loader = example_loader\<lparr>frame_document := Some \<lparr>m_contentExtensionSelectorSheets = [], m_contentExtensionSheets = []\<rparr>\<rparr>, willBlockLoad = False\<rparr>"


end
